(* ===== verification/Prelude.thy ===== *)
theory Prelude
  imports Main "HOL-Library.Word" "HOL-Library.Signed_Division"
begin

text \<open>
  Shared vocabulary of the development: machine words, the outcome type of every operation
  that can stop the simulator, its bind, and the lemma collections the component theories use.
\<close>

unbundle bit_operations_syntax

section \<open>Machine integers\<close>

type_synonym u8 = "8 word"
type_synonym u32 = "32 word"
type_synonym u64 = "64 word"

abbreviation u32_max :: u32 where
  "u32_max \<equiv> 4294967295"

lemma u32_minus_one: "(- 1 :: u32) = u32_max"
  by simp

section \<open>Outcomes\<close>

text \<open>
  The ways in which a call of the simulator does not return normally: a failed \<open>assert\<close>, a
  call of \<open>abort\<close>, a call of \<open>exit\<close>, an exception of \<open>std::stoi\<close> nobody catches, and
  an access the C++ standard leaves undefined (an index outside an array or vector, a null or
  freed pointer, an indeterminate value, a division by zero).
\<close>

datatype sim_error =
    Assertion_Failed
  | Aborted
  | Exit_Called
  | Invalid_Argument
  | Out_Of_Range
  | Undefined_Behaviour

type_synonym 'a res = "sim_error + 'a"

fun rbind :: "'a res \<Rightarrow> ('a \<Rightarrow> 'b res) \<Rightarrow> 'b res" where
  "rbind (Inl e) f = Inl e"
| "rbind (Inr x) f = f x"

definition guard :: "bool \<Rightarrow> sim_error \<Rightarrow> 'a res \<Rightarrow> 'a res" where
  "guard b e r = (if b then r else Inl e)"

named_theorems res_simps \<open>evaluation and inversion of outcomes\<close>
named_theorems inv_intros \<open>preservation of component invariants\<close>

lemma rbind_eq_Inr [res_simps]: "rbind m f = Inr y \<longleftrightarrow> (\<exists>x. m = Inr x \<and> f x = Inr y)"
  by (cases m) auto

lemma rbind_eq_Inl: "rbind m f = Inl e \<longleftrightarrow> m = Inl e \<or> (\<exists>x. m = Inr x \<and> f x = Inl e)"
  by (cases m) auto

lemma rbind_cong [fundef_cong]:
  "m = m' \<Longrightarrow> (\<And>x. m' = Inr x \<Longrightarrow> f x = f' x) \<Longrightarrow> rbind m f = rbind m' f'"
  by (cases m') auto

lemma guard_True [simp]: "guard True e r = r"
  by (simp add: guard_def)

lemma guard_False [simp]: "guard False e r = Inl e"
  by (simp add: guard_def)

lemma guard_eq_Inr [res_simps]: "guard b e r = Inr y \<longleftrightarrow> b \<and> r = Inr y"
  by (simp add: guard_def)

lemma guard_cong [fundef_cong]:
  "b = b' \<Longrightarrow> e = e' \<Longrightarrow> (b' \<Longrightarrow> r = r') \<Longrightarrow> guard b e r = guard b' e' r'"
  by (simp add: guard_def)

text \<open>A read of an array or vector, with the index in range or the behaviour undefined.\<close>

definition nth_res :: "'a list \<Rightarrow> nat \<Rightarrow> 'a res" where
  "nth_res xs i = (if i < length xs then Inr (xs ! i) else Inl Undefined_Behaviour)"

lemma nth_res_eq_Inr [res_simps]: "nth_res xs i = Inr x \<longleftrightarrow> i < length xs \<and> x = xs ! i"
  by (auto simp: nth_res_def)

lemma nth_res_in_range [simp]: "i < length xs \<Longrightarrow> nth_res xs i = Inr (xs ! i)"
  by (simp add: nth_res_def)

text \<open>A pointer that must not be null.\<close>

fun deref :: "'a option \<Rightarrow> 'a res" where
  "deref None = Inl Undefined_Behaviour"
| "deref (Some x) = Inr x"

lemma deref_eq_Inr [res_simps]: "deref p = Inr x \<longleftrightarrow> p = Some x"
  by (cases p) auto

text \<open>A loop over a list whose body threads a state and may stop the program.\<close>

fun foldM :: "('a \<Rightarrow> 's \<Rightarrow> 's res) \<Rightarrow> 'a list \<Rightarrow> 's \<Rightarrow> 's res" where
  "foldM f [] s = Inr s"
| "foldM f (x # xs) s = rbind (f x s) (foldM f xs)"

lemma foldM_append: "foldM f (xs @ ys) s = rbind (foldM f xs s) (foldM f ys)"
proof (induction xs arbitrary: s)
  case (Cons x xs)
  then show ?case by (cases "f x s") auto
qed simp

lemma foldM_invariant:
  assumes step: "\<And>x s s'. x \<in> set xs \<Longrightarrow> P s \<Longrightarrow> f x s = Inr s' \<Longrightarrow> P s'"
    and run: "foldM f xs s = Inr s'" and start: "P s"
  shows "P s'"
  using run start step
proof (induction xs arbitrary: s)
  case (Cons x xs)
  then obtain t where "f x s = Inr t" "foldM f xs t = Inr s'"
    by (auto simp: res_simps)
  with Cons show ?case by (metis list.set_intros)
qed simp

lemma foldM_total:
  assumes step: "\<And>x s. x \<in> set xs \<Longrightarrow> P s \<Longrightarrow> \<exists>s'. f x s = Inr s' \<and> P s'"
    and start: "P s"
  shows "\<exists>s'. foldM f xs s = Inr s' \<and> P s'"
  using step start
proof (induction xs arbitrary: s)
  case (Cons x xs)
  then obtain t where "f x s = Inr t" "P t" by (meson list.set_intros(1))
  moreover from this Cons obtain s' where "foldM f xs t = Inr s'" "P s'"
    by (meson list.set_intros(2))
  ultimately show ?case by auto
qed simp

section \<open>Bits\<close>

lemma and_push_bit_1: "(m AND push_bit i 1 \<noteq> 0) = bit (m :: 'a::len word) i"
proof
  assume "m AND push_bit i 1 \<noteq> 0"
  then obtain j where "bit (m AND push_bit i 1) j" by (auto simp: bit_eq_iff)
  then show "bit m i" by (auto simp: bit_simps)
next
  assume "bit m i"
  then have "bit (m AND push_bit i 1) i"
    using bit_imp_le_length [of m i] by (auto simp: bit_simps)
  then show "m AND push_bit i 1 \<noteq> 0" by auto
qed

end
