(* ===== verification/Delay_Queue.thy ===== *)
theory Delay_Queue
  imports Prelude
begin

text \<open>
  The delay pipeline of \<^verbatim>\<open>delayqueue.h\<close> (\<open>fifo_pipeline\<close>): a singly linked list whose
  nodes hold a datum or NULL; NULL nodes are bubbles that delay what is queued behind them.
  The chain from \<open>m_head\<close> to \<open>m_tail\<close> is the list \<open>m_nodes\<close>; a datum pointer is an
  \<open>option\<close>.  \<open>m_n_element\<close> is a 32-bit word, because the code lets it wrap around.
\<close>

section \<open>State and operations\<close>

record 'a fifo_pipeline =
  m_min_len :: nat
  m_max_len :: nat
  m_length :: nat
  m_n_element :: u32
  m_nodes :: "'a option list"

definition fifo_push :: "'a option \<Rightarrow> 'a fifo_pipeline \<Rightarrow> 'a fifo_pipeline res" where
  "fifo_push d q =
     guard (m_length q < m_max_len q) Assertion_Failed
       (Inr (if m_nodes q \<noteq> [] then
               if last (m_nodes q) \<noteq> None \<or> m_length q < m_min_len q
               then q\<lparr>m_length := m_length q + 1, m_n_element := m_n_element q + 1,
                      m_nodes := m_nodes q @ [d]\<rparr>
               else q\<lparr>m_nodes := butlast (m_nodes q) @ [d]\<rparr>
             else q\<lparr>m_length := m_length q + 1, m_n_element := m_n_element q + 1,
                    m_nodes := [d]\<rparr>))"

definition uncount :: "'a fifo_pipeline \<Rightarrow> 'a fifo_pipeline" where
  "uncount q = q\<lparr>m_n_element := m_n_element q - 1\<rparr>"

definition fifo_pop_no_replenish :: "'a fifo_pipeline \<Rightarrow> ('a option \<times> 'a fifo_pipeline) res" where
  "fifo_pop_no_replenish q =
     (case m_nodes q of
        [] \<Rightarrow> Inr (None, q)
      | d # rest \<Rightarrow>
          guard (m_length q - 1 = 0 \<longrightarrow> rest = []) Assertion_Failed
            (Inr (d, q\<lparr>m_length := m_length q - 1, m_n_element := m_n_element q - 1,
                       m_nodes := rest\<rparr>)))"

definition fifo_pop :: "'a fifo_pipeline \<Rightarrow> ('a option \<times> 'a fifo_pipeline) res" where
  "fifo_pop q =
     (case m_nodes q of
        [] \<Rightarrow> Inr (None, q)
      | d # rest \<Rightarrow>
          guard (m_length q - 1 = 0 \<longrightarrow> rest = []) Assertion_Failed
            (let q1 = q\<lparr>m_length := m_length q - 1, m_n_element := m_n_element q - 1,
                        m_nodes := rest\<rparr>
             in if m_min_len q1 \<noteq> 0 \<and> m_length q1 < m_min_len q1
                then rbind (fifo_push None q1) (\<lambda>q2. Inr (d, uncount q2))
                else Inr (d, q1)))"

definition fifo_top :: "'a fifo_pipeline \<Rightarrow> 'a option" where
  "fifo_top q = (case m_nodes q of [] \<Rightarrow> None | d # _ \<Rightarrow> d)"

definition fifo_full :: "'a fifo_pipeline \<Rightarrow> bool" where
  "fifo_full q \<longleftrightarrow> m_max_len q \<noteq> 0 \<and> m_length q \<ge> m_max_len q"

definition is_avilable_size :: "u32 \<Rightarrow> 'a fifo_pipeline \<Rightarrow> bool" where
  "is_avilable_size n q \<longleftrightarrow>
     m_max_len q \<noteq> 0 \<and> of_nat (m_length q) + n - 1 \<ge> (of_nat (m_max_len q) :: u32)"

definition fifo_empty :: "'a fifo_pipeline \<Rightarrow> bool" where
  "fifo_empty q \<longleftrightarrow> m_nodes q = []"

fun push_bubbles :: "nat \<Rightarrow> 'a fifo_pipeline \<Rightarrow> 'a fifo_pipeline res" where
  "push_bubbles 0 q = Inr q"
| "push_bubbles (Suc n) q = rbind (fifo_push None q) (push_bubbles n)"

definition new_fifo_pipeline :: "nat \<Rightarrow> nat \<Rightarrow> 'a fifo_pipeline res" where
  "new_fifo_pipeline minlen maxlen =
     guard (maxlen \<noteq> 0) Assertion_Failed
       (push_bubbles minlen
          \<lparr>m_min_len = minlen, m_max_len = maxlen, m_length = 0, m_n_element = 0, m_nodes = []\<rparr>)"

lemma push_grows:
  assumes "fifo_push d q = Inr q'" and "m_length q < m_min_len q"
  shows "m_length q' = Suc (m_length q) \<and> m_min_len q' = m_min_len q"
  using assms by (auto simp: fifo_push_def res_simps split: if_splits)

function grow_to_min :: "'a fifo_pipeline \<Rightarrow> 'a fifo_pipeline res" where
  "grow_to_min q =
     (if m_length q < m_min_len q
      then rbind (fifo_push None q) (\<lambda>q'. grow_to_min (uncount q'))
      else Inr q)"
  by pat_completeness auto
termination
  by (relation "measure (\<lambda>q. m_min_len q - m_length q)")
    (auto dest!: push_grows simp: uncount_def)

lemma pop_shrinks:
  assumes "fifo_pop q = Inr (d, q')" and "m_min_len q < m_length q" and "m_nodes q \<noteq> []"
  shows "m_length q' < m_length q"
  using assms
  by (auto simp: fifo_pop_def res_simps Let_def split: list.splits if_splits)

function shrink_to_min :: "'a fifo_pipeline \<Rightarrow> 'a fifo_pipeline res" where
  "shrink_to_min q =
     (if m_length q > m_min_len q
      then (if m_nodes q = [] then Inl Undefined_Behaviour
            else if last (m_nodes q) = None
            then (if length (m_nodes q) = 1
                  then rbind (fifo_pop q) (\<lambda>(d, q'). shrink_to_min q')
                  else shrink_to_min (q\<lparr>m_length := m_length q - 1,
                                        m_nodes := butlast (m_nodes q)\<rparr>))
            else Inr q)
      else Inr q)"
  by pat_completeness auto
termination
  by (relation "measure m_length") (auto dest: pop_shrinks)

declare grow_to_min.simps [simp del] shrink_to_min.simps [simp del]

definition set_min_length :: "nat \<Rightarrow> 'a fifo_pipeline \<Rightarrow> 'a fifo_pipeline res" where
  "set_min_length new_min_len q =
     (if new_min_len = m_min_len q then Inr q
      else if new_min_len > m_min_len q then grow_to_min (q\<lparr>m_min_len := new_min_len\<rparr>)
      else guard (m_nodes q \<noteq> []) Assertion_Failed
             (shrink_to_min (q\<lparr>m_min_len := new_min_len\<rparr>)))"


section \<open>Invariant and contents\<close>

text \<open>
  \<open>wf_fifo\<close> is what every method keeps: the length counter is the number of nodes and never
  passes the maximum.  \<open>filled\<close> says that the pipeline is at its minimum length, as after the
  constructor.  \<open>fifo_data\<close> is the queue a client sees: the data without the bubbles.
\<close>

definition wf_fifo :: "'a fifo_pipeline \<Rightarrow> bool" where
  "wf_fifo q \<longleftrightarrow> m_length q = length (m_nodes q) \<and> m_length q \<le> m_max_len q \<and> 0 < m_max_len q"

definition filled :: "'a fifo_pipeline \<Rightarrow> bool" where
  "filled q \<longleftrightarrow> m_min_len q \<le> length (m_nodes q)"

definition live :: "'a option list \<Rightarrow> 'a list" where
  "live ds = map the (filter (\<lambda>d. d \<noteq> None) ds)"

definition fifo_data :: "'a fifo_pipeline \<Rightarrow> 'a list" where
  "fifo_data q = live (m_nodes q)"

lemma live_simps [simp]:
  "live [] = []" "live (None # ds) = live ds" "live (Some x # ds) = x # live ds"
  "live (ds @ es) = live ds @ live es"
  by (simp_all add: live_def)

lemma live_replicate_None [simp]: "live (replicate n None) = []"
  by (simp add: live_def)

lemma live_butlast_None: "ds \<noteq> [] \<Longrightarrow> last ds = None \<Longrightarrow> live (butlast ds) = live ds"
  by (cases ds rule: rev_cases) auto

lemma live_Cons: "live (d # ds) = (case d of None \<Rightarrow> [] | Some x \<Rightarrow> [x]) @ live ds"
  by (cases d) auto

lemma fifo_push_Inr_iff: "(\<exists>q'. fifo_push d q = Inr q') \<longleftrightarrow> m_length q < m_max_len q"
  by (auto simp: fifo_push_def guard_def)

lemma fifo_push_wf [inv_intros]:
  "fifo_push d q = Inr q' \<Longrightarrow> wf_fifo q \<Longrightarrow> wf_fifo q'"
  by (cases "m_nodes q" rule: rev_cases)
    (auto simp: fifo_push_def wf_fifo_def res_simps split: if_splits)

lemma fifo_push_frame:
  "fifo_push d q = Inr q' \<Longrightarrow> m_min_len q' = m_min_len q \<and> m_max_len q' = m_max_len q"
  by (auto simp: fifo_push_def res_simps)

lemma fifo_push_filled: "fifo_push d q = Inr q' \<Longrightarrow> filled q \<Longrightarrow> filled q'"
  by (cases "m_nodes q" rule: rev_cases) (auto simp: fifo_push_def filled_def res_simps split: if_splits)

lemma fifo_push_data:
  "fifo_push d q = Inr q' \<Longrightarrow> fifo_data q' = fifo_data q @ live [d]"
  by (cases "m_nodes q" rule: rev_cases; cases d)
    (auto simp: fifo_push_def fifo_data_def live_Cons res_simps split: if_splits option.splits)

lemma wf_fifo_pop_guard:
  "wf_fifo q \<Longrightarrow> m_nodes q = d # rest \<Longrightarrow> m_length q - 1 = 0 \<longrightarrow> rest = []"
  by (auto simp: wf_fifo_def)

text \<open>
  What \<open>pop\<close> does to the chain: the head leaves, and a bubble is appended when the chain has
  fallen below its minimum length.
\<close>

lemma fifo_pop_nodes:
  assumes "wf_fifo q" and "m_nodes q = d # rest"
  shows "\<exists>q'. fifo_pop q = Inr (d, q') \<and> wf_fifo q' \<and> m_min_len q' = m_min_len q \<and>
    m_max_len q' = m_max_len q \<and>
    m_nodes q' = (if length rest < m_min_len q then rest @ [None] else rest) \<and>
    m_n_element q' = m_n_element q - 1"
proof -
  have len: "m_length q = Suc (length rest)" "length rest < m_max_len q"
    using assms by (auto simp: wf_fifo_def)
  show ?thesis
  proof (cases "length rest < m_min_len q")
    case True
    then have "rest \<noteq> [] \<Longrightarrow> length rest < m_min_len q" by simp
    with True len assms(2) show ?thesis
      by (auto simp: fifo_pop_def fifo_push_def uncount_def wf_fifo_def Let_def)
  next
    case False
    with len assms(2) show ?thesis
      by (auto simp: fifo_pop_def wf_fifo_def)
  qed
qed

lemma fifo_pop_empty: "m_nodes q = [] \<Longrightarrow> fifo_pop q = Inr (None, q)"
  by (simp add: fifo_pop_def)

lemma fifo_pop_total:
  assumes "wf_fifo q"
  shows "\<exists>q'. fifo_pop q = Inr (fifo_top q, q') \<and> wf_fifo q' \<and> (filled q \<longrightarrow> filled q') \<and>
    m_min_len q' = m_min_len q \<and> m_max_len q' = m_max_len q \<and>
    fifo_data q = live [fifo_top q] @ fifo_data q'"
proof (cases "m_nodes q")
  case Nil
  with assms show ?thesis by (simp add: fifo_pop_empty fifo_top_def fifo_data_def)
next
  case (Cons d rest)
  with fifo_pop_nodes [OF assms Cons] show ?thesis
    by (cases d) (auto simp: fifo_top_def fifo_data_def filled_def)
qed

lemma push_bubbles_wf:
  "wf_fifo q \<Longrightarrow> length (m_nodes q) + n \<le> m_max_len q \<Longrightarrow> length (m_nodes q) + n = m_min_len q \<Longrightarrow>
   \<exists>q'. push_bubbles n q = Inr q' \<and> wf_fifo q' \<and> m_nodes q' = m_nodes q @ replicate n None \<and>
        m_min_len q' = m_min_len q \<and> m_max_len q' = m_max_len q \<and>
        m_n_element q' = m_n_element q + of_nat n"
proof (induction n arbitrary: q)
  case (Suc n)
  define q1 where "q1 = q\<lparr>m_length := m_length q + 1, m_n_element := m_n_element q + 1,
                           m_nodes := m_nodes q @ [None]\<rparr>"
  have "fifo_push None q = Inr q1"
    using Suc.prems by (auto simp: fifo_push_def wf_fifo_def q1_def)
  moreover have "\<exists>q'. push_bubbles n q1 = Inr q' \<and> wf_fifo q' \<and>
      m_nodes q' = m_nodes q1 @ replicate n None \<and> m_min_len q' = m_min_len q1 \<and>
      m_max_len q' = m_max_len q1 \<and> m_n_element q' = m_n_element q1 + of_nat n"
    using Suc.prems by (intro Suc.IH) (auto simp: wf_fifo_def q1_def)
  ultimately show ?case
    by (auto simp: q1_def add_ac replicate_append_same [symmetric])
qed simp

lemma new_fifo_pipeline_ok:
  assumes "minlen \<le> maxlen" and "0 < maxlen"
  shows "\<exists>q. new_fifo_pipeline minlen maxlen = Inr q \<and> wf_fifo q \<and> filled q \<and>
    m_nodes q = replicate minlen None \<and> m_min_len q = minlen \<and> m_max_len q = maxlen \<and>
    m_n_element q = of_nat minlen"
proof -
  define q0 :: "'a fifo_pipeline" where
    "q0 = \<lparr>m_min_len = minlen, m_max_len = maxlen, m_length = 0, m_n_element = 0, m_nodes = []\<rparr>"
  have "wf_fifo q0" and "m_nodes q0 = []" and "m_min_len q0 = minlen" and "m_max_len q0 = maxlen"
    and "m_n_element q0 = 0"
    using assms by (auto simp: wf_fifo_def q0_def)
  with push_bubbles_wf [of q0 minlen] assms show ?thesis
    by (auto simp: new_fifo_pipeline_def filled_def q0_def)
qed

section \<open>The length can be changed at run time\<close>

lemma grow_to_min_ok:
  "wf_fifo q \<Longrightarrow> m_min_len q \<le> m_max_len q \<Longrightarrow>
   \<exists>q'. grow_to_min q = Inr q' \<and> wf_fifo q' \<and> filled q' \<and> m_min_len q' = m_min_len q \<and>
        fifo_data q' = fifo_data q"
proof (induction q rule: grow_to_min.induct)
  case (1 q)
  show ?case
  proof (cases "m_length q < m_min_len q")
    case True
    with "1.prems" obtain q1 where push: "fifo_push None q = Inr q1"
      using fifo_push_Inr_iff [of None q] by auto
    have "wf_fifo (uncount q1)" "m_min_len (uncount q1) = m_min_len q"
      "m_max_len (uncount q1) = m_max_len q" "fifo_data (uncount q1) = fifo_data q"
      using fifo_push_wf [OF push] fifo_push_frame [OF push] fifo_push_data [OF push] "1.prems"
      by (auto simp: uncount_def wf_fifo_def fifo_data_def)
    with "1.IH" [OF True] "1.prems" push True show ?thesis
      by (auto simp: grow_to_min.simps [of q])
  next
    case False
    with "1.prems" show ?thesis
      by (auto simp: grow_to_min.simps [of q] wf_fifo_def filled_def)
  qed
qed

lemma shrink_to_min_ok:
  "wf_fifo q \<Longrightarrow> filled q \<Longrightarrow>
   \<exists>q'. shrink_to_min q = Inr q' \<and> wf_fifo q' \<and> filled q' \<and> m_min_len q' = m_min_len q \<and>
        fifo_data q' = fifo_data q"
proof (induction q rule: shrink_to_min.induct)
  case (1 q)
  let ?q' = "q\<lparr>m_length := m_length q - 1, m_nodes := butlast (m_nodes q)\<rparr>"
  consider "m_length q \<le> m_min_len q \<or> last (m_nodes q) \<noteq> None"
    | (one) "m_length q > m_min_len q" "last (m_nodes q) = None" "length (m_nodes q) = 1"
    | (more) "m_length q > m_min_len q" "last (m_nodes q) = None" "length (m_nodes q) \<noteq> 1"
    by linarith
  then show ?case
  proof cases
    case 1
    with "1.prems" show ?thesis
      by (auto simp: shrink_to_min.simps [of q] wf_fifo_def)
  next
    case one
    then obtain d where nodes: "m_nodes q = [d]" by (auto simp: length_Suc_conv)
    from fifo_pop_nodes [OF "1.prems"(1) nodes] one nodes "1.prems" obtain q'
      where q': "fifo_pop q = Inr (d, q')" "m_nodes q' = []" "wf_fifo q'" "m_min_len q' = m_min_len q"
      by (auto simp: wf_fifo_def)
    moreover have "m_min_len q = 0"
      using one nodes "1.prems" by (auto simp: wf_fifo_def)
    ultimately show ?thesis
      using one nodes
      by (auto simp: shrink_to_min.simps [of q] shrink_to_min.simps [of q'] wf_fifo_def filled_def
          fifo_data_def)
  next
    case more
    have ne: "m_nodes q \<noteq> []" using more "1.prems" by (auto simp: wf_fifo_def)
    have "wf_fifo ?q'" "filled ?q'" "fifo_data ?q' = fifo_data q"
      using more ne "1.prems" by (auto simp: wf_fifo_def filled_def fifo_data_def live_butlast_None)
    with "1.IH"(2) [OF more(1) ne more(2,3)] more ne show ?thesis
      by (auto simp: shrink_to_min.simps [of q])
  qed
qed

section \<open>The pipeline as a delay line\<close>

text \<open>
  One cycle of a client that pops first and then may push, as \<open>dram_t::cycle\<close> does with
  \<open>rwq\<close>, and a run of such cycles with the values popped.
\<close>

definition pop_push :: "'a option \<Rightarrow> 'a fifo_pipeline \<Rightarrow> ('a option \<times> 'a fifo_pipeline) res" where
  "pop_push d q =
     rbind (fifo_pop q) (\<lambda>(out, q1).
       if d = None then Inr (out, q1)
       else rbind (fifo_push d q1) (\<lambda>q2. Inr (out, q2)))"

fun pop_push_run ::
  "'a option list \<Rightarrow> 'a fifo_pipeline \<Rightarrow> ('a option list \<times> 'a fifo_pipeline) res" where
  "pop_push_run [] q = Inr ([], q)"
| "pop_push_run (d # ds) q =
     rbind (pop_push d q) (\<lambda>(out, q1).
       rbind (pop_push_run ds q1) (\<lambda>(outs, q2). Inr (out # outs, q2)))"

definition delay_line :: "nat \<Rightarrow> 'a fifo_pipeline \<Rightarrow> bool" where
  "delay_line n q \<longleftrightarrow>
     wf_fifo q \<and> 0 < n \<and> n < m_max_len q \<and> m_min_len q = n \<and> length (m_nodes q) = n"

lemma pop_push_shift:
  assumes "delay_line n q"
  shows "\<exists>q'. pop_push d q = Inr (hd (m_nodes q), q') \<and> delay_line n q' \<and>
    m_nodes q' = tl (m_nodes q) @ [d]"
proof -
  from assms obtain h rest where nodes: "m_nodes q = h # rest" and n: "n = Suc (length rest)"
    by (cases "m_nodes q") (auto simp: delay_line_def)
  with fifo_pop_nodes [of q h rest] assms obtain q1 where q1: "fifo_pop q = Inr (h, q1)"
    "wf_fifo q1" "m_min_len q1 = n" "m_max_len q1 = m_max_len q" "m_nodes q1 = rest @ [None]"
    by (auto simp: delay_line_def)
  then have "m_length q1 = n" "n < m_max_len q1"
    using n assms by (auto simp: wf_fifo_def delay_line_def)
  with q1 n nodes show ?thesis
    by (cases d) (auto simp: pop_push_def delay_line_def fifo_push_def wf_fifo_def)
qed

text \<open>A pipeline at its minimum length \<open>n\<close> is an exact delay line: whatever a client
  pushes, one value or nothing per cycle, the values popped over a run are the first values of
  the old contents followed by the pushed ones, so a datum leaves exactly \<open>n\<close> cycles after the
  cycle that pushed it, in order, and no assertion of \<open>push\<close> or \<open>pop\<close> fails.\<close>

theorem pop_push_run_delays:
  assumes "delay_line n q"
  shows "\<exists>q'. pop_push_run ds q = Inr (take (length ds) (m_nodes q @ ds), q') \<and>
    delay_line n q' \<and> m_nodes q' = drop (length ds) (m_nodes q @ ds)"
  using assms
proof (induction ds arbitrary: q)
  case (Cons d ds)
  from pop_push_shift [OF Cons.prems] obtain q1 where q1: "pop_push d q = Inr (hd (m_nodes q), q1)"
    "delay_line n q1" "m_nodes q1 = tl (m_nodes q) @ [d]" by blast
  from Cons.IH [OF q1(2)] q1(3) obtain q2 where
    "pop_push_run ds q1 = Inr (take (length ds) (tl (m_nodes q) @ d # ds), q2)" "delay_line n q2"
    "m_nodes q2 = drop (length ds) (tl (m_nodes q) @ d # ds)" by auto
  moreover have "m_nodes q \<noteq> []" using Cons.prems by (auto simp: delay_line_def)
  ultimately show ?case
    using q1(1) by (cases "m_nodes q") auto
qed simp

definition rwq3 :: "nat fifo_pipeline" where
  "rwq3 = \<lparr>m_min_len = 3, m_max_len = 4, m_length = 3, m_n_element = 3,
           m_nodes = [None, None, None]\<rparr>"

theorem pop_push_run_delays_witness:
  "delay_line 3 rwq3 \<and>
   (\<exists>q'. pop_push_run [Some 7, None, Some 8, None] rwq3 = Inr ([None, None, None, Some 7], q') \<and>
         delay_line 3 q' \<and> m_nodes q' = [None, Some 8, None])"
proof -
  have h: "delay_line 3 rwq3"
    by (simp add: delay_line_def wf_fifo_def rwq3_def)
  show ?thesis
    using h pop_push_run_delays [OF h, of "[Some 7, None, Some 8, None]"]
    by (simp add: rwq3_def)
qed

text \<open>The minimum length can be changed at any time (as \<open>issue_col_command\<close> does when the
  bus turns around): \<open>set_min_length\<close> always returns, keeps the pipeline well formed and at
  least at its new minimum length, and neither loses, duplicates nor reorders data.\<close>

theorem set_min_length_keeps_data:
  assumes "wf_fifo q" and "filled q" and "n \<le> m_max_len q"
  shows "\<exists>q'. set_min_length n q = Inr q' \<and> wf_fifo q' \<and> filled q' \<and> m_min_len q' = n \<and>
    fifo_data q' = fifo_data q"
proof -
  let ?q = "q\<lparr>m_min_len := n\<rparr>"
  have w: "wf_fifo ?q" "fifo_data ?q = fifo_data q" "m_min_len ?q = n"
    using assms by (auto simp: wf_fifo_def fifo_data_def)
  consider "n = m_min_len q" | "n > m_min_len q" | "n < m_min_len q" by linarith
  then show ?thesis
  proof cases
    case 1
    with assms show ?thesis by (simp add: set_min_length_def)
  next
    case 2
    with grow_to_min_ok [OF w(1)] w assms show ?thesis
      by (auto simp: set_min_length_def)
  next
    case 3
    then have "m_nodes q \<noteq> []" "filled ?q" using assms by (auto simp: filled_def)
    with 3 shrink_to_min_ok [OF w(1)] w show ?thesis
      by (auto simp: set_min_length_def)
  qed
qed

theorem set_min_length_keeps_data_witness:
  "wf_fifo rwq3 \<and> filled rwq3 \<and> (\<exists>q'. set_min_length 1 rwq3 = Inr q' \<and> m_min_len q' = 1)"
proof -
  have h: "wf_fifo rwq3" "filled rwq3" "1 \<le> m_max_len rwq3"
    by (simp_all add: wf_fifo_def filled_def rwq3_def)
  show ?thesis using h set_min_length_keeps_data [OF h] by auto
qed

lemma pop_push_run_idle_count:
  "delay_line n q \<Longrightarrow>
   \<exists>os q'. pop_push_run (replicate k None) q = Inr (os, q') \<and> delay_line n q' \<and>
     m_n_element q' = m_n_element q - of_nat k"
proof (induction k arbitrary: q)
  case (Suc k)
  then obtain h rest where nodes: "m_nodes q = h # rest" and n: "n = Suc (length rest)"
    by (cases "m_nodes q") (auto simp: delay_line_def)
  with fifo_pop_nodes [of q h rest] Suc.prems obtain q1 where q1: "fifo_pop q = Inr (h, q1)"
    "delay_line n q1" "m_n_element q1 = m_n_element q - 1"
    by (auto simp: delay_line_def)
  with Suc.IH [of q1] show ?case by (auto simp: pop_push_def algebra_simps)
qed simp

text \<open>\<open>m_n_element\<close> is not the number of queued data: the constructor counts the bubbles it
  inserts, and every later cycle of an idle pipeline takes one off without adding one back, so
  after \<open>n + 1\<close> idle cycles of an empty pipeline of minimum length \<open>n\<close> it reads
  \<open>2 ^ 32 - 1\<close>.\<close>

theorem n_element_wraps:
  assumes "0 < n" and "n < m"
  shows "\<exists>(q :: 'a fifo_pipeline) os q'. new_fifo_pipeline n m = Inr q \<and> fifo_data q = [] \<and>
    pop_push_run (replicate (Suc n) None) q = Inr (os, q') \<and>
    m_n_element q = of_nat n \<and> m_n_element q' = u32_max"
proof -
  from new_fifo_pipeline_ok [of n m] assms obtain q :: "'a fifo_pipeline"
    where q: "new_fifo_pipeline n m = Inr q" "wf_fifo q" "m_nodes q = replicate n None" "m_min_len q = n" "m_max_len q = m"
    "m_n_element q = of_nat n" by auto
  then have "delay_line n q" using assms by (simp add: delay_line_def)
  from pop_push_run_idle_count [OF this, of "Suc n"] obtain os q' where
    "pop_push_run (replicate (Suc n) None) q = Inr (os, q')"
    "m_n_element q' = m_n_element q - of_nat (Suc n)" by blast
  moreover from this(2) q(6) have "m_n_element q' = u32_max"
    by (simp add: u32_minus_one)
  moreover have "fifo_data q = []" using q(3) by (simp add: fifo_data_def)
  ultimately show ?thesis using q(1,6) by blast
qed

theorem n_element_wraps_witness:
  "\<exists>q os q'. new_fifo_pipeline 20 21 = Inr q \<and> fifo_data (q :: nat fifo_pipeline) = [] \<and>
    pop_push_run (replicate 21 None) q = Inr (os, q') \<and> m_n_element q' = u32_max"
  using n_element_wraps [of 20 21, where 'a = nat] by auto

section \<open>The queue interface of the memory system\<close>

text \<open>
  What the L2 caches, the memory partition and the DRAM rely on when they hand a request from
  one queue to the next: a bounded queue with its contents as a list.  \<open>transfer\<close> is the idiom
  of \<open>memory_partition\<close>: read the top of one queue, push it to another and pop the first.
\<close>

locale bounded_queue =
  fixes enq :: "'a \<Rightarrow> 'q \<Rightarrow> 'q res"
    and deq :: "'q \<Rightarrow> ('a option \<times> 'q) res"
    and front :: "'q \<Rightarrow> 'a option"
    and is_full :: "'q \<Rightarrow> bool"
    and contents :: "'q \<Rightarrow> 'a list"
    and qinv :: "'q \<Rightarrow> bool"
  assumes enq_ok: "qinv q \<Longrightarrow> \<not> is_full q \<Longrightarrow>
      \<exists>q'. enq x q = Inr q' \<and> qinv q' \<and> contents q' = contents q @ [x]"
    and enq_full: "qinv q \<Longrightarrow> is_full q \<Longrightarrow> enq x q = Inl Assertion_Failed"
    and deq_ok: "qinv q \<Longrightarrow>
      \<exists>q'. deq q = Inr (front q, q') \<and> qinv q' \<and> contents q' = tl (contents q)"
    and front_contents: "qinv q \<Longrightarrow>
      front q = (case contents q of [] \<Rightarrow> None | x # _ \<Rightarrow> Some x)"
begin

definition transfer :: "'q \<Rightarrow> 'q \<Rightarrow> ('q \<times> 'q) res" where
  "transfer src dst =
     (case front src of
        None \<Rightarrow> Inr (src, dst)
      | Some x \<Rightarrow>
          if is_full dst then Inr (src, dst)
          else rbind (enq x dst) (\<lambda>dst'. rbind (deq src) (\<lambda>(_, src'). Inr (src', dst'))))"

lemma transfer_conserves:
  assumes "qinv src" and "qinv dst"
  shows "\<exists>src' dst'. transfer src dst = Inr (src', dst') \<and> qinv src' \<and> qinv dst' \<and>
    contents dst' @ contents src' = contents dst @ contents src"
proof (cases "contents src")
  case Nil
  with assms front_contents [of src] show ?thesis by (simp add: transfer_def)
next
  case (Cons x xs)
  then have front: "front src = Some x" using assms front_contents [of src] by simp
  show ?thesis
  proof (cases "is_full dst")
    case True
    with front assms show ?thesis by (simp add: transfer_def)
  next
    case False
    from enq_ok [OF assms(2) False, of x] deq_ok [OF assms(1)] front Cons False show ?thesis
      by (auto simp: transfer_def)
  qed
qed

lemma deq_front: "qinv q \<Longrightarrow> contents q = x # xs \<Longrightarrow>
    \<exists>q'. deq q = Inr (Some x, q') \<and> qinv q' \<and> contents q' = xs"
  using deq_ok [of q] front_contents [of q] by auto

lemma enq_Inr_iff: "qinv q \<Longrightarrow> (\<exists>q'. enq x q = Inr q') \<longleftrightarrow> \<not> is_full q"
  using enq_ok [of q x] enq_full [of q x] by auto

end

text \<open>
  The pipelines of minimum length 0 (\<open>mrqq\<close>, \<open>returnq\<close>, \<open>m_L2_dram_queue\<close>,
  \<open>m_dram_L2_queue\<close>) hold no bubbles and are such queues.
\<close>

definition bubble_free :: "'a fifo_pipeline \<Rightarrow> bool" where
  "bubble_free q \<longleftrightarrow> wf_fifo q \<and> m_min_len q = 0 \<and> None \<notin> set (m_nodes q)"

lemma live_no_bubbles: "None \<notin> set ds \<Longrightarrow> map Some (live ds) = ds"
proof (induction ds)
  case (Cons d ds)
  then show ?case by (cases d) auto
qed simp

lemma length_live_no_bubbles: "None \<notin> set ds \<Longrightarrow> length (live ds) = length ds"
  by (metis length_map live_no_bubbles)

interpretation plain: bounded_queue "\<lambda>x. fifo_push (Some x)" fifo_pop fifo_top fifo_full fifo_data
  bubble_free
proof
  fix x :: 'a and q :: "'a fifo_pipeline"
  assume q: "bubble_free q"
  show "\<exists>q'. fifo_push (Some x) q = Inr q' \<and> bubble_free q' \<and> fifo_data q' = fifo_data q @ [x]"
    if "\<not> fifo_full q"
  proof -
    have "m_length q < m_max_len q"
      using q that by (auto simp: fifo_full_def bubble_free_def wf_fifo_def)
    then obtain q' where push: "fifo_push (Some x) q = Inr q'"
      using fifo_push_Inr_iff [of "Some x" q] by auto
    moreover have "bubble_free q'"
      using push fifo_push_wf [OF push] fifo_push_frame [OF push] q
      by (cases "m_nodes q" rule: rev_cases)
        (auto simp: bubble_free_def fifo_push_def res_simps split: if_splits)
    ultimately show ?thesis using fifo_push_data [OF push] by auto
  qed
  show "fifo_push (Some x) q = Inl Assertion_Failed" if "fifo_full q"
    using that by (auto simp: fifo_full_def fifo_push_def guard_def)
next
  fix q :: "'a fifo_pipeline"
  assume q: "bubble_free q"
  show "\<exists>q'. fifo_pop q = Inr (fifo_top q, q') \<and> bubble_free q' \<and> fifo_data q' = tl (fifo_data q)"
  proof (cases "m_nodes q")
    case Nil
    with q show ?thesis by (simp add: fifo_pop_empty fifo_top_def fifo_data_def)
  next
    case (Cons d rest)
    with q fifo_pop_nodes [of q d rest] show ?thesis
      by (cases d) (auto simp: bubble_free_def fifo_top_def fifo_data_def)
  qed
  show "fifo_top q = (case fifo_data q of [] \<Rightarrow> None | x # _ \<Rightarrow> Some x)"
    using q by (cases "m_nodes q"; cases "hd (m_nodes q)")
      (auto simp: bubble_free_def fifo_top_def fifo_data_def)
qed

lemma fifo_empty_iff: "bubble_free q \<Longrightarrow> fifo_empty q \<longleftrightarrow> fifo_data q = []"
  by (auto simp: fifo_empty_def fifo_data_def bubble_free_def dest: length_live_no_bubbles)

lemma new_fifo_pipeline_plain:
  assumes "0 < m"
  shows "\<exists>q. new_fifo_pipeline 0 m = Inr q \<and> bubble_free q \<and> fifo_data q = [] \<and> m_max_len q = m"
  using new_fifo_pipeline_ok [of 0 m] assms by (auto simp: bubble_free_def fifo_data_def)

lemma fifo_full_iff: "bubble_free q \<Longrightarrow> fifo_full q \<longleftrightarrow> length (fifo_data q) = m_max_len q"
  by (auto simp: fifo_full_def bubble_free_def wf_fifo_def fifo_data_def length_live_no_bubbles)

end
