(* ===== verification/Mem_Fetch.thy ===== *)
theory Mem_Fetch
  imports Prelude
begin

text \<open>
  Memory requests, \<^verbatim>\<open>mem_fetch.h\<close> and \<^verbatim>\<open>mem_fetch.cpp\<close>: the request record, its
  constructor, and the address decoder that picks the memory sub-partition, the DRAM bank and the
  row of a request.  Fields the constructor leaves indeterminate (\<open>chip\<close>, \<open>bk\<close>, \<open>row\<close>,
  \<open>m_pushed_time\<close>, \<open>l2_id\<close>) are options, \<open>None\<close> until the code assigns them; a read of
  such a field is undefined behaviour.  \<open>col\<close> and \<open>m_poped_time\<close> are never assigned or read.
  The arrays \<open>addrdec_mask\<close>, \<open>addrdec_mkhigh\<close> and \<open>addrdec_mklow\<close> are members that
  every call of \<open>get_mem_sub_partition_id\<close> recomputes from constants before reading them; they
  are local values here.
\<close>

section \<open>Requests\<close>

definition SECTOR_SIZE :: u32 where
  "SECTOR_SIZE = 32"

datatype mem_fetch_space = GLOBAL | LOCAL | SHARE

datatype mem_fetch_status = L1_HIT | L1_MISS | L2_HIT | L2_MISS | INIT

datatype mem_fetch_write_type = NORMAL | WRITE_THROUGH | WRITE_BACK | WRITE_THROUGH_L2

record mem_fetch =
  m_sm_id :: u32
  m_access_type :: bool
  m_address :: u64
  m_sector_mask :: u32
  m_space :: mem_fetch_space
  m_is_atomic :: bool
  m_no_reply :: bool
  m_gen_time :: int
  m_status :: mem_fetch_status
  m_write_type :: mem_fetch_write_type
  m_src_block_id :: int
  m_src_warp_id :: int
  m_completion_index :: int
  m_sector_address :: u64
  m_tlb_hit :: bool
  m_packet_size :: u32
  m_l1_ready_time :: int
  m_l2_ready_time :: int
  pc :: int
  pc_index :: int
  chip :: "u64 option"
  bk :: "u64 option"
  row :: "u64 option"
  m_pushed_time :: "u32 option"
  m_mf_id :: u32
  l2_id :: "int option"

definition new_mem_fetch ::
  "u32 \<Rightarrow> bool \<Rightarrow> u64 \<Rightarrow> u32 \<Rightarrow> mem_fetch_space \<Rightarrow> bool \<Rightarrow> int \<Rightarrow> int \<Rightarrow> int \<Rightarrow> int \<Rightarrow> u32 \<Rightarrow> mem_fetch"
where
  "new_mem_fetch sm_id access_type address sector_mask space is_atm gen_time src_block_id
      src_warp_id completion_index mf_id =
    \<lparr>m_sm_id = sm_id, m_access_type = access_type, m_address = address,
     m_sector_mask = sector_mask, m_space = space, m_is_atomic = is_atm, m_no_reply = False,
     m_gen_time = gen_time, m_status = INIT, m_write_type = NORMAL,
     m_src_block_id = src_block_id, m_src_warp_id = src_warp_id,
     m_completion_index = completion_index,
     m_sector_address = address + ucast (sector_mask * SECTOR_SIZE), m_tlb_hit = False,
     m_packet_size = SECTOR_SIZE, m_l1_ready_time = 0, m_l2_ready_time = 0, pc = -1,
     pc_index = -1, chip = None, bk = None, row = None, m_pushed_time = None, m_mf_id = mf_id,
     l2_id = None\<rparr>"

definition is_atomic :: "mem_fetch \<Rightarrow> bool" where
  "is_atomic mf = m_is_atomic mf"

definition is_write :: "mem_fetch \<Rightarrow> bool" where
  "is_write mf = m_access_type mf"

definition needs_reply :: "mem_fetch \<Rightarrow> bool" where
  "needs_reply mf = (\<not> m_no_reply mf)"

section \<open>The address decoder\<close>

fun getmasklimit_step :: "u64 \<Rightarrow> nat \<Rightarrow> nat \<times> nat \<times> bool \<Rightarrow> nat \<times> nat \<times> bool" where
  "getmasklimit_step msk i (high, low, low_found) =
     (if msk AND push_bit i 1 \<noteq> 0
      then (if low_found then (i + 1, low, True) else (i + 1, i, True))
      else (high, low, low_found))"

definition addrdec_getmasklimit :: "u64 \<Rightarrow> nat \<times> nat" where
  "addrdec_getmasklimit msk =
     (let (high, low, _) = fold (getmasklimit_step msk) [0..<64] (64, 0, False) in (high, low))"

fun packbits_step :: "u64 \<Rightarrow> u64 \<Rightarrow> nat \<Rightarrow> u64 \<times> nat \<Rightarrow> u64 \<times> nat" where
  "packbits_step msk val i (result, pos) =
     (if msk AND push_bit i 1 \<noteq> 0
      then (result OR push_bit pos (drop_bit i (val AND push_bit i 1)), pos + 1)
      else (result, pos))"

definition addrdec_packbits :: "u64 \<Rightarrow> u64 \<Rightarrow> nat \<Rightarrow> nat \<Rightarrow> u64" where
  "addrdec_packbits msk val high low = fst (fold (packbits_step msk val) [low..<high] (0, 0))"

definition ADDR_CHIP_S :: nat where
  "ADDR_CHIP_S = 10"

definition addrdec_mask_BK :: u64 where
  "addrdec_mask_BK = 0x7080"

definition addrdec_mask_ROW :: u64 where
  "addrdec_mask_ROW = 0xfff8000"

definition rest_of_addr :: "u64 \<Rightarrow> u64 \<Rightarrow> u64" where
  "rest_of_addr addr n_channel =
     push_bit ADDR_CHIP_S (drop_bit ADDR_CHIP_S addr div n_channel)
       OR (addr AND (push_bit ADDR_CHIP_S 1 - 1))"

definition packed :: "u64 \<Rightarrow> u64 \<Rightarrow> u64" where
  "packed msk val =
     (let (high, low) = addrdec_getmasklimit msk in addrdec_packbits msk val high low)"

definition get_mem_sub_partition_id :: "int \<Rightarrow> int \<Rightarrow> mem_fetch \<Rightarrow> (int \<times> mem_fetch) res" where
  "get_mem_sub_partition_id mem_channel sm_num mf =
     (let addr = m_sector_address mf; m_n_channel = (word_of_int mem_channel :: u64);
          PARTITION_PER_CHANNEL = (2 :: u64)
      in guard (m_n_channel \<noteq> 0) Undefined_Behaviour
           (let c = drop_bit ADDR_CHIP_S addr mod m_n_channel;
                rest = rest_of_addr addr m_n_channel;
                b = packed addrdec_mask_BK rest;
                r = packed addrdec_mask_ROW rest
            in Inr (sint (ucast (c * PARTITION_PER_CHANNEL
                                 + (b AND (PARTITION_PER_CHANNEL - 1))) :: u32) + sm_num,
                    mf\<lparr>chip := Some c, bk := Some b, row := Some r\<rparr>)))"

section \<open>What the decoder computes\<close>

lemma fold_getmasklimit_BK: "addrdec_getmasklimit addrdec_mask_BK = (15, 7)"
  by (simp add: addrdec_getmasklimit_def addrdec_mask_BK_def and_push_bit_1 upt_conv_Cons
      bit_numeral_word_iff del: upt_Suc)

lemma fold_getmasklimit_ROW: "addrdec_getmasklimit addrdec_mask_ROW = (28, 15)"
  by code_simp

text \<open>Reference: the bits of \<open>val\<close> at the positions of the mask, lowest first.\<close>

definition masked_bits :: "u64 \<Rightarrow> u64 \<Rightarrow> nat \<Rightarrow> nat \<Rightarrow> bool list" where
  "masked_bits msk val high low = map (bit val) (filter (bit msk) [low..<high])"

lemma drop_bit_and_bit: "drop_bit i (val AND push_bit i 1) = of_bool (bit (val :: u64) i)"
proof (rule bit_eqI)
  fix n
  show "bit (drop_bit i (val AND push_bit i 1)) n = bit (of_bool (bit val i) :: u64) n"
    using bit_imp_le_length [of val i]
    by (cases "n = 0") (auto simp: bit_simps)
qed

lemma horner_sum_snoc:
  "(horner_sum of_bool 2 bs :: u64) OR push_bit (length bs) (of_bool b) =
   horner_sum of_bool 2 (bs @ [b])"
  by (rule bit_eqI) (auto simp: bit_simps nth_append less_Suc_eq)

lemma packbits_step_horner:
  "packbits_step msk val i (horner_sum of_bool 2 bs, length bs) =
     (if bit msk i then (horner_sum of_bool 2 (bs @ [bit val i]), length (bs @ [bit val i]))
      else (horner_sum of_bool 2 bs, length bs))"
  by (simp only: packbits_step.simps and_push_bit_1 drop_bit_and_bit horner_sum_snoc
      length_append_singleton Suc_eq_plus1)

lemma fold_packbits:
  "fold (packbits_step msk val) [low..<low + n] (0, 0) =
     (horner_sum of_bool 2 (masked_bits msk val (low + n) low),
      length (masked_bits msk val (low + n) low))"
proof (induction n)
  case (Suc n)
  have "masked_bits msk val (low + Suc n) low =
      masked_bits msk val (low + n) low @ (if bit msk (low + n) then [bit val (low + n)] else [])"
    by (simp add: masked_bits_def)
  with Suc show ?case
    by (simp add: packbits_step_horner del: packbits_step.simps horner_sum_append)
qed (simp add: masked_bits_def)

lemma addrdec_packbits_eq:
  "low \<le> high \<Longrightarrow> addrdec_packbits msk val high low = horner_sum of_bool 2 (masked_bits msk val high low)"
  using fold_packbits [of msk val low "high - low"] by (simp add: addrdec_packbits_def)

text \<open>C8. The packing loop with its running position is the reference definition: bit \<open>k\<close> of
  the result is the bit of \<open>val\<close> at the \<open>k\<close>-th set position of the mask.\<close>

theorem addrdec_packbits_correct:
  assumes "low \<le> high" and "k < 64"
  shows "bit (addrdec_packbits msk val high low) k \<longleftrightarrow>
    k < length (filter (bit msk) [low..<high]) \<and> bit val (filter (bit msk) [low..<high] ! k)"
  using assms by (auto simp: addrdec_packbits_eq bit_simps masked_bits_def)

theorem addrdec_packbits_correct_witness:
  "bit (addrdec_packbits 0x7080 0x1000 15 7) 1"
  using addrdec_packbits_correct [of 7 15 1 "0x7080" "0x1000"] by (simp add: upt_conv_Cons)

lemma packed_BK:
  "packed addrdec_mask_BK v = horner_sum of_bool 2 [bit v 7, bit v 12, bit v 13, bit v 14]"
proof -
  have "masked_bits addrdec_mask_BK v 15 7 = [bit v 7, bit v 12, bit v 13, bit v 14]"
    by (simp add: masked_bits_def upt_conv_Cons addrdec_mask_BK_def)
  then show ?thesis
    unfolding packed_def fold_getmasklimit_BK Let_def prod.case
    by (simp only: addrdec_packbits_eq)
qed

lemma mask_ROW_positions: "filter (bit addrdec_mask_ROW) [15..<28] = [15..<28]"
  by code_simp

lemma horner_sum_bit_range:
  "horner_sum of_bool 2 (map (bit (v :: u64)) [k..<k + n]) = take_bit n (drop_bit k v)"
  by (rule bit_eqI) (auto simp: bit_simps)

lemma num_add_15_13: "(15 :: nat) + 13 = 28"
  by simp

lemma packed_ROW: "packed addrdec_mask_ROW v = take_bit 13 (drop_bit 15 v)"
proof -
  have "masked_bits addrdec_mask_ROW v 28 15 = map (bit v) [15..<28]"
    by (simp only: masked_bits_def mask_ROW_positions)
  then have "packed addrdec_mask_ROW v = horner_sum of_bool 2 (map (bit v) [15..<28])"
    unfolding packed_def fold_getmasklimit_ROW Let_def prod.case
    by (simp only: addrdec_packbits_eq)
  also have "\<dots> = take_bit 13 (drop_bit 15 v)"
    using horner_sum_bit_range [of v 15 13] by (simp only: num_add_15_13)
  finally show ?thesis .
qed

lemma bank_less_16: "unat (packed addrdec_mask_BK v) < 16"
proof -
  have "packed addrdec_mask_BK v \<le> 15"
    by (cases "bit v 7"; cases "bit v 12"; cases "bit v 13"; cases "bit v 14")
      (simp_all add: packed_BK)
  then show ?thesis by (simp add: word_le_nat_alt)
qed

lemma bit_rest_of_addr_low: "i < 10 \<Longrightarrow> bit (rest_of_addr addr n) i = bit addr i"
proof -
  assume "i < 10"
  have "(push_bit ADDR_CHIP_S 1 - 1 :: u64) = mask 10"
    by (simp add: ADDR_CHIP_S_def mask_eq_exp_minus_1)
  then have "rest_of_addr addr n = push_bit 10 (drop_bit 10 addr div n) OR take_bit 10 addr"
    by (simp only: rest_of_addr_def take_bit_eq_mask) (simp add: ADDR_CHIP_S_def)
  with \<open>i < 10\<close> show ?thesis by (simp add: bit_simps)
qed

lemma packed_BK_bit0: "packed addrdec_mask_BK v AND 1 = of_bool (bit v 7)"
  by (cases "bit v 7"; cases "bit v 12"; cases "bit v 13"; cases "bit v 14")
    (simp_all add: packed_BK)

lemma sint_ucast_small: "uint (w :: u64) < 2 ^ 31 \<Longrightarrow> sint (ucast w :: u32) = uint w"
proof -
  assume "uint w < 2 ^ 31"
  moreover have "0 \<le> uint w" by simp
  ultimately have "signed_take_bit 31 (uint w) = uint w"
    by (intro signed_take_bit_int_eq_self) linarith+
  with \<open>uint w < 2 ^ 31\<close> show ?thesis
    by (simp add: sint_uint unsigned_ucast_eq take_bit_int_eq_self)
qed

lemma uint_chip:
  assumes "0 < n" and "n \<le> 2 ^ 29"
  shows "uint (a mod word_of_int n :: u64) = uint a mod n"
  using assms by (simp add: uint_mod uint_word_of_int take_bit_int_eq_self)

lemma partition_value:
  assumes "0 < n" and "n \<le> 2 ^ 29"
  shows "sint (ucast ((a mod word_of_int n) * 2 + of_bool b :: u64) :: u32) =
    2 * (uint a mod n) + of_bool b"
proof -
  let ?c = "a mod word_of_int n :: u64"
  have c: "uint ?c = uint a mod n" "uint a mod n < n" "0 \<le> uint a mod n"
    using assms uint_chip by simp_all
  moreover have n: "n \<le> 536870912" using assms(2) by simp
  with c(2) have "uint a mod n * 2 + 1 < 18446744073709551616" by linarith
  ultimately have "uint (?c * 2 + of_bool b) = 2 * (uint a mod n) + of_bool b"
    by (cases b) (simp_all add: uint_word_ariths mod_pos_pos_trivial)
  moreover have "(of_bool b :: int) \<le> 1" by simp
  with c(2) n have "2 * (uint a mod n) + of_bool b < 2147483648" by linarith
  ultimately show ?thesis by (simp add: sint_ucast_small)
qed

text \<open>The sub-partition of a request: with \<open>n\<close> channels, the address above bit 10 modulo
  \<open>n\<close> picks the channel and bit 7 of the sector address picks one of its two sub-partitions; the
  result is a node of the interconnect behind the SMs, in range for \<open>2 * n\<close> sub-partitions; and
  the bank and row left in the request are the address bits 7, 12, 13, 14 of the address without
  the channel (a bank below 16) and its bits 15 to 27.\<close>

theorem get_mem_sub_partition_id_spec:
  assumes "0 < n" and "n \<le> 2 ^ 29" and "a = m_sector_address mf"
  shows "\<exists>r b. get_mem_sub_partition_id n sm_num mf =
        Inr (r, mf\<lparr>chip := Some (drop_bit 10 a mod word_of_int n), bk := Some b,
                   row := Some (take_bit 13 (drop_bit 15 (rest_of_addr a (word_of_int n))))\<rparr>) \<and>
      r = 2 * (uint (drop_bit 10 a) mod n) + of_bool (bit a 7) + sm_num \<and>
      sm_num \<le> r \<and> r < sm_num + 2 * n \<and> unat b < 16"
proof -
  let ?n = "word_of_int n :: u64" and ?c = "drop_bit 10 a mod word_of_int n"
  let ?b = "packed addrdec_mask_BK (rest_of_addr a ?n)"
  have "uint ?n = n"
    using assms by (simp add: uint_word_of_int take_bit_int_eq_self)
  then have n0: "?n \<noteq> 0" using assms(1) by auto
  have b0: "?b AND (2 - 1) = of_bool (bit a 7)"
    by (simp add: packed_BK_bit0 bit_rest_of_addr_low)
  have "get_mem_sub_partition_id n sm_num mf =
      Inr (sint (ucast (?c * 2 + of_bool (bit a 7)) :: u32) + sm_num,
        mf\<lparr>chip := Some ?c, bk := Some ?b, row := Some (take_bit 13 (drop_bit 15 (rest_of_addr a ?n)))\<rparr>)"
    using n0 unfolding get_mem_sub_partition_id_def Let_def ADDR_CHIP_S_def assms(3) [symmetric] b0
      packed_ROW by (simp only: guard_True simp_thms)
  moreover have "sint (ucast (?c * 2 + of_bool (bit a 7)) :: u32) =
      2 * (uint (drop_bit 10 a) mod n) + of_bool (bit a 7)"
    by (rule partition_value [OF assms(1,2)])
  moreover have "0 \<le> uint (drop_bit 10 a) mod n" "uint (drop_bit 10 a) mod n < n"
    "0 \<le> (of_bool (bit a 7) :: int)" "(of_bool (bit a 7) :: int) \<le> 1"
    using assms(1) by simp_all
  ultimately show ?thesis
    using bank_less_16 [of "rest_of_addr a ?n"] by (intro exI conjI) (assumption | linarith)+
qed

theorem get_mem_sub_partition_id_spec_witness:
  "\<exists>r b mf'. get_mem_sub_partition_id 8 46
       (new_mem_fetch 0 False 0x12345680 1 GLOBAL False 0 0 0 0 0) = Inr (r, mf') \<and>
     bk mf' = Some b \<and> 46 \<le> r \<and> r < 62 \<and> unat b < 16"
proof -
  let ?mf = "new_mem_fetch 0 False 0x12345680 1 GLOBAL False 0 0 0 0 0"
  have h: "(0 :: int) < 8" "(8 :: int) \<le> 2 ^ 29" by simp_all
  show ?thesis
    using get_mem_sub_partition_id_spec [OF h refl, where mf = ?mf and sm_num = 46] by force
qed

end
