(* ===== verification/Cpp_Containers.thy ===== *)
theory Cpp_Containers
  imports Prelude
begin

text \<open>
  The standard containers the simulator keeps its state in.  A \<open>std::map\<close> is its sequence of
  entries in ascending key order (the order in which the code iterates over it); a
  \<open>std::queue\<close> and a \<open>std::vector\<close> are lists.
\<close>

section \<open>std::map\<close>

type_synonym ('k, 'v) std_map = "('k \<times> 'v) list"

text \<open>\<open>m[k] = v\<close>\<close>

fun map_put :: "'k::linorder \<Rightarrow> 'v \<Rightarrow> ('k, 'v) std_map \<Rightarrow> ('k, 'v) std_map" where
  "map_put k v [] = [(k, v)]"
| "map_put k v ((k', v') # m) =
     (if k < k' then (k, v) # (k', v') # m
      else if k = k' then (k, v) # m
      else (k', v') # map_put k v m)"

text \<open>\<open>m.insert({k, v})\<close> leaves an existing entry as it is.\<close>

definition map_insert :: "'k::linorder \<Rightarrow> 'v \<Rightarrow> ('k, 'v) std_map \<Rightarrow> ('k, 'v) std_map" where
  "map_insert k v m = (if map_of m k = None then map_put k v m else m)"

definition map_erase :: "'k \<Rightarrow> ('k, 'v) std_map \<Rightarrow> ('k, 'v) std_map" where
  "map_erase k m = filter (\<lambda>e. fst e \<noteq> k) m"

text \<open>A read through \<open>m[k]\<close> of a map of integers: a missing key reads as 0.\<close>

definition map_get0 :: "('k, int) std_map \<Rightarrow> 'k \<Rightarrow> int" where
  "map_get0 m k = (case map_of m k of None \<Rightarrow> 0 | Some v \<Rightarrow> v)"

definition wf_map :: "('k::linorder, 'v) std_map \<Rightarrow> bool" where
  "wf_map m \<longleftrightarrow> sorted_wrt (<) (map fst m)"

lemma wf_map_Nil [simp]: "wf_map []"
  by (simp add: wf_map_def)

lemma wf_map_Cons: "wf_map (e # m) \<longleftrightarrow> (\<forall>e' \<in> set m. fst e < fst e') \<and> wf_map m"
  by (auto simp: wf_map_def)

lemma wf_map_distinct: "wf_map m \<Longrightarrow> distinct (map fst m)"
  by (simp add: wf_map_def strict_sorted_iff)

lemma keys_map_put: "fst ` set (map_put k v m) = insert k (fst ` set m)"
  by (induction k v m rule: map_put.induct) auto

lemma map_of_put_same [simp]: "map_of (map_put k v m) k = Some v"
  by (induction k v m rule: map_put.induct) auto

lemma map_of_put_other: "x \<noteq> k \<Longrightarrow> map_of (map_put k v m) x = map_of m x"
  by (induction k v m rule: map_put.induct) auto

lemma map_put_last: "\<forall>e \<in> set m. fst e < k \<Longrightarrow> map_put k v m = m @ [(k, v)]"
  by (induction m) auto

lemma set_map_put: "e \<in> set (map_put k v m) \<Longrightarrow> e = (k, v) \<or> e \<in> set m"
  by (induction m) (auto split: if_splits)

lemma wf_map_put [inv_intros]: "wf_map m \<Longrightarrow> wf_map (map_put k v m)"
proof (induction m)
  case (Cons e m)
  obtain k' v' where e: "e = (k', v')" by (cases e)
  with Cons show ?case
    by (auto simp: wf_map_Cons dest!: set_map_put dest: less_trans)
qed (simp add: wf_map_Cons)

lemma map_of_None_iff: "map_of m k = None \<longleftrightarrow> k \<notin> fst ` set m"
  by (rule map_of_eq_None_iff)

lemma map_of_put: "wf_map m \<Longrightarrow> map_of (map_put k v m) = (map_of m)(k \<mapsto> v)"
proof (induction m)
  case (Cons e m)
  obtain k' v' where e: "e = (k', v')" by (cases e)
  show ?case
  proof (cases "k < k'")
    case True
    with e show ?thesis by auto
  next
    case False
    with e Cons show ?thesis by (auto simp: wf_map_Cons fun_upd_twist)
  qed
qed simp

lemma length_map_put:
  "wf_map m \<Longrightarrow> length (map_put k v m) = (if map_of m k = None then Suc (length m) else length m)"
proof (induction m)
  case (Cons e m)
  obtain k' v' where e: "e = (k', v')" by (cases e)
  with Cons have "k < k' \<Longrightarrow> map_of m k = None"
    by (auto simp: wf_map_Cons map_of_None_iff)
  with e Cons show ?case by (auto simp: wf_map_Cons)
qed simp

lemma wf_map_erase [inv_intros]: "wf_map m \<Longrightarrow> wf_map (map_erase k m)"
  by (induction m) (auto simp: wf_map_Cons map_erase_def)

lemma map_of_erase: "map_of (map_erase k m) = (map_of m)(k := None)"
  by (rule ext, induction m) (auto simp: map_erase_def)

lemma map_erase_absent: "map_of m k = None \<Longrightarrow> map_erase k m = m"
  by (auto simp: map_erase_def map_of_None_iff intro!: filter_True)

lemma set_map_erase: "e \<in> set (map_erase k m) \<longleftrightarrow> e \<in> set m \<and> fst e \<noteq> k"
  by (simp add: map_erase_def)

lemma length_map_erase_le: "length (map_erase k m) \<le> length m"
  by (simp add: map_erase_def)

lemma length_map_erase:
  "wf_map m \<Longrightarrow> length (map_erase k m) = (if map_of m k = None then length m else length m - 1)"
proof (induction m)
  case (Cons e m)
  show ?case
  proof (cases "fst e = k")
    case True
    with Cons.prems have "map_of m k = None"
      by (force simp: wf_map_Cons map_of_None_iff)
    then have "map_erase k m = m" by (rule map_erase_absent)
    with True show ?thesis by (cases e) (simp add: map_erase_def)
  next
    case False
    with Cons have "length (map_erase k (e # m)) = Suc (length (map_erase k m))"
      by (simp add: map_erase_def)
    moreover have "map_of m k \<noteq> None \<Longrightarrow> 0 < length m" by (cases m) auto
    ultimately show ?thesis
      using False Cons by (cases e) (auto simp: wf_map_Cons)
  qed
qed (simp add: map_erase_def)

lemma wf_map_insert [inv_intros]: "wf_map m \<Longrightarrow> wf_map (map_insert k v m)"
  by (simp add: map_insert_def wf_map_put)

lemma map_of_insert:
  "wf_map m \<Longrightarrow>
   map_of (map_insert k v m) = (if map_of m k = None then (map_of m)(k \<mapsto> v) else map_of m)"
  by (simp add: map_insert_def map_of_put)

text \<open>
  The dictionary interface, over which the MSHR tables are written.  Two keys that differ do not
  interfere, whatever the order of the operations.
\<close>

locale dictionary =
  fixes lookup :: "'m \<Rightarrow> 'k \<Rightarrow> 'v option"
    and put :: "'k \<Rightarrow> 'v \<Rightarrow> 'm \<Rightarrow> 'm"
    and erase :: "'k \<Rightarrow> 'm \<Rightarrow> 'm"
    and size_of :: "'m \<Rightarrow> nat"
    and dinv :: "'m \<Rightarrow> bool"
  assumes lookup_put: "dinv m \<Longrightarrow> lookup (put k v m) = (lookup m)(k \<mapsto> v)"
    and lookup_erase: "dinv m \<Longrightarrow> lookup (erase k m) = (lookup m)(k := None)"
    and put_inv: "dinv m \<Longrightarrow> dinv (put k v m)"
    and erase_inv: "dinv m \<Longrightarrow> dinv (erase k m)"
    and size_put: "dinv m \<Longrightarrow> size_of (put k v m) = (if lookup m k = None then Suc (size_of m) else size_of m)"
begin

lemma lookup_put_other: "dinv m \<Longrightarrow> k \<noteq> k' \<Longrightarrow> lookup (put k v m) k' = lookup m k'"
  by (simp add: lookup_put)

lemma lookup_put_same: "dinv m \<Longrightarrow> lookup (put k v m) k = Some v"
  by (simp add: lookup_put)

lemma lookup_erase_other: "dinv m \<Longrightarrow> k \<noteq> k' \<Longrightarrow> lookup (erase k m) k' = lookup m k'"
  by (simp add: lookup_erase)

lemma lookup_erase_put: "dinv m \<Longrightarrow> lookup m k = None \<Longrightarrow> lookup (erase k (put k v m)) = lookup m"
  by (simp add: lookup_erase lookup_put put_inv fun_upd_idem)

lemma size_put_le: "dinv m \<Longrightarrow> size_of (put k v m) \<le> Suc (size_of m)"
  by (simp add: size_put)

end

interpretation std: dictionary map_of map_put map_erase length wf_map
  by unfold_locales
    (simp_all add: map_of_put map_of_erase wf_map_put wf_map_erase length_map_put)

end
