(* ===== verification/Mshr.thy ===== *)
theory Mshr
  imports Cpp_Containers
begin

text \<open>
  The miss status holding registers of \<^verbatim>\<open>cache.h\<close> and \<^verbatim>\<open>cache.cpp\<close> (\<open>mshr_table\<close>):
  the requests that wait for a block, oldest first, under the block's address.  A request is its
  pointer, of type \<open>'p\<close>.  \<open>m_current_response\<close> is never used by the code and is left out.
\<close>

section \<open>State and operations\<close>

record 'p mshr_entry =
  m_list :: "'p list"
  m_has_atomic :: bool

definition new_mshr_entry :: "'p mshr_entry" where
  "new_mshr_entry = \<lparr>m_list = [], m_has_atomic = False\<rparr>"

record 'p mshr_table =
  m_num_entries :: u32
  m_max_merged :: u32
  m_data :: "(u64, 'p mshr_entry) std_map"

definition new_mshr_table :: "u32 \<Rightarrow> u32 \<Rightarrow> 'p mshr_table" where
  "new_mshr_table num_entries max_merged =
     \<lparr>m_num_entries = num_entries, m_max_merged = max_merged, m_data = []\<rparr>"

definition mshr_probe :: "u64 \<Rightarrow> 'p mshr_table \<Rightarrow> bool" where
  "mshr_probe block_addr t \<longleftrightarrow> map_of (m_data t) block_addr \<noteq> None"

definition mshr_full :: "u64 \<Rightarrow> 'p mshr_table \<Rightarrow> bool" where
  "mshr_full block_addr t =
     (case map_of (m_data t) block_addr of
        Some e \<Rightarrow> length (m_list e) \<ge> unat (m_max_merged t)
      | None \<Rightarrow> length (m_data t) \<ge> unat (m_num_entries t))"

text \<open>\<open>m_data[a]\<close> inserts an empty entry when there is none.\<close>

definition mshr_at :: "u64 \<Rightarrow> 'p mshr_table \<Rightarrow> 'p mshr_entry" where
  "mshr_at a t = (case map_of (m_data t) a of None \<Rightarrow> new_mshr_entry | Some e \<Rightarrow> e)"

definition mshr_add :: "u64 \<Rightarrow> 'p \<Rightarrow> bool \<Rightarrow> 'p mshr_table \<Rightarrow> 'p mshr_table" where
  "mshr_add block_addr mf mf_is_atomic t =
     (let e = mshr_at block_addr t;
          e1 = e\<lparr>m_list := m_list e @ [mf]\<rparr>;
          e2 = (if mf_is_atomic then e1\<lparr>m_has_atomic := True\<rparr> else e1)
      in t\<lparr>m_data := map_put block_addr e2 (m_data t)\<rparr>)"

definition mshr_next_access :: "u64 \<Rightarrow> 'p mshr_table \<Rightarrow> ('p \<times> 'p mshr_table) res" where
  "mshr_next_access address t =
     (case m_list (mshr_at address t) of
        [] \<Rightarrow> Inl Undefined_Behaviour
      | result # rest \<Rightarrow>
          Inr (result,
            t\<lparr>m_data := (if rest = [] then map_erase address (m_data t)
                        else map_put address ((mshr_at address t)\<lparr>m_list := rest\<rparr>) (m_data t))\<rparr>))"

section \<open>Invariant and abstraction\<close>

text \<open>The abstraction: the requests waiting for each address.\<close>

definition waiting :: "'p mshr_table \<Rightarrow> u64 \<Rightarrow> 'p list" where
  "waiting t a = m_list (mshr_at a t)"

definition wf_mshr :: "'p mshr_table \<Rightarrow> bool" where
  "wf_mshr t \<longleftrightarrow> wf_map (m_data t) \<and> (\<forall>(a, e) \<in> set (m_data t). m_list e \<noteq> [])"

definition mshr_bounded :: "'p mshr_table \<Rightarrow> bool" where
  "mshr_bounded t \<longleftrightarrow>
     length (m_data t) \<le> unat (m_num_entries t) \<and>
     (\<forall>a. length (waiting t a) \<le> unat (m_max_merged t))"

lemma wf_mshr_entry: "wf_mshr t \<Longrightarrow> map_of (m_data t) a = Some e \<Longrightarrow> m_list e \<noteq> []"
  by (auto simp: wf_mshr_def dest!: map_of_SomeD)

lemma mshr_probe_iff: "wf_mshr t \<Longrightarrow> mshr_probe a t \<longleftrightarrow> waiting t a \<noteq> []"
  by (auto simp: mshr_probe_def waiting_def mshr_at_def new_mshr_entry_def
      dest: wf_mshr_entry split: option.splits)

lemma new_mshr_table_wf [simp]: "wf_mshr (new_mshr_table n m)"
  by (simp add: wf_mshr_def new_mshr_table_def)

lemma waiting_new_mshr_table [simp]: "waiting (new_mshr_table n m) = (\<lambda>_. [])"
  by (rule ext) (simp add: waiting_def mshr_at_def new_mshr_table_def new_mshr_entry_def)

lemma mshr_at_put:
  "wf_map (m_data t) \<Longrightarrow>
   mshr_at a (t\<lparr>m_data := map_put b e (m_data t)\<rparr>) = (if a = b then e else mshr_at a t)"
  by (simp add: mshr_at_def map_of_put)

lemma mshr_at_erase:
  "mshr_at a (t\<lparr>m_data := map_erase b (m_data t)\<rparr>) = (if a = b then new_mshr_entry else mshr_at a t)"
  by (simp add: mshr_at_def map_of_erase)

lemma wf_mshr_add [inv_intros]: "wf_mshr t \<Longrightarrow> wf_mshr (mshr_add a p atm t)"
  by (auto simp: wf_mshr_def mshr_add_def Let_def wf_map_put dest!: set_map_put)

lemma waiting_add:
  "wf_mshr t \<Longrightarrow> waiting (mshr_add a p atm t) = (waiting t)(a := waiting t a @ [p])"
  by (rule ext) (auto simp: waiting_def mshr_add_def Let_def wf_mshr_def mshr_at_put)

lemma mshr_add_frame [simp]:
  "m_num_entries (mshr_add a p atm t) = m_num_entries t"
  "m_max_merged (mshr_add a p atm t) = m_max_merged t"
  by (simp_all add: mshr_add_def Let_def)

lemma mshr_next_access_ok:
  assumes "wf_mshr t" and "waiting t a = p # ps"
  shows "\<exists>t'. mshr_next_access a t = Inr (p, t') \<and> wf_mshr t' \<and> waiting t' = (waiting t)(a := ps) \<and>
    m_num_entries t' = m_num_entries t \<and> m_max_merged t' = m_max_merged t \<and>
    length (m_data t') \<le> length (m_data t)"
proof -
  have wm: "wf_map (m_data t)" using assms by (simp add: wf_mshr_def)
  have some: "map_of (m_data t) a \<noteq> None"
    using assms by (auto simp: waiting_def mshr_at_def new_mshr_entry_def split: option.splits)
  show ?thesis
  proof (cases ps)
    case Nil
    with assms wm show ?thesis
      by (auto simp: mshr_next_access_def waiting_def wf_mshr_def mshr_at_erase new_mshr_entry_def
          wf_map_erase set_map_erase length_map_erase_le fun_eq_iff)
  next
    case (Cons q qs)
    with assms wm some show ?thesis
      by (auto simp: mshr_next_access_def waiting_def wf_mshr_def mshr_at_put wf_map_put
          length_map_put fun_eq_iff dest!: set_map_put)
  qed
qed

lemma mshr_next_access_absent: "waiting t a = [] \<Longrightarrow> mshr_next_access a t = Inl Undefined_Behaviour"
  by (simp add: mshr_next_access_def waiting_def)

section \<open>Draining an entry\<close>

text \<open>
  The loop \<open>while (m_mshrs->probe(a)) { mf = m_mshrs->next_access(a); body }\<close> of
  \<open>write_back_request_l2\<close> and \<open>return_l2_miss_to_sms\<close>, whose bodies do not touch the table.
\<close>

lemma mshr_next_access_shrinks:
  "mshr_next_access a t = Inr (p, t') \<Longrightarrow> length (waiting t' a) < length (waiting t a)"
  by (auto simp: mshr_next_access_def waiting_def mshr_at_def new_mshr_entry_def map_of_erase
      split: list.splits if_splits)

function mshr_while ::
  "u64 \<Rightarrow> ('p \<Rightarrow> 's \<Rightarrow> 's res) \<Rightarrow> 'p mshr_table \<Rightarrow> 's \<Rightarrow> ('p mshr_table \<times> 's) res"
where
  "mshr_while a body t s =
     (if mshr_probe a t
      then rbind (mshr_next_access a t) (\<lambda>(p, t').
             rbind (body p s) (\<lambda>s'. mshr_while a body t' s'))
      else Inr (t, s))"
  by pat_completeness auto
termination
  by (relation "measure (\<lambda>(a, body, t, s). length (waiting t a))")
    (auto dest: mshr_next_access_shrinks)

declare mshr_while.simps [simp del]

lemma map_erase_put: "wf_map m \<Longrightarrow> map_erase k (map_put k v m) = map_erase k m"
proof (induction k v m rule: map_put.induct)
  case (2 k v k' v' m)
  then show ?case
    by (auto simp: wf_map_Cons map_erase_def)
qed (simp add: map_erase_def)

lemma mshr_next_access_data:
  "wf_mshr t \<Longrightarrow> mshr_next_access a t = Inr (p, t') \<Longrightarrow>
   t'\<lparr>m_data := map_erase a (m_data t')\<rparr> = t\<lparr>m_data := map_erase a (m_data t)\<rparr>"
  by (auto simp: mshr_next_access_def wf_mshr_def map_erase_put split: list.splits if_splits)
    (simp add: map_erase_def)

lemma mshr_while_fold:
  assumes "wf_mshr t"
  shows "mshr_while a body t s =
    rbind (foldM body (waiting t a) s) (\<lambda>s'. Inr (t\<lparr>m_data := map_erase a (m_data t)\<rparr>, s'))"
  using assms
proof (induction "waiting t a" arbitrary: t s)
  case Nil
  then have "map_of (m_data t) a = None" and "\<not> mshr_probe a t"
    using mshr_probe_iff [of t a] by (auto simp: mshr_probe_def)
  with Nil show ?case
    by (simp add: mshr_while.simps [of a body t s] map_erase_absent)
next
  case (Cons p ps)
  then obtain t' where t': "mshr_next_access a t = Inr (p, t')" "wf_mshr t'" "waiting t' a = ps"
    using mshr_next_access_ok [of t a p ps] by auto
  have "mshr_probe a t" using Cons mshr_probe_iff [of t a] by (metis list.distinct(1))
  then have "mshr_while a body t s = rbind (body p s) (\<lambda>s'. mshr_while a body t' s')"
    using t'(1) by (simp add: mshr_while.simps [of a body t s])
  also have "\<dots> = rbind (body p s) (\<lambda>s'. rbind (foldM body ps s')
      (\<lambda>s''. Inr (t\<lparr>m_data := map_erase a (m_data t)\<rparr>, s'')))"
    using Cons.hyps(1) [of t'] t' mshr_next_access_data [OF Cons.prems t'(1)] by simp
  finally show ?case
    using Cons.hyps(2) [symmetric] by (cases "body p s") auto
qed

lemma mshr_while_invariant:
  assumes "mshr_while a body t s = Inr (t', s')" and "P s"
    and "\<And>p s s'. P s \<Longrightarrow> body p s = Inr s' \<Longrightarrow> P s'"
  shows "P s'"
  using assms
proof (induction a body t s rule: mshr_while.induct)
  case (1 a body t s)
  show ?case
  proof (cases "mshr_probe a t")
    case True
    with "1.prems"(1) obtain p t1 s1 where step: "mshr_next_access a t = Inr (p, t1)"
      and s1: "body p s = Inr s1" and run: "mshr_while a body t1 s1 = Inr (t', s')"
      by (subst (asm) mshr_while.simps) (auto simp: rbind_eq_Inr)
    show ?thesis
      by (rule "1.IH" [OF True step refl s1 run "1.prems"(2) [THEN "1.prems"(3), OF s1] "1.prems"(3)])
  next
    case False
    with "1.prems" show ?thesis by (subst (asm) mshr_while.simps) simp
  qed
qed

section \<open>The contract the caches rely on\<close>

locale miss_table =
  fixes pending :: "'t \<Rightarrow> u64 \<Rightarrow> 'p list"
    and probe :: "u64 \<Rightarrow> 't \<Rightarrow> bool"
    and add :: "u64 \<Rightarrow> 'p \<Rightarrow> bool \<Rightarrow> 't \<Rightarrow> 't"
    and next_access :: "u64 \<Rightarrow> 't \<Rightarrow> ('p \<times> 't) res"
    and tinv :: "'t \<Rightarrow> bool"
  assumes probe_iff: "tinv t \<Longrightarrow> probe a t \<longleftrightarrow> pending t a \<noteq> []"
    and add_inv: "tinv t \<Longrightarrow> tinv (add a p atm t)"
    and pending_add: "tinv t \<Longrightarrow> pending (add a p atm t) = (pending t)(a := pending t a @ [p])"
    and next_ok: "tinv t \<Longrightarrow> pending t a = p # ps \<Longrightarrow>
      \<exists>t'. next_access a t = Inr (p, t') \<and> tinv t' \<and> pending t' = (pending t)(a := ps)"
begin

lemma probe_add: "tinv t \<Longrightarrow> probe a (add a p atm t)"
  by (simp add: probe_iff add_inv pending_add)

lemma probe_add_other: "tinv t \<Longrightarrow> a \<noteq> b \<Longrightarrow> probe b (add a p atm t) = probe b t"
  by (simp add: probe_iff add_inv pending_add)

lemma add_many:
  "tinv t \<Longrightarrow> tinv (fold (\<lambda>(p, atm). add a p atm) ps t) \<and>
   pending (fold (\<lambda>(p, atm). add a p atm) ps t) = (pending t)(a := pending t a @ map fst ps)"
proof (induction ps arbitrary: t)
  case (Cons x ps)
  obtain p atm where x: "x = (p, atm)" by (cases x)
  from Cons.IH [OF add_inv [OF Cons.prems, of a p atm]] show ?case
    by (auto simp: x pending_add [OF Cons.prems] fun_eq_iff)
qed simp

lemma first_in_first_out:
  assumes "tinv t" and "pending t a = []"
  shows "\<exists>t'. next_access a (add a q atm' (add a p atm t)) = Inr (p, t') \<and> pending t' a = [q]"
  using next_ok [of "add a q atm' (add a p atm t)" a p "[q]"] assms
  by (auto simp: pending_add add_inv)

end

interpretation mt: miss_table waiting mshr_probe mshr_add mshr_next_access wf_mshr
proof
  fix t :: "'p mshr_table" and a p ps
  assume "wf_mshr t" "waiting t a = p # ps"
  from mshr_next_access_ok [OF this]
  show "\<exists>t'. mshr_next_access a t = Inr (p, t') \<and> wf_mshr t' \<and> waiting t' = (waiting t)(a := ps)"
    by blast
qed (simp_all add: mshr_probe_iff wf_mshr_add waiting_add)

text \<open>The bounds of the table: when the caches add a request only where \<open>full\<close> says no (as
  their read paths do), there are never more than \<open>m_num_entries\<close> entries, none merges more than
  \<open>m_max_merged\<close> requests, the table stays well formed and the request waits last for its
  address while every other address is undisturbed.\<close>

theorem mshr_add_within_bounds:
  assumes "wf_mshr t" and "mshr_bounded t" and "\<not> mshr_full a t" and "0 < m_max_merged t"
  shows "wf_mshr (mshr_add a p atm t) \<and> mshr_bounded (mshr_add a p atm t) \<and>
    waiting (mshr_add a p atm t) a = waiting t a @ [p] \<and>
    (\<forall>b. b \<noteq> a \<longrightarrow> waiting (mshr_add a p atm t) b = waiting t b)"
proof -
  have wm: "wf_map (m_data t)" using assms(1) by (simp add: wf_mshr_def)
  have len: "length (m_data (mshr_add a p atm t)) =
      (if map_of (m_data t) a = None then Suc (length (m_data t)) else length (m_data t))"
    using wm by (simp add: mshr_add_def Let_def length_map_put)
  have "unat (m_max_merged t) > 0" using assms(4) by (simp add: unat_gt_0 word_gt_0)
  then have "mshr_bounded (mshr_add a p atm t)"
    using assms(2,3) len
    by (auto simp: mshr_bounded_def mshr_full_def waiting_add [OF assms(1)] waiting_def mshr_at_def
        new_mshr_entry_def split: option.splits)
  then show ?thesis
    using assms(1) by (simp add: wf_mshr_add waiting_add)
qed

theorem mshr_add_within_bounds_witness:
  "mshr_bounded (mshr_add 64 (7 :: nat) False (new_mshr_table 2 1))"
  using mshr_add_within_bounds [of "new_mshr_table 2 1" 64 "7 :: nat" False]
  by (simp add: mshr_bounded_def mshr_full_def) (simp add: new_mshr_table_def)

text \<open>C7. Draining: the loop that answers a block's waiting requests ends, runs its body once on
  each of them, oldest first, and releases exactly that entry.\<close>

theorem mshr_while_drains:
  assumes "wf_mshr t" and "foldM body (waiting t a) s = Inr s'"
  shows "\<exists>t'. mshr_while a body t s = Inr (t', s') \<and> wf_mshr t' \<and> \<not> mshr_probe a t' \<and>
    waiting t' = (waiting t)(a := [])"
proof -
  let ?t = "t\<lparr>m_data := map_erase a (m_data t)\<rparr>"
  have wf: "wf_mshr ?t"
    using assms(1) by (auto simp: wf_mshr_def wf_map_erase set_map_erase)
  have "waiting ?t = (waiting t)(a := [])"
    by (rule ext) (simp add: waiting_def mshr_at_erase new_mshr_entry_def)
  moreover have "mshr_while a body t s = Inr (?t, s')"
    by (simp add: mshr_while_fold [OF assms(1)] assms(2))
  moreover have "\<not> mshr_probe a ?t"
    by (simp add: mshr_probe_def map_of_erase)
  ultimately show ?thesis using wf by blast
qed

theorem mshr_while_drains_witness:
  "\<exists>t'. mshr_while 64 (\<lambda>p s. Inr (s @ [p]))
     (mshr_add 64 (9 :: nat) False (mshr_add 64 7 False (new_mshr_table 2 2))) [] = Inr (t', [7, 9])"
proof -
  let ?t = "mshr_add 64 (9 :: nat) False (mshr_add 64 7 False (new_mshr_table 2 2))"
  have "wf_mshr ?t" "foldM (\<lambda>p s. Inr (s @ [p])) (waiting ?t 64) [] = Inr [7, 9]"
    by (simp_all add: wf_mshr_add waiting_add)
  from mshr_while_drains [OF this] show ?thesis by blast
qed

end
