(* ===== verification/Cpp_String.thy ===== *)
theory Cpp_String
  imports Prelude "HOL-Library.Sublist" "HOL-Library.List_Lexorder" "HOL-Library.Char_ord"
begin

text \<open>
  The operations of \<open>std::string\<close> and the number parsers of the C++ standard library that the
  program uses, on character lists.  \<open>None\<close> is \<open>std::string::npos\<close>.  Strings are ordered as
  \<open>std::string::compare\<close> orders them, lexicographically by character code, by the class
  instances of the library theories imported here.
\<close>

section \<open>Characters\<close>

definition is_digit :: "char \<Rightarrow> bool" where
  "is_digit c \<longleftrightarrow> 48 \<le> (of_char c :: nat) \<and> (of_char c :: nat) \<le> 57"

definition digit_val :: "char \<Rightarrow> int" where
  "digit_val c = of_char c - 48"

text \<open>\<open>isspace\<close> in the C locale.\<close>

definition is_space :: "char \<Rightarrow> bool" where
  "is_space c \<longleftrightarrow> (let n = (of_char c :: nat) in n = 32 \<or> (9 \<le> n \<and> n \<le> 13))"

definition hex_val :: "char \<Rightarrow> int option" where
  "hex_val c =
     (let n = (of_char c :: int)
      in if 48 \<le> n \<and> n \<le> 57 then Some (n - 48)
         else if 97 \<le> n \<and> n \<le> 102 then Some (n - 87)
         else if 65 \<le> n \<and> n \<le> 70 then Some (n - 55)
         else None)"

section \<open>Searching\<close>

text \<open>\<open>s.find(p)\<close>: the least position at which \<open>p\<close> occurs.\<close>

fun str_find :: "string \<Rightarrow> string \<Rightarrow> nat option" where
  "str_find p [] = (if p = [] then Some 0 else None)"
| "str_find p (c # s) = (if prefix p (c # s) then Some 0 else map_option Suc (str_find p s))"

definition str_contains :: "string \<Rightarrow> string \<Rightarrow> bool" where
  "str_contains p s \<longleftrightarrow> str_find p s \<noteq> None"

fun find_index :: "('a \<Rightarrow> bool) \<Rightarrow> 'a list \<Rightarrow> nat option" where
  "find_index P [] = None"
| "find_index P (x # xs) = (if P x then Some 0 else map_option Suc (find_index P xs))"

definition find_first_of :: "char list \<Rightarrow> string \<Rightarrow> nat option" where
  "find_first_of cs s = find_index (\<lambda>c. c \<in> set cs) s"

definition find_first_not_of :: "char list \<Rightarrow> string \<Rightarrow> nat option" where
  "find_first_not_of cs s = find_index (\<lambda>c. c \<notin> set cs) s"

definition find_last_not_of :: "char list \<Rightarrow> string \<Rightarrow> nat option" where
  "find_last_not_of cs s =
     map_option (\<lambda>i. length s - Suc i) (find_index (\<lambda>c. c \<notin> set cs) (rev s))"

text \<open>\<open>s.substr(pos, n)\<close>, which throws when \<open>pos\<close> is behind the end.\<close>

definition substr :: "nat \<Rightarrow> nat \<Rightarrow> string \<Rightarrow> string res" where
  "substr pos n s = (if pos \<le> length s then Inr (take n (drop pos s)) else Inl Out_Of_Range)"

lemma str_find_prefix: "str_find p s = Some i \<Longrightarrow> i + length p \<le> length s \<and> prefix p (drop i s)"
proof (induction s arbitrary: i)
  case (Cons c s)
  then show ?case
    by (auto split: if_splits dest: prefix_length_le)
qed (auto split: if_splits)

lemma str_find_least: "str_find p s = Some i \<Longrightarrow> j < i \<Longrightarrow> \<not> prefix p (drop j s)"
proof (induction s arbitrary: i j)
  case (Cons c s)
  then show ?case by (cases j) (auto split: if_splits)
qed (auto split: if_splits)

lemma str_find_None: "str_find p s = None \<Longrightarrow> \<not> prefix p (drop j s)"
proof (induction s arbitrary: j)
  case (Cons c s)
  then show ?case by (cases j) (auto split: if_splits)
qed (auto split: if_splits)

lemma str_contains_iff: "str_contains p s \<longleftrightarrow> sublist p s"
proof
  assume "str_contains p s"
  then obtain i where "str_find p s = Some i" by (auto simp: str_contains_def)
  then have "prefix p (drop i s)" by (simp add: str_find_prefix)
  then obtain t where "drop i s = p @ t" by (auto simp: prefix_def)
  then have "s = take i s @ p @ t" by (metis append_take_drop_id)
  then show "sublist p s" unfolding sublist_def by blast
next
  assume "sublist p s"
  then obtain us vs where "s = us @ p @ vs" by (auto simp: sublist_def)
  then have "prefix p (drop (length us) s)" by simp
  then show "str_contains p s" using str_find_None unfolding str_contains_def by blast
qed

lemma find_index_Some:
  "find_index P xs = Some i \<Longrightarrow> i < length xs \<and> P (xs ! i) \<and> (\<forall>j < i. \<not> P (xs ! j))"
proof (induction xs arbitrary: i)
  case (Cons x xs)
  then show ?case
    by (auto simp: nth_Cons less_Suc_eq_0_disj split: if_splits nat.splits)
qed simp

lemma find_index_None: "find_index P xs = None \<longleftrightarrow> (\<forall>x \<in> set xs. \<not> P x)"
  by (induction xs) auto

lemma find_index_takeWhile:
  "find_index P xs = Some i \<Longrightarrow> take i xs = takeWhile (\<lambda>x. \<not> P x) xs \<and> drop i xs = dropWhile (\<lambda>x. \<not> P x) xs"
  by (induction xs arbitrary: i) (auto split: if_splits)

section \<open>Numbers\<close>

definition strip_sign :: "string \<Rightarrow> bool \<times> string" where
  "strip_sign s =
     (case s of
        [] \<Rightarrow> (False, [])
      | c # t \<Rightarrow> if c = CHR ''-'' then (True, t) else if c = CHR ''+'' then (False, t) else (False, s))"

definition decimal :: "string \<Rightarrow> int" where
  "decimal ds = foldl (\<lambda>v c. 10 * v + digit_val c) 0 ds"

text \<open>\<open>std::stoi(s)\<close>: white space, a sign and at least one digit; what follows is ignored.\<close>

definition stoi :: "string \<Rightarrow> int res" where
  "stoi s =
     (let (neg, t) = strip_sign (dropWhile is_space s);
          ds = takeWhile is_digit t;
          v = (if neg then - decimal ds else decimal ds)
      in if ds = [] then Inl Invalid_Argument
         else if - (2 ^ 31) \<le> v \<and> v < 2 ^ 31 then Inr v
         else Inl Out_Of_Range)"

text \<open>\<open>strtoll(s, &stop, 16)\<close>, which clamps at the range of \<open>long long\<close> and reads a string
  without digits as 0.\<close>

fun hex_digits :: "string \<Rightarrow> int \<Rightarrow> int" where
  "hex_digits [] v = v"
| "hex_digits (c # s) v = (case hex_val c of None \<Rightarrow> v | Some d \<Rightarrow> hex_digits s (16 * v + d))"

definition strip_0x :: "string \<Rightarrow> string" where
  "strip_0x s =
     (case s of
        z # x # d # t \<Rightarrow>
          if z = CHR ''0'' \<and> (x = CHR ''x'' \<or> x = CHR ''X'') \<and> hex_val d \<noteq> None then d # t else s
      | _ \<Rightarrow> s)"

definition strtoll16 :: "string \<Rightarrow> int" where
  "strtoll16 s =
     (let (neg, t) = strip_sign (dropWhile is_space s);
          v = hex_digits (strip_0x t) 0
      in if neg then max (- (2 ^ 63)) (- v) else min (2 ^ 63 - 1) v)"

section \<open>Streams\<close>

text \<open>The words \<open>is >> str\<close> reads one after the other.\<close>

function words :: "string \<Rightarrow> string list" where
  "words s =
     (let t = dropWhile is_space s
      in if t = [] then [] else takeWhile (\<lambda>c. \<not> is_space c) t # words (dropWhile (\<lambda>c. \<not> is_space c) t))"
  by pat_completeness auto
termination
proof (relation "measure length")
  fix s t :: string
  assume t: "t = dropWhile is_space s" and ne: "t \<noteq> []"
  then have "\<not> is_space (hd t)" by (simp add: hd_dropWhile)
  with ne have "length (dropWhile (\<lambda>c. \<not> is_space c) t) < length t"
    by (cases t) (auto simp: le_imp_less_Suc length_dropWhile_le)
  also have "length t \<le> length s" by (simp add: t length_dropWhile_le)
  finally show "(dropWhile (\<lambda>c. \<not> is_space c) t, s) \<in> measure length" by simp
qed simp

declare words.simps [simp del]

text \<open>The lines \<open>std::getline\<close> delivers until it fails, the last one with or without a newline.\<close>

function file_lines :: "string \<Rightarrow> string list" where
  "file_lines s =
     (if s = [] then []
      else takeWhile (\<lambda>c. c \<noteq> CHR 0x0A) s # file_lines (tl (dropWhile (\<lambda>c. c \<noteq> CHR 0x0A) s)))"
  by pat_completeness auto
termination
proof (relation "measure length")
  fix s :: string
  assume "s \<noteq> []"
  then have "length (tl (dropWhile (\<lambda>c. c \<noteq> CHR 0x0A) s)) < length s"
    using length_dropWhile_le [of "\<lambda>c. c \<noteq> CHR 0x0A" s] by (cases s) (auto simp: le_imp_less_Suc)
  then show "(tl (dropWhile (\<lambda>c. c \<noteq> CHR 0x0A) s), s) \<in> measure length" by simp
qed simp

declare file_lines.simps [simp del]

text \<open>
  An input stream: what is left to read and the flag \<open>eofbit\<close>.  \<open>std::getline\<close> on a stream that
  has already reached its end fails and leaves the string alone; a first failure empties it.
\<close>

record istream =
  stream_rest :: string
  stream_eof :: bool

definition open_stream :: "string \<Rightarrow> istream" where
  "open_stream s = \<lparr>stream_rest = s, stream_eof = False\<rparr>"

definition getline :: "istream \<Rightarrow> string \<Rightarrow> bool \<times> string \<times> istream" where
  "getline st str =
     (if stream_eof st then (False, str, st)
      else if stream_rest st = [] then (False, [], st\<lparr>stream_eof := True\<rparr>)
      else
        (let line = takeWhile (\<lambda>c. c \<noteq> CHR 0x0A) (stream_rest st);
             rest = dropWhile (\<lambda>c. c \<noteq> CHR 0x0A) (stream_rest st)
         in (True, line, \<lparr>stream_rest = tl rest, stream_eof = (rest = [])\<rparr>)))"

lemma getline_shrinks:
  "getline st str = (True, line, st') \<Longrightarrow> length (stream_rest st') < length (stream_rest st)"
proof -
  assume g: "getline st str = (True, line, st')"
  then have ne: "stream_rest st \<noteq> []" by (auto simp: getline_def split: if_splits)
  have "length (tl (dropWhile (\<lambda>c. c \<noteq> CHR 0x0A) (stream_rest st))) < length (stream_rest st)"
    using ne length_dropWhile_le [of "\<lambda>c. c \<noteq> CHR 0x0A" "stream_rest st"]
    by (cases "stream_rest st") (auto simp: le_imp_less_Suc)
  then show ?thesis using g by (auto simp: getline_def Let_def split: if_splits)
qed

lemma words_more:
  assumes "dropWhile is_space s = t" and "t \<noteq> []"
  shows "words s = takeWhile (\<lambda>c. \<not> is_space c) t # words (dropWhile (\<lambda>c. \<not> is_space c) t)"
  using assms(2) by (subst words.simps) (simp only: assms(1) Let_def if_False)

lemma words_done: "dropWhile is_space s = [] \<Longrightarrow> words s = []"
  by (subst words.simps) (simp only: Let_def if_True simp_thms)

lemma words_non_space: "w \<in> set (words s) \<Longrightarrow> w \<noteq> [] \<and> (\<forall>c \<in> set w. \<not> is_space c)"
proof (induction s rule: words.induct)
  case (1 s)
  let ?t = "dropWhile is_space s"
  show ?case
  proof (cases "?t = []")
    case True
    with "1.prems" show ?thesis by (simp add: words_done del: dropWhile_eq_Nil_conv)
  next
    case False
    then have hd: "\<not> is_space (hd ?t)" by (simp add: hd_dropWhile)
    from "1.prems" False consider "w = takeWhile (\<lambda>c. \<not> is_space c) ?t"
      | "w \<in> set (words (dropWhile (\<lambda>c. \<not> is_space c) ?t))"
      unfolding words_more [OF refl False] by auto
    then show ?thesis
    proof cases
      case 1
      with hd False show ?thesis by (cases ?t) (auto dest: set_takeWhileD)
    next
      case 2
      with "1.IH" [OF refl False] show ?thesis by simp
    qed
  qed
qed

text \<open>Words separated by blanks are read back.\<close>

abbreviation no_space :: "string \<Rightarrow> bool" where
  "no_space \<equiv> list_all (\<lambda>c. \<not> is_space c)"

lemma space_is_space: "is_space (CHR '' '')"
  by (simp add: is_space_def)

lemma dropWhile_space_word:
  assumes "no_space w" "w \<noteq> []"
  shows "dropWhile is_space (w @ s) = w @ s"
  using assms by (cases w) auto

fun unwords :: "string list \<Rightarrow> string" where
  "unwords [] = []"
| "unwords [w] = w"
| "unwords (w # ws) = w @ CHR '' '' # unwords ws"

lemma words_skip: "is_space c \<Longrightarrow> words (c # s) = words s"
  by (subst (1 2) words.simps) simp

lemma words_word:
  assumes "no_space w" "w \<noteq> []"
  shows "words w = [w]" "words (w @ CHR '' '' # s) = w # words s"
proof -
  have w: "dropWhile is_space (w @ u) = w @ u" "dropWhile is_space w = w" for u
    using dropWhile_space_word [OF assms, of u] dropWhile_space_word [OF assms, of "[]"] by simp_all
  have t: "takeWhile (\<lambda>c. \<not> is_space c) w = w" "dropWhile (\<lambda>c. \<not> is_space c) w = []"
    using assms(1) by (simp_all add: takeWhile_eq_all_conv list_all_iff)
  show "words w = [w]"
    using words_more [OF w(2) assms(2)] t by (simp add: words_done)
  have "takeWhile (\<lambda>c. \<not> is_space c) (w @ CHR '' '' # s) = w"
    "dropWhile (\<lambda>c. \<not> is_space c) (w @ CHR '' '' # s) = CHR '' '' # s"
    using assms(1) by (simp_all add: takeWhile_append2 dropWhile_append2 list_all_iff space_is_space)
  then show "words (w @ CHR '' '' # s) = w # words s"
    using words_more [OF w(1) [of "CHR '' '' # s"]] words_skip [OF space_is_space, of s] by simp
qed

lemma words_unwords:
  assumes "list_all (\<lambda>w. no_space w \<and> w \<noteq> []) ws"
  shows "words (unwords ws) = ws"
  using assms by (induction ws rule: unwords.induct) (simp_all add: words_word words_done)

lemma file_lines_line:
  assumes "CHR 0x0A \<notin> set l"
  shows "file_lines (l @ CHR 0x0A # s) = l # file_lines s"
proof -
  have "\<And>c. c \<in> set l \<Longrightarrow> c \<noteq> CHR 0x0A" using assms by auto
  then show ?thesis by (subst file_lines.simps) (simp add: takeWhile_append2 dropWhile_append2)
qed

end
