(* ===== verification/Config_Reader.thy ===== *)
theory Config_Reader
  imports Cpp_String Cpp_Containers
begin

text \<open>
  The configuration, \<^verbatim>\<open>config_reader.h\<close> and \<^verbatim>\<open>config_reader.cpp\<close>: the maps of
  \<open>gpu_config\<close>, the readers of single values the other components use, and the parser of
  \<^verbatim>\<open>gpu.config\<close> and \<^verbatim>\<open>gpu_isa_latency.config\<close>.
\<close>

section \<open>The configuration\<close>

record gpu_config =
  m_gpu_config :: "(string, string) std_map"
  m_sm_pipeline_units :: "(string, int) std_map"
  m_compute_capability :: "(string, int) std_map"
  l1_cache_config :: "(string, string) std_map"
  l2_cache_config :: "(string, string) std_map"
  memory_config_map :: "(string, int) std_map"
  gpu_isa_latency :: "(string, int \<times> string) std_map"

definition empty_gpu_config :: gpu_config where
  "empty_gpu_config =
     \<lparr>m_gpu_config = [], m_sm_pipeline_units = [], m_compute_capability = [],
      l1_cache_config = [], l2_cache_config = [], memory_config_map = [], gpu_isa_latency = []\<rparr>"

text \<open>
  \<open>m["key"]\<close> of a map of strings: a missing key reads as the empty string, which
  \<open>std::stoi\<close> rejects.  (The read also inserts the key with an empty value; nothing observes
  that, since no code iterates over these maps and the one \<open>find\<close>, of \<open>l1_hit_latency\<close>, could
  only differ after a \<open>stoi\<close> of that empty value, which has ended the program.)
\<close>

definition map_get_str :: "(string, string) std_map \<Rightarrow> string \<Rightarrow> string" where
  "map_get_str m k = (case map_of m k of None \<Rightarrow> '''' | Some v \<Rightarrow> v)"

definition cfg_int :: "gpu_config \<Rightarrow> string \<Rightarrow> int res" where
  "cfg_int c k = stoi (map_get_str (m_gpu_config c) k)"

lemma stoi_empty: "stoi [] = Inl Invalid_Argument"
  by (simp add: stoi_def strip_sign_def)

lemma cfg_int_missing: "map_of (m_gpu_config c) k = None \<Longrightarrow> cfg_int c k = Inl Invalid_Argument"
  by (simp add: cfg_int_def map_get_str_def stoi_empty)

section \<open>The parser\<close>

definition blanks :: "char list" where
  "blanks = [CHR '' '', CHR 0x09, CHR 0x0D, CHR 0x0A]"

definition trim_copy :: "string \<Rightarrow> string" where
  "trim_copy s =
     (case (find_first_not_of blanks s, find_last_not_of blanks s) of
        (Some i, Some j) \<Rightarrow> take (j - i + 1) (drop i s)
      | _ \<Rightarrow> [])"

definition starts_with :: "string \<Rightarrow> string \<Rightarrow> bool" where
  "starts_with p s \<longleftrightarrow> take (length p) s = p"

definition normalize_section_key :: "string \<Rightarrow> string" where
  "normalize_section_key s =
     (let trimmed = trim_copy s
      in if starts_with ''##'' trimmed \<and> trimmed \<noteq> ''####''
         then ''##'' @ trim_copy (drop 2 trimmed) else trimmed)"

text \<open>The two parts around the first occurrence of the pattern; \<open>str2\<close> keeps its value when there
  is no second part.\<close>

definition config_split :: "string \<Rightarrow> string \<Rightarrow> string \<Rightarrow> string \<Rightarrow> string \<times> string" where
  "config_split str pattern str1 str2 =
     (let strs = str @ pattern in
      case str_find pattern strs of
        None \<Rightarrow> (str1, str2)
      | Some pos \<Rightarrow>
          (let str1 = take pos strs; strs = drop (pos + 1) strs in
           case str_find pattern strs of
             None \<Rightarrow> (str1, str2)
           | Some pos \<Rightarrow> (str1, take pos strs)))"

text \<open>The locals of \<open>read_config\<close> that its inner loops share.\<close>

record reader =
  rd_stream :: istream
  rd_line :: string
  rd_key :: string
  rd_value :: string

definition split_line :: "reader \<Rightarrow> reader" where
  "split_line r =
     (let (k, v) = config_split (rd_line r) '':'' (rd_key r) (rd_value r)
      in r\<lparr>rd_key := normalize_section_key k, rd_value := trim_copy v\<rparr>)"

text \<open>\<open>getline; trim; config_split; normalize; trim\<close>, whatever \<open>getline\<close> returned.\<close>

definition next_entry :: "reader \<Rightarrow> reader" where
  "next_entry r =
     (let (_, line, st) = getline (rd_stream r) (rd_line r)
      in split_line (r\<lparr>rd_stream := st, rd_line := trim_copy line\<rparr>))"

text \<open>
  The loop of a section: it stops only at a line that starts with \<open>##\<close>, so it may not return,
  which is the value \<open>None\<close>.
\<close>

partial_function (option) section_loop ::
  "(string \<Rightarrow> string \<Rightarrow> gpu_config \<Rightarrow> gpu_config res) \<Rightarrow> reader \<Rightarrow> gpu_config \<Rightarrow>
   (reader \<times> gpu_config) res option"
where
  "section_loop ins r c =
     (if starts_with ''##'' (rd_line r) then Some (Inr (r, c))
      else case ins (rd_key r) (rd_value r) c of
             Inl e \<Rightarrow> Some (Inl e)
           | Inr c' \<Rightarrow> section_loop ins (next_entry r) c')"

text \<open>\<open>try { insert(key, stoi(value)) } catch (invalid_argument) {}\<close>\<close>

definition insert_int ::
  "(((string, int) std_map \<Rightarrow> (string, int) std_map) \<Rightarrow> gpu_config \<Rightarrow> gpu_config) \<Rightarrow>
   string \<Rightarrow> string \<Rightarrow> gpu_config \<Rightarrow> gpu_config res"
where
  "insert_int upd k v c =
     (case stoi v of
        Inr n \<Rightarrow> Inr (upd (map_insert k n) c)
      | Inl e \<Rightarrow> if e = Invalid_Argument then Inr c else Inl e)"

definition insert_str ::
  "(((string, string) std_map \<Rightarrow> (string, string) std_map) \<Rightarrow> gpu_config \<Rightarrow> gpu_config) \<Rightarrow>
   string \<Rightarrow> string \<Rightarrow> gpu_config \<Rightarrow> gpu_config res"
where
  "insert_str upd k v c = Inr (upd (map_insert k v) c)"

definition section_if ::
  "string \<Rightarrow> (string \<Rightarrow> string \<Rightarrow> gpu_config \<Rightarrow> gpu_config res) \<Rightarrow> reader \<times> gpu_config \<Rightarrow>
   (reader \<times> gpu_config) res option"
where
  "section_if name ins = (\<lambda>(r, c).
     if rd_key r = name then section_loop ins (next_entry r) c else Some (Inr (r, c)))"

text \<open>The latency table: lines of opcode, latency and unit up to a line that starts with \<open>####\<close>.\<close>

definition isa_entry :: "string \<Rightarrow> gpu_config \<Rightarrow> gpu_config res" where
  "isa_entry line c =
     (case words line of
        opcode # latency_t # unit # _ \<Rightarrow>
          rbind (if latency_t = ''-'' then Inr (-1)
                 else case stoi latency_t of
                        Inl e \<Rightarrow> if e = Invalid_Argument then Inr 1 else Inl e | Inr n \<Rightarrow> Inr n)
            (\<lambda>latency. Inr (c\<lparr>gpu_isa_latency := map_insert opcode (latency, unit) (gpu_isa_latency c)\<rparr>))
      | _ \<Rightarrow> Inr c)"

function isa_loop :: "reader \<Rightarrow> gpu_config \<Rightarrow> (reader \<times> gpu_config) res" where
  "isa_loop r c =
     (let (ok, line, st) = getline (rd_stream r) (rd_line r) in
      if \<not> ok then Inr (r\<lparr>rd_stream := st, rd_line := line\<rparr>, c)
      else
        (let line = trim_copy line; r' = r\<lparr>rd_stream := st, rd_line := line\<rparr> in
         if line = [] then isa_loop r' c
         else if hd line = CHR ''/'' then isa_loop r' c
         else if starts_with ''####'' line then Inr (r', c)
         else if starts_with ''##'' line then isa_loop r' c
         else rbind (isa_entry line c) (isa_loop r')))"
  by pat_completeness auto
termination
  by (relation "measure (\<lambda>(r, c). length (stream_rest (rd_stream r)))")
    (auto dest!: getline_shrinks [OF sym])

declare isa_loop.simps [simp del]

definition obind :: "'a res option \<Rightarrow> ('a \<Rightarrow> 'b res option) \<Rightarrow> 'b res option" where
  "obind m f = (case m of None \<Rightarrow> None | Some (Inl e) \<Rightarrow> Some (Inl e) | Some (Inr x) \<Rightarrow> f x)"

text \<open>What follows \<open>config_split\<close> in the body of the outer loop.\<close>

definition config_sections :: "reader \<times> gpu_config \<Rightarrow> (reader \<times> gpu_config) res option" where
  "config_sections s =
     obind (section_if ''##pipeline_units''
              (insert_int (\<lambda>f c. c\<lparr>m_sm_pipeline_units := f (m_sm_pipeline_units c)\<rparr>)) s) (\<lambda>s.
     obind (section_if ''##compute_capability''
              (insert_int (\<lambda>f c. c\<lparr>m_compute_capability := f (m_compute_capability c)\<rparr>)) s) (\<lambda>s.
     obind (section_if ''##l1_cache_config''
              (insert_str (\<lambda>f c. c\<lparr>l1_cache_config := f (l1_cache_config c)\<rparr>)) s) (\<lambda>s.
     obind (section_if ''##l2_cache_config''
              (insert_str (\<lambda>f c. c\<lparr>l2_cache_config := f (l2_cache_config c)\<rparr>)) s) (\<lambda>s.
     obind (section_if ''##memory_config''
              (insert_int (\<lambda>f c. c\<lparr>memory_config_map := f (memory_config_map c)\<rparr>)) s) (\<lambda>(r, c).
     obind (if rd_key r = ''##gpu_isa_latency''
            then Some (rbind (isa_loop r c) (\<lambda>(r, c). Inr (r\<lparr>rd_key := ''####''\<rparr>, c)))
            else Some (Inr (r, c))) (\<lambda>(r, c).
     Some (Inr (r, if rd_key r \<noteq> ''####'' \<and> rd_key r \<noteq> []
                   then c\<lparr>m_gpu_config := map_insert (rd_key r) (rd_value r) (m_gpu_config c)\<rparr>
                   else c))))))))"

definition known_section :: "string \<Rightarrow> bool" where
  "known_section k \<longleftrightarrow>
     k \<in> {''##pipeline_units'', ''##compute_capability'', ''##l1_cache_config'',
          ''##l2_cache_config'', ''##memory_config'', ''##gpu_isa_latency'', ''####''}"

partial_function (option) config_loop ::
  "istream \<Rightarrow> string \<Rightarrow> gpu_config \<Rightarrow> gpu_config res option"
where
  "config_loop st line c =
     (case getline st line of
        (ok, line, st) \<Rightarrow>
          if \<not> ok then Some (Inr c)
          else if trim_copy line = [] \<or> starts_with ''//'' (trim_copy line) \<or>
             (starts_with ''##'' (trim_copy line) \<and>
              \<not> known_section (normalize_section_key (trim_copy line)))
          then config_loop st (trim_copy line) c
          else
            (case config_sections (split_line \<lparr>rd_stream = st, rd_line = trim_copy line,
                     rd_key = [], rd_value = []\<rparr>, c) of
               None \<Rightarrow> None
             | Some rc \<Rightarrow>
                 (case rc of
                    Inl e \<Rightarrow> Some (Inl e)
                  | Inr (r, c) \<Rightarrow> config_loop (rd_stream r) (rd_line r) c)))"

declare section_loop.simps [code] config_loop.simps [code]

definition read_config :: "string \<Rightarrow> gpu_config \<Rightarrow> gpu_config res option" where
  "read_config content c = config_loop (open_stream content) [] c"

text \<open>\<open>read_m_config\<close>, on the contents of the two files.\<close>

definition read_m_config :: "string \<Rightarrow> string \<Rightarrow> gpu_config \<Rightarrow> gpu_config res option" where
  "read_m_config gpu_file latency_file c = obind (read_config gpu_file c) (read_config latency_file)"

end
