(* ===== verification/Cache_Config.thy ===== *)
theory Cache_Config
  imports Config_Reader Mem_Fetch
begin

text \<open>
  Cache geometry, \<open>cache_config\<close> of \<^verbatim>\<open>cache.h\<close> and \<^verbatim>\<open>cache.cpp\<close>: the constructor,
  the base-two logarithm, the alignment of addresses to lines and sectors, and the two functions
  that map an address to a set.
\<close>

section \<open>Base-two logarithm\<close>

definition LOGB2 :: "u32 \<Rightarrow> u32" where
  "LOGB2 v =
     (let r = 0;
          shift = push_bit 4 (of_bool (v AND 0xFFFF0000 \<noteq> 0));
          v = drop_bit (unat shift) v; r = r OR shift;
          shift = push_bit 3 (of_bool (v AND 0xFF00 \<noteq> 0));
          v = drop_bit (unat shift) v; r = r OR shift;
          shift = push_bit 2 (of_bool (v AND 0xF0 \<noteq> 0));
          v = drop_bit (unat shift) v; r = r OR shift;
          shift = push_bit 1 (of_bool (v AND 0xC \<noteq> 0));
          v = drop_bit (unat shift) v; r = r OR shift;
          shift = push_bit 0 (of_bool (v AND 0x2 \<noteq> 0));
          v = drop_bit (unat shift) v; r = r OR shift
      in r)"

lemma unat_drop_bit: "unat (drop_bit n (x :: u32)) = unat x div 2 ^ n"
  by (subst unat_drop_bit_eq) (rule drop_bit_eq_div)

lemma drop_bit_eq_0_word: "drop_bit n (x :: u32) = 0 \<longleftrightarrow> unat x < 2 ^ n"
proof -
  have "drop_bit n x = 0 \<longleftrightarrow> unat (drop_bit n x) = 0" by (rule unsigned_eq_0_iff [symmetric])
  also have "\<dots> \<longleftrightarrow> unat x div 2 ^ n = 0" by (simp only: unat_drop_bit)
  also have "\<dots> \<longleftrightarrow> unat x < 2 ^ n" by (simp add: div_eq_0_iff)
  finally show ?thesis .
qed

lemma unat_less_bits: "unat (x :: u32) < 2 ^ n \<longleftrightarrow> (\<forall>k \<ge> n. \<not> bit x k)"
proof
  assume "unat x < 2 ^ n"
  then have zero: "drop_bit n x = 0" by (simp only: drop_bit_eq_0_word)
  show "\<forall>k \<ge> n. \<not> bit x k"
  proof (intro allI impI)
    fix k assume "n \<le> k"
    then have "bit x k = bit (drop_bit n x) (k - n)" by (simp only: bit_drop_bit_eq o_def) simp
    then show "\<not> bit x k" unfolding zero by simp
  qed
next
  assume "\<forall>k \<ge> n. \<not> bit x k"
  then have "drop_bit n x = 0" by (intro bit_eqI) (simp add: bit_simps)
  then show "unat x < 2 ^ n" by (simp only: drop_bit_eq_0_word)
qed

lemma high_half_nonzero:
  assumes "unat (x :: u32) < 2 ^ (n + n)" and "c = push_bit n (mask n)"
  shows "x AND c \<noteq> 0 \<longleftrightarrow> 2 ^ n \<le> unat x"
proof -
  have "x AND c \<noteq> 0 \<longleftrightarrow> (\<exists>k. bit (x AND c) k)"
  proof
    assume "x AND c \<noteq> 0"
    then show "\<exists>k. bit (x AND c) k" using bit_eqI [of "x AND c" 0] by (metis bit_0_eq bot_apply bot_bool_def)
  qed (metis bit_0_eq bot_apply bot_bool_def)
  also have "\<dots> \<longleftrightarrow> (\<exists>k. n \<le> k \<and> bit x k)"
  proof -
    have "bit (x AND c) k \<longleftrightarrow> n \<le> k \<and> bit x k" for k
    proof -
      have "bit x k \<Longrightarrow> k < n + n \<and> k < 32"
        using assms(1) bit_imp_le_length [of x k] unat_less_bits [of x "n + n"] leI by auto
      then show ?thesis by (auto simp: assms(2) bit_simps)
    qed
    then show ?thesis by simp
  qed
  also have "\<dots> \<longleftrightarrow> 2 ^ n \<le> unat x"
    using unat_less_bits [of x n] by (auto simp: not_less)
  finally show ?thesis .
qed

text \<open>One stage halves the range in which the value lies and remembers how far it shifted.\<close>

definition log_stage :: "nat \<Rightarrow> u32 \<Rightarrow> u32 \<times> u32" where
  "log_stage j x =
     (let shift = push_bit j (of_bool (x AND push_bit (2 ^ j) (mask (2 ^ j)) \<noteq> 0))
      in (shift, drop_bit (unat shift) x))"

lemma log_stage_correct:
  assumes "log_stage j x = (shift, y)" and "0 < unat x" and "unat x < 2 ^ 2 ^ Suc j" and "j < 5"
  shows "0 < unat y \<and> unat y < 2 ^ 2 ^ j \<and> unat y = unat x div 2 ^ unat shift \<and>
    (shift = 0 \<or> shift = push_bit j 1)"
proof -
  let ?b = "x AND push_bit (2 ^ j) (mask (2 ^ j)) \<noteq> 0"
  have b: "?b \<longleftrightarrow> 2 ^ 2 ^ j \<le> unat x"
    using assms(3) by (intro high_half_nonzero refl) (simp add: power_add [symmetric] mult_2)
  have s: "shift = (if ?b then push_bit j 1 else 0)" and y: "y = drop_bit (unat shift) x"
    using assms(1) by (auto simp: log_stage_def Let_def)
  have sj: "unat (push_bit j 1 :: u32) = 2 ^ j"
  proof -
    have "j = 0 \<or> j = 1 \<or> j = 2 \<or> j = 3 \<or> j = 4" using assms(4) by linarith
    then show ?thesis by auto
  qed
  have yv: "unat y = unat x div 2 ^ unat shift"
    unfolding y by (rule unat_drop_bit)
  show ?thesis
  proof (cases ?b)
    case True
    with s sj yv have "unat y = unat x div 2 ^ 2 ^ j" by simp
    moreover have "unat x < 2 ^ 2 ^ j * 2 ^ 2 ^ j"
      using assms(3) by (simp add: power_add [symmetric] mult_2)
    ultimately have "0 < unat y" "unat y < 2 ^ 2 ^ j"
      using True b by (simp_all add: div_greater_zero_iff less_mult_imp_div_less)
    with yv s True show ?thesis by simp
  next
    case False
    with s yv b assms(2) show ?thesis by simp
  qed
qed

lemma LOGB2_stages:
  "LOGB2 v =
     (let (s4, v) = log_stage 4 v; (s3, v) = log_stage 3 v; (s2, v) = log_stage 2 v;
          (s1, v) = log_stage 1 v; (s0, v) = log_stage 0 v
      in ((((0 OR s4) OR s3) OR s2) OR s1) OR s0)"
proof -
  have m: "push_bit (2 ^ 4) (mask (2 ^ 4)) = (0xFFFF0000 :: u32)"
    "push_bit (2 ^ 3) (mask (2 ^ 3)) = (0xFF00 :: u32)"
    "push_bit (2 ^ 2) (mask (2 ^ 2)) = (0xF0 :: u32)"
    "push_bit (2 ^ 1) (mask (2 ^ 1)) = (0xC :: u32)"
    "push_bit (2 ^ 0) (mask (2 ^ 0)) = (0x2 :: u32)"
    by (simp_all add: mask_eq_exp_minus_1)
  show ?thesis
    unfolding LOGB2_def log_stage_def Let_def m prod.case by (rule refl)
qed

lemma LOGB2_bounds:
  assumes "v \<noteq> 0"
  shows "2 ^ unat (LOGB2 v) \<le> unat v \<and> unat v < 2 ^ Suc (unat (LOGB2 v))"
proof -
  obtain s4 v4 s3 v3 s2 v2 s1 v1 s0 v0 where st: "log_stage 4 v = (s4, v4)"
    "log_stage 3 v4 = (s3, v3)" "log_stage 2 v3 = (s2, v2)" "log_stage 1 v2 = (s1, v1)"
    "log_stage 0 v1 = (s0, v0)" by (metis surj_pair)
  have v: "0 < unat v" "unat v < 2 ^ 2 ^ Suc 4"
    using assms unsigned_less [of v] by (simp_all add: unat_gt_0)
  note c4 = log_stage_correct [OF st(1) v]
  have v4: "0 < unat v4" "unat v4 < 2 ^ 2 ^ Suc 3" using c4 by simp_all
  note c3 = log_stage_correct [OF st(2) v4]
  have v3: "0 < unat v3" "unat v3 < 2 ^ 2 ^ Suc 2" using c3 by simp_all
  note c2 = log_stage_correct [OF st(3) v3]
  have v2: "0 < unat v2" "unat v2 < 2 ^ 2 ^ Suc 1" using c2 by simp_all
  note c1 = log_stage_correct [OF st(4) v2]
  have v1: "0 < unat v1" "unat v1 < 2 ^ 2 ^ Suc 0" using c1 by simp_all
  note c0 = log_stage_correct [OF st(5) v1]
  let ?r = "unat s4 + unat s3 + unat s2 + unat s1 + unat s0"
  have r: "unat (LOGB2 v) = ?r"
  proof -
    have "LOGB2 v = ((((0 OR s4) OR s3) OR s2) OR s1) OR s0"
      unfolding LOGB2_stages st Let_def prod.case ..
    moreover have "s4 = 0 \<or> s4 = 16" "s3 = 0 \<or> s3 = 8" "s2 = 0 \<or> s2 = 4" "s1 = 0 \<or> s1 = 2"
      "s0 = 0 \<or> s0 = 1"
      using c4 c3 c2 c1 c0 by auto
    ultimately show ?thesis by (elim disjE) simp_all
  qed
  have "unat v0 = 1" using c0 by simp
  moreover have "unat v0 = unat v div 2 ^ ?r"
    using c4 c3 c2 c1 c0 by (simp add: power_add div_mult2_eq)
  ultimately have "unat v div 2 ^ ?r = 1" by simp
  then have "unat v = 2 ^ ?r * 1 + unat v mod 2 ^ ?r" by (metis mult_div_mod_eq)
  moreover have "unat v mod 2 ^ ?r < 2 ^ ?r" by simp
  ultimately have "2 ^ ?r \<le> unat v" "unat v < 2 ^ ?r * 2" by linarith+
  then show ?thesis by (simp add: r)
qed

text \<open>\<open>LOGB2\<close>, the branch-free bit trick, is the floor of the base-two logarithm on every
  nonzero 32-bit value.\<close>

theorem LOGB2_correct:
  assumes "v \<noteq> 0"
  shows "2 ^ unat (LOGB2 v) \<le> unat v \<and> unat v < 2 ^ Suc (unat (LOGB2 v))"
  using assms by (rule LOGB2_bounds)

theorem LOGB2_correct_witness:
  "2 ^ unat (LOGB2 128) \<le> unat (128 :: u32) \<and> unat (128 :: u32) < 2 ^ Suc (unat (LOGB2 128))"
  using LOGB2_correct [of 128] by simp

section \<open>The configuration of a cache\<close>

datatype set_index_function = LINEAR_SET_FUNCTION | BITWISE_XORING_FUNCTION | HASH_IPOLY_FUNCTION

definition MAX_DEFAULT_CACHE_SIZE_MULTIBLIER :: int where
  "MAX_DEFAULT_CACHE_SIZE_MULTIBLIER = 4"

definition MAX_WARP_PER_SM :: int where
  "MAX_WARP_PER_SM = 64"

definition SECTOR_CHUNCK_SIZE :: nat where
  "SECTOR_CHUNCK_SIZE = 4"

record cache_config =
  m_sector_cache :: bool
  m_n_banks :: int
  m_n_sets :: int
  m_line_size :: int
  m_assoc :: int
  m_replacement_policy :: string
  m_write_policy :: string
  m_alloc_policy :: string
  m_write_alloc_policy :: string
  m_set_index_function :: set_index_function
  m_mshr_type :: string
  m_mshr_entries :: int
  m_mshr_max_merge :: int
  m_is_streaming :: bool
  m_atom_size :: int

definition new_cache_config ::
  "bool \<Rightarrow> int \<Rightarrow> int \<Rightarrow> int \<Rightarrow> int \<Rightarrow> string \<Rightarrow> string \<Rightarrow> string \<Rightarrow> string \<Rightarrow> string \<Rightarrow> string \<Rightarrow>
   int \<Rightarrow> int \<Rightarrow> bool \<Rightarrow> cache_config res"
where
  "new_cache_config secter_cache n_banks n_sets line_size assoc replacement_policy write_policy
      alloc_policy write_alloc_policy set_index_fn mshr_type mshr_entries mshr_max_merge
      is_streaming =
    rbind (if set_index_fn = ''LINEAR_SET_FUNCTION'' then Inr LINEAR_SET_FUNCTION
           else if set_index_fn = ''HASH_IPOLY_FUNCTION'' then Inr HASH_IPOLY_FUNCTION
           else Inl Aborted)
      (\<lambda>fn. let streaming = (alloc_policy = ''STREAMING'') in
        Inr \<lparr>m_sector_cache = secter_cache, m_n_banks = n_banks, m_n_sets = n_sets,
             m_line_size = line_size, m_assoc = assoc, m_replacement_policy = replacement_policy,
             m_write_policy = write_policy,
             m_alloc_policy = (if streaming then ''ON FILL'' else alloc_policy),
             m_write_alloc_policy = write_alloc_policy, m_set_index_function = fn,
             m_mshr_type = mshr_type,
             m_mshr_entries =
               (if streaming
                then n_sets * assoc * MAX_DEFAULT_CACHE_SIZE_MULTIBLIER * int SECTOR_CHUNCK_SIZE
                else mshr_entries),
             m_mshr_max_merge = (if streaming then MAX_WARP_PER_SM else mshr_max_merge),
             m_is_streaming = is_streaming,
             m_atom_size = (if secter_cache then uint SECTOR_SIZE else line_size)\<rparr>)"

definition tag :: "cache_config \<Rightarrow> u64 \<Rightarrow> u64" where
  "tag c addr = addr AND NOT (word_of_int (m_line_size c - 1))"

definition block_addr :: "cache_config \<Rightarrow> u64 \<Rightarrow> u64" where
  "block_addr c addr = addr AND NOT (word_of_int (m_line_size c - 1))"

definition mshr_addr :: "cache_config \<Rightarrow> u64 \<Rightarrow> u64" where
  "mshr_addr c addr = addr AND NOT (word_of_int (m_atom_size c - 1))"

definition hash_function :: "u64 \<Rightarrow> u32 \<Rightarrow> u32 \<Rightarrow> u32 \<Rightarrow> u32" where
  "hash_function addr m_nset m_line_sz_log2 m_n_set_log2 =
     ucast (drop_bit (unat m_line_sz_log2) addr AND ucast (m_nset - 1))"

text \<open>The exclusive or of some bits, and \<open>bitset::to_ulong\<close> truncated to \<open>unsigned\<close>.\<close>

definition xors :: "bool list \<Rightarrow> bool" where
  "xors bs = foldl (\<noteq>) False bs"

definition to_ulong :: "bool list \<Rightarrow> u32" where
  "to_ulong bs = horner_sum of_bool 2 bs"

definition ipoly_index :: "(nat \<Rightarrow> bool) \<Rightarrow> (nat \<Rightarrow> bool) \<Rightarrow> bool list" where
  "ipoly_index a b =
     [xors [a 18, a 17, a 16, a 15, a 12, a 10, a 6, a 5, a 0, b 0],
      xors [a 15, a 13, a 12, a 11, a 10, a 7, a 5, a 1, a 0, b 1],
      xors [a 16, a 14, a 13, a 12, a 11, a 8, a 6, a 2, a 1, b 2],
      xors [a 17, a 15, a 14, a 13, a 12, a 9, a 7, a 3, a 2, b 3],
      xors [a 18, a 16, a 15, a 14, a 13, a 10, a 8, a 4, a 3, b 4],
      xors [a 17, a 16, a 15, a 14, a 11, a 9, a 5, a 4, b 5]]"

definition set_index :: "cache_config \<Rightarrow> u64 \<Rightarrow> u32 res" where
  "set_index c addr =
     (let line_log2 = LOGB2 (word_of_int (m_line_size c));
          sets_log2 = LOGB2 (word_of_int (m_n_sets c))
      in case m_set_index_function c of
           LINEAR_SET_FUNCTION \<Rightarrow>
             Inr (hash_function addr (word_of_int (m_n_sets c)) line_log2 sets_log2)
         | HASH_IPOLY_FUNCTION \<Rightarrow>
             (let higher_bits = drop_bit (unat (line_log2 + sets_log2)) addr;
                  index = (ucast (drop_bit (unat line_log2) addr
                                  AND word_of_int (m_n_sets c - 1)) :: u32)
              in Inr (to_ulong (ipoly_index (bit higher_bits) (bit index))))
         | BITWISE_XORING_FUNCTION \<Rightarrow> Inl Undefined_Behaviour)"

definition get_max_num_lines :: "cache_config \<Rightarrow> u32" where
  "get_max_num_lines c = word_of_int (m_n_sets c * m_assoc c)"

section \<open>Alignment\<close>

text \<open>A geometry the cache is meant to have: lines of \<open>2 ^ l\<close> bytes and \<open>2 ^ s\<close> sets.\<close>

definition pow2_geometry :: "nat \<Rightarrow> nat \<Rightarrow> cache_config \<Rightarrow> bool" where
  "pow2_geometry l s c \<longleftrightarrow> m_line_size c = 2 ^ l \<and> m_n_sets c = 2 ^ s \<and> l + s < 31"

lemma mask_of_size: "word_of_int (2 ^ l - 1) = (mask l :: u64)"
  by (simp add: mask_eq_exp_minus_1)

lemma and_not_mask: "(x :: u64) AND NOT (mask l) = push_bit l (drop_bit l x)"
  by (rule bit_eqI) (auto simp: bit_simps)

lemma block_addr_eq: "m_line_size c = 2 ^ l \<Longrightarrow> block_addr c a = push_bit l (drop_bit l a)"
  by (simp only: block_addr_def mask_of_size and_not_mask)

lemma tag_eq_block_addr: "tag c a = block_addr c a"
  by (simp add: tag_def block_addr_def)

lemma block_addr_eq_iff:
  assumes "m_line_size c = 2 ^ l"
  shows "block_addr c a = block_addr c b \<longleftrightarrow> drop_bit l a = drop_bit l b"
proof
  assume "block_addr c a = block_addr c b"
  then have "drop_bit l (push_bit l (drop_bit l a)) = drop_bit l (push_bit l (drop_bit l b))"
    by (simp add: block_addr_eq [OF assms])
  moreover have "drop_bit l (push_bit l (drop_bit l x)) = drop_bit l x" for x :: u64
    by (rule bit_eqI) (auto simp: bit_simps dest: bit_imp_le_length)
  ultimately show "drop_bit l a = drop_bit l b" by simp
qed (simp add: block_addr_eq [OF assms])

lemma block_addr_idem: "block_addr c (block_addr c a) = block_addr c a"
  by (simp add: block_addr_def and.assoc)

lemma LOGB2_pow2:
  assumes "k < 31"
  shows "unat (LOGB2 (word_of_int (2 ^ k))) = k"
proof -
  have "(2 :: int) ^ k < 2 ^ 32" using assms by (intro power_strict_increasing) simp_all
  then have "uint (word_of_int (2 ^ k) :: u32) = 2 ^ k"
    using assms by (simp only: uint_word_of_int_eq) (simp add: take_bit_int_eq_self)
  then have v: "unat (word_of_int (2 ^ k) :: u32) = 2 ^ k"
    by (simp only: unat_eq_nat_uint) (simp add: nat_power_eq)
  then have "(word_of_int (2 ^ k) :: u32) \<noteq> 0"
    by (metis power_not_zero unat_0 zero_neq_numeral)
  from LOGB2_bounds [OF this] v
  have "(2 :: nat) ^ unat (LOGB2 (word_of_int (2 ^ k))) \<le> 2 ^ k"
    "(2 :: nat) ^ k < 2 ^ Suc (unat (LOGB2 (word_of_int (2 ^ k))))" by (simp_all only:)
  then have "unat (LOGB2 (word_of_int (2 ^ k))) \<le> k" "k < Suc (unat (LOGB2 (word_of_int (2 ^ k))))"
    by (simp_all only: power_increasing_iff power_strict_increasing_iff one_less_numeral_iff
        semiring_norm)
  then show ?thesis by simp
qed

section \<open>The set of an address\<close>

lemma log_of_geometry:
  assumes "pow2_geometry l s c"
  shows "unat (LOGB2 (word_of_int (m_line_size c))) = l"
    and "unat (LOGB2 (word_of_int (m_n_sets c))) = s"
    and "unat (LOGB2 (word_of_int (m_line_size c)) + LOGB2 (word_of_int (m_n_sets c))) = l + s"
proof -
  have "l < 31" "s < 31" "l + s < 2 ^ 32" "m_line_size c = 2 ^ l" "m_n_sets c = 2 ^ s"
    using assms by (simp_all add: pow2_geometry_def)
  note geo = this
  show l: "unat (LOGB2 (word_of_int (m_line_size c))) = l"
    unfolding geo(4) by (rule LOGB2_pow2 [OF geo(1)])
  show s: "unat (LOGB2 (word_of_int (m_n_sets c))) = s"
    unfolding geo(5) by (rule LOGB2_pow2 [OF geo(2)])
  show "unat (LOGB2 (word_of_int (m_line_size c)) + LOGB2 (word_of_int (m_n_sets c))) = l + s"
    using geo(3) unfolding unat_word_ariths l s by simp
qed

lemma bit_to_ulong: "length bs \<le> 32 \<Longrightarrow> bit (to_ulong bs) k \<longleftrightarrow> k < length bs \<and> bs ! k"
  by (auto simp: to_ulong_def bit_horner_sum_bit_word_iff)

lemma to_ulong_less: "length bs \<le> 32 \<Longrightarrow> unat (to_ulong bs) < 2 ^ length bs"
  by (auto simp: unat_less_bits bit_to_ulong)

lemma xors_snoc: "xors (as @ [b]) \<longleftrightarrow> xors as \<noteq> b"
  by (simp add: xors_def)

lemma length_ipoly_index: "length (ipoly_index a b) = 6"
  by (simp add: ipoly_index_def)

lemma ipoly_index_inj:
  assumes "to_ulong (ipoly_index a b) = to_ulong (ipoly_index a b')" and "k < 6"
  shows "b k = b' k"
proof -
  have "ipoly_index a b ! k = ipoly_index a b' ! k"
    using assms bit_to_ulong [of "ipoly_index a b" k] bit_to_ulong [of "ipoly_index a b'" k]
    by (simp add: length_ipoly_index)
  moreover have "k = 0 \<or> k = 1 \<or> k = 2 \<or> k = 3 \<or> k = 4 \<or> k = 5" using assms(2) by linarith
  ultimately show ?thesis
    by (auto simp: ipoly_index_def xors_def)
qed

lemma set_index_hash:
  assumes "pow2_geometry l s c" and "m_set_index_function c = HASH_IPOLY_FUNCTION"
  shows "set_index c addr = Inr (to_ulong (ipoly_index (bit (drop_bit (l + s) addr))
    (bit (ucast (take_bit s (drop_bit l addr)) :: u32))))"
proof -
  have "word_of_int (m_n_sets c - 1) = (mask s :: u64)"
    using assms(1) mask_of_size [of s] by (simp only: pow2_geometry_def)
  then show ?thesis
    using assms(2) unfolding set_index_def Let_def log_of_geometry [OF assms(1)]
    by (simp only: set_index_function.case take_bit_eq_mask)
qed

lemma set_index_linear:
  assumes "pow2_geometry l s c" and "m_set_index_function c = LINEAR_SET_FUNCTION"
  shows "set_index c addr = Inr (ucast (take_bit s (drop_bit l addr)))"
proof -
  have s: "s < 31" using assms(1) by (simp add: pow2_geometry_def)
  have "word_of_int (m_n_sets c) - 1 = (mask s :: u32)"
    using assms(1) by (simp add: pow2_geometry_def mask_eq_exp_minus_1)
  moreover have "ucast (mask s :: u32) = (mask s :: u64)"
    using s by (intro bit_eqI) (auto simp: bit_simps)
  ultimately show ?thesis
    using assms(2) unfolding set_index_def Let_def hash_function_def log_of_geometry [OF assms(1)]
    by (simp only: set_index_function.case take_bit_eq_mask)
qed

lemma set_index_block_addr:
  assumes "pow2_geometry l s c"
    and "m_set_index_function c = LINEAR_SET_FUNCTION \<or>
         m_set_index_function c = HASH_IPOLY_FUNCTION \<and> s = 6"
  shows "set_index c (block_addr c a) = set_index c a"
proof -
  have line: "m_line_size c = 2 ^ l" using assms(1) by (simp add: pow2_geometry_def)
  have low: "drop_bit l (block_addr c a) = drop_bit l a"
    using block_addr_eq_iff [OF line, of "block_addr c a" a] by (simp only: block_addr_idem simp_thms)
  have "drop_bit (l + s) x = drop_bit s (drop_bit l x)" for x :: u64
    by (simp add: drop_bit_drop_bit add.commute)
  with low have "drop_bit (l + s) (block_addr c a) = drop_bit (l + s) a" by (simp only:)
  with low show ?thesis
    using assms(2) set_index_linear [OF assms(1)] set_index_hash [OF assms(1)] by auto
qed

lemma set_index_range_aux:
  assumes "pow2_geometry l s c"
    and "m_set_index_function c = LINEAR_SET_FUNCTION \<or>
         m_set_index_function c = HASH_IPOLY_FUNCTION \<and> s = 6"
  shows "\<exists>i. set_index c addr = Inr i \<and> unat i < nat (m_n_sets c)"
  using assms(2)
proof
  assume lin: "m_set_index_function c = LINEAR_SET_FUNCTION"
  have "unat (ucast (take_bit s (drop_bit l addr)) :: u32) < 2 ^ s"
    by (auto simp: unat_less_bits bit_simps)
  then show ?thesis
    using set_index_linear [OF assms(1) lin] assms(1) by (simp add: pow2_geometry_def nat_power_eq)
next
  assume hash: "m_set_index_function c = HASH_IPOLY_FUNCTION \<and> s = 6"
  have "unat (to_ulong (ipoly_index a b)) < 2 ^ 6" for a b
    using to_ulong_less [of "ipoly_index a b"] by (simp add: length_ipoly_index)
  then show ?thesis
    using set_index_hash [OF assms(1)] hash assms(1) by (simp add: pow2_geometry_def)
qed

text \<open>The set of an address is a set of the cache, for a power-of-two geometry under the linear
  function and for 64 sets under the polynomial hash, so the tag array is never read out of
  bounds.\<close>

theorem set_index_in_range:
  assumes "pow2_geometry l s c"
    and "m_set_index_function c = LINEAR_SET_FUNCTION \<or>
         m_set_index_function c = HASH_IPOLY_FUNCTION \<and> s = 6"
  shows "\<exists>i. set_index c addr = Inr i \<and> unat i < nat (m_n_sets c)"
  using assms by (rule set_index_range_aux)

definition l2_geometry :: cache_config where
  "l2_geometry =
     \<lparr>m_sector_cache = True, m_n_banks = 16, m_n_sets = 64, m_line_size = 128, m_assoc = 16,
      m_replacement_policy = ''LRU'', m_write_policy = ''WRITE_BACK'', m_alloc_policy = ''ON_MISS'',
      m_write_alloc_policy = ''LAZY_FETCH_ON_READ'', m_set_index_function = HASH_IPOLY_FUNCTION,
      m_mshr_type = ''ASSOC'', m_mshr_entries = 192, m_mshr_max_merge = 4, m_is_streaming = True,
      m_atom_size = 32\<rparr>"

lemma l2_geometry_pow2: "pow2_geometry 7 6 l2_geometry"
  by (simp add: pow2_geometry_def l2_geometry_def)

theorem set_index_in_range_witness:
  "\<exists>i. set_index l2_geometry 0xdeadbeef = Inr i \<and> unat i < 64"
  using set_index_in_range [OF l2_geometry_pow2, of "0xdeadbeef"] by (simp add: l2_geometry_def)

text \<open>C9. The polynomial hash spreads perfectly: among addresses that agree above the index bits
  (64 consecutive lines) two that fall into the same set are in the same line, so those lines
  occupy 64 different sets.\<close>

theorem ipoly_hash_permutes:
  assumes geo: "pow2_geometry l 6 c" and hash: "m_set_index_function c = HASH_IPOLY_FUNCTION"
    and high: "drop_bit (l + 6) x = drop_bit (l + 6) y"
    and same: "set_index c x = set_index c y"
  shows "block_addr c x = block_addr c y"
proof -
  let ?i = "\<lambda>a. bit (ucast (take_bit 6 (drop_bit l a)) :: u32)"
  have "to_ulong (ipoly_index (bit (drop_bit (l + 6) y)) (?i x)) =
      to_ulong (ipoly_index (bit (drop_bit (l + 6) y)) (?i y))"
    using same unfolding set_index_hash [OF geo hash] high by simp
  then have "?i x k = ?i y k" if "k < 6" for k
    using ipoly_index_inj that by blast
  then have low: "bit (drop_bit l x) k = bit (drop_bit l y) k" if "k < 6" for k
    using that by (fastforce simp: bit_simps)
  have "bit (drop_bit l x) k = bit (drop_bit l y) k" for k
  proof (cases "k < 6")
    case False
    have "bit (drop_bit l z) k = bit (drop_bit (l + 6) z) (k - 6)" for z :: u64
      using False by (simp add: bit_drop_bit_eq)
    then show ?thesis using high by simp
  qed (rule low)
  then have "drop_bit l x = drop_bit l y" by (intro bit_eqI)
  then show ?thesis
    using geo block_addr_eq_iff [of c l x y] by (simp add: pow2_geometry_def)
qed

theorem ipoly_hash_permutes_witness:
  "\<exists>i. set_index l2_geometry 0x2000 = Inr i \<and> set_index l2_geometry 0x2010 = Inr i \<and>
     block_addr l2_geometry 0x2000 = block_addr l2_geometry 0x2010"
proof -
  have same: "set_index l2_geometry 0x2000 = set_index l2_geometry 0x2010"
    unfolding set_index_hash [OF l2_geometry_pow2, unfolded l2_geometry_def cache_config.select_convs, OF refl, folded l2_geometry_def] by simp
  have high: "drop_bit (7 + 6) (0x2000 :: u64) = drop_bit (7 + 6) 0x2010" by simp
  have "block_addr l2_geometry 0x2000 = block_addr l2_geometry 0x2010"
    by (rule ipoly_hash_permutes [OF l2_geometry_pow2 _ high same]) (simp add: l2_geometry_def)
  then show ?thesis using same set_index_range_aux [OF l2_geometry_pow2, of "0x2000"]
    by (auto simp: l2_geometry_def)
qed

text \<open>The hash is wired to 64 sets: with 32 sets there is an address whose set index is not
  a set of the cache.\<close>

theorem ipoly_hash_needs_64_sets:
  "\<exists>addr i. set_index (l2_geometry\<lparr>m_n_sets := 32\<rparr>) addr = Inr i \<and> \<not> unat i < 32"
proof -
  have geo: "pow2_geometry 7 5 (l2_geometry\<lparr>m_n_sets := 32\<rparr>)"
    by (simp add: pow2_geometry_def l2_geometry_def)
  have "set_index (l2_geometry\<lparr>m_n_sets := 32\<rparr>) 0x10000 =
      Inr (to_ulong (ipoly_index (bit (0x10 :: u64)) (bit (0 :: u32))))"
    using set_index_hash [OF geo, of "0x10000"] by (simp add: l2_geometry_def)
  moreover have "unat (to_ulong (ipoly_index (bit (0x10 :: u64)) (bit (0 :: u32)))) = 48"
    by (simp add: to_ulong_def ipoly_index_def xors_def)
  then have "\<not> unat (to_ulong (ipoly_index (bit (0x10 :: u64)) (bit (0 :: u32)))) < 32" by simp
  ultimately show ?thesis by blast
qed

end
