(* ===== verification/Tag_Array.thy ===== *)
theory Tag_Array
  imports Cache_Config
begin

text \<open>
  The tag array of a cache, \<^verbatim>\<open>sector_cache_block\<close> and \<^verbatim>\<open>tag_array\<close> of
  \<^verbatim>\<open>cache.h\<close> and \<^verbatim>\<open>cache.cpp\<close>: lines of four sectors, the probe that finds a line or
  chooses a victim, and the fill that brings a sector in.  The arrays of a line are lists of
  length four and a sector number beyond them is undefined behaviour.  \<open>m_set_modified_on_fill\<close>
  has no initial value (\<open>None\<close>).  An output argument that the code leaves unwritten is \<open>None\<close>.
\<close>

section \<open>A line\<close>

datatype cache_block_state = INVALID | RESERVED | VALID | MODIFIED

datatype cache_request_status = HIT | HIT_RESERVED | MISS | RESERVATION_FAIL | SECTOR_MISS

record sector_cache_block =
  blk_tag :: u64
  blk_block_addr :: u64
  m_sector_alloc_time :: "u32 list"
  m_last_sector_access_time :: "u32 list"
  m_sector_fill_time :: "u32 list"
  m_line_alloc_time :: u32
  m_line_last_access_time :: u32
  m_line_fill_time :: u32
  blk_status :: "cache_block_state list"
  m_set_modified_on_fill :: "bool option list"
  m_readable :: "bool list"

definition block_init :: "sector_cache_block \<Rightarrow> sector_cache_block" where
  "block_init b =
     b\<lparr>m_sector_alloc_time := replicate SECTOR_CHUNCK_SIZE 0,
       m_sector_fill_time := replicate SECTOR_CHUNCK_SIZE 0,
       m_last_sector_access_time := replicate SECTOR_CHUNCK_SIZE 0,
       blk_status := replicate SECTOR_CHUNCK_SIZE INVALID,
       m_readable := replicate SECTOR_CHUNCK_SIZE True,
       m_line_alloc_time := 0, m_line_last_access_time := 0, m_line_fill_time := 0\<rparr>"

definition new_sector_cache_block :: sector_cache_block where
  "new_sector_cache_block =
     block_init \<lparr>blk_tag = 0, blk_block_addr = 0, m_sector_alloc_time = [],
       m_last_sector_access_time = [], m_sector_fill_time = [], m_line_alloc_time = 0,
       m_line_last_access_time = 0, m_line_fill_time = 0, blk_status = [],
       m_set_modified_on_fill = replicate SECTOR_CHUNCK_SIZE None, m_readable = []\<rparr>"

text \<open>Array subscripts: every write of a line is to one sector.\<close>

definition with_sector :: "u32 \<Rightarrow> (nat \<Rightarrow> 'a) \<Rightarrow> 'a res" where
  "with_sector s f = guard (unat s < SECTOR_CHUNCK_SIZE) Undefined_Behaviour (Inr (f (unat s)))"

definition block_allocate ::
  "u64 \<Rightarrow> u64 \<Rightarrow> u32 \<Rightarrow> u32 \<Rightarrow> sector_cache_block \<Rightarrow> sector_cache_block res"
where
  "block_allocate tg baddr time sector_mask b =
     with_sector sector_mask (\<lambda>s. let b = block_init b in
       b\<lparr>blk_tag := tg, blk_block_addr := baddr,
         m_sector_alloc_time := (m_sector_alloc_time b)[s := time],
         m_last_sector_access_time := (m_last_sector_access_time b)[s := time],
         m_sector_fill_time := (m_sector_fill_time b)[s := 0],
         blk_status := (blk_status b)[s := RESERVED],
         m_line_alloc_time := time, m_line_last_access_time := time, m_line_fill_time := 0\<rparr>)"

definition block_allocate_sector ::
  "u32 \<Rightarrow> u32 \<Rightarrow> sector_cache_block \<Rightarrow> sector_cache_block res"
where
  "block_allocate_sector time sector_mask b =
     with_sector sector_mask (\<lambda>s.
       b\<lparr>m_sector_alloc_time := (m_sector_alloc_time b)[s := time],
         m_last_sector_access_time := (m_last_sector_access_time b)[s := time],
         m_sector_fill_time := (m_sector_fill_time b)[s := 0],
         blk_status := (blk_status b)[s := RESERVED],
         m_readable := (m_readable b)[s := True],
         m_line_last_access_time := time, m_line_fill_time := 0\<rparr>)"

definition block_fill :: "u32 \<Rightarrow> u32 \<Rightarrow> sector_cache_block \<Rightarrow> sector_cache_block res" where
  "block_fill time sector_mask b =
     with_sector sector_mask (\<lambda>s.
       b\<lparr>blk_status := (blk_status b)[s := VALID],
         m_sector_fill_time := (m_sector_fill_time b)[s := time], m_line_fill_time := time\<rparr>)"

definition is_invalid_line :: "sector_cache_block \<Rightarrow> bool" where
  "is_invalid_line b = list_all (\<lambda>st. st = INVALID) (blk_status b)"

definition is_valid_line :: "sector_cache_block \<Rightarrow> bool" where
  "is_valid_line b = (\<not> is_invalid_line b)"

definition is_reserved_line :: "sector_cache_block \<Rightarrow> bool" where
  "is_reserved_line b = list_ex (\<lambda>st. st = RESERVED) (blk_status b)"

definition is_modified_line :: "sector_cache_block \<Rightarrow> bool" where
  "is_modified_line b = list_ex (\<lambda>st. st = MODIFIED) (blk_status b)"

definition get_status :: "u32 \<Rightarrow> sector_cache_block \<Rightarrow> cache_block_state res" where
  "get_status sector_mask b = nth_res (blk_status b) (unat sector_mask)"

definition is_readable :: "u32 \<Rightarrow> sector_cache_block \<Rightarrow> bool res" where
  "is_readable sector_mask b = nth_res (m_readable b) (unat sector_mask)"

definition set_status ::
  "cache_block_state \<Rightarrow> u32 \<Rightarrow> sector_cache_block \<Rightarrow> sector_cache_block res"
where
  "set_status st sector_mask b =
     with_sector sector_mask (\<lambda>s. b\<lparr>blk_status := (blk_status b)[s := st]\<rparr>)"

definition set_last_access_time ::
  "u32 \<Rightarrow> u32 \<Rightarrow> sector_cache_block \<Rightarrow> sector_cache_block res"
where
  "set_last_access_time time sector_mask b =
     with_sector sector_mask (\<lambda>s.
       b\<lparr>m_last_sector_access_time := (m_last_sector_access_time b)[s := time],
         m_line_last_access_time := time\<rparr>)"

definition set_modified_on_fill ::
  "bool \<Rightarrow> u32 \<Rightarrow> sector_cache_block \<Rightarrow> sector_cache_block res"
where
  "set_modified_on_fill m sector_mask b =
     with_sector sector_mask (\<lambda>s.
       b\<lparr>m_set_modified_on_fill := (m_set_modified_on_fill b)[s := Some m]\<rparr>)"

definition set_m_readable ::
  "bool \<Rightarrow> u32 \<Rightarrow> sector_cache_block \<Rightarrow> sector_cache_block res"
where
  "set_m_readable r sector_mask b =
     with_sector sector_mask (\<lambda>s. b\<lparr>m_readable := (m_readable b)[s := r]\<rparr>)"

section \<open>The array\<close>

record tag_array =
  ta_config :: cache_config
  ta_lines :: "sector_cache_block list"
  ta_core_id :: u32

definition new_tag_array :: "cache_config \<Rightarrow> u32 \<Rightarrow> tag_array" where
  "new_tag_array c core_id =
     \<lparr>ta_config = c, ta_lines = replicate (unat (get_max_num_lines c)) new_sector_cache_block,
      ta_core_id = core_id\<rparr>"

text \<open>The indices of the lines of a set, in the order the loops visit them.\<close>

definition ways :: "cache_config \<Rightarrow> u32 \<Rightarrow> nat list" where
  "ways c si = map (\<lambda>way. unat (si * word_of_int (m_assoc c) + of_nat way))
                 [0..<unat (word_of_int (m_assoc c) :: u32)]"

text \<open>The replacement candidates found so far; \<open>(unsigned) -1\<close> is \<open>None\<close>.\<close>

record victim =
  invalid_line :: "nat option"
  valid_line :: "nat option"
  valid_timestamp :: u32
  all_reserved :: bool

definition no_victim :: victim where
  "no_victim = \<lparr>invalid_line = None, valid_line = None, valid_timestamp = u32_max,
                all_reserved = True\<rparr>"

definition match_line ::
  "u64 \<Rightarrow> u32 \<Rightarrow> sector_cache_block \<Rightarrow> cache_request_status option res"
where
  "match_line tg s b =
     (if blk_tag b = tg then
        rbind (get_status s b) (\<lambda>st.
          case st of
            RESERVED \<Rightarrow> Inr (Some HIT_RESERVED)
          | VALID \<Rightarrow> Inr (Some HIT)
          | MODIFIED \<Rightarrow>
              rbind (is_readable s b) (\<lambda>r. Inr (Some (if r then HIT else SECTOR_MISS)))
          | INVALID \<Rightarrow> Inr (if is_valid_line b then Some SECTOR_MISS else None))
      else Inr None)"

definition older :: "nat \<Rightarrow> u32 \<Rightarrow> victim \<Rightarrow> victim" where
  "older index t v =
     (if t < valid_timestamp v then v\<lparr>valid_timestamp := t, valid_line := Some index\<rparr> else v)"

definition consider_way :: "cache_config \<Rightarrow> nat \<Rightarrow> sector_cache_block \<Rightarrow> victim \<Rightarrow> victim" where
  "consider_way c index b v =
     (if is_reserved_line b then v
      else let v = v\<lparr>all_reserved := False\<rparr> in
        if is_invalid_line b then v\<lparr>invalid_line := Some index\<rparr>
        else if m_replacement_policy c = ''LRU'' then older index (m_line_last_access_time b) v
        else if m_replacement_policy c = ''FIFO'' then older index (m_line_alloc_time b) v
        else v)"

definition choose_victim :: "victim \<Rightarrow> (cache_request_status \<times> nat option) res" where
  "choose_victim v =
     (if all_reserved v then Inr (RESERVATION_FAIL, None)
      else case invalid_line v of
             Some i \<Rightarrow> Inr (MISS, Some i)
           | None \<Rightarrow> (case valid_line v of
                        Some i \<Rightarrow> Inr (MISS, Some i)
                      | None \<Rightarrow> Inl Aborted))"

fun probe_ways ::
  "tag_array \<Rightarrow> u64 \<Rightarrow> u32 \<Rightarrow> nat list \<Rightarrow> victim \<Rightarrow> (cache_request_status \<times> nat option) res"
where
  "probe_ways t tg s [] v = choose_victim v"
| "probe_ways t tg s (i # rest) v =
     rbind (nth_res (ta_lines t) i) (\<lambda>b.
     rbind (match_line tg s b) (\<lambda>m.
       case m of
         Some st \<Rightarrow> Inr (st, Some i)
       | None \<Rightarrow> probe_ways t tg s rest (consider_way (ta_config t) i b v)))"

definition tag_array_probe ::
  "u64 \<Rightarrow> u32 \<Rightarrow> tag_array \<Rightarrow> (cache_request_status \<times> nat option) res"
where
  "tag_array_probe addr sector_mask t =
     rbind (set_index (ta_config t) addr) (\<lambda>si.
       probe_ways t (tag (ta_config t) addr) sector_mask (ways (ta_config t) si) no_victim)"

fun first_idle :: "tag_array \<Rightarrow> nat list \<Rightarrow> nat option res" where
  "first_idle t [] = Inr None"
| "first_idle t (i # rest) =
     rbind (nth_res (ta_lines t) i) (\<lambda>b.
       if is_invalid_line b then Inr (Some i) else first_idle t rest)"

text \<open>The result \<open>-1\<close> of the code is \<open>None\<close>.\<close>

definition tag_array_probe_idle :: "u64 \<Rightarrow> tag_array \<Rightarrow> nat option res" where
  "tag_array_probe_idle addr t =
     rbind (set_index (ta_config t) addr) (\<lambda>si. first_idle t (ways (ta_config t) si))"

definition update_line ::
  "nat \<Rightarrow> (sector_cache_block \<Rightarrow> sector_cache_block res) \<Rightarrow> tag_array \<Rightarrow> tag_array res"
where
  "update_line i f t =
     rbind (nth_res (ta_lines t) i) (\<lambda>b. rbind (f b) (\<lambda>b'.
       Inr (t\<lparr>ta_lines := (ta_lines t)[i := b']\<rparr>)))"

definition tag_array_access ::
  "u64 \<Rightarrow> u32 \<Rightarrow> u32 \<Rightarrow> tag_array \<Rightarrow> (cache_request_status \<times> nat option \<times> tag_array) res"
where
  "tag_array_access addr time sector_mask t =
     rbind (tag_array_probe addr sector_mask t) (\<lambda>(status, idx).
       if status = HIT \<or> status = HIT_RESERVED
       then rbind (deref idx) (\<lambda>i.
              rbind (update_line i (set_last_access_time time sector_mask) t) (\<lambda>t'.
                Inr (status, idx, t')))
       else Inr (status, idx, t))"

text \<open>The index is uninitialised when the probe fails for want of an unreserved line.\<close>

definition tag_array_fill :: "u64 \<Rightarrow> u32 \<Rightarrow> u32 \<Rightarrow> tag_array \<Rightarrow> tag_array res" where
  "tag_array_fill addr time sector_mask t =
     rbind (tag_array_probe addr sector_mask t) (\<lambda>(status, idx).
     rbind (deref idx) (\<lambda>i.
     rbind (if status = MISS
            then update_line i (block_allocate (tag (ta_config t) addr)
                   (block_addr (ta_config t) addr) time sector_mask) t
            else if status = SECTOR_MISS
            then update_line i (block_allocate_sector time sector_mask) t
            else Inr t)
       (update_line i (block_fill time sector_mask))))"

section \<open>The invariant: no sector is reserved between operations\<close>

definition settled_block :: "sector_cache_block \<Rightarrow> bool" where
  "settled_block b \<longleftrightarrow>
     length (blk_status b) = SECTOR_CHUNCK_SIZE \<and> length (m_readable b) = SECTOR_CHUNCK_SIZE \<and>
     \<not> is_reserved_line b"

definition indexable :: "nat \<Rightarrow> nat \<Rightarrow> cache_config \<Rightarrow> bool" where
  "indexable l s c \<longleftrightarrow> pow2_geometry l s c \<and>
     (m_set_index_function c = LINEAR_SET_FUNCTION \<or>
      m_set_index_function c = HASH_IPOLY_FUNCTION \<and> s = 6) \<and>
     0 < m_assoc c \<and> m_n_sets c * m_assoc c < 2 ^ 32"

definition wf_tags :: "nat \<Rightarrow> nat \<Rightarrow> tag_array \<Rightarrow> bool" where
  "wf_tags l s t \<longleftrightarrow> indexable l s (ta_config t) \<and>
     length (ta_lines t) = nat (m_n_sets (ta_config t) * m_assoc (ta_config t)) \<and>
     list_all settled_block (ta_lines t)"

text \<open>The stamp the replacement policy compares.\<close>

definition stamp :: "cache_config \<Rightarrow> sector_cache_block \<Rightarrow> u32" where
  "stamp c b = (if m_replacement_policy c = ''LRU'' then m_line_last_access_time b
                else m_line_alloc_time b)"

definition replaceable :: "tag_array \<Rightarrow> bool" where
  "replaceable t \<longleftrightarrow>
     (m_replacement_policy (ta_config t) = ''LRU'' \<or> m_replacement_policy (ta_config t) = ''FIFO'') \<and>
     list_all (\<lambda>b. stamp (ta_config t) b < u32_max) (ta_lines t)"

lemma indexable_sets:
  "indexable l s c \<Longrightarrow> \<exists>si. set_index c a = Inr si \<and> unat si < nat (m_n_sets c)"
  using set_index_range_aux [of l s c a] by (auto simp: indexable_def)

lemma ways_eq:
  assumes "indexable l s c" and "unat si < nat (m_n_sets c)"
  shows "ways c si = [unat si * nat (m_assoc c) ..< Suc (unat si) * nat (m_assoc c)]"
proof -
  define a where "a = nat (m_assoc c)"
  define n where "n = nat (m_n_sets c)"
  have pos: "0 < m_assoc c" "0 < m_n_sets c" and lt: "m_n_sets c * m_assoc c < 2 ^ 32"
    using assms(1) by (auto simp: indexable_def pow2_geometry_def)
  have na: "n * a < 2 ^ 32"
    using pos lt by (simp add: a_def n_def flip: nat_mult_distrib)
  have "unat si < n" using assms(2) by (simp add: n_def)
  then have bound: "unat si * a + w < 2 ^ 32" if "w < a" for w
    using that na mult_le_mono1 [of "Suc (unat si)" n a] by simp
  have "1 \<le> n" using pos by (simp add: n_def)
  then have a32: "a < 2 ^ 32" using na mult_le_mono1 [of 1 n a] by linarith
  have w: "(word_of_int (m_assoc c) :: u32) = of_nat a"
    using pos by (simp add: a_def)
  have ua: "unat (word_of_int (m_assoc c) :: u32) = a"
    unfolding w using a32 by (simp add: unat_of_nat)
  have ix: "unat (si * word_of_int (m_assoc c) + of_nat w) = unat si * a + w" if "w < a" for w
  proof -
    have "si * word_of_int (m_assoc c) + of_nat w = (of_nat (unat si * a + w) :: u32)"
      by (simp add: w)
    then show ?thesis using bound [OF that] by (simp only: unat_of_nat) simp
  qed
  have "ways c si = map (\<lambda>w. unat si * a + w) [0..<a]"
    unfolding ways_def ua by (rule map_cong) (simp_all add: ix)
  also have "\<dots> = [unat si * a ..< unat si * a + a]"
    by (simp add: map_add_upt flip: add.commute)
  finally show ?thesis by (simp add: a_def add.commute)
qed

lemma ways_in_range:
  assumes "wf_tags l s t" and "set_index (ta_config t) a = Inr si"
    and "i \<in> set (ways (ta_config t) si)"
  shows "i < length (ta_lines t)"
proof -
  let ?c = "ta_config t"
  have c: "indexable l s ?c" using assms(1) by (simp add: wf_tags_def)
  then have si: "unat si < nat (m_n_sets ?c)"
    using indexable_sets [of l s ?c a] assms(2) by simp
  have "i < Suc (unat si) * nat (m_assoc ?c)"
    using assms(3) unfolding ways_eq [OF c si] by simp
  also have "\<dots> \<le> nat (m_n_sets ?c) * nat (m_assoc ?c)"
    using si by (intro mult_le_mono1) simp
  also have "\<dots> = length (ta_lines t)"
    using assms(1) by (auto simp: wf_tags_def indexable_def pow2_geometry_def nat_mult_distrib)
  finally show ?thesis .
qed

lemma ways_nonempty:
  assumes "wf_tags l s t" and "set_index (ta_config t) a = Inr si"
  shows "ways (ta_config t) si \<noteq> []"
proof -
  have c: "indexable l s (ta_config t)" using assms(1) by (simp add: wf_tags_def)
  then show ?thesis
    using indexable_sets [OF c, of a] assms(2) ways_eq [OF c, of si] by (auto simp: indexable_def)
qed

lemma ways_disjoint:
  assumes "indexable l s c" and "unat si < nat (m_n_sets c)" and "unat sj < nat (m_n_sets c)"
    and "i \<in> set (ways c si)" and "i \<in> set (ways c sj)"
  shows "si = sj"
proof -
  have "0 < nat (m_assoc c)" using assms(1) by (simp add: indexable_def)
  moreover have "unat x * nat (m_assoc c) \<le> i \<and> i < Suc (unat x) * nat (m_assoc c)"
    if "x = si \<or> x = sj" for x
    using that assms(4,5) ways_eq [OF assms(1,2)] ways_eq [OF assms(1,3)] by auto
  ultimately have "unat x = i div nat (m_assoc c)" if "x = si \<or> x = sj" for x
    using that by (metis div_nat_eqI mult.commute)
  then have "unat si = unat sj" by metis
  then show ?thesis by (simp add: word_unat_eq_iff)
qed

section \<open>The probe\<close>

lemma settled_lineD:
  "wf_tags l s t \<Longrightarrow> i < length (ta_lines t) \<Longrightarrow> settled_block (ta_lines t ! i)"
  by (auto simp: wf_tags_def list_all_length)

text \<open>What a line answers: the pure content of \<open>match_line\<close> on a settled line.\<close>

definition holds_sector :: "u64 \<Rightarrow> u32 \<Rightarrow> sector_cache_block \<Rightarrow> bool" where
  "holds_sector tg s b \<longleftrightarrow> blk_tag b = tg \<and>
     (blk_status b ! unat s = VALID \<or>
      blk_status b ! unat s = MODIFIED \<and> m_readable b ! unat s)"

definition holds_line :: "u64 \<Rightarrow> sector_cache_block \<Rightarrow> bool" where
  "holds_line tg b \<longleftrightarrow> blk_tag b = tg \<and> is_valid_line b"

lemma holds_sector_line:
  "settled_block b \<Longrightarrow> unat s < SECTOR_CHUNCK_SIZE \<Longrightarrow> holds_sector tg s b \<Longrightarrow> holds_line tg b"
  by (auto simp: holds_sector_def holds_line_def is_valid_line_def is_invalid_line_def
      list_all_length settled_block_def)

lemma match_line_settled:
  assumes "settled_block b" and "unat s < SECTOR_CHUNCK_SIZE"
  shows "match_line tg s b = Inr (if holds_sector tg s b then Some HIT
    else if holds_line tg b then Some SECTOR_MISS else None)"
proof -
  have len: "unat s < length (blk_status b)" "unat s < length (m_readable b)"
    using assms by (simp_all add: settled_block_def)
  have "blk_status b ! unat s \<noteq> RESERVED"
    using assms(1) nth_mem [OF len(1)]
    by (auto simp: settled_block_def is_reserved_line_def list_ex_iff)
  moreover have "blk_status b ! unat s \<noteq> INVALID \<Longrightarrow> is_valid_line b"
    using len(1) by (auto simp: is_valid_line_def is_invalid_line_def list_all_length)
  ultimately show ?thesis
    using len by (cases "blk_status b ! unat s")
      (auto simp: match_line_def get_status_def is_readable_def holds_sector_def holds_line_def)
qed

definition misses :: "u64 \<Rightarrow> tag_array \<Rightarrow> nat \<Rightarrow> bool" where
  "misses tg t i \<longleftrightarrow> \<not> holds_line tg (ta_lines t ! i)"

lemma probe_ways_append:
  assumes "wf_tags l s' t" and "unat s < SECTOR_CHUNCK_SIZE"
    and "\<And>i. i \<in> set xs \<Longrightarrow> i < length (ta_lines t) \<and> misses tg t i"
  shows "probe_ways t tg s (xs @ ys) v =
    probe_ways t tg s ys (fold (\<lambda>i. consider_way (ta_config t) i (ta_lines t ! i)) xs v)"
  using assms(3)
proof (induction xs arbitrary: v)
  case (Cons i xs)
  then have i: "i < length (ta_lines t)" "\<not> holds_line tg (ta_lines t ! i)"
    by (auto simp: misses_def)
  have sb: "settled_block (ta_lines t ! i)" by (rule settled_lineD [OF assms(1) i(1)])
  then have "\<not> holds_sector tg s (ta_lines t ! i)"
    using i(2) holds_sector_line [OF sb assms(2)] by blast
  then show ?case
    using Cons i match_line_settled [OF sb assms(2), of tg] by simp
qed simp

lemma probe_ways_stop:
  assumes "wf_tags l s' t" and "unat s < SECTOR_CHUNCK_SIZE"
    and "i < length (ta_lines t)" and "holds_line tg (ta_lines t ! i)"
  shows "probe_ways t tg s (i # ys) v =
    Inr (if holds_sector tg s (ta_lines t ! i) then HIT else SECTOR_MISS, Some i)"
  using assms(3,4) match_line_settled [OF settled_lineD [OF assms(1,3)] assms(2), of tg] by simp

text \<open>The candidates after a scan of settled lines.\<close>

definition candidates :: "tag_array \<Rightarrow> nat list \<Rightarrow> victim \<Rightarrow> bool" where
  "candidates t xs v \<longleftrightarrow>
     (all_reserved v \<longleftrightarrow> xs = []) \<and>
     (case invalid_line v of
        None \<Rightarrow> \<forall>i \<in> set xs. is_valid_line (ta_lines t ! i)
      | Some i \<Rightarrow> i \<in> set xs \<and> is_invalid_line (ta_lines t ! i)) \<and>
     (case valid_line v of
        None \<Rightarrow> valid_timestamp v = u32_max \<and> (\<forall>i \<in> set xs. is_invalid_line (ta_lines t ! i))
      | Some i \<Rightarrow> i \<in> set xs \<and> is_valid_line (ta_lines t ! i) \<and>
          valid_timestamp v = stamp (ta_config t) (ta_lines t ! i) \<and>
          (\<forall>j \<in> set xs. is_valid_line (ta_lines t ! j) \<longrightarrow>
             stamp (ta_config t) (ta_lines t ! i) \<le> stamp (ta_config t) (ta_lines t ! j)))"

lemma consider_settled:
  assumes "wf_tags l s t" and "replaceable t" and "i < length (ta_lines t)"
    and "candidates t xs v"
  shows "candidates t (xs @ [i]) (consider_way (ta_config t) i (ta_lines t ! i) v)"
proof -
  let ?b = "ta_lines t ! i"
  have nres: "\<not> is_reserved_line ?b"
    using settled_lineD [OF assms(1,3)] by (simp add: settled_block_def)
  have lt: "stamp (ta_config t) ?b < u32_max"
    using assms(2,3) by (auto simp: replaceable_def list_all_length)
  show ?thesis
  proof (cases "is_invalid_line ?b")
    case True
    then show ?thesis
      using assms(4) nres
      by (auto simp: candidates_def consider_way_def is_valid_line_def split: option.splits)
  next
    case False
    then have "consider_way (ta_config t) i ?b v =
        older i (stamp (ta_config t) ?b) (v\<lparr>all_reserved := False\<rparr>)"
      using assms(2) nres by (auto simp: consider_way_def replaceable_def stamp_def)
    then show ?thesis
      using assms(4) False lt
      by (auto simp: candidates_def older_def is_valid_line_def split: option.splits)
  qed
qed

lemma candidates_fold:
  assumes "wf_tags l s t" and "replaceable t" and "\<And>i. i \<in> set xs \<Longrightarrow> i < length (ta_lines t)"
  shows "candidates t xs
    (fold (\<lambda>i. consider_way (ta_config t) i (ta_lines t ! i)) xs no_victim)"
  using assms(3)
proof (induction xs rule: rev_induct)
  case Nil
  then show ?case by (simp add: candidates_def no_victim_def)
next
  case (snoc i xs)
  then show ?case using consider_settled [OF assms(1,2), of i xs] by simp
qed

lemma choose_victim_candidates:
  assumes "candidates t xs v" and "xs \<noteq> []"
  shows "\<exists>i \<in> set xs. choose_victim v = Inr (MISS, Some i) \<and>
    (is_invalid_line (ta_lines t ! i) \<or>
     (\<forall>j \<in> set xs. is_valid_line (ta_lines t ! j) \<and>
        stamp (ta_config t) (ta_lines t ! i) \<le> stamp (ta_config t) (ta_lines t ! j)))"
proof (cases "invalid_line v")
  case None
  then have "\<forall>i \<in> set xs. is_valid_line (ta_lines t ! i)" "\<not> all_reserved v"
    using assms by (auto simp: candidates_def)
  moreover from this obtain i where "valid_line v = Some i"
    using assms by (cases "valid_line v") (auto simp: candidates_def is_valid_line_def)
  ultimately show ?thesis
    using assms None by (auto simp: candidates_def choose_victim_def)
next
  case (Some i)
  then show ?thesis using assms by (auto simp: candidates_def choose_victim_def)
qed

text \<open>The probe in one statement: the first line that holds the block answers; when there is none a
  victim is chosen.\<close>

lemma probe_cases:
  assumes wf: "wf_tags l s' t" and rep: "replaceable t" and s: "unat s < SECTOR_CHUNCK_SIZE"
    and si: "set_index (ta_config t) a = Inr si"
  defines "tg \<equiv> tag (ta_config t) a" and "W \<equiv> ways (ta_config t) si"
  obtains
    (found) xs i ys where "W = xs @ i # ys" "i < length (ta_lines t)"
      "\<forall>j \<in> set xs. \<not> holds_line tg (ta_lines t ! j)" "holds_line tg (ta_lines t ! i)"
      "tag_array_probe a s t =
         Inr (if holds_sector tg s (ta_lines t ! i) then HIT else SECTOR_MISS, Some i)"
  | (absent) i where "i \<in> set W" "i < length (ta_lines t)"
      "\<forall>j \<in> set W. \<not> holds_line tg (ta_lines t ! j)" "tag_array_probe a s t = Inr (MISS, Some i)"
      "is_invalid_line (ta_lines t ! i) \<or>
       (\<forall>j \<in> set W. is_valid_line (ta_lines t ! j) \<and>
          stamp (ta_config t) (ta_lines t ! i) \<le> stamp (ta_config t) (ta_lines t ! j))"
proof (cases "\<exists>j \<in> set W. holds_line tg (ta_lines t ! j)")
  case True
  then obtain xs i ys where split: "W = xs @ i # ys" "holds_line tg (ta_lines t ! i)"
    "\<forall>j \<in> set xs. \<not> holds_line tg (ta_lines t ! j)"
    by (rule split_list_first_propE)
  have range: "j < length (ta_lines t)" if "j \<in> set W" for j
    using ways_in_range [OF wf si] that by (simp add: W_def)
  have "tag_array_probe a s t = probe_ways t tg s (xs @ i # ys) no_victim"
    using si split(1) by (simp add: tag_array_probe_def tg_def W_def)
  also have "\<dots> = probe_ways t tg s (i # ys)
      (fold (\<lambda>i. consider_way (ta_config t) i (ta_lines t ! i)) xs no_victim)"
    using range split by (intro probe_ways_append [OF wf s]) (auto simp: misses_def)
  also have "\<dots> = Inr (if holds_sector tg s (ta_lines t ! i) then HIT else SECTOR_MISS, Some i)"
    using range split by (intro probe_ways_stop [OF wf s]) auto
  finally show thesis using found split range by auto
next
  case False
  have range: "j < length (ta_lines t)" if "j \<in> set W" for j
    using ways_in_range [OF wf si] that by (simp add: W_def)
  have "tag_array_probe a s t = probe_ways t tg s (W @ []) no_victim"
    using si by (simp add: tag_array_probe_def tg_def W_def)
  also have "\<dots> = choose_victim
      (fold (\<lambda>i. consider_way (ta_config t) i (ta_lines t ! i)) W no_victim)"
    using range False by (subst probe_ways_append [OF wf s]) (auto simp: misses_def)
  finally have p: "tag_array_probe a s t = \<dots>" .
  have "W \<noteq> []" using ways_nonempty [OF wf si] by (simp add: W_def)
  from choose_victim_candidates [OF candidates_fold [OF wf rep range] this] p False range
  show thesis by (metis absent)
qed

section \<open>The fill\<close>

lemma sector_nth_update:
  "length xs = SECTOR_CHUNCK_SIZE \<Longrightarrow> unat s < SECTOR_CHUNCK_SIZE \<Longrightarrow>
   xs[unat s := x] ! unat s' = (if s' = s then x else xs ! unat (s' :: u32))"
  by (simp add: nth_list_update word_unat_eq_iff)

lemma reserved_after_fill:
  "\<not> is_reserved_line b \<Longrightarrow> \<not> is_reserved_line (b\<lparr>blk_status := (blk_status b)[k := VALID]\<rparr>)"
  by (auto simp: is_reserved_line_def list_ex_iff dest: set_update_subset_insert [THEN subsetD])

lemma valid_after_fill:
  "k < length (blk_status b) \<Longrightarrow> \<not> is_invalid_line (b\<lparr>blk_status := (blk_status b)[k := VALID]\<rparr>)"
  by (auto simp: is_invalid_line_def list_all_length intro!: exI [of _ k])

text \<open>The block after a fill of a line that held the block (\<open>h\<close>) or not.\<close>

definition filled_as :: "cache_config \<Rightarrow> u64 \<Rightarrow> u32 \<Rightarrow> bool \<Rightarrow> sector_cache_block \<Rightarrow> sector_cache_block \<Rightarrow> bool"
where
  "filled_as c tg s h b b' \<longleftrightarrow> settled_block b' \<and> holds_line tg b' \<and>
     (\<forall>s'. unat s' < SECTOR_CHUNCK_SIZE \<longrightarrow>
        (holds_sector tg s' b' \<longleftrightarrow> s' = s \<or> h \<and> holds_sector tg s' b))"

lemma allocate_fill:
  assumes "unat s < SECTOR_CHUNCK_SIZE"
  shows "\<exists>b1 b'. block_allocate tg ba time s b = Inr b1 \<and> block_fill time s b1 = Inr b' \<and>
    filled_as c tg s False b b' \<and> stamp c b' = time"
proof -
  let ?b = "(block_init b)\<lparr>blk_status := (blk_status (block_init b))[unat s := VALID]\<rparr>"
  have len: "length (blk_status (block_init b)) = SECTOR_CHUNCK_SIZE"
      "length (m_readable (block_init b)) = SECTOR_CHUNCK_SIZE"
      "\<not> is_reserved_line (block_init b)"
    by (simp_all add: block_init_def is_reserved_line_def list_ex_iff)
  have "\<not> is_reserved_line ?b" "\<not> is_invalid_line ?b"
    using reserved_after_fill [of "block_init b" "unat s"]
      valid_after_fill [of "unat s" "block_init b"] assms len by simp_all
  moreover have "blk_status (block_init b) ! unat s' = INVALID" "m_readable (block_init b) ! unat s'"
    if "unat s' < SECTOR_CHUNCK_SIZE" for s' :: u32
    using that by (simp_all add: block_init_def)
  ultimately show ?thesis
    using assms len
    by (auto simp: block_allocate_def block_fill_def with_sector_def Let_def filled_as_def
        settled_block_def holds_line_def holds_sector_def stamp_def sector_nth_update
        is_valid_line_def is_invalid_line_def is_reserved_line_def)
qed

lemma refill:
  assumes "settled_block b" and "unat s < SECTOR_CHUNCK_SIZE" and "blk_tag b = tg"
  shows "\<exists>b'. block_fill time s b = Inr b' \<and> filled_as c tg s True b b' \<and> stamp c b' = stamp c b"
proof -
  let ?b = "b\<lparr>blk_status := (blk_status b)[unat s := VALID]\<rparr>"
  have len: "length (blk_status b) = SECTOR_CHUNCK_SIZE" "length (m_readable b) = SECTOR_CHUNCK_SIZE"
    using assms(1) by (simp_all add: settled_block_def)
  have "\<not> is_reserved_line ?b" "\<not> is_invalid_line ?b"
    using reserved_after_fill [of b "unat s"] valid_after_fill [of "unat s" b] assms len
    by (simp_all add: settled_block_def)
  then show ?thesis
    using assms len
    by (auto simp: block_fill_def with_sector_def filled_as_def settled_block_def holds_line_def
        holds_sector_def stamp_def sector_nth_update is_valid_line_def is_invalid_line_def
        is_reserved_line_def)
qed

lemma allocate_sector_fill:
  assumes "settled_block b" and "unat s < SECTOR_CHUNCK_SIZE" and "blk_tag b = tg"
  shows "\<exists>b1 b'. block_allocate_sector time s b = Inr b1 \<and> block_fill time s b1 = Inr b' \<and>
    filled_as c tg s True b b' \<and> stamp c b' \<in> {time, stamp c b}"
proof -
  let ?b = "b\<lparr>blk_status := (blk_status b)[unat s := VALID]\<rparr>"
  have len: "length (blk_status b) = SECTOR_CHUNCK_SIZE" "length (m_readable b) = SECTOR_CHUNCK_SIZE"
    using assms(1) by (simp_all add: settled_block_def)
  have "\<not> is_reserved_line ?b" "\<not> is_invalid_line ?b"
    using reserved_after_fill [of b "unat s"] valid_after_fill [of "unat s" b] assms len
    by (simp_all add: settled_block_def)
  then show ?thesis
    using assms len
    by (auto simp: block_allocate_sector_def block_fill_def with_sector_def filled_as_def
        settled_block_def holds_line_def holds_sector_def stamp_def sector_nth_update
        is_valid_line_def is_invalid_line_def is_reserved_line_def)
qed

text \<open>The fill in one statement: one line of the set is replaced.\<close>

lemma fill_cases:
  assumes wf: "wf_tags l s' t" and rep: "replaceable t" and s: "unat s < SECTOR_CHUNCK_SIZE"
    and si: "set_index (ta_config t) a = Inr si"
  defines "tg \<equiv> tag (ta_config t) a" and "W \<equiv> ways (ta_config t) si"
  obtains i b' h where "i \<in> set W" "i < length (ta_lines t)"
    "tag_array_fill a time s t = Inr (t\<lparr>ta_lines := (ta_lines t)[i := b']\<rparr>)"
    "filled_as (ta_config t) tg s h (ta_lines t ! i) b'"
    "h \<longleftrightarrow> holds_line tg (ta_lines t ! i)" "h \<or> (\<forall>j \<in> set W. \<not> holds_line tg (ta_lines t ! j))"
    "stamp (ta_config t) b' \<in> {time, stamp (ta_config t) (ta_lines t ! i)}"
proof -
  show thesis
  proof (rule probe_cases [OF wf rep s si], fold tg_def W_def)
    fix xs i ys
    assume W: "W = xs @ i # ys" and i: "i < length (ta_lines t)"
      and h: "holds_line tg (ta_lines t ! i)"
      and p: "tag_array_probe a s t =
         Inr (if holds_sector tg s (ta_lines t ! i) then HIT else SECTOR_MISS, Some i)"
    have sb: "settled_block (ta_lines t ! i)" by (rule settled_lineD [OF wf i])
    have tb: "blk_tag (ta_lines t ! i) = tg" using h by (simp add: holds_line_def)
    have iW: "i \<in> set W" using W by simp
    show thesis
    proof (cases "holds_sector tg s (ta_lines t ! i)")
      case True
      from refill [OF sb s tb, of time] obtain b' where
        "block_fill time s (ta_lines t ! i) = Inr b'"
        "filled_as (ta_config t) tg s True (ta_lines t ! i) b'"
        "stamp (ta_config t) b' = stamp (ta_config t) (ta_lines t ! i)" by blast
      then show thesis
        using that [of i b' True] iW i h p True
        by (simp add: tag_array_fill_def update_line_def)
    next
      case False
      from allocate_sector_fill [OF sb s tb, of time] obtain b1 b' where
        "block_allocate_sector time s (ta_lines t ! i) = Inr b1" "block_fill time s b1 = Inr b'"
        "filled_as (ta_config t) tg s True (ta_lines t ! i) b'"
        "stamp (ta_config t) b' \<in> {time, stamp (ta_config t) (ta_lines t ! i)}" by blast
      then show thesis
        using that [of i b' True] iW i h p False
        by (simp add: tag_array_fill_def update_line_def)
    qed
  next
    fix i
    assume iW: "i \<in> set W" and i: "i < length (ta_lines t)"
      and none: "\<forall>j \<in> set W. \<not> holds_line tg (ta_lines t ! j)"
      and p: "tag_array_probe a s t = Inr (MISS, Some i)"
    from allocate_fill [OF s, of tg "block_addr (ta_config t) a" time] obtain b1 b' where
      "block_allocate tg (block_addr (ta_config t) a) time s (ta_lines t ! i) = Inr b1"
      "block_fill time s b1 = Inr b'"
      "filled_as (ta_config t) tg s False (ta_lines t ! i) b'" "stamp (ta_config t) b' = time"
      by blast
    then show thesis
      using that [of i b' False] iW i none p
      by (simp add: tag_array_fill_def update_line_def tg_def)
  qed
qed

lemma wf_tags_update:
  assumes "wf_tags l s t" and "settled_block b"
  shows "wf_tags l s (t\<lparr>ta_lines := (ta_lines t)[i := b]\<rparr>)"
  using assms set_update_subset_insert [of "ta_lines t" i b]
  by (auto simp: wf_tags_def list_all_iff)

lemma replaceable_update:
  assumes "replaceable t" and "stamp (ta_config t) b < u32_max"
  shows "replaceable (t\<lparr>ta_lines := (ta_lines t)[i := b]\<rparr>)"
  using assms set_update_subset_insert [of "ta_lines t" i b]
  by (auto simp: replaceable_def list_all_iff)

lemma stamp_bound:
  "replaceable t \<Longrightarrow> i < length (ta_lines t) \<Longrightarrow> stamp (ta_config t) (ta_lines t ! i) < u32_max"
  by (auto simp: replaceable_def list_all_length)

section \<open>The cache as a set of sectors\<close>

text \<open>
  The abstraction of a tag array: the sectors (address, sector number) it holds.  It is exact
  when no two valid lines of a set carry the same tag.
\<close>

definition cached :: "tag_array \<Rightarrow> u64 \<Rightarrow> u32 \<Rightarrow> bool" where
  "cached t a s =
     (case set_index (ta_config t) a of
        Inl _ \<Rightarrow> False
      | Inr si \<Rightarrow> list_ex (\<lambda>i. holds_sector (tag (ta_config t) a) s (ta_lines t ! i))
                   (ways (ta_config t) si))"

definition unique_tags :: "tag_array \<Rightarrow> bool" where
  "unique_tags t \<longleftrightarrow>
     (\<forall>i < length (ta_lines t). \<forall>j < length (ta_lines t).
        i div nat (m_assoc (ta_config t)) = j div nat (m_assoc (ta_config t)) \<and>
        is_valid_line (ta_lines t ! i) \<and> is_valid_line (ta_lines t ! j) \<and>
        blk_tag (ta_lines t ! i) = blk_tag (ta_lines t ! j) \<longrightarrow> i = j)"

lemma nat_div_eq_iff: "0 < (m :: nat) \<Longrightarrow> k * m \<le> i \<and> i < Suc k * m \<longleftrightarrow> i div m = k"
  using div_nat_eqI [of m k i] dividend_less_div_times [of m i] div_times_less_eq_dividend [of i m]
  by (auto simp: mult.commute)

lemma ways_div:
  assumes "wf_tags l s t" and "set_index (ta_config t) a = Inr si"
  shows "i \<in> set (ways (ta_config t) si) \<longleftrightarrow> i div nat (m_assoc (ta_config t)) = unat si"
proof -
  have c: "indexable l s (ta_config t)" using assms(1) by (simp add: wf_tags_def)
  then have pos: "0 < nat (m_assoc (ta_config t))" by (simp add: indexable_def)
  have "unat si < nat (m_n_sets (ta_config t))" using indexable_sets [OF c, of a] assms(2) by simp
  then have "i \<in> set (ways (ta_config t) si) \<longleftrightarrow>
      unat si * nat (m_assoc (ta_config t)) \<le> i \<and> i < Suc (unat si) * nat (m_assoc (ta_config t))"
    by (auto simp: ways_eq [OF c])
  also have "\<dots> \<longleftrightarrow> i div nat (m_assoc (ta_config t)) = unat si"
    by (rule nat_div_eq_iff [OF pos])
  finally show ?thesis .
qed

lemma wf_set_index: "wf_tags l n t \<Longrightarrow> \<exists>si. set_index (ta_config t) a = Inr si"
  using indexable_sets [of l n "ta_config t" a] by (auto simp: wf_tags_def)

lemma cached_iff:
  "set_index (ta_config t) a = Inr si \<Longrightarrow> cached t a s \<longleftrightarrow>
     (\<exists>i \<in> set (ways (ta_config t) si). holds_sector (tag (ta_config t) a) s (ta_lines t ! i))"
  by (simp add: cached_def list_ex_iff)

lemma unique_in_set:
  assumes "wf_tags l s' t" and "unique_tags t" and "set_index (ta_config t) a = Inr si"
    and "i \<in> set (ways (ta_config t) si)" and "j \<in> set (ways (ta_config t) si)"
    and "holds_line tg (ta_lines t ! i)" and "holds_line tg (ta_lines t ! j)"
  shows "i = j"
proof -
  have "i < length (ta_lines t)" "j < length (ta_lines t)"
    using ways_in_range [OF assms(1,3)] assms(4,5) by blast+
  moreover have "i div nat (m_assoc (ta_config t)) = j div nat (m_assoc (ta_config t))"
    using assms(4,5) by (simp add: ways_div [OF assms(1,3)])
  ultimately show ?thesis
    using assms(2,6,7) unfolding unique_tags_def holds_line_def by metis
qed

lemma unique_tags_fill:
  assumes wf: "wf_tags l s' t" and uniq: "unique_tags t" and si: "set_index (ta_config t) a = Inr si"
    and i: "i \<in> set (ways (ta_config t) si)"
    and b': "filled_as (ta_config t) tg s h (ta_lines t ! i) b'"
    and h: "h \<longleftrightarrow> holds_line tg (ta_lines t ! i)"
      "h \<or> (\<forall>j \<in> set (ways (ta_config t) si). \<not> holds_line tg (ta_lines t ! j))"
  shows "unique_tags (t\<lparr>ta_lines := (ta_lines t)[i := b']\<rparr>)"
proof -
  have tb': "blk_tag b' = tg" using b' by (simp add: filled_as_def holds_line_def)
  have other: "\<not> (is_valid_line (ta_lines t ! j) \<and> blk_tag (ta_lines t ! j) = tg)"
    if "j div nat (m_assoc (ta_config t)) = i div nat (m_assoc (ta_config t))" "j \<noteq> i" for j
  proof -
    have j: "j \<in> set (ways (ta_config t) si)"
      using that(1) i ways_div [OF wf si] by simp
    show ?thesis
      using h unique_in_set [OF wf uniq si i j, of tg] j that(2) by (auto simp: holds_line_def)
  qed
  have o1: "\<not> (is_valid_line (ta_lines t ! j) \<and> blk_tag (ta_lines t ! j) = tg)"
    if "i div nat (m_assoc (ta_config t)) = j div nat (m_assoc (ta_config t))" "j \<noteq> i" for j
    using other [of j] that by simp
  show ?thesis
    unfolding unique_tags_def
  proof (intro allI impI)
    fix j k
    let ?l = "(ta_lines t)[i := b']" and ?A = "nat (m_assoc (ta_config t))"
    assume jk: "j < length (ta_lines (t\<lparr>ta_lines := ?l\<rparr>))" "k < length (ta_lines (t\<lparr>ta_lines := ?l\<rparr>))"
      "j div nat (m_assoc (ta_config (t\<lparr>ta_lines := ?l\<rparr>))) =
        k div nat (m_assoc (ta_config (t\<lparr>ta_lines := ?l\<rparr>))) \<and>
       is_valid_line (ta_lines (t\<lparr>ta_lines := ?l\<rparr>) ! j) \<and>
       is_valid_line (ta_lines (t\<lparr>ta_lines := ?l\<rparr>) ! k) \<and>
       blk_tag (ta_lines (t\<lparr>ta_lines := ?l\<rparr>) ! j) = blk_tag (ta_lines (t\<lparr>ta_lines := ?l\<rparr>) ! k)"
    show "j = k"
    proof (rule ccontr)
      assume ne: "j \<noteq> k"
      consider "j = i" | "k = i" | "j \<noteq> i" "k \<noteq> i" by blast
      then show False
      proof cases
        case 1
        then show False using jk ne o1 [of k] tb' by auto
      next
        case 2
        then show False using jk ne other [of j] tb' by auto
      next
        case 3
        then show False using jk ne uniq by (auto simp: unique_tags_def)
      qed
    qed
  qed
qed

section \<open>An empty array\<close>

lemma settled_new_block: "settled_block new_sector_cache_block"
  by (simp add: settled_block_def new_sector_cache_block_def block_init_def is_reserved_line_def
      list_ex_iff)

lemma invalid_new_block: "is_invalid_line new_sector_cache_block"
  by (simp add: new_sector_cache_block_def block_init_def is_invalid_line_def list_all_iff)

lemma new_tag_array_lines:
  "indexable l s c \<Longrightarrow> length (ta_lines (new_tag_array c n)) = nat (m_n_sets c * m_assoc c)"
proof -
  assume "indexable l s c"
  then have "0 \<le> m_n_sets c * m_assoc c" "m_n_sets c * m_assoc c < 2 ^ 32"
    by (auto simp: indexable_def pow2_geometry_def)
  then have "uint (word_of_int (m_n_sets c * m_assoc c) :: u32) = m_n_sets c * m_assoc c"
    by (simp only: uint_word_of_int_eq) (simp add: take_bit_int_eq_self)
  then show ?thesis by (simp add: new_tag_array_def get_max_num_lines_def unat_eq_nat_uint)
qed

lemma wf_new_tag_array: "indexable l s c \<Longrightarrow> wf_tags l s (new_tag_array c n)"
  using new_tag_array_lines [of l s c n] settled_new_block
  by (simp add: wf_tags_def new_tag_array_def list_all_length)

lemma unique_new_tag_array: "unique_tags (new_tag_array c n)"
  using invalid_new_block by (simp add: unique_tags_def new_tag_array_def is_valid_line_def)

lemma replaceable_new_tag_array:
  "m_replacement_policy c \<in> {''LRU'', ''FIFO''} \<Longrightarrow> replaceable (new_tag_array c n)"
proof -
  have "stamp c new_sector_cache_block < u32_max"
    by (simp add: stamp_def new_sector_cache_block_def block_init_def)
  moreover assume "m_replacement_policy c \<in> {''LRU'', ''FIFO''}"
  ultimately show ?thesis by (auto simp: replaceable_def new_tag_array_def list_all_length)
qed

text \<open>Two sets of two lines, and the array after a first fill.\<close>

definition two_by_two :: cache_config where
  "two_by_two = l2_geometry\<lparr>m_n_sets := 2, m_assoc := 2,
     m_set_index_function := LINEAR_SET_FUNCTION\<rparr>"

lemma two_by_two_indexable: "indexable 7 1 two_by_two"
  by (simp add: indexable_def pow2_geometry_def two_by_two_def l2_geometry_def)

lemma two_by_two_ok:
  "wf_tags 7 1 (new_tag_array two_by_two n)" "unique_tags (new_tag_array two_by_two n)"
  "replaceable (new_tag_array two_by_two n)"
  using wf_new_tag_array [OF two_by_two_indexable] unique_new_tag_array replaceable_new_tag_array
  by (simp_all add: two_by_two_def l2_geometry_def)

section \<open>Properties\<close>

lemma probe_hit_iff_cached:
  assumes "wf_tags l n t" and "replaceable t" and "unique_tags t" and "unat s < SECTOR_CHUNCK_SIZE"
  shows "(\<exists>i. tag_array_probe a s t = Inr (HIT, Some i)) \<longleftrightarrow> cached t a s"
proof -
  obtain si where si: "set_index (ta_config t) a = Inr si"
    using wf_set_index [OF assms(1)] by blast
  note line = holds_sector_line [OF settled_lineD [OF assms(1)] assms(4)]
  note range = ways_in_range [OF assms(1) si]
  show ?thesis
  proof (rule probe_cases [OF assms(1,2,4) si])
    fix xs i ys
    assume W: "ways (ta_config t) si = xs @ i # ys"
      and i: "holds_line (tag (ta_config t) a) (ta_lines t ! i)"
      and p: "tag_array_probe a s t = Inr (if holds_sector (tag (ta_config t) a) s (ta_lines t ! i)
        then HIT else SECTOR_MISS, Some i)"
    have "j = i" if "j \<in> set (ways (ta_config t) si)"
      "holds_sector (tag (ta_config t) a) s (ta_lines t ! j)" for j
      using unique_in_set [OF assms(1,3) si that(1), of i] line [OF range [OF that(1)] that(2)] i W
      by auto
    then show ?thesis using p W by (auto simp: cached_iff [OF si])
  next
    fix i
    assume "\<forall>j \<in> set (ways (ta_config t) si). \<not> holds_line (tag (ta_config t) a) (ta_lines t ! j)"
      and "tag_array_probe a s t = Inr (MISS, Some i)"
    then show ?thesis using line range by (auto simp: cached_iff [OF si])
  qed
qed

text \<open>The lookup is exact: with no tag twice in a set, the probe reports a hit for exactly the
  sectors that the cache holds, and the line it points at holds that sector.\<close>

theorem tag_array_probe_exact:
  assumes "wf_tags l n t" and "replaceable t" and "unique_tags t" and "unat s < SECTOR_CHUNCK_SIZE"
  shows "(\<exists>i. tag_array_probe a s t = Inr (HIT, Some i)) \<longleftrightarrow> cached t a s"
  using assms by (rule probe_hit_iff_cached)

theorem tag_array_probe_exact_witness:
  "\<not> (\<exists>i. tag_array_probe 0x80 1 (new_tag_array two_by_two 0) = Inr (HIT, Some i))"
proof -
  have "\<not> cached (new_tag_array two_by_two 0) 0x80 1" by code_simp
  then show ?thesis
    using tag_array_probe_exact [OF two_by_two_ok(1) two_by_two_ok(3) two_by_two_ok(2), where s = 1 and a = "0x80"]
    by (simp add: SECTOR_CHUNCK_SIZE_def)
qed

text \<open>C6. The victim: on a miss the probe names a line of the set, an invalid one if the set has
  one, otherwise the line whose stamp (last access for LRU, allocation for FIFO) is the oldest.\<close>

theorem tag_array_probe_victim:
  assumes "wf_tags l n t" and "replaceable t" and "unat s < SECTOR_CHUNCK_SIZE"
    and "set_index (ta_config t) a = Inr si" and "tag_array_probe a s t = Inr (MISS, idx)"
  shows "\<exists>i \<in> set (ways (ta_config t) si). idx = Some i \<and> i < length (ta_lines t) \<and>
    (is_invalid_line (ta_lines t ! i) \<or>
     (\<forall>j \<in> set (ways (ta_config t) si). is_valid_line (ta_lines t ! j) \<and>
        stamp (ta_config t) (ta_lines t ! i) \<le> stamp (ta_config t) (ta_lines t ! j)))"
  by (rule probe_cases [OF assms(1,2,3,4)]) (use assms(5) in \<open>auto split: if_splits\<close>)

theorem tag_array_probe_victim_witness:
  "\<exists>i. tag_array_probe 0x80 1 (new_tag_array two_by_two 0) = Inr (MISS, Some i) \<and> 2 \<le> i"
proof -
  let ?t = "new_tag_array two_by_two 0"
  have p: "tag_array_probe 0x80 1 ?t = Inr (MISS, Some 3)" by code_simp
  have si: "set_index (ta_config ?t) 0x80 = Inr 1" by code_simp
  have "\<exists>i \<in> set (ways (ta_config ?t) 1). Some 3 = Some i \<and> i < length (ta_lines ?t) \<and>
    (is_invalid_line (ta_lines ?t ! i) \<or>
     (\<forall>j \<in> set (ways (ta_config ?t) 1). is_valid_line (ta_lines ?t ! j) \<and>
        stamp (ta_config ?t) (ta_lines ?t ! i) \<le> stamp (ta_config ?t) (ta_lines ?t ! j)))"
    by (rule tag_array_probe_victim [OF two_by_two_ok(1) two_by_two_ok(3) _ si p])
      (simp add: SECTOR_CHUNCK_SIZE_def)
  then show ?thesis using p by auto
qed

text \<open>C2. The fill refines insertion into the set of cached sectors: it always succeeds (the index
  it uses is never uninitialised), keeps the invariants, the sector is cached afterwards, nothing
  else appears, and what disappears is the content of one line.\<close>

theorem tag_array_fill_refines:
  assumes wf: "wf_tags l n t" and rep: "replaceable t" and uniq: "unique_tags t"
    and s: "unat s < SECTOR_CHUNCK_SIZE" and time: "time < u32_max"
  shows "\<exists>t' evicted. tag_array_fill a time s t = Inr t' \<and> wf_tags l n t' \<and> replaceable t' \<and>
    unique_tags t' \<and> cached t' a s \<and>
    (\<forall>b k. unat k < SECTOR_CHUNCK_SIZE \<and> cached t' b k \<longrightarrow>
       (tag (ta_config t) b = tag (ta_config t) a \<and> k = s) \<or> cached t b k) \<and>
    (\<forall>b k. unat k < SECTOR_CHUNCK_SIZE \<and> cached t b k \<and> \<not> cached t' b k \<longrightarrow>
       tag (ta_config t) b = evicted)"
proof -
  let ?c = "ta_config t"
  obtain si where si: "set_index ?c a = Inr si"
    using wf_set_index [OF wf] by blast
  show ?thesis
  proof (rule fill_cases [OF wf rep s si, of time])
    fix i b' h
    assume i: "i \<in> set (ways ?c si)" "i < length (ta_lines t)"
      and run: "tag_array_fill a time s t = Inr (t\<lparr>ta_lines := (ta_lines t)[i := b']\<rparr>)"
      and b': "filled_as ?c (tag ?c a) s h (ta_lines t ! i) b'"
      and h: "h \<longleftrightarrow> holds_line (tag ?c a) (ta_lines t ! i)"
        "h \<or> (\<forall>j \<in> set (ways ?c si). \<not> holds_line (tag ?c a) (ta_lines t ! j))"
      and st: "stamp ?c b' \<in> {time, stamp ?c (ta_lines t ! i)}"
    let ?t = "t\<lparr>ta_lines := (ta_lines t)[i := b']\<rparr>"
    have inv: "wf_tags l n ?t" "replaceable ?t" "unique_tags ?t"
      using wf_tags_update [OF wf] replaceable_update [OF rep] b' st time stamp_bound [OF rep i(2)]
        unique_tags_fill [OF wf uniq si i(1) b' h] by (auto simp: filled_as_def)
    have hs: "holds_sector tg k b' \<longleftrightarrow> k = s \<or> h \<and> holds_sector (tag ?c a) k (ta_lines t ! i)"
      if "tg = tag ?c a" "unat k < SECTOR_CHUNCK_SIZE" for tg k
      using b' that by (simp add: filled_as_def)
    have tb: "holds_sector tg k b' \<Longrightarrow> tg = tag ?c a" for tg k
      using b' by (simp add: filled_as_def holds_line_def holds_sector_def)
    have new: "(tag ?c b = tag ?c a \<and> k = s) \<or> cached t b k"
      if k: "unat k < SECTOR_CHUNCK_SIZE" "cached ?t b k" for b k
    proof -
      obtain sj where sj: "set_index ?c b = Inr sj" using wf_set_index [OF wf] by blast
      with k(2) obtain j where j: "j \<in> set (ways ?c sj)"
        "holds_sector (tag ?c b) k ((ta_lines t)[i := b'] ! j)" by (auto simp: cached_iff)
      then show ?thesis
        using tb [of "tag ?c b" k] hs [of "tag ?c b" k] k(1) i(2)
        by (cases "j = i") (auto simp: cached_iff [OF sj])
    qed
    have gone: "tag ?c b = blk_tag (ta_lines t ! i)"
      if k: "unat k < SECTOR_CHUNCK_SIZE" "cached t b k" "\<not> cached ?t b k" for b k
    proof -
      obtain sj where sj: "set_index ?c b = Inr sj" using wf_set_index [OF wf] by blast
      with k(2) obtain j where j: "j \<in> set (ways ?c sj)" "holds_sector (tag ?c b) k (ta_lines t ! j)"
        by (auto simp: cached_iff)
      with k(3) sj have "\<not> holds_sector (tag ?c b) k ((ta_lines t)[i := b'] ! j)"
        by (auto simp: cached_iff)
      with j(2) have "j = i" by (metis nth_list_update_neq)
      then show ?thesis using j(2) by (simp add: holds_sector_def)
    qed
    have "cached ?t a s"
      using si i hs [of "tag ?c a" s] s by (auto simp: cached_iff intro!: bexI [of _ i])
    then show ?thesis using run inv new gone by blast
  qed
qed

theorem tag_array_fill_refines_witness:
  "\<exists>t'. tag_array_fill 0x80 5 1 (new_tag_array two_by_two 0) = Inr t' \<and> cached t' 0x80 1"
proof -
  have "unat (1 :: u32) < SECTOR_CHUNCK_SIZE" "(5 :: u32) < u32_max"
    by (simp_all add: SECTOR_CHUNCK_SIZE_def)
  from tag_array_fill_refines [OF two_by_two_ok(1) two_by_two_ok(3) two_by_two_ok(2) this]
  show ?thesis by blast
qed

end
