(* ===== verification/Crossbar.thy ===== *)
theory Crossbar
  imports Prelude "HOL-Library.Multiset"
begin

text \<open>
  The interconnect, \<^verbatim>\<open>crossbar.h\<close> and \<^verbatim>\<open>crossbar.cpp\<close>: a router with a queue per input
  and per output and a round-robin arbiter, and the pair of routers (requests, replies) that the
  simulator calls \<open>LocalInterconnect\<close>.  The payload \<open>void*\<close> is a type parameter.  The buffers
  are lists of queues, and a device number beyond them is undefined behaviour.
\<close>

section \<open>The router\<close>

datatype Interconnect_type = REQ_NET | REPLY_NET

datatype Arbiteration_type = NAIVE_RR

record inct_config =
  cfg_in_buffer_limit :: u32
  cfg_out_buffer_limit :: u32
  subnets :: u32
  arbiter_algo :: Arbiteration_type

record 'd packet =
  pk_data :: 'd
  output_deviceID :: u32

record 'd xbar_router =
  in_buffers :: "'d packet list list"
  out_buffers :: "'d packet list list"
  xb_n_shader :: u32
  xb_n_mem :: u32
  total_nodes :: u32
  in_buffer_limit :: u32
  out_buffer_limit :: u32
  next_node_id :: u32
  xb_id :: u32
  router_type :: Interconnect_type
  active_in_buffers :: u32
  active_out_buffers :: u32
  arbit_type :: Arbiteration_type
  xb_cycles :: u64
  conflicts_util :: u64
  conflicts :: u64
  cycles_util :: u64

definition new_xbar_router ::
  "u32 \<Rightarrow> Interconnect_type \<Rightarrow> u32 \<Rightarrow> u32 \<Rightarrow> inct_config \<Rightarrow> 'd xbar_router"
where
  "new_xbar_router router_id ty n_shader n_mem c =
     (let total = n_shader + n_mem in
      \<lparr>in_buffers = replicate (unat total) [], out_buffers = replicate (unat total) [],
       xb_n_shader = n_shader, xb_n_mem = n_mem, total_nodes = total,
       in_buffer_limit = cfg_in_buffer_limit c, out_buffer_limit = cfg_out_buffer_limit c,
       next_node_id = 0, xb_id = router_id, router_type = ty,
       active_in_buffers = (case ty of REQ_NET \<Rightarrow> n_shader | REPLY_NET \<Rightarrow> n_mem),
       active_out_buffers = (case ty of REQ_NET \<Rightarrow> n_mem | REPLY_NET \<Rightarrow> n_shader),
       arbit_type = arbiter_algo c, xb_cycles = 0, conflicts_util = 0, conflicts = 0,
       cycles_util = 0\<rparr>)"

definition xbar_push :: "u32 \<Rightarrow> u32 \<Rightarrow> 'd \<Rightarrow> u32 \<Rightarrow> 'd xbar_router \<Rightarrow> 'd xbar_router res" where
  "xbar_push inp out d sz r =
     rbind (nth_res (in_buffers r) (unat inp)) (\<lambda>q.
       Inr (r\<lparr>in_buffers :=
                (in_buffers r)[unat inp := q @ [\<lparr>pk_data = d, output_deviceID = out\<rparr>]]\<rparr>))"

definition xbar_pop :: "u32 \<Rightarrow> 'd xbar_router \<Rightarrow> ('d option \<times> 'd xbar_router) res" where
  "xbar_pop out r =
     rbind (nth_res (out_buffers r) (unat out)) (\<lambda>q.
       case q of
         [] \<Rightarrow> Inr (None, r)
       | p # rest \<Rightarrow>
           Inr (Some (pk_data p), r\<lparr>out_buffers := (out_buffers r)[unat out := rest]\<rparr>))"

definition has_buffer_in :: "u32 \<Rightarrow> u32 \<Rightarrow> 'd xbar_router \<Rightarrow> bool res" where
  "has_buffer_in inp sz r =
     rbind (nth_res (in_buffers r) (unat inp)) (\<lambda>q.
       Inr (length q + unat sz \<le> unat (in_buffer_limit r)))"

definition has_buffer_out :: "u32 \<Rightarrow> u32 \<Rightarrow> 'd xbar_router \<Rightarrow> bool res" where
  "has_buffer_out out sz r =
     rbind (nth_res (out_buffers r) (unat out)) (\<lambda>q.
       Inr (length q + unat sz \<le> unat (out_buffer_limit r)))"

text \<open>The locals of the arbiter's loop, with the router.\<close>

record 'd rr_state =
  rr_router :: "'d xbar_router"
  rr_active :: bool
  rr_issued :: "bool list"
  rr_conflict_sub :: u32
  rr_reqs :: u32

definition rr_step :: "nat \<Rightarrow> 'd rr_state \<Rightarrow> 'd rr_state res" where
  "rr_step i st =
     (let r = rr_router st;
          node_id = (of_nat i + next_node_id r) mod total_nodes r
      in rbind (nth_res (in_buffers r) (unat node_id)) (\<lambda>q.
         case q of
           [] \<Rightarrow> Inr st
         | p # rest \<Rightarrow>
             (let out = unat (output_deviceID p); st = st\<lparr>rr_active := True\<rparr>
              in rbind (has_buffer_out (output_deviceID p) 1 r) (\<lambda>room.
                 rbind (nth_res (rr_issued st) out) (\<lambda>issued.
                 if room then
                   if \<not> issued then
                     Inr (st\<lparr>rr_router := r\<lparr>
                               out_buffers := (out_buffers r)[out := out_buffers r ! out @ [p]],
                               in_buffers := (in_buffers r)[unat node_id := rest]\<rparr>,
                             rr_issued := (rr_issued st)[out := True],
                             rr_reqs := rr_reqs st + 1\<rparr>)
                   else Inr (st\<lparr>rr_conflict_sub := rr_conflict_sub st + 1\<rparr>)
                 else if issued then Inr (st\<lparr>rr_conflict_sub := rr_conflict_sub st + 1\<rparr>)
                 else Inr st)))))"

definition rr_finish :: "'d rr_state \<Rightarrow> 'd xbar_router" where
  "rr_finish st =
     (let r = rr_router st; sub = ucast (rr_conflict_sub st);
          util = (if rr_active st then 1 else 0)
      in r\<lparr>next_node_id := (next_node_id r + 1) mod total_nodes r,
           conflicts := conflicts r + sub,
           conflicts_util := conflicts_util r + util * sub,
           cycles_util := cycles_util r + util,
           xb_cycles := xb_cycles r + 1\<rparr>)"

definition RR_Advance :: "'d xbar_router \<Rightarrow> 'd xbar_router res" where
  "RR_Advance r =
     rbind (foldM rr_step [0..<unat (total_nodes r)]
              \<lparr>rr_router = r, rr_active = False,
               rr_issued = replicate (unat (total_nodes r)) False,
               rr_conflict_sub = 0, rr_reqs = 0\<rparr>)
       (\<lambda>st. guard (total_nodes r \<noteq> 0) Undefined_Behaviour (Inr (rr_finish st)))"

definition xbar_advance :: "'d xbar_router \<Rightarrow> 'd xbar_router res" where
  "xbar_advance r = (case arbit_type r of NAIVE_RR \<Rightarrow> RR_Advance r)"

definition xbar_busy :: "'d xbar_router \<Rightarrow> bool res" where
  "xbar_busy r =
     foldM (\<lambda>i busy. if busy then Inr True else
              rbind (nth_res (in_buffers r) i) (\<lambda>q. if q \<noteq> [] then Inr True else
              rbind (nth_res (out_buffers r) i) (\<lambda>q. Inr (q \<noteq> []))))
       [0..<unat (total_nodes r)] False"

section \<open>The interconnect\<close>

record 'd local_interconnect =
  m_inct_config :: inct_config
  n_shader :: u32
  n_mem :: u32
  n_subnets :: u32
  net :: "'d xbar_router list"

definition new_local_interconnect :: "inct_config \<Rightarrow> 'd local_interconnect" where
  "new_local_interconnect c =
     \<lparr>m_inct_config = c, n_shader = 0, n_mem = 0, n_subnets = subnets c, net = []\<rparr>"

text \<open>\<open>static_cast<Interconnect_type>(i)\<close>; beyond 1 the constructor sets neither count of active
  buffers, which nothing reads.\<close>

definition CreateInterconnect :: "u32 \<Rightarrow> u32 \<Rightarrow> 'd local_interconnect \<Rightarrow> 'd local_interconnect" where
  "CreateInterconnect m_n_shader m_n_mem ic =
     ic\<lparr>n_shader := m_n_shader, n_mem := m_n_mem,
        net := map (\<lambda>i. new_xbar_router (of_nat i) (if i = 0 then REQ_NET else REPLY_NET)
                        m_n_shader m_n_mem (m_inct_config ic)) [0..<unat (n_subnets ic)]\<rparr>"

definition update_net ::
  "nat \<Rightarrow> ('d xbar_router \<Rightarrow> ('b \<times> 'd xbar_router) res) \<Rightarrow> 'd local_interconnect \<Rightarrow>
   ('b \<times> 'd local_interconnect) res"
where
  "update_net k f ic =
     rbind (nth_res (net ic) k) (\<lambda>r. rbind (f r) (\<lambda>(x, r').
       Inr (x, ic\<lparr>net := (net ic)[k := r']\<rparr>)))"

definition icnt_push ::
  "u32 \<Rightarrow> u32 \<Rightarrow> 'd \<Rightarrow> u32 \<Rightarrow> 'd local_interconnect \<Rightarrow> 'd local_interconnect res"
where
  "icnt_push inp out d sz ic =
     (let subnet = (if n_subnets ic = 1 then 0 else if inp < n_shader ic then 0 else 1)
      in rbind (update_net subnet (\<lambda>r. rbind (xbar_push inp out d sz r) (\<lambda>r'. Inr ((), r'))) ic)
           (\<lambda>(_, ic'). Inr ic'))"

definition icnt_pop ::
  "u32 \<Rightarrow> 'd local_interconnect \<Rightarrow> ('d option \<times> 'd local_interconnect) res"
where
  "icnt_pop out ic =
     (let subnet = (if out < n_shader ic then 1 else 0) in update_net subnet (xbar_pop out) ic)"

definition icnt_advance :: "'d local_interconnect \<Rightarrow> 'd local_interconnect res" where
  "icnt_advance ic =
     foldM (\<lambda>i ic. rbind (update_net i (\<lambda>r. rbind (xbar_advance r) (\<lambda>r'. Inr ((), r'))) ic)
                     (\<lambda>(_, ic'). Inr ic'))
       [0..<unat (n_subnets ic)] ic"

definition icnt_busy :: "'d local_interconnect \<Rightarrow> bool res" where
  "icnt_busy ic =
     foldM (\<lambda>i busy. if busy then Inr True else rbind (nth_res (net ic) i) xbar_busy)
       [0..<unat (n_subnets ic)] False"

definition HasBuffer :: "u32 \<Rightarrow> u32 \<Rightarrow> 'd local_interconnect \<Rightarrow> bool res" where
  "HasBuffer dev sz ic =
     (if n_subnets ic > 1 \<and> dev \<ge> n_shader ic
      then rbind (nth_res (net ic) 1) (has_buffer_in dev 1)
      else rbind (nth_res (net ic) 0) (has_buffer_in dev 1))"

section \<open>The arbiter's specification\<close>

text \<open>A well-formed router of \<open>N\<close> nodes.\<close>

definition wf_router :: "nat \<Rightarrow> 'd xbar_router \<Rightarrow> bool" where
  "wf_router N r \<longleftrightarrow> 0 < N \<and> N < 2 ^ 31 \<and> unat (total_nodes r) = N \<and>
     length (in_buffers r) = N \<and> length (out_buffers r) = N \<and> unat (next_node_id r) < N \<and>
     list_all (list_all (\<lambda>p. unat (output_deviceID p) < N)) (in_buffers r) \<and>
     list_all (\<lambda>out. list_all (\<lambda>p. unat (output_deviceID p) = out) (out_buffers r ! out)) [0..<N]"

text \<open>The order in which a cycle polls the inputs: from \<open>next_node_id\<close> round.\<close>

definition rr_order :: "nat \<Rightarrow> 'd xbar_router \<Rightarrow> nat list" where
  "rr_order N r = map (\<lambda>i. (i + unat (next_node_id r)) mod N) [0..<N]"

definition wants :: "'d xbar_router \<Rightarrow> nat \<Rightarrow> nat \<Rightarrow> bool" where
  "wants r out node \<longleftrightarrow> in_buffers r ! node \<noteq> [] \<and>
     unat (output_deviceID (hd (in_buffers r ! node))) = out"

definition room :: "'d xbar_router \<Rightarrow> nat \<Rightarrow> bool" where
  "room r out \<longleftrightarrow> length (out_buffers r ! out) < unat (out_buffer_limit r)"

text \<open>The input granted an output: the first in the order whose head goes there.\<close>

definition granted :: "'d xbar_router \<Rightarrow> nat list \<Rightarrow> nat \<Rightarrow> nat option" where
  "granted r order out = (if room r out then find (wants r out) order else None)"

definition out_after :: "'d xbar_router \<Rightarrow> nat list \<Rightarrow> nat \<Rightarrow> 'd packet list" where
  "out_after r order out =
     out_buffers r ! out @
     (case granted r order out of None \<Rightarrow> [] | Some node \<Rightarrow> [hd (in_buffers r ! node)])"

definition in_after :: "'d xbar_router \<Rightarrow> nat list \<Rightarrow> nat \<Rightarrow> 'd packet list" where
  "in_after r order node =
     (case in_buffers r ! node of
        [] \<Rightarrow> []
      | p # rest \<Rightarrow>
          if granted r order (unat (output_deviceID p)) = Some node then rest else p # rest)"

definition served :: "nat \<Rightarrow> 'd xbar_router \<Rightarrow> nat list \<Rightarrow> 'd xbar_router" where
  "served N r order =
     r\<lparr>in_buffers := map (in_after r order) [0..<N], out_buffers := map (out_after r order) [0..<N]\<rparr>"

definition rr_inv :: "nat \<Rightarrow> 'd xbar_router \<Rightarrow> nat list \<Rightarrow> 'd rr_state \<Rightarrow> bool" where
  "rr_inv N r order st \<longleftrightarrow> rr_router st = served N r order \<and>
     rr_issued st = map (\<lambda>out. granted r order out \<noteq> None) [0..<N]"

lemma granted_in: "granted r order out = Some node \<Longrightarrow> node \<in> set order \<and> wants r out node"
  by (auto simp: granted_def find_Some_iff split: if_splits)

lemma granted_snoc:
  "granted r (order @ [node]) out =
     (if granted r order out = None \<and> room r out \<and> wants r out node then Some node
      else granted r order out)"
  by (induction order) (auto simp: granted_def)

lemma in_after_unpolled: "node \<notin> set order \<Longrightarrow> in_after r order node = in_buffers r ! node"
  by (auto simp: in_after_def dest: granted_in split: list.splits)

lemma served_snoc_idle:
  assumes "\<And>out. out < N \<Longrightarrow> granted r (order @ [node]) out = granted r order out"
    and "list_all (list_all (\<lambda>p. unat (output_deviceID p) < N)) (in_buffers r)"
    and "length (in_buffers r) = N"
  shows "served N r (order @ [node]) = served N r order"
proof -
  have "in_after r (order @ [node]) i = in_after r order i" if "i < N" for i
    using assms(1) assms(2,3) that
    by (auto simp: in_after_def list_all_length split: list.splits)
      (metis length_greater_0_conv list.distinct(1) nth_Cons_0)+
  then show ?thesis
    using assms(1) by (simp add: served_def out_after_def cong: map_cong)
qed

lemma served_snoc_grant:
  assumes q: "in_buffers r ! node = p # rest" and node: "node < N" "node \<notin> set order"
    and free: "granted r order (unat (output_deviceID p)) = None" "room r (unat (output_deviceID p))"
    and out: "unat (output_deviceID p) < N"
  shows "served N r (order @ [node]) =
    (served N r order)\<lparr>
      in_buffers := (in_buffers (served N r order))[node := rest],
      out_buffers := (out_buffers (served N r order))[unat (output_deviceID p) :=
        out_after r order (unat (output_deviceID p)) @ [p]]\<rparr>"
proof -
  let ?o = "unat (output_deviceID p)"
  have g: "granted r (order @ [node]) o' = (if o' = ?o then Some node else granted r order o')" for o'
    using q free by (auto simp: granted_snoc wants_def)
  have "map (in_after r (order @ [node])) [0..<N] = (map (in_after r order) [0..<N])[node := rest]"
  proof (rule nth_equalityI)
    fix i assume "i < length (map (in_after r (order @ [node])) [0..<N])"
    then show "map (in_after r (order @ [node])) [0..<N] ! i =
        (map (in_after r order) [0..<N])[node := rest] ! i"
      using q g free node by (auto simp: in_after_def nth_list_update split: list.splits)
  qed simp
  moreover have "map (out_after r (order @ [node])) [0..<N] =
      (map (out_after r order) [0..<N])[?o := out_after r order ?o @ [p]]"
  proof (rule nth_equalityI)
    fix i assume "i < length (map (out_after r (order @ [node])) [0..<N])"
    then show "map (out_after r (order @ [node])) [0..<N] ! i =
        (map (out_after r order) [0..<N])[?o := out_after r order ?o @ [p]] ! i"
      using q g free by (auto simp: out_after_def nth_list_update)
  qed simp
  ultimately show ?thesis by (simp add: served_def)
qed

lemma rr_step_inv:
  assumes wf: "wf_router N r" and k: "k < N" and inv: "rr_inv N r order st"
    and node: "node = (k + unat (next_node_id r)) mod N" "node \<notin> set order"
  shows "\<exists>st'. rr_step k st = Inr st' \<and> rr_inv N r (order @ [node]) st'"
proof -
  let ?r = "served N r order"
  have r: "rr_router st = ?r" and iss: "rr_issued st = map (\<lambda>out. granted r order out \<noteq> None) [0..<N]"
    using inv by (simp_all add: rr_inv_def)
  have N: "0 < N" "N < 2 ^ 31" "unat (total_nodes r) = N" "unat (next_node_id r) < N"
    "length (in_buffers r) = N" "length (out_buffers r) = N"
    and dests: "list_all (list_all (\<lambda>p. unat (output_deviceID p) < N)) (in_buffers r)"
    using wf by (simp_all add: wf_router_def)
  have "unat (of_nat k + next_node_id r) = k + unat (next_node_id r)"
    using N k by (simp add: unat_word_ariths unat_of_nat)
  then have nid: "unat ((of_nat k + next_node_id r) mod total_nodes r) = node"
    using N node(1) by (simp add: unat_mod)
  have lt: "node < N" using node(1) N(1) by simp
  have same: "total_nodes ?r = total_nodes r" "next_node_id ?r = next_node_id r"
    "out_buffer_limit ?r = out_buffer_limit r"
    "in_buffers ?r = map (in_after r order) [0..<N]" "out_buffers ?r = map (out_after r order) [0..<N]"
    by (simp_all add: served_def)
  have q: "in_buffers ?r ! node = in_buffers r ! node"
    using lt node(2) by (simp add: same in_after_unpolled)
  show ?thesis
  proof (cases "in_buffers r ! node")
    case Nil
    then have "granted r (order @ [node]) out = granted r order out" for out
      by (simp add: granted_snoc wants_def)
    then have "rr_inv N r (order @ [node]) st"
      using inv served_snoc_idle [OF _ dests N(5), of order node] by (simp add: rr_inv_def)
    moreover have "rr_step k st = Inr st"
      using lt q Nil unfolding rr_step_def Let_def r same(1,2) nid by (simp add: same)
    ultimately show ?thesis by blast
  next
    case (Cons p rest)
    let ?o = "unat (output_deviceID p)"
    have o: "?o < N"
      using dests lt N(5) Cons by (auto simp: list_all_length) (metis length_Cons nth_Cons_0 zero_less_Suc)
    have step: "rr_step k st = (if length (out_after r order ?o) + 1 \<le> unat (out_buffer_limit r) then
          if granted r order ?o = None then
            Inr (st\<lparr>rr_active := True, rr_router := ?r\<lparr>
                  out_buffers := (out_buffers ?r)[?o := out_after r order ?o @ [p]],
                  in_buffers := (in_buffers ?r)[node := rest]\<rparr>,
                rr_issued := (rr_issued st)[?o := True], rr_reqs := rr_reqs st + 1\<rparr>)
          else Inr (st\<lparr>rr_active := True, rr_conflict_sub := rr_conflict_sub st + 1\<rparr>)
        else if granted r order ?o \<noteq> None
        then Inr (st\<lparr>rr_active := True, rr_conflict_sub := rr_conflict_sub st + 1\<rparr>)
        else Inr (st\<lparr>rr_active := True\<rparr>))"
      using lt o q Cons unfolding rr_step_def Let_def r same(1,2) nid
      by (simp add: same has_buffer_out_def iss)
    show ?thesis
    proof (cases "granted r order ?o = None \<and> room r ?o")
      case True
      then have "out_after r order ?o = out_buffers r ! ?o" by (simp add: out_after_def)
      then have "rr_step k st = Inr (st\<lparr>rr_active := True, rr_router := ?r\<lparr>
                  out_buffers := (out_buffers ?r)[?o := out_after r order ?o @ [p]],
                  in_buffers := (in_buffers ?r)[node := rest]\<rparr>,
                rr_issued := (rr_issued st)[?o := True], rr_reqs := rr_reqs st + 1\<rparr>)"
        using True step by (simp add: room_def)
      moreover have "(rr_issued st)[?o := True] =
          map (\<lambda>out. granted r (order @ [node]) out \<noteq> None) [0..<N]"
        using True Cons o
        by (intro nth_equalityI) (auto simp: iss granted_snoc wants_def nth_list_update)
      ultimately show ?thesis
        using served_snoc_grant [OF Cons lt node(2) _ _ o] True
        by (simp add: rr_inv_def)
    next
      case False
      then have "granted r (order @ [node]) out = granted r order out" for out
        using Cons by (auto simp: granted_snoc wants_def)
      then have "rr_inv N r (order @ [node]) st"
        using inv served_snoc_idle [OF _ dests N(5), of order node] by (simp add: rr_inv_def)
      moreover have "granted r order ?o = None \<Longrightarrow>
          \<not> length (out_after r order ?o) + 1 \<le> unat (out_buffer_limit r)"
        using False by (simp add: out_after_def room_def)
      ultimately show ?thesis unfolding step by (auto simp: rr_inv_def)
    qed
  qed
qed

lemma rr_order_rotate: "rr_order N r = rotate (unat (next_node_id r)) [0..<N]"
  by (rule nth_equalityI) (simp_all add: rr_order_def nth_rotate add.commute)

lemma rr_order_distinct: "distinct (rr_order N r)"
  by (simp add: rr_order_rotate)

lemma set_rr_order: "set (rr_order N r) = {..<N}"
  by (simp add: rr_order_rotate atLeast0LessThan)

lemma rr_loop:
  assumes wf: "wf_router N r" and "rr_inv N r [] st" and "k \<le> N"
  shows "\<exists>st'. foldM rr_step [0..<k] st = Inr st' \<and> rr_inv N r (take k (rr_order N r)) st'"
  using assms(3)
proof (induction k)
  case 0
  then show ?case using assms(2) by simp
next
  case (Suc k)
  then obtain st1 where st1: "foldM rr_step [0..<k] st = Inr st1"
    "rr_inv N r (take k (rr_order N r)) st1" by auto
  let ?n = "(k + unat (next_node_id r)) mod N"
  have nth: "rr_order N r ! k = ?n" using Suc.prems by (simp add: rr_order_def)
  have "?n \<notin> set (take k (rr_order N r))"
    using rr_order_distinct [of N r] Suc.prems nth
    by (metis Suc_le_eq distinct_take in_set_conv_nth length_map length_upt minus_nat.diff_0
        not_distinct_conv_prefix rr_order_def take_Suc_conv_app_nth)
  from rr_step_inv [OF wf _ st1(2) refl this] Suc.prems obtain st' where
    "rr_step k st1 = Inr st'" "rr_inv N r (take k (rr_order N r) @ [?n]) st'" by auto
  then show ?case
    using Suc.prems st1(1) nth
    by (simp add: foldM_append take_Suc_conv_app_nth rr_order_def)
qed

lemma in_after_subset: "set (in_after r order n) \<subseteq> set (in_buffers r ! n)"
  by (cases "in_buffers r ! n") (auto simp: in_after_def)

lemma served_all: "served N r [] = r" if "length (in_buffers r) = N" "length (out_buffers r) = N"
proof -
  have "granted r [] out = None" for out by (simp add: granted_def)
  then have "out_after r [] = (!) (out_buffers r)" "in_after r [] = (!) (in_buffers r)"
    by (simp_all add: fun_eq_iff out_after_def in_after_unpolled)
  then show ?thesis
    using that map_nth [of "in_buffers r"] map_nth [of "out_buffers r"] by (simp add: served_def)
qed

text \<open>What a cycle of the router does, in full.\<close>

lemma RR_Advance_eq:
  assumes wf: "wf_router N r"
  obtains r' where "RR_Advance r = Inr r'"
    "in_buffers r' = map (in_after r (rr_order N r)) [0..<N]"
    "out_buffers r' = map (out_after r (rr_order N r)) [0..<N]"
    "unat (next_node_id r') = (unat (next_node_id r) + 1) mod N"
    "total_nodes r' = total_nodes r" "out_buffer_limit r' = out_buffer_limit r"
    "in_buffer_limit r' = in_buffer_limit r"
proof -
  let ?st = "\<lparr>rr_router = r, rr_active = False,
    rr_issued = replicate (unat (total_nodes r)) False, rr_conflict_sub = 0, rr_reqs = 0\<rparr>"
  have N: "0 < N" "N < 2 ^ 31" "unat (total_nodes r) = N" "unat (next_node_id r) < N"
    "length (in_buffers r) = N" "length (out_buffers r) = N"
    using wf by (simp_all add: wf_router_def)
  have "rr_inv N r [] ?st"
    using served_all [OF N(5,6)] N(3) by (simp add: rr_inv_def granted_def map_replicate_const)
  from rr_loop [OF wf this order_refl] obtain st where
    st: "foldM rr_step [0..<N] ?st = Inr st" "rr_inv N r (rr_order N r) st"
    by (auto simp: rr_order_def)
  have r: "rr_router st = served N r (rr_order N r)" using st(2) by (simp add: rr_inv_def)
  have nz: "total_nodes r \<noteq> 0" using N by auto
  have "unat ((next_node_id r + 1) mod total_nodes r) = (unat (next_node_id r) + 1) mod N"
    using N by (simp add: unat_mod unat_word_ariths)
  then show thesis
    using that [of "rr_finish st"] st(1) N(3) nz
    by (simp add: RR_Advance_def rr_finish_def Let_def r served_def)
qed

lemma wf_router_advance:
  assumes "wf_router N r" and "RR_Advance r = Inr r'"
  shows "wf_router N r'"
proof -
  have din: "unat (output_deviceID p) < N" if "n < N" "p \<in> set (in_buffers r ! n)" for n p
    using assms(1) that by (auto simp: wf_router_def list_all_iff)
  have dout: "unat (output_deviceID p) = out" if "out < N" "p \<in> set (out_buffers r ! out)" for out p
    using assms(1) that by (auto simp: wf_router_def list_all_iff)
  have o: "unat (output_deviceID p) = out"
    if "out < N" "p \<in> set (out_after r (rr_order N r) out)" for out p
    using that dout [of out p] granted_in [of r "rr_order N r" out]
    by (cases "granted r (rr_order N r) out") (auto simp: out_after_def wants_def)
  have i: "unat (output_deviceID p) < N"
    if "n < N" "p \<in> set (in_after r (rr_order N r) n)" for n p
    using that din in_after_subset by fastforce
  show ?thesis
    by (rule RR_Advance_eq [OF assms(1)])
      (use assms o i in \<open>auto simp: wf_router_def list_all_iff\<close>)
qed

section \<open>Runs and conservation\<close>

text \<open>What the clients of a network do: send, receive, and let a cycle pass.\<close>

datatype 'd net_op = Send u32 u32 'd u32 | Receive u32 | Advance

fun net_step ::
  "(u32 \<Rightarrow> u32 \<Rightarrow> 'd \<Rightarrow> u32 \<Rightarrow> 'n \<Rightarrow> 'n res) \<Rightarrow> (u32 \<Rightarrow> 'n \<Rightarrow> ('d option \<times> 'n) res) \<Rightarrow> ('n \<Rightarrow> 'n res) \<Rightarrow>
   'd net_op \<Rightarrow> 'n \<times> (u32 \<times> 'd) list \<Rightarrow> ('n \<times> (u32 \<times> 'd) list) res"
where
  "net_step send recv adv (Send i out d sz) (n, got) =
     rbind (send i out d sz n) (\<lambda>n'. Inr (n', got))"
| "net_step send recv adv (Receive out) (n, got) =
     rbind (recv out n) (\<lambda>(d, n'). Inr (n', got @ (case d of None \<Rightarrow> [] | Some x \<Rightarrow> [(out, x)])))"
| "net_step send recv adv Advance (n, got) = rbind (adv n) (\<lambda>n'. Inr (n', got))"

definition sent :: "'d net_op list \<Rightarrow> (u32 \<times> 'd) multiset" where
  "sent ops = mset (concat (map (\<lambda>op. case op of Send _ out d _ \<Rightarrow> [(out, d)] | _ \<Rightarrow> []) ops))"

locale packet_network =
  fixes send :: "u32 \<Rightarrow> u32 \<Rightarrow> 'd \<Rightarrow> u32 \<Rightarrow> 'n \<Rightarrow> 'n res"
    and recv :: "u32 \<Rightarrow> 'n \<Rightarrow> ('d option \<times> 'n) res"
    and adv :: "'n \<Rightarrow> 'n res"
    and in_flight :: "'n \<Rightarrow> (u32 \<times> 'd) multiset"
    and ninv :: "'n \<Rightarrow> bool"
  assumes send_adds: "ninv n \<Longrightarrow> send i out d sz n = Inr n' \<Longrightarrow>
      in_flight n' = add_mset (out, d) (in_flight n)"
    and send_inv: "ninv n \<Longrightarrow> send i out d sz n = Inr n' \<Longrightarrow> ninv n'"
    and recv_removes: "ninv n \<Longrightarrow> recv out n = Inr (Some d, n') \<Longrightarrow>
      in_flight n = add_mset (out, d) (in_flight n')"
    and recv_none: "ninv n \<Longrightarrow> recv out n = Inr (None, n') \<Longrightarrow> n' = n"
    and recv_inv: "ninv n \<Longrightarrow> recv out n = Inr (x, n') \<Longrightarrow> ninv n'"
    and adv_keeps: "ninv n \<Longrightarrow> adv n = Inr n' \<Longrightarrow> in_flight n' = in_flight n"
    and adv_inv: "ninv n \<Longrightarrow> adv n = Inr n' \<Longrightarrow> ninv n'"
begin

lemma step_conserves:
  assumes "ninv n" and "net_step send recv adv op (n, got) = Inr (n', got')"
  shows "ninv n' \<and> in_flight n' + mset got' = in_flight n + mset got + sent [op]"
proof (cases op)
  case (Send i out d sz)
  then show ?thesis
    using assms send_adds send_inv by (fastforce simp: sent_def res_simps)
next
  case (Receive out)
  then obtain x where x: "recv out n = Inr (x, n')"
    "got' = got @ (case x of None \<Rightarrow> [] | Some d \<Rightarrow> [(out, d)])"
    using assms(2) by (auto simp: res_simps)
  then show ?thesis
    using assms(1) Receive recv_none [of n out n'] recv_inv [of n out x n'] recv_removes [of n out _ n']
    by (cases x) (auto simp: sent_def)
next
  case Advance
  then show ?thesis
    using assms adv_keeps adv_inv by (fastforce simp: sent_def res_simps)
qed

lemma run_conserves:
  "ninv n \<Longrightarrow> foldM (net_step send recv adv) ops (n, got) = Inr (n', got') \<Longrightarrow>
   ninv n' \<and> in_flight n' + mset got' = in_flight n + mset got + sent ops"
proof (induction ops arbitrary: n got)
  case Nil
  then show ?case by (simp add: sent_def)
next
  case (Cons op ops)
  then obtain n1 got1 where run: "net_step send recv adv op (n, got) = Inr (n1, got1)"
    "foldM (net_step send recv adv) ops (n1, got1) = Inr (n', got')"
    by (auto simp: res_simps)
  have "sent (op # ops) = sent [op] + sent ops" by (simp add: sent_def)
  with step_conserves [OF Cons.prems(1) run(1)] Cons.IH [of n1 got1] run(2)
  show ?case by (simp add: add.assoc add.left_commute)
qed

end

text \<open>The packets inside a router, with their destinations.\<close>

definition packets :: "'d packet list list \<Rightarrow> (u32 \<times> 'd) multiset" where
  "packets bufs = mset (map (\<lambda>p. (output_deviceID p, pk_data p)) (concat bufs))"

definition xbar_in_flight :: "'d xbar_router \<Rightarrow> (u32 \<times> 'd) multiset" where
  "xbar_in_flight r = packets (in_buffers r) + packets (out_buffers r)"

lemma packets_update:
  assumes "i < length bufs"
  shows "packets (bufs[i := q]) + packets [bufs ! i] = packets bufs + packets [q]"
  using assms
proof (induction bufs arbitrary: i)
  case (Cons b bufs)
  then show ?case by (cases i) (auto simp: packets_def ac_simps)
qed simp

lemma packets_snoc:
  "i < length bufs \<Longrightarrow> packets (bufs[i := bufs ! i @ [p]]) =
   add_mset (output_deviceID p, pk_data p) (packets bufs)"
  using packets_update [of i bufs "bufs ! i @ [p]"] by (simp add: packets_def)

lemma packets_tl:
  "i < length bufs \<Longrightarrow> bufs ! i = p # rest \<Longrightarrow>
   packets bufs = add_mset (output_deviceID p, pk_data p) (packets (bufs[i := rest]))"
  using packets_update [of i bufs rest] by (simp add: packets_def)

lemma rr_step_in_flight:
  assumes "rr_step k st = Inr st'"
  shows "xbar_in_flight (rr_router st') = xbar_in_flight (rr_router st)"
proof -
  let ?r = "rr_router st"
  let ?n = "unat ((of_nat k + next_node_id ?r) mod total_nodes ?r)"
  have n: "?n < length (in_buffers ?r)"
    using assms by (auto simp: rr_step_def Let_def res_simps)
  show ?thesis
  proof (cases "in_buffers ?r ! ?n")
    case Nil
    then show ?thesis using assms n by (simp add: rr_step_def Let_def)
  next
    case (Cons p rest)
    have o: "unat (output_deviceID p) < length (out_buffers ?r)"
      using assms n Cons by (auto simp: rr_step_def Let_def res_simps has_buffer_out_def)
    show ?thesis
      using assms n Cons o packets_snoc [OF o, of p] packets_tl [OF n Cons]
      by (auto simp: rr_step_def Let_def res_simps has_buffer_out_def xbar_in_flight_def
          split: if_splits)
  qed
qed

lemma RR_Advance_in_flight:
  assumes "RR_Advance r = Inr r'"
  shows "xbar_in_flight r' = xbar_in_flight r"
proof -
  let ?st = "\<lparr>rr_router = r, rr_active = False,
    rr_issued = replicate (unat (total_nodes r)) False, rr_conflict_sub = 0, rr_reqs = 0\<rparr>"
  obtain st where st: "foldM rr_step [0..<unat (total_nodes r)] ?st = Inr st" "r' = rr_finish st"
    using assms by (auto simp: RR_Advance_def res_simps)
  have "xbar_in_flight (rr_router st) = xbar_in_flight r"
    by (rule foldM_invariant [OF _ st(1)]) (auto simp: rr_step_in_flight)
  then show ?thesis by (simp add: st(2) rr_finish_def Let_def xbar_in_flight_def)
qed

lemma xbar_push_in_flight:
  "xbar_push i out d sz r = Inr r' \<Longrightarrow> xbar_in_flight r' = add_mset (out, d) (xbar_in_flight r)"
  using packets_snoc [of "unat i" "in_buffers r" "\<lparr>pk_data = d, output_deviceID = out\<rparr>"]
  by (auto simp: xbar_push_def res_simps xbar_in_flight_def)

definition delivered_right :: "'d xbar_router \<Rightarrow> bool" where
  "delivered_right r \<longleftrightarrow>
     list_all (\<lambda>out. list_all (\<lambda>p. unat (output_deviceID p) = out) (out_buffers r ! out))
       [0..<length (out_buffers r)]"

lemma delivered_right_nth:
  "delivered_right r \<Longrightarrow> out < length (out_buffers r) \<Longrightarrow> p \<in> set (out_buffers r ! out) \<Longrightarrow>
   unat (output_deviceID p) = out"
  by (auto simp: delivered_right_def list_all_iff)

lemma delivered_right_out:
  assumes "delivered_right r" and "out_buffers r' = (out_buffers r)[out := q]"
    and "\<And>p. p \<in> set q \<Longrightarrow> unat (output_deviceID p) = out"
  shows "delivered_right r'"
proof (cases "out < length (out_buffers r)")
  case True
  then show ?thesis
    using assms by (auto simp: delivered_right_def list_all_iff nth_list_update)
next
  case False
  then show ?thesis using assms(1,2) by (simp add: delivered_right_def list_update_beyond)
qed

lemma rr_step_delivered:
  assumes "rr_step k st = Inr st'" and "delivered_right (rr_router st)"
  shows "delivered_right (rr_router st')"
proof -
  let ?r = "rr_router st"
  let ?n = "unat ((of_nat k + next_node_id ?r) mod total_nodes ?r)"
  have n: "?n < length (in_buffers ?r)"
    using assms(1) by (auto simp: rr_step_def Let_def res_simps)
  show ?thesis
  proof (cases "in_buffers ?r ! ?n")
    case Nil
    then show ?thesis using assms n by (simp add: rr_step_def Let_def)
  next
    case (Cons p rest)
    have o: "unat (output_deviceID p) < length (out_buffers ?r)"
      using assms(1) n Cons by (auto simp: rr_step_def Let_def res_simps has_buffer_out_def)
    have "rr_router st' = ?r \<or> out_buffers (rr_router st') =
        (out_buffers ?r)[unat (output_deviceID p) :=
          out_buffers ?r ! unat (output_deviceID p) @ [p]]"
      using assms(1) n Cons
      by (auto simp: rr_step_def Let_def res_simps has_buffer_out_def split: if_splits)
    then show ?thesis
    proof
      assume "out_buffers (rr_router st') = (out_buffers ?r)[unat (output_deviceID p) :=
          out_buffers ?r ! unat (output_deviceID p) @ [p]]"
      then show ?thesis
        by (rule delivered_right_out [OF assms(2)])
          (use delivered_right_nth [OF assms(2) o] in auto)
    qed (use assms(2) in simp)
  qed
qed

lemma RR_Advance_delivered:
  assumes "RR_Advance r = Inr r'" and "delivered_right r"
  shows "delivered_right r'"
proof -
  let ?st = "\<lparr>rr_router = r, rr_active = False,
    rr_issued = replicate (unat (total_nodes r)) False, rr_conflict_sub = 0, rr_reqs = 0\<rparr>"
  obtain st where st: "foldM rr_step [0..<unat (total_nodes r)] ?st = Inr st" "r' = rr_finish st"
    using assms by (auto simp: RR_Advance_def res_simps)
  have "delivered_right (rr_router st)"
    by (rule foldM_invariant [OF _ st(1)]) (use assms(2) in \<open>auto intro: rr_step_delivered\<close>)
  then show ?thesis by (simp add: st(2) rr_finish_def Let_def delivered_right_def)
qed

lemma xbar_pop_some:
  assumes "delivered_right r" and "xbar_pop out r = Inr (Some d, r')"
  shows "xbar_in_flight r = add_mset (out, d) (xbar_in_flight r')"
proof -
  obtain p rest where q: "unat out < length (out_buffers r)" "out_buffers r ! unat out = p # rest"
    "d = pk_data p" "r' = r\<lparr>out_buffers := (out_buffers r)[unat out := rest]\<rparr>"
    using assms(2) by (auto simp: xbar_pop_def res_simps split: list.splits)
  moreover from this have "output_deviceID p = out"
    using delivered_right_nth [OF assms(1), of "unat out" p] by (simp add: word_unat_eq_iff)
  ultimately show ?thesis
    using packets_tl [OF q(1,2)] by (simp add: xbar_in_flight_def)
qed

lemma xbar_pop_delivered:
  assumes "delivered_right r" and "xbar_pop out r = Inr (x, r')"
  shows "delivered_right r'"
  using assms delivered_right_nth [OF assms(1), of "unat out"]
  by (auto simp: xbar_pop_def res_simps split: list.splits
      intro: delivered_right_out [OF assms(1)])

lemma xbar_push_delivered:
  "delivered_right r \<Longrightarrow> xbar_push i out d sz r = Inr r' \<Longrightarrow> delivered_right r'"
  by (auto simp: xbar_push_def res_simps delivered_right_def)

interpretation xbar: packet_network xbar_push xbar_pop xbar_advance xbar_in_flight delivered_right
proof
  fix n :: "'d xbar_router" and out n'
  show "xbar_pop out n = Inr (None, n') \<Longrightarrow> n' = n"
    by (auto simp: xbar_pop_def res_simps split: list.splits)
qed (auto simp: xbar_push_in_flight xbar_advance_def RR_Advance_in_flight
    intro: xbar_push_delivered xbar_pop_some xbar_pop_delivered RR_Advance_delivered
    split: Arbiteration_type.splits)

text \<open>The pair of routers is a network as well.\<close>

definition icnt_in_flight :: "'d local_interconnect \<Rightarrow> (u32 \<times> 'd) multiset" where
  "icnt_in_flight ic = sum_list (map xbar_in_flight (net ic))"

definition icnt_inv :: "'d local_interconnect \<Rightarrow> bool" where
  "icnt_inv ic \<longleftrightarrow> list_all delivered_right (net ic)"

lemma sum_list_swap:
  fixes f :: "'a \<Rightarrow> 'b::cancel_comm_monoid_add"
  assumes "k < length xs"
  shows "sum_list (map f (xs[k := x])) + f (xs ! k) = sum_list (map f xs) + f x"
  using assms
proof (induction xs arbitrary: k)
  case (Cons y ys)
  then show ?case by (cases k) (auto simp: ac_simps)
qed simp

lemma update_net_Inr:
  "update_net k f ic = Inr (x, ic') \<longleftrightarrow> k < length (net ic) \<and>
     (\<exists>r. f (net ic ! k) = Inr (x, r) \<and> ic' = ic\<lparr>net := (net ic)[k := r]\<rparr>)"
  by (auto simp: update_net_def res_simps)

lemma icnt_inv_update:
  "icnt_inv ic \<Longrightarrow> delivered_right r \<Longrightarrow> icnt_inv (ic\<lparr>net := (net ic)[k := r]\<rparr>)"
  using set_update_subset_insert [of "net ic" k r] by (auto simp: icnt_inv_def list_all_iff)

lemma icnt_in_flight_update:
  "k < length (net ic) \<Longrightarrow> icnt_in_flight (ic\<lparr>net := (net ic)[k := r]\<rparr>) + xbar_in_flight (net ic ! k)
   = icnt_in_flight ic + xbar_in_flight r"
  using sum_list_swap [of k "net ic" xbar_in_flight r] by (simp add: icnt_in_flight_def)

lemma icnt_inv_nth: "icnt_inv ic \<Longrightarrow> k < length (net ic) \<Longrightarrow> delivered_right (net ic ! k)"
  by (simp add: icnt_inv_def list_all_length)

lemma icnt_advance_step:
  assumes "icnt_inv ic" and "update_net k (\<lambda>r. rbind (xbar_advance r) (\<lambda>r'. Inr ((), r'))) ic = Inr ((), ic')"
  shows "icnt_inv ic' \<and> icnt_in_flight ic' = icnt_in_flight ic"
proof -
  obtain r where k: "k < length (net ic)" and r: "xbar_advance (net ic ! k) = Inr r"
    and ic': "ic' = ic\<lparr>net := (net ic)[k := r]\<rparr>"
    using assms(2) by (auto simp: update_net_Inr res_simps)
  have "delivered_right r" "xbar_in_flight r = xbar_in_flight (net ic ! k)"
    using xbar.adv_inv xbar.adv_keeps icnt_inv_nth [OF assms(1) k] r by blast+
  then show ?thesis
    using icnt_inv_update [OF assms(1)] icnt_in_flight_update [OF k, of r] by (simp add: ic')
qed

lemma icnt_advance_conserves:
  assumes "icnt_inv ic" and "icnt_advance ic = Inr ic'"
  shows "icnt_inv ic' \<and> icnt_in_flight ic' = icnt_in_flight ic"
proof -
  have "icnt_inv ic' \<and> icnt_in_flight ic' = icnt_in_flight ic"
    by (rule foldM_invariant [OF _ assms(2) [unfolded icnt_advance_def]])
      (use assms(1) icnt_advance_step in \<open>fastforce simp: res_simps\<close>)+
  then show ?thesis .
qed

interpretation icnt: packet_network icnt_push icnt_pop icnt_advance icnt_in_flight icnt_inv
proof
  fix ic ic' :: "'d local_interconnect" and i out d sz x
  assume inv: "icnt_inv ic"
  show "icnt_in_flight ic' = add_mset (out, d) (icnt_in_flight ic)" "icnt_inv ic'"
    if run: "icnt_push i out d sz ic = Inr ic'"
  proof -
    obtain k r where k: "k < length (net ic)" and r: "xbar_push i out d sz (net ic ! k) = Inr r"
      and ic': "ic' = ic\<lparr>net := (net ic)[k := r]\<rparr>"
      using run by (auto simp: icnt_push_def Let_def res_simps update_net_Inr)
    show "icnt_inv ic'" "icnt_in_flight ic' = add_mset (out, d) (icnt_in_flight ic)"
      using icnt_inv_update [OF inv] xbar.send_inv [OF icnt_inv_nth [OF inv k] r]
        icnt_in_flight_update [OF k, of r] xbar.send_adds [OF icnt_inv_nth [OF inv k] r]
      by (simp_all add: ic')
  qed
  {
    fix x
    assume run: "icnt_pop out ic = Inr (x, ic')"
    then obtain k r where k: "k < length (net ic)" and r: "xbar_pop out (net ic ! k) = Inr (x, r)"
      and ic': "ic' = ic\<lparr>net := (net ic)[k := r]\<rparr>"
      by (auto simp: icnt_pop_def Let_def update_net_Inr)
    note nth = icnt_inv_nth [OF inv k]
    have "icnt_inv ic'"
      using icnt_inv_update [OF inv] xbar.recv_inv [OF nth r] by (simp add: ic')
    moreover have "x = None \<Longrightarrow> ic' = ic"
      using xbar.recv_none [OF nth, of out r] r by (simp add: ic')
    moreover have "x = Some d \<Longrightarrow> icnt_in_flight ic = add_mset (out, d) (icnt_in_flight ic')" for d
      using xbar.recv_removes [OF nth, of out d r] r icnt_in_flight_update [OF k, of r]
      by (simp add: ic')
    moreover note calculation
  }
  then show "icnt_pop out ic = Inr (Some d, ic') \<Longrightarrow>
      icnt_in_flight ic = add_mset (out, d) (icnt_in_flight ic')"
    "icnt_pop out ic = Inr (None, ic') \<Longrightarrow> ic' = ic"
    "icnt_pop out ic = Inr (x, ic') \<Longrightarrow> icnt_inv ic'" by blast+
qed (use icnt_advance_conserves in blast)+

section \<open>No starvation\<close>

lemma wf_router_delivered: "wf_router N r \<Longrightarrow> delivered_right r"
  by (simp add: wf_router_def delivered_right_def)

lemma wf_router_push:
  assumes "wf_router N r" and "xbar_push i out d sz r = Inr r'" and "unat out < N"
  shows "wf_router N r'"
  using assms set_update_subset_insert [of "in_buffers r" "unat i"]
  by (fastforce simp: wf_router_def xbar_push_def res_simps list_all_iff)

lemma wf_router_pop:
  assumes "wf_router N r" and "xbar_pop out r = Inr (x, r')"
  shows "wf_router N r'"
proof -
  have "delivered_right r'" using xbar.recv_inv [OF wf_router_delivered] assms by blast
  then show ?thesis
    using assms by (auto simp: xbar_pop_def res_simps wf_router_def delivered_right_def
        split: list.splits)
qed

definition addressed :: "nat \<Rightarrow> 'd net_op list \<Rightarrow> bool" where
  "addressed N ops = list_all (\<lambda>op. case op of Send _ out _ _ \<Rightarrow> unat out < N | _ \<Rightarrow> True) ops"

definition advances :: "'d net_op list \<Rightarrow> nat" where
  "advances ops = length (filter (\<lambda>op. case op of Advance \<Rightarrow> True | _ \<Rightarrow> False) ops)"

abbreviation xbar_step ::
  "'d net_op \<Rightarrow> 'd xbar_router \<times> (u32 \<times> 'd) list \<Rightarrow> ('d xbar_router \<times> (u32 \<times> 'd) list) res"
where
  "xbar_step \<equiv> net_step xbar_push xbar_pop xbar_advance"

text \<open>The output has room in front of every cycle of a run.\<close>

fun room_throughout :: "nat \<Rightarrow> 'd net_op list \<Rightarrow> 'd xbar_router \<times> (u32 \<times> 'd) list \<Rightarrow> bool" where
  "room_throughout out [] s = True"
| "room_throughout out (op # ops) s =
     ((case op of Advance \<Rightarrow> room (fst s) out | _ \<Rightarrow> True) \<and>
      (case xbar_step op s of Inl _ \<Rightarrow> True | Inr s' \<Rightarrow> room_throughout out ops s'))"

definition turns_away :: "nat \<Rightarrow> nat \<Rightarrow> 'd xbar_router \<Rightarrow> nat" where
  "turns_away N node r = (node + N - unat (next_node_id r)) mod N"

lemma granted_own_turn:
  assumes "wf_router N r" and "node < N" and "turns_away N node r = 0"
    and "wants r out node" and "room r out"
  shows "granted r (rr_order N r) out = Some node"
proof -
  have N: "0 < N" "unat (next_node_id r) < N" using assms(1) by (simp_all add: wf_router_def)
  have "unat (next_node_id r) = node"
  proof (cases "unat (next_node_id r) \<le> node")
    case True
    then have "node + N - unat (next_node_id r) = N + (node - unat (next_node_id r))" by simp
    then have "(node - unat (next_node_id r)) mod N = 0" using assms(3) by (simp add: turns_away_def)
    then show ?thesis using True assms(2) by simp
  next
    case False
    then show ?thesis using assms(3) N by (simp add: turns_away_def)
  qed
  moreover have "rr_order N r = unat (next_node_id r) mod N # tl (rr_order N r)"
    using N(1) by (simp add: rr_order_def upt_conv_Cons)
  ultimately have "rr_order N r = node # tl (rr_order N r)" using assms(2) by simp
  then have "find (wants r out) (rr_order N r) = Some node"
    using assms(4) by (metis find.simps(2))
  then show ?thesis using assms(5) by (simp add: granted_def)
qed

lemma turns_away_next:
  assumes "k < N" and "node < N" and "(node + N - k) mod N \<noteq> 0"
  shows "Suc ((node + N - (k + 1) mod N) mod N) = (node + N - k) mod N"
proof (cases "k \<le> node")
  case True
  then have "node + N - k = N + (node - k)" by simp
  then have d: "(node + N - k) mod N = node - k"
    using assms(1,2) by (simp only: mod_add_self1) simp
  then have "k < node" using assms(3) True by simp
  then have "(k + 1) mod N = k + 1" using assms by simp
  moreover have "node + N - (k + 1) = N + (node - (k + 1))" using \<open>k < node\<close> by simp
  then have "(node + N - (k + 1)) mod N = node - (k + 1)"
    using assms(2) by (simp only: mod_add_self1) simp
  ultimately show ?thesis using d \<open>k < node\<close> by simp
next
  case False
  then have d: "(node + N - k) mod N = node + N - k" using assms by simp
  show ?thesis
  proof (cases "k + 1 = N")
    case True
    then show ?thesis using d assms False by simp
  next
    case neq: False
    then have "(k + 1) mod N = k + 1" using assms by simp
    then show ?thesis using d assms False neq by simp
  qed
qed

lemma xbar_step_head:
  assumes wf: "wf_router N r" and op: "op \<noteq> Advance" and run: "xbar_step op (r, got) = Inr (r', got')"
    and addr: "addressed N [op]" and node: "node < N" and head: "in_buffers r ! node = p # rest"
  shows "wf_router N r' \<and> (\<exists>rest'. in_buffers r' ! node = p # rest') \<and>
    next_node_id r' = next_node_id r"
proof (cases op)
  case (Send i out d sz)
  then have run': "xbar_push i out d sz r = Inr r'" using run by (auto simp: res_simps)
  then show ?thesis
    using wf_router_push [OF wf run'] addr Send node head
    by (auto simp: addressed_def xbar_push_def res_simps nth_list_update)
next
  case (Receive out)
  then obtain x where x: "xbar_pop out r = Inr (x, r')" using run by (auto simp: res_simps)
  then show ?thesis
    using wf_router_pop [OF wf x] head by (auto simp: xbar_pop_def res_simps split: list.splits)
qed (use op in simp)

lemma delivered_in_turn:
  assumes "wf_router N r" and "node < N" and "in_buffers r ! node = p # rest"
    and "addressed N ops" and "foldM xbar_step ops (r, got) = Inr s'"
    and "room_throughout (unat (output_deviceID p)) ops (r, got)"
    and "turns_away N node r < advances ops"
  shows "\<exists>ops1 ops2 r1 g1 r2. ops = ops1 @ Advance # ops2 \<and>
    foldM xbar_step ops1 (r, got) = Inr (r1, g1) \<and> RR_Advance r1 = Inr r2 \<and>
    advances ops1 \<le> turns_away N node r \<and> hd (in_buffers r1 ! node) = p \<and>
    out_buffers r2 ! unat (output_deviceID p) = out_buffers r1 ! unat (output_deviceID p) @ [p]"
  using assms
proof (induction ops arbitrary: r got rest)
  case Nil
  then show ?case by (simp add: advances_def)
next
  case (Cons op ops)
  let ?o = "unat (output_deviceID p)"
  obtain r1 g1 where step: "xbar_step op (r, got) = Inr (r1, g1)"
    "foldM xbar_step ops (r1, g1) = Inr s'" "room_throughout ?o ops (r1, g1)"
    using Cons.prems(5,6) by (auto simp: res_simps)
  have addr: "addressed N [op]" "addressed N ops" using Cons.prems(4) by (simp_all add: addressed_def)
  show ?case
  proof (cases "op = Advance")
    case False
    from xbar_step_head [OF Cons.prems(1) False step(1) addr(1) Cons.prems(2,3)] obtain rest'
      where r1: "wf_router N r1" "in_buffers r1 ! node = p # rest'" "next_node_id r1 = next_node_id r"
      by blast
    have ta: "turns_away N node r1 = turns_away N node r" by (simp add: turns_away_def r1(3))
    have adv: "advances (op # xs) = advances xs" for xs
      using False by (cases op) (simp_all add: advances_def)
    from Cons.IH [OF r1(1) Cons.prems(2) r1(2) addr(2) step(2,3)] Cons.prems(7) ta adv
    obtain ops1 ops2 r2 g2 r3 where "ops = ops1 @ Advance # ops2"
      "foldM xbar_step ops1 (r1, g1) = Inr (r2, g2)" "RR_Advance r2 = Inr r3"
      "advances ops1 \<le> turns_away N node r" "hd (in_buffers r2 ! node) = p"
      "out_buffers r3 ! ?o = out_buffers r2 ! ?o @ [p]" by auto
    then show ?thesis
      using step(1) adv by - (rule exI [of _ "op # ops1"], auto)
  next
    case True
    then have a: "RR_Advance r = Inr r1"
      using step(1) by (auto simp: res_simps xbar_advance_def split: Arbiteration_type.splits)
    have rm: "room r ?o" using Cons.prems(6) True by simp
    have N: "unat (next_node_id r) < N" "length (in_buffers r) = N" and on: "?o < N"
      using Cons.prems(1-3) by (auto simp: wf_router_def list_all_length)
        (metis length_Cons nth_Cons_0 zero_less_Suc)
    have w: "wants r ?o node" using Cons.prems(3) by (simp add: wants_def)
    obtain r1' where r1': "RR_Advance r = Inr r1'"
      "in_buffers r1' = map (in_after r (rr_order N r)) [0..<N]"
      "out_buffers r1' = map (out_after r (rr_order N r)) [0..<N]"
      "unat (next_node_id r1') = (unat (next_node_id r) + 1) mod N"
      by (rule RR_Advance_eq [OF Cons.prems(1)])
    show ?thesis
    proof (cases "granted r (rr_order N r) ?o = Some node")
      case True
      then have "out_buffers r1 ! ?o = out_buffers r ! ?o @ [p]"
        using r1' a on Cons.prems(3) by (simp add: out_after_def)
      then show ?thesis
        using a \<open>op = Advance\<close> Cons.prems(3)
        by - (rule exI [of _ "[]"], simp add: advances_def)
    next
      case False
      then have nz: "turns_away N node r \<noteq> 0"
        using granted_own_turn [OF Cons.prems(1,2) _ w rm] by blast
      then have ta: "Suc (turns_away N node r1) = turns_away N node r"
        using turns_away_next [OF N(1) Cons.prems(2)] r1' a by (simp add: turns_away_def)
      have head: "in_buffers r1 ! node = p # rest"
        using False r1' a Cons.prems(2,3) by (simp add: in_after_def)
      have adv: "advances (op # xs) = Suc (advances xs)" for xs
        using \<open>op = Advance\<close> by (simp add: advances_def)
      from Cons.IH [OF wf_router_advance [OF Cons.prems(1) a] Cons.prems(2) head addr(2) step(2,3)]
        Cons.prems(7) ta adv
      obtain ops1 ops2 r2 g2 r3 where "ops = ops1 @ Advance # ops2"
        "foldM xbar_step ops1 (r1, g1) = Inr (r2, g2)" "RR_Advance r2 = Inr r3"
        "advances ops1 \<le> turns_away N node r1" "hd (in_buffers r2 ! node) = p"
        "out_buffers r3 ! ?o = out_buffers r2 ! ?o @ [p]" by auto
      then show ?thesis
        using step(1) adv ta by - (rule exI [of _ "op # ops1"], auto)
    qed
  qed
qed

section \<open>Properties\<close>

text \<open>C5. The arbiter: a cycle of the router always completes, and it moves, for every output with
  room, the head packet of the first input (from \<open>next_node_id\<close> round) whose head goes there, and
  nothing else; so no output receives two packets and none passes its buffer limit.\<close>

theorem RR_Advance_arbitrates:
  assumes "wf_router N r"
  shows "\<exists>r'. RR_Advance r = Inr r' \<and> wf_router N r' \<and>
    (\<forall>out < N. out_buffers r' ! out = out_buffers r ! out @
       (case granted r (rr_order N r) out of
          None \<Rightarrow> [] | Some node \<Rightarrow> [hd (in_buffers r ! node)])) \<and>
    (\<forall>node < N. in_buffers r' ! node =
       (case in_buffers r ! node of
          [] \<Rightarrow> []
        | p # rest \<Rightarrow>
            if granted r (rr_order N r) (unat (output_deviceID p)) = Some node
            then rest else p # rest)) \<and>
    (\<forall>out < N. length (out_buffers r ! out) \<le> unat (out_buffer_limit r) \<longrightarrow>
       length (out_buffers r' ! out) \<le> unat (out_buffer_limit r'))"
proof -
  obtain r' where r': "RR_Advance r = Inr r'"
    "in_buffers r' = map (in_after r (rr_order N r)) [0..<N]"
    "out_buffers r' = map (out_after r (rr_order N r)) [0..<N]"
    "out_buffer_limit r' = out_buffer_limit r"
    by (rule RR_Advance_eq [OF assms])
  have "length (out_after r (rr_order N r) out) \<le> unat (out_buffer_limit r)"
    if "length (out_buffers r ! out) \<le> unat (out_buffer_limit r)" for out
    using that by (auto simp: out_after_def granted_def room_def split: option.splits if_splits)
  then show ?thesis
    using r' wf_router_advance [OF assms r'(1)]
    by (intro exI [of _ r']) (simp add: out_after_def in_after_def)
qed

text \<open>Two senders and a receiver: nodes 0 and 1 both want node 2.\<close>

definition contended :: "nat xbar_router" where
  "contended = (new_xbar_router 0 REQ_NET 2 1
     \<lparr>cfg_in_buffer_limit = 4, cfg_out_buffer_limit = 4, subnets = 2, arbiter_algo = NAIVE_RR\<rparr>)
     \<lparr>in_buffers := [[\<lparr>pk_data = 7, output_deviceID = 2\<rparr>], [\<lparr>pk_data = 8, output_deviceID = 2\<rparr>], []]\<rparr>"

lemma contended_wf: "wf_router 3 contended"
proof -
  have "unat (total_nodes contended) = 3 \<and>
     length (in_buffers contended) = 3 \<and> length (out_buffers contended) = 3 \<and>
     unat (next_node_id contended) < 3 \<and>
     list_all (list_all (\<lambda>p. unat (output_deviceID p) < 3)) (in_buffers contended) \<and>
     list_all (\<lambda>out. list_all (\<lambda>p. unat (output_deviceID p) = out) (out_buffers contended ! out))
       [0..<3]" by code_simp
  then show ?thesis by (simp add: wf_router_def)
qed

theorem RR_Advance_arbitrates_witness:
  "\<exists>r'. RR_Advance contended = Inr r' \<and> wf_router 3 r' \<and>
     out_buffers r' ! 2 = [\<lparr>pk_data = 7, output_deviceID = 2\<rparr>]"
proof -
  have "granted contended (rr_order 3 contended) 2 = Some 0" "out_buffers contended ! 2 = []"
    "hd (in_buffers contended ! 0) = \<lparr>pk_data = 7, output_deviceID = 2\<rparr>" by code_simp+
  then show ?thesis
    using RR_Advance_arbitrates [OF contended_wf] by (auto dest!: spec [of _ "2 :: nat"])
qed

text \<open>C3. Conservation: over any run of sends, receives and cycles of the interconnect, what is in
  flight at the end and what was received is exactly what was in flight at the start and what was
  sent, each packet with its destination: none is lost, duplicated or delivered elsewhere.\<close>

theorem icnt_run_conserves:
  assumes "icnt_inv ic"
    and "foldM (net_step icnt_push icnt_pop icnt_advance) ops (ic, []) = Inr (ic', got)"
  shows "icnt_inv ic' \<and> icnt_in_flight ic' + mset got = icnt_in_flight ic + sent ops"
  using icnt.run_conserves [OF assms] by simp

definition small_icnt :: "nat local_interconnect" where
  "small_icnt = CreateInterconnect 1 1 (new_local_interconnect
     \<lparr>cfg_in_buffer_limit = 4, cfg_out_buffer_limit = 4, subnets = 2, arbiter_algo = NAIVE_RR\<rparr>)"

theorem icnt_run_conserves_witness:
  "\<exists>ic'. foldM (net_step icnt_push icnt_pop icnt_advance)
     [Send 0 1 42 32, Advance, Receive 1] (small_icnt, []) = Inr (ic', [(1, 42)]) \<and>
     icnt_in_flight ic' + {#(1, 42)#} = icnt_in_flight small_icnt + {#(1, 42)#}"
proof -
  have inv: "icnt_inv small_icnt" by code_simp
  obtain ic' where run: "foldM (net_step icnt_push icnt_pop icnt_advance)
     [Send 0 1 42 32, Advance, Receive 1] (small_icnt, []) = Inr (ic', [(1, 42)])"
  proof -
    have "(case foldM (net_step icnt_push icnt_pop icnt_advance)
        [Send 0 1 42 32, Advance, Receive 1] (small_icnt, []) of
        Inr (ic, got) \<Rightarrow> got = [(1, 42)] | Inl _ \<Rightarrow> False)" by code_simp
    then show thesis using that by (auto split: sum.splits prod.splits)
  qed
  from icnt_run_conserves [OF inv run] run show ?thesis by (auto simp: sent_def)
qed

text \<open>C4. No starvation: a packet at the head of its input is delivered within as many cycles as the
  router has nodes (indeed after at most \<open>turns_away\<close> of them pass it over), whatever is sent and
  received in between, provided its output has room at each cycle.\<close>

theorem no_starvation:
  assumes "wf_router N r" and "node < N" and "in_buffers r ! node = p # rest"
    and "addressed N ops" and "foldM xbar_step ops (r, got) = Inr s'"
    and "room_throughout (unat (output_deviceID p)) ops (r, got)"
    and "N \<le> advances ops"
  shows "\<exists>ops1 ops2 r1 g1 r2. ops = ops1 @ Advance # ops2 \<and>
    foldM xbar_step ops1 (r, got) = Inr (r1, g1) \<and> RR_Advance r1 = Inr r2 \<and>
    advances ops1 < N \<and> hd (in_buffers r1 ! node) = p \<and>
    out_buffers r2 ! unat (output_deviceID p) = out_buffers r1 ! unat (output_deviceID p) @ [p]"
proof -
  have "turns_away N node r < N" using assms(2) by (simp add: turns_away_def)
  then show ?thesis
    using delivered_in_turn [OF assms(1-6)] assms(7) by fastforce
qed

theorem no_starvation_witness:
  "\<exists>ops1 r1 g1 r2. foldM xbar_step ops1 (contended, []) = Inr (r1, g1) \<and> advances ops1 < 3 \<and>
     RR_Advance r1 = Inr r2 \<and>
     out_buffers r2 ! 2 = out_buffers r1 ! 2 @ [\<lparr>pk_data = 8, output_deviceID = 2\<rparr>]"
proof -
  let ?ops = "[Advance, Receive 2, Advance, Advance]"
  have "case foldM xbar_step ?ops (contended, []) of Inr _ \<Rightarrow> True | Inl _ \<Rightarrow> False" by code_simp
  then obtain s' where run: "foldM xbar_step ?ops (contended, []) = Inr s'"
    by (auto split: sum.splits)
  have addr: "addressed 3 (?ops :: nat net_op list)" and
    rm: "room_throughout (unat (output_deviceID \<lparr>pk_data = 8, output_deviceID = 2\<rparr>)) ?ops (contended, [])"
    and adv: "3 \<le> advances (?ops :: nat net_op list)" by code_simp+
  have head: "in_buffers contended ! 1 = \<lparr>pk_data = 8, output_deviceID = 2\<rparr> # []" by code_simp
  from no_starvation [OF contended_wf _ head addr run rm adv]
  show ?thesis by auto
qed

end
