(* ===== verification/Gpu_Env.thy ===== *)
theory Gpu_Env
  imports Mem_Fetch Crossbar Config_Reader
begin

text \<open>
  The part of the class \<open>gpu\<close> (\<^verbatim>\<open>gpu.h\<close>) that the caches, the memory partitions and the
  multiprocessors share through their \<open>m_gpu\<close> pointers, and the heap of \<open>mem_fetch\<close> objects.
  A \<open>mem_fetch*\<close> is a natural number; \<open>new\<close> takes the next one and \<open>delete\<close> removes it, so that
  a use after \<open>delete\<close> or a second \<open>delete\<close> is undefined behaviour of the model as well.
  Counters of type \<open>int\<close> and \<open>long long\<close> are unbounded integers (their overflow is undefined).
  \<open>trace_file_ok\<close> stands for the success of the \<open>fopen\<close> of the trace file.
\<close>

type_synonym mf_ptr = nat

record gpu_env =
  mf_heap :: "mf_ptr \<Rightarrow> mem_fetch option"
  next_mf_ptr :: mf_ptr
  mf_id :: u32
  m_icnt :: "mf_ptr local_interconnect"
  gpu_sim_cycles :: int
  address_to_sms :: "u64 \<Rightarrow> int set"
  total_access :: int
  l2_push_num :: int
  l2_pop_num :: int
  trace_file_ok :: bool

definition creat_icnt :: "gpu_config \<Rightarrow> mf_ptr local_interconnect res" where
  "creat_icnt c =
     rbind (cfg_int c ''sm_num'') (\<lambda>sms. rbind (cfg_int c ''mem_num'') (\<lambda>mems.
       Inr (CreateInterconnect (word_of_int sms) (word_of_int mems)
              (new_local_interconnect
                 \<lparr>cfg_in_buffer_limit = 512, cfg_out_buffer_limit = 512, subnets = 2,
                  arbiter_algo = NAIVE_RR\<rparr>))))"

definition mf_at :: "mf_ptr \<Rightarrow> gpu_env \<Rightarrow> mem_fetch res" where
  "mf_at p g = deref (mf_heap g p)"

definition mf_update :: "mf_ptr \<Rightarrow> (mem_fetch \<Rightarrow> mem_fetch) \<Rightarrow> gpu_env \<Rightarrow> gpu_env res" where
  "mf_update p f g =
     rbind (mf_at p g) (\<lambda>mf. Inr (g\<lparr>mf_heap := (mf_heap g)(p := Some (f mf))\<rparr>))"

definition mf_delete :: "mf_ptr \<Rightarrow> gpu_env \<Rightarrow> gpu_env res" where
  "mf_delete p g = rbind (mf_at p g) (\<lambda>_. Inr (g\<lparr>mf_heap := (mf_heap g)(p := None)\<rparr>))"

text \<open>\<open>new mem_fetch(...)\<close>: the constructor takes the next \<open>mf_id\<close> of the gpu and increases it.\<close>

definition mf_new :: "(u32 \<Rightarrow> mem_fetch) \<Rightarrow> gpu_env \<Rightarrow> mf_ptr \<times> gpu_env" where
  "mf_new mk g =
     (next_mf_ptr g,
      g\<lparr>mf_heap := (mf_heap g)(next_mf_ptr g := Some (mk (mf_id g))),
        next_mf_ptr := next_mf_ptr g + 1, mf_id := mf_id g + 1\<rparr>)"

text \<open>\<open>send_mf out p\<close>: push a request on the interconnect from a device.\<close>

definition icnt_send :: "u32 \<Rightarrow> u32 \<Rightarrow> mf_ptr \<Rightarrow> u32 \<Rightarrow> gpu_env \<Rightarrow> gpu_env res" where
  "icnt_send inp out p sz g =
     rbind (icnt_push inp out p sz (m_icnt g)) (\<lambda>ic. Inr (g\<lparr>m_icnt := ic\<rparr>))"

definition icnt_receive :: "u32 \<Rightarrow> gpu_env \<Rightarrow> (mf_ptr option \<times> gpu_env) res" where
  "icnt_receive out g =
     rbind (icnt_pop out (m_icnt g)) (\<lambda>(p, ic). Inr (p, g\<lparr>m_icnt := ic\<rparr>))"

section \<open>The heap\<close>

text \<open>Pointers not yet handed out are free.\<close>

definition wf_env :: "gpu_env \<Rightarrow> bool" where
  "wf_env g \<longleftrightarrow> (\<forall>p. next_mf_ptr g \<le> p \<longrightarrow> mf_heap g p = None)"

lemma wf_env_update [inv_intros]: "wf_env g \<Longrightarrow> mf_update p f g = Inr g' \<Longrightarrow> wf_env g'"
  by (auto simp: mf_update_def mf_at_def wf_env_def res_simps)

lemma wf_env_delete [inv_intros]: "wf_env g \<Longrightarrow> mf_delete p g = Inr g' \<Longrightarrow> wf_env g'"
  by (auto simp: mf_delete_def wf_env_def res_simps)

lemma wf_env_new [inv_intros]: "wf_env g \<Longrightarrow> wf_env (snd (mf_new mk g))"
  by (simp add: mf_new_def wf_env_def)

lemma mf_new_fresh: "wf_env g \<Longrightarrow> mf_heap g (fst (mf_new mk g)) = None"
  by (simp add: mf_new_def wf_env_def)

lemma mf_update_Inr:
  "mf_update p f g = Inr g' \<longleftrightarrow>
   (\<exists>mf. mf_heap g p = Some mf \<and> g' = g\<lparr>mf_heap := (mf_heap g)(p := Some (f mf))\<rparr>)"
  by (auto simp: mf_update_def mf_at_def res_simps)

lemma mf_delete_Inr:
  "mf_delete p g = Inr g' \<longleftrightarrow>
   mf_heap g p \<noteq> None \<and> g' = g\<lparr>mf_heap := (mf_heap g)(p := None)\<rparr>"
  by (auto simp: mf_delete_def mf_at_def res_simps)

end
