(* ===== verification/Data_Cache.thy ===== *)
theory Data_Cache
  imports Gpu_Env Tag_Array Mshr
begin

text \<open>
  The class \<open>data_cache\<close> (\<^verbatim>\<open>cache.h\<close>), the base of both caches: the configuration, the tag
  array, the MSHR table (whose requests are \<open>mem_fetch\<close> pointers) and the access counters.  A
  derived class is an extension of the record.
\<close>

record data_cache =
  m_cache_config :: cache_config
  dc_gpu_config :: gpu_config
  dc_sm_id :: u32
  m_tag_array :: tag_array
  m_mshrs :: "mf_ptr mshr_table"
  m_write_cache_access_num :: int
  m_read_cache_access_num :: int
  m_load_sector_hit :: int
  m_store_sector_hit :: int
  m_load_sector_miss :: int
  m_store_sector_miss :: int
  m_sector_load_to_next :: int
  m_sector_store_to_next :: int

definition new_data_cache :: "cache_config \<Rightarrow> gpu_config \<Rightarrow> u32 \<Rightarrow> data_cache" where
  "new_data_cache cc gc sm =
     \<lparr>m_cache_config = cc, dc_gpu_config = gc, dc_sm_id = sm, m_tag_array = new_tag_array cc sm,
      m_mshrs = new_mshr_table (word_of_int (m_mshr_entries cc)) (word_of_int (m_mshr_max_merge cc)),
      m_write_cache_access_num = 0, m_read_cache_access_num = 0, m_load_sector_hit = 0,
      m_store_sector_hit = 0, m_load_sector_miss = 0, m_store_sector_miss = 0,
      m_sector_load_to_next = 0, m_sector_store_to_next = 0\<rparr>"

text \<open>\<open>wr ? m_write_cache_access_num++ : m_read_cache_access_num++\<close>\<close>

definition count_access :: "bool \<Rightarrow> 'a data_cache_scheme \<Rightarrow> 'a data_cache_scheme" where
  "count_access wr c =
     (if wr then c\<lparr>m_write_cache_access_num := m_write_cache_access_num c + 1\<rparr>
      else c\<lparr>m_read_cache_access_num := m_read_cache_access_num c + 1\<rparr>)"

text \<open>
  \<open>m_tag_array->tag_array_access(addr, time, mf, cache_index)\<close>: the output argument
  \<open>cache_index\<close> keeps its value where the probe does not write it.
\<close>

definition dc_touch ::
  "u64 \<Rightarrow> u32 \<Rightarrow> u32 \<Rightarrow> nat option \<Rightarrow> 'a data_cache_scheme \<Rightarrow> (nat option \<times> 'a data_cache_scheme) res"
where
  "dc_touch addr time sector cache_index c =
     rbind (tag_array_access addr time sector (m_tag_array c)) (\<lambda>(status, idx, t).
       Inr (case idx of None \<Rightarrow> cache_index | Some i \<Rightarrow> Some i, c\<lparr>m_tag_array := t\<rparr>))"

text \<open>\<open>m_tag_array->get_block(cache_index)\<close> followed by an update of that block.\<close>

definition dc_block ::
  "nat option \<Rightarrow> (sector_cache_block \<Rightarrow> sector_cache_block res) \<Rightarrow> 'a data_cache_scheme \<Rightarrow>
   'a data_cache_scheme res"
where
  "dc_block cache_index f c =
     rbind (deref cache_index) (\<lambda>i. rbind (update_line i f (m_tag_array c)) (\<lambda>t.
       Inr (c\<lparr>m_tag_array := t\<rparr>)))"

definition dc_mshr_add :: "u64 \<Rightarrow> mf_ptr \<Rightarrow> mem_fetch \<Rightarrow> 'a data_cache_scheme \<Rightarrow> 'a data_cache_scheme"
where
  "dc_mshr_add a p mf c = c\<lparr>m_mshrs := mshr_add a p (is_atomic mf) (m_mshrs c)\<rparr>"

text \<open>\<open>cache_fill(mf, time)\<close> of both caches.\<close>

definition cache_fill :: "mf_ptr \<Rightarrow> u32 \<Rightarrow> 'a data_cache_scheme \<times> gpu_env \<Rightarrow> ('a data_cache_scheme \<times> gpu_env) res"
where
  "cache_fill p time = (\<lambda>(c, g).
     rbind (mf_at p g) (\<lambda>mf.
     rbind (tag_array_fill (m_address mf) time (m_sector_mask mf) (m_tag_array c)) (\<lambda>t.
       Inr (c\<lparr>m_tag_array := t\<rparr>, g))))"

end
