(* ===== verification/L1_Cache.thy ===== *)
theory L1_Cache
  imports Data_Cache
begin

text \<open>
  The L1 cache of a multiprocessor, \<open>l1_data_cache\<close> of \<^verbatim>\<open>cache.h\<close> and \<^verbatim>\<open>cache.cpp\<close>.  The
  queues from the multiprocessor (\<open>m_sm_to_l1\<close>, which the C++ object holds by reference) are kept
  here.
\<close>

record l1_data_cache = data_cache +
  l1_tlb_hit :: bool
  m_sm_to_l1 :: "(int, mf_ptr list) std_map"
  m_miss_queue :: "mf_ptr list"
  l1_to_sm :: "mf_ptr list"
  m_l1_to_l2_num :: int
  m_l1_to_l2_mshr :: int

definition new_l1_data_cache :: "cache_config \<Rightarrow> gpu_config \<Rightarrow> u32 \<Rightarrow> l1_data_cache" where
  "new_l1_data_cache cc gc sm =
     data_cache.extend (new_data_cache cc gc sm)
       \<lparr>l1_tlb_hit = False, m_sm_to_l1 = [], m_miss_queue = [], l1_to_sm = [],
        m_l1_to_l2_num = 0, m_l1_to_l2_mshr = 0\<rparr>"

type_synonym l1_state = "l1_data_cache \<times> gpu_env"

definition bank_queue :: "(int, mf_ptr list) std_map \<Rightarrow> int \<Rightarrow> mf_ptr list" where
  "bank_queue m bank = (case map_of m bank of None \<Rightarrow> [] | Some q \<Rightarrow> q)"

text \<open>The request an L1 write hit sends down: a copy that wants no reply.\<close>

definition write_through_copy :: "u32 \<Rightarrow> mem_fetch \<Rightarrow> u32 \<Rightarrow> mem_fetch" where
  "write_through_copy sm mf i =
     (new_mem_fetch sm (m_access_type mf) (m_address mf) (m_sector_mask mf) (m_space mf)
        (m_is_atomic mf) (m_gen_time mf) (m_src_block_id mf) (m_src_warp_id mf)
        (m_completion_index mf) i)\<lparr>m_write_type := WRITE_THROUGH_L2, m_no_reply := True\<rparr>"

text \<open>\<open>tag_array_access\<close>, then \<open>set_status(MODIFIED)\<close> on the block it found.\<close>

definition dc_write_hit ::
  "u64 \<Rightarrow> u32 \<Rightarrow> u32 \<Rightarrow> nat option \<Rightarrow> 'a data_cache_scheme \<Rightarrow> 'a data_cache_scheme res"
where
  "dc_write_hit baddr time sector idx c =
     rbind (dc_touch baddr time sector idx c) (\<lambda>(idx, c).
       dc_block idx (set_status MODIFIED sector) c)"

definition l1_write_hit ::
  "u64 \<Rightarrow> mf_ptr \<Rightarrow> u32 \<Rightarrow> nat option \<Rightarrow> l1_state \<Rightarrow> (cache_request_status \<times> l1_state) res"
where
  "l1_write_hit addr p time idx = (\<lambda>(c, g).
     let c = c\<lparr>m_store_sector_hit := m_store_sector_hit c + 1\<rparr>;
         baddr = block_addr (m_cache_config c) addr in
     rbind (mf_at p g) (\<lambda>mf.
     rbind (if m_write_policy (m_cache_config c) = ''LOCAL_WB_GLOBAL_WT'' then
              (case m_space mf of
                 GLOBAL \<Rightarrow>
                   rbind (mf_update p (\<lambda>m. m\<lparr>m_write_type := WRITE_THROUGH\<rparr>) g) (\<lambda>g.
                   let (q, g) = mf_new (write_through_copy (dc_sm_id c) mf) g in
                   rbind (dc_block idx (set_status MODIFIED (m_sector_mask mf)) c) (\<lambda>c.
                     Inr (c\<lparr>m_miss_queue := m_miss_queue c @ [q]\<rparr>, g)))
               | LOCAL \<Rightarrow>
                   rbind (dc_write_hit baddr time (m_sector_mask mf) idx c) (\<lambda>c. Inr (c, g))
               | SHARE \<Rightarrow> Inr (c, g))
            else if m_write_policy (m_cache_config c) = ''WRITE_BACK'' then
              rbind (dc_write_hit baddr time (m_sector_mask mf) idx c) (\<lambda>c. Inr (c, g))
            else Inr (c, g)) (\<lambda>(c, g).
     rbind (mf_update p (\<lambda>m. m\<lparr>m_status := L1_HIT\<rparr>) g) (\<lambda>g.
     guard (map_of (m_gpu_config (dc_gpu_config c)) ''l1_hit_latency'' \<noteq> None) Exit_Called
     (rbind (cfg_int (dc_gpu_config c) ''l1_hit_latency'') (\<lambda>latency.
      rbind (mf_update p (\<lambda>m. m\<lparr>m_l1_ready_time := latency + sint time\<rparr>) g) (\<lambda>g.
      if needs_reply mf then Inr (HIT, c\<lparr>l1_to_sm := l1_to_sm c @ [p]\<rparr>, g)
      else rbind (mf_delete p g) (\<lambda>g. Inr (HIT, c, g)))))))))"

text \<open>\<open>mf->m_tlb_hit = m_tlb_hit; if (!m_tlb_hit) m_tlb_hit = true;\<close>\<close>

definition l1_tlb :: "mf_ptr \<Rightarrow> l1_state \<Rightarrow> l1_state res" where
  "l1_tlb p = (\<lambda>(c, g).
     rbind (mf_update p (\<lambda>m. m\<lparr>m_tlb_hit := l1_tlb_hit c\<rparr>) g) (\<lambda>g.
       Inr (if \<not> l1_tlb_hit c then c\<lparr>l1_tlb_hit := True\<rparr> else c, g)))"

definition l1_write_miss :: "mf_ptr \<Rightarrow> l1_state \<Rightarrow> (cache_request_status \<times> l1_state) res" where
  "l1_write_miss p = (\<lambda>(c, g).
     rbind (mf_at p g) (\<lambda>mf.
     let mshr_hit = mshr_probe (mshr_addr (m_cache_config c) (m_sector_address mf)) (m_mshrs c);
         c = (if mshr_hit then c\<lparr>m_store_sector_hit := m_store_sector_hit c + 1\<rparr>
              else c\<lparr>m_store_sector_miss := m_store_sector_miss c + 1\<rparr>) in
     rbind (l1_tlb p (c, g)) (\<lambda>(c, g).
       Inr (MISS, c\<lparr>m_miss_queue := m_miss_queue c @ [p],
                    m_sector_store_to_next := m_sector_store_to_next c + 1\<rparr>, g))))"

definition l1_read_hit ::
  "u64 \<Rightarrow> mf_ptr \<Rightarrow> u32 \<Rightarrow> nat option \<Rightarrow> l1_state \<Rightarrow> (cache_request_status \<times> l1_state) res"
where
  "l1_read_hit addr p time idx = (\<lambda>(c, g).
     let c = c\<lparr>m_load_sector_hit := m_load_sector_hit c + 1\<rparr> in
     rbind (mf_at p g) (\<lambda>mf.
     rbind (dc_touch (block_addr (m_cache_config c) addr) time (m_sector_mask mf) idx c)
       (\<lambda>(idx, c).
     rbind (cfg_int (dc_gpu_config c) ''l1_hit_latency'') (\<lambda>latency.
     rbind (mf_update p (\<lambda>m. m\<lparr>m_status := L1_HIT, m_l1_ready_time := latency + sint time\<rparr>) g)
       (\<lambda>g. Inr (HIT, c\<lparr>l1_to_sm := l1_to_sm c @ [p]\<rparr>, g))))))"

definition l1_read_miss :: "mf_ptr \<Rightarrow> l1_state \<Rightarrow> (cache_request_status \<times> l1_state) res" where
  "l1_read_miss p = (\<lambda>(c, g).
     rbind (mf_at p g) (\<lambda>mf.
     let a = mshr_addr (m_cache_config c) (m_sector_address mf);
         mshr_hit = mshr_probe a (m_mshrs c); mshr_avail = (\<not> mshr_full a (m_mshrs c)) in
     if \<not> mshr_avail then Inr (RESERVATION_FAIL, c, g)
     else if mshr_hit then
       (let c = dc_mshr_add a p mf (c\<lparr>m_load_sector_hit := m_load_sector_hit c + 1\<rparr>)
        in Inr (MISS, c\<lparr>m_l1_to_l2_mshr := m_l1_to_l2_mshr c + 1\<rparr>, g))
     else
       (let c = dc_mshr_add a p mf (c\<lparr>m_load_sector_miss := m_load_sector_miss c + 1\<rparr>) in
        rbind (l1_tlb p (c, g)) (\<lambda>(c, g).
          Inr (MISS, c\<lparr>m_miss_queue := m_miss_queue c @ [p],
                       m_l1_to_l2_num := m_l1_to_l2_num c + 1\<rparr>, g)))))"

definition l1_cache_access ::
  "u64 \<Rightarrow> mf_ptr \<Rightarrow> u32 \<Rightarrow> l1_state \<Rightarrow> (cache_request_status \<times> l1_state) res"
where
  "l1_cache_access addr p time = (\<lambda>(c, g).
     rbind (mf_at p g) (\<lambda>mf.
     let wr = is_write mf; c = count_access wr c in
     rbind (tag_array_probe addr (m_sector_mask mf) (m_tag_array c)) (\<lambda>(probe_status, idx).
     if probe_status = RESERVATION_FAIL then Inr (RESERVATION_FAIL, c, g)
     else if wr then
       if probe_status = HIT then l1_write_hit addr p time idx (c, g) else l1_write_miss p (c, g)
     else
       if probe_status = HIT then l1_read_hit addr p time idx (c, g) else l1_read_miss p (c, g))))"

text \<open>One bank of \<open>l1_cache_cycle\<close>.\<close>

definition l1_bank_cycle :: "int \<Rightarrow> nat \<Rightarrow> l1_state \<Rightarrow> l1_state res" where
  "l1_bank_cycle cycles b = (\<lambda>(c, g).
     case bank_queue (m_sm_to_l1 c) (int b) of
       [] \<Rightarrow> Inr (c, g)
     | p # rest \<Rightarrow>
         rbind (mf_at p g) (\<lambda>mf.
         rbind (l1_cache_access (m_address mf) p (word_of_int cycles) (c, g)) (\<lambda>(status, c, g).
         if status = RESERVATION_FAIL then Inr (c, g)
         else Inr (c\<lparr>m_sm_to_l1 := map_put (int b) (tl (bank_queue (m_sm_to_l1 c) (int b))) (m_sm_to_l1 c)\<rparr>,
                   g\<lparr>address_to_sms := (address_to_sms g)
                       (m_address mf := insert (sint (dc_sm_id c)) (address_to_sms g (m_address mf))),
                     total_access := total_access g + 1\<rparr>))))"

definition m_miss_queue_cycle :: "int \<Rightarrow> l1_state \<Rightarrow> l1_state res" where
  "m_miss_queue_cycle cycles = (\<lambda>(c, g).
     case m_miss_queue c of
       [] \<Rightarrow> Inr (c, g)
     | p # rest \<Rightarrow>
         rbind (mf_at p g) (\<lambda>mf.
         rbind (cfg_int (dc_gpu_config c) ''mem_num'') (\<lambda>mem_num.
         rbind (cfg_int (dc_gpu_config c) ''sm_num'') (\<lambda>sm_num.
         rbind (get_mem_sub_partition_id (mem_num sdiv 2) sm_num mf) (\<lambda>(output_node, mf').
         rbind (mf_update p (\<lambda>_. mf') g) (\<lambda>g.
         rbind (HasBuffer (dc_sm_id c) (m_packet_size mf) (m_icnt g)) (\<lambda>has_buffer.
         if has_buffer then
           rbind (icnt_send (dc_sm_id c) (word_of_int output_node) p (m_packet_size mf) g) (\<lambda>g.
           rbind (mf_update p (\<lambda>m. m\<lparr>m_pushed_time := Some (word_of_int cycles)\<rparr>)
                    (g\<lparr>l2_push_num := l2_push_num g + 1\<rparr>)) (\<lambda>g.
             Inr (c\<lparr>m_miss_queue := rest\<rparr>, g)))
         else Inr (c, g))))))))"

definition l1_cache_cycle :: "int \<Rightarrow> l1_state \<Rightarrow> l1_state res" where
  "l1_cache_cycle cycles s =
     rbind (m_miss_queue_cycle cycles s) (\<lambda>(c, g).
       foldM (l1_bank_cycle cycles) [0..<nat (m_n_banks (m_cache_config c))] (c, g))"

end
