(* ===== verification/L2_Cache.thy ===== *)
theory L2_Cache
  imports Data_Cache Delay_Queue
begin

text \<open>
  An L2 cache slice, \<open>l2_data_cache\<close> of \<^verbatim>\<open>cache.h\<close> and \<^verbatim>\<open>cache.cpp\<close>: requests from the
  interconnect, replies to the multiprocessors, and the queues to and from the DRAM channel.
\<close>

record l2_data_cache = data_cache +
  m_device_id :: int
  m_l1_to_l2 :: "mf_ptr list"
  l2_to_sms :: "mf_ptr list list"
  l2_to_dram :: "(mf_ptr \<times> int) list"
  m_L2_dram_queue :: "mf_ptr fifo_pipeline"
  m_dram_L2_queue :: "mf_ptr fifo_pipeline"

type_synonym l2_state = "l2_data_cache \<times> gpu_env"

definition new_l2_data_cache :: "cache_config \<Rightarrow> gpu_config \<Rightarrow> int \<Rightarrow> l2_data_cache res" where
  "new_l2_data_cache cc gc m_partition_id =
     rbind (cfg_int gc ''sm_num'') (\<lambda>sm_num.
     rbind (new_fifo_pipeline 0 999999) (\<lambda>to_dram.
     rbind (new_fifo_pipeline 0 999999) (\<lambda>from_dram.
       Inr (data_cache.extend (new_data_cache cc gc 999)
         \<lparr>m_device_id = sm_num + m_partition_id, m_l1_to_l2 = [], l2_to_sms = [[], [], []],
          l2_to_dram = [], m_L2_dram_queue = to_dram, m_dram_L2_queue = from_dram\<rparr>))))"

definition l2_enqueue :: "nat \<Rightarrow> mf_ptr \<Rightarrow> l2_data_cache \<Rightarrow> l2_data_cache res" where
  "l2_enqueue i p c =
     rbind (nth_res (l2_to_sms c) i) (\<lambda>q. Inr (c\<lparr>l2_to_sms := (l2_to_sms c)[i := q @ [p]]\<rparr>))"

text \<open>The queue is chosen by comparing the latency with the three configured ones, in turn.\<close>

definition send_l2_to_sm :: "mf_ptr \<Rightarrow> int \<Rightarrow> int \<Rightarrow> l2_state \<Rightarrow> l2_state res" where
  "send_l2_to_sm p cycles latency = (\<lambda>(c, g).
     rbind (mf_update p (\<lambda>m. m\<lparr>m_l2_ready_time := cycles + latency\<rparr>) g) (\<lambda>g.
     rbind (cfg_int (dc_gpu_config c) ''l2_hit_latency'') (\<lambda>hit.
     if latency = hit then rbind (l2_enqueue 0 p c) (\<lambda>c. Inr (c, g))
     else rbind (cfg_int (dc_gpu_config c) ''l2_miss_latency'') (\<lambda>miss.
     if latency = miss then rbind (l2_enqueue 1 p c) (\<lambda>c. Inr (c, g))
     else rbind (cfg_int (dc_gpu_config c) ''tlb_miss_latency'') (\<lambda>tlb.
     if latency = tlb then rbind (l2_enqueue 2 p c) (\<lambda>c. Inr (c, g))
     else Inr (c, g))))))"

definition send_l2_to_dram :: "mf_ptr \<Rightarrow> l2_state \<Rightarrow> l2_state res" where
  "send_l2_to_dram p = (\<lambda>(c, g).
     rbind (cfg_int (dc_gpu_config c) ''l2_miss_latency'') (\<lambda>latency.
     rbind (fifo_push (Some p) (m_L2_dram_queue c)) (\<lambda>q.
       Inr (c\<lparr>m_L2_dram_queue := q\<rparr>, g))))"

definition l2_get_id :: "l2_data_cache \<Rightarrow> u32 res" where
  "l2_get_id c = rbind (cfg_int (dc_gpu_config c) ''sm_num'') (\<lambda>sm_num.
     Inr (word_of_int (m_device_id c - sm_num)))"

definition l2_Compare :: "mem_fetch \<Rightarrow> mem_fetch \<Rightarrow> bool" where
  "l2_Compare a b \<longleftrightarrow> m_l2_ready_time a > m_l2_ready_time b"

section \<open>Replies\<close>

text \<open>Answer one request: fill the cache and push it to its multiprocessor, or delete it.\<close>

definition l2_push_to_sm :: "mf_ptr \<Rightarrow> l2_state \<Rightarrow> l2_state res" where
  "l2_push_to_sm p = (\<lambda>(c, g).
     rbind (mf_at p g) (\<lambda>mf.
     rbind (icnt_send (word_of_int (m_device_id c)) (m_sm_id mf) p (m_packet_size mf) g) (\<lambda>g.
       Inr (c, g))))"

definition l2_answer :: "int \<Rightarrow> mf_ptr \<Rightarrow> l2_state \<Rightarrow> l2_state res" where
  "l2_answer cycles p s =
     rbind (cache_fill p (word_of_int cycles) s) (\<lambda>(c, g).
     rbind (mf_at p g) (\<lambda>mf.
     if needs_reply mf then l2_push_to_sm p (c, g)
     else rbind (mf_delete p g) (\<lambda>g. Inr (c, g))))"

definition return_l2_miss_to_sms :: "mf_ptr \<Rightarrow> int \<Rightarrow> l2_state \<Rightarrow> l2_state res" where
  "return_l2_miss_to_sms returned_mf cycles = (\<lambda>(c, g).
     rbind (mf_at returned_mf g) (\<lambda>mf.
     let mshr_address = mshr_addr (m_cache_config c) (m_sector_address mf);
         returned_from_mshr = mshr_probe mshr_address (m_mshrs c) in
     rbind (mshr_while mshr_address (l2_answer cycles) (m_mshrs c) (c, g)) (\<lambda>(t, c, g).
     if \<not> returned_from_mshr then l2_answer cycles returned_mf (c\<lparr>m_mshrs := t\<rparr>, g)
     else Inr (c\<lparr>m_mshrs := t\<rparr>, g))))"

text \<open>The loop over one of the reply queues: \<open>while (front is ready) ...\<close>.\<close>

fun l2_drain :: "int \<Rightarrow> mf_ptr list \<Rightarrow> l2_state \<Rightarrow> (mf_ptr list \<times> l2_state) res" where
  "l2_drain cycles [] s = Inr ([], s)"
| "l2_drain cycles (p # rest) (c, g) =
     rbind (mf_at p g) (\<lambda>mf.
     if m_l2_ready_time mf \<le> gpu_sim_cycles g then
       rbind (if m_status mf = L2_HIT then l2_push_to_sm p (c, g)
              else return_l2_miss_to_sms p cycles (c, g)) (l2_drain cycles rest)
     else Inr (p # rest, c, g))"

definition l2_reply_queue :: "int \<Rightarrow> nat \<Rightarrow> l2_state \<Rightarrow> l2_state res" where
  "l2_reply_queue cycles i = (\<lambda>(c, g).
     rbind (nth_res (l2_to_sms c) i) (\<lambda>q.
     rbind (l2_drain cycles q (c, g)) (\<lambda>(q', c, g).
       Inr (c\<lparr>l2_to_sms := (l2_to_sms c)[i := q']\<rparr>, g))))"

section \<open>Accesses\<close>

definition l2_write_hit ::
  "u64 \<Rightarrow> mf_ptr \<Rightarrow> u32 \<Rightarrow> nat option \<Rightarrow> l2_state \<Rightarrow> (cache_request_status \<times> l2_state) res"
where
  "l2_write_hit addr p time idx = (\<lambda>(c, g).
     let c = c\<lparr>m_store_sector_hit := m_store_sector_hit c + 1\<rparr>;
         baddr = block_addr (m_cache_config c) addr in
     rbind (mf_at p g) (\<lambda>mf.
     rbind (dc_touch baddr time (m_sector_mask mf) idx c) (\<lambda>(idx, c).
     rbind (dc_block idx (set_status MODIFIED (m_sector_mask mf)) c) (\<lambda>c.
     rbind (if m_write_type mf = WRITE_THROUGH_L2 then rbind (mf_delete p g) (\<lambda>g. Inr (c, g))
            else if \<not> needs_reply mf then rbind (mf_delete p g) (\<lambda>g. Inr (c, g))
            else
              rbind (cfg_int (dc_gpu_config c)
                       (if m_tlb_hit mf then ''l2_hit_latency'' else ''tlb_miss_latency'')) (\<lambda>latency.
              rbind (send_l2_to_sm p (gpu_sim_cycles g) latency (c, g)) (\<lambda>(c, g).
              rbind (mf_update p (\<lambda>m. m\<lparr>m_status := L2_HIT\<rparr>) g) (\<lambda>g. Inr (c, g)))))
       (\<lambda>s. Inr (HIT, s))))))"

text \<open>The end of the two write branches that do not hit: forget the write or send it to DRAM.\<close>

definition l2_write_down :: "mf_ptr \<Rightarrow> mem_fetch_status \<Rightarrow> l2_state \<Rightarrow> l2_state res" where
  "l2_write_down p st = (\<lambda>(c, g).
     rbind (mf_at p g) (\<lambda>mf.
     if m_write_type mf = WRITE_THROUGH_L2 then rbind (mf_delete p g) (\<lambda>g. Inr (c, g))
     else if \<not> needs_reply mf then send_l2_to_dram p (c, g)
     else rbind (send_l2_to_dram p (c, g)) (\<lambda>(c, g).
          rbind (mf_update p (\<lambda>m. m\<lparr>m_status := st\<rparr>) g) (\<lambda>g. Inr (c, g)))))"

definition l2_write_miss ::
  "u64 \<Rightarrow> mf_ptr \<Rightarrow> u32 \<Rightarrow> cache_request_status \<Rightarrow> l2_state \<Rightarrow> (cache_request_status \<times> l2_state) res"
where
  "l2_write_miss addr p time probe_status = (\<lambda>(c, g).
     rbind (mf_at p g) (\<lambda>mf.
     let sector = m_sector_mask mf; cc = ta_config (m_tag_array c) in
     rbind (tag_array_probe_idle (block_addr (m_cache_config c) addr) (m_tag_array c)) (\<lambda>idle.
     case idle of
       Some i \<Rightarrow>
         rbind (dc_block (Some i) (\<lambda>b.
             rbind (if probe_status = MISS
                    then block_allocate (tag cc addr) (block_addr cc addr) time sector b
                    else if probe_status = SECTOR_MISS then block_allocate_sector time sector b
                    else Inr b) (\<lambda>b.
             rbind (set_status MODIFIED sector b) (set_last_access_time time sector)))
           (c\<lparr>m_store_sector_hit := m_store_sector_hit c + 1\<rparr>)) (\<lambda>c.
         rbind (l2_write_down p L2_HIT (c, g)) (\<lambda>s. Inr (HIT, s)))
     | None \<Rightarrow>
         (let mshr_hit = mshr_probe (mshr_addr (m_cache_config c) (m_sector_address mf)) (m_mshrs c);
              c = (if mshr_hit then c\<lparr>m_store_sector_hit := m_store_sector_hit c + 1\<rparr>
                   else c\<lparr>m_store_sector_miss := m_store_sector_miss c + 1\<rparr>) in
          rbind (l2_write_down p L2_MISS (c, g)) (\<lambda>s. Inr (MISS, s))))))"

definition l2_read_hit ::
  "u64 \<Rightarrow> mf_ptr \<Rightarrow> u32 \<Rightarrow> nat option \<Rightarrow> l2_state \<Rightarrow> (cache_request_status \<times> l2_state) res"
where
  "l2_read_hit addr p time idx = (\<lambda>(c, g).
     let c = c\<lparr>m_load_sector_hit := m_load_sector_hit c + 1\<rparr> in
     rbind (mf_at p g) (\<lambda>mf.
     rbind (dc_touch (block_addr (m_cache_config c) addr) time (m_sector_mask mf) idx c) (\<lambda>(idx, c).
     rbind (cfg_int (dc_gpu_config c) ''l2_hit_latency'') (\<lambda>latency.
     rbind (send_l2_to_sm p (gpu_sim_cycles g) latency (c, g)) (\<lambda>(c, g).
     rbind (mf_update p (\<lambda>m. m\<lparr>m_status := L2_HIT\<rparr>) g) (\<lambda>g. Inr (HIT, c, g)))))))"

definition l2_read_miss ::
  "u64 \<Rightarrow> mf_ptr \<Rightarrow> u32 \<Rightarrow> nat option \<Rightarrow> l2_state \<Rightarrow> (cache_request_status \<times> l2_state) res"
where
  "l2_read_miss addr p time idx = (\<lambda>(c, g).
     rbind (mf_at p g) (\<lambda>mf.
     let a = mshr_addr (m_cache_config c) (m_sector_address mf);
         baddr = block_addr (m_cache_config c) addr;
         mshr_hit = mshr_probe a (m_mshrs c); mshr_avail = (\<not> mshr_full a (m_mshrs c)) in
     if \<not> mshr_avail then Inr (RESERVATION_FAIL, c, g)
     else
       rbind (if mshr_hit then
                rbind (dc_touch baddr time (m_sector_mask mf) idx
                         (c\<lparr>m_load_sector_hit := m_load_sector_hit c + 1\<rparr>)) (\<lambda>(idx, c).
                  Inr (dc_mshr_add a p mf c, g))
              else
                rbind (dc_touch baddr time (m_sector_mask mf) idx
                         (c\<lparr>m_load_sector_miss := m_load_sector_miss c + 1\<rparr>)) (\<lambda>(idx, c).
                rbind (send_l2_to_dram p (dc_mshr_add a p mf c, g)) (\<lambda>(c, g).
                rbind (dc_touch baddr time (m_sector_mask mf) idx
                         (c\<lparr>m_sector_load_to_next := m_sector_load_to_next c + 1\<rparr>)) (\<lambda>(idx, c).
                  Inr (c, g))))) (\<lambda>(c, g).
       rbind (mf_update p (\<lambda>m. m\<lparr>m_status := L2_MISS\<rparr>) g) (\<lambda>g. Inr (MISS, c, g)))))"

definition l2_cache_access ::
  "u64 \<Rightarrow> mf_ptr \<Rightarrow> u32 \<Rightarrow> l2_state \<Rightarrow> (cache_request_status \<times> l2_state) res"
where
  "l2_cache_access addr p time = (\<lambda>(c, g).
     rbind (mf_at p g) (\<lambda>mf.
     let wr = is_write mf; c = count_access wr c in
     rbind (tag_array_probe addr (m_sector_mask mf) (m_tag_array c)) (\<lambda>(probe_status, idx).
     if probe_status = RESERVATION_FAIL then Inr (RESERVATION_FAIL, c, g)
     else if wr then
       if probe_status = HIT then l2_write_hit addr p time idx (c, g)
       else l2_write_miss addr p time probe_status (c, g)
     else
       if probe_status = HIT then l2_read_hit addr p time idx (c, g)
       else l2_read_miss addr p time idx (c, g))))"

section \<open>The cycle\<close>

definition l2_from_dram :: "int \<Rightarrow> l2_state \<Rightarrow> l2_state res" where
  "l2_from_dram cycles = (\<lambda>(c, g).
     if fifo_empty (m_dram_L2_queue c) then Inr (c, g)
     else
       rbind (deref (fifo_top (m_dram_L2_queue c))) (\<lambda>p.
       rbind (return_l2_miss_to_sms p cycles (c, g)) (\<lambda>(c, g).
       rbind (fifo_pop (m_dram_L2_queue c)) (\<lambda>(_, q).
         Inr (c\<lparr>m_dram_L2_queue := q\<rparr>, g)))))"

definition l2_from_icnt :: "l2_state \<Rightarrow> l2_state res" where
  "l2_from_icnt = (\<lambda>(c, g).
     rbind (icnt_receive (word_of_int (m_device_id c)) g) (\<lambda>(p, g).
     case p of
       None \<Rightarrow> Inr (c, g)
     | Some p \<Rightarrow> Inr (c\<lparr>m_l1_to_l2 := m_l1_to_l2 c @ [p]\<rparr>, g\<lparr>l2_pop_num := l2_pop_num g + 1\<rparr>)))"

definition l2_serve :: "int \<Rightarrow> l2_state \<Rightarrow> l2_state res" where
  "l2_serve cycles = (\<lambda>(c, g).
     case m_l1_to_l2 c of
       [] \<Rightarrow> Inr (c, g)
     | p # rest \<Rightarrow>
         rbind (mf_at p g) (\<lambda>mf.
         rbind (l2_cache_access (m_address mf) p (word_of_int cycles) (c, g)) (\<lambda>(status, c, g).
         if status \<noteq> RESERVATION_FAIL then Inr (c\<lparr>m_l1_to_l2 := tl (m_l1_to_l2 c)\<rparr>, g)
         else Inr (c, g))))"

definition l2_cache_cycle :: "int \<Rightarrow> l2_state \<Rightarrow> l2_state res" where
  "l2_cache_cycle cycles s =
     rbind (l2_from_dram cycles s) (\<lambda>s.
     rbind (foldM (l2_reply_queue cycles) [0..<3] s) (\<lambda>s.
     rbind (l2_from_icnt s) (l2_serve cycles)))"

definition L2_dram_queue_empty :: "l2_data_cache \<Rightarrow> bool" where
  "L2_dram_queue_empty c = fifo_empty (m_L2_dram_queue c)"

definition L2_dram_queue_top :: "l2_data_cache \<Rightarrow> mf_ptr option" where
  "L2_dram_queue_top c = fifo_top (m_L2_dram_queue c)"

definition L2_dram_queue_pop :: "l2_data_cache \<Rightarrow> l2_data_cache res" where
  "L2_dram_queue_pop c =
     rbind (fifo_pop (m_L2_dram_queue c)) (\<lambda>(_, q). Inr (c\<lparr>m_L2_dram_queue := q\<rparr>))"

definition dram_L2_queue_full :: "l2_data_cache \<Rightarrow> bool" where
  "dram_L2_queue_full c = fifo_full (m_dram_L2_queue c)"

definition dram_L2_queue_push :: "mf_ptr option \<Rightarrow> l2_data_cache \<Rightarrow> l2_data_cache res" where
  "dram_L2_queue_push p c =
     rbind (fifo_push p (m_dram_L2_queue c)) (\<lambda>q. Inr (c\<lparr>m_dram_L2_queue := q\<rparr>))"

end
