(* ===== verification/Mem_Config.thy ===== *)
theory Mem_Config
  imports Config_Reader
begin

text \<open>
  The DRAM timing parameters, \<open>memory_config\<close> of \<^verbatim>\<open>cache.h\<close>: read from the section
  \<open>memory_config\<close> of the configuration (a missing key reads as 0), with the derived turnaround
  times.  \<open>dram_atom_size\<close> and \<open>busW\<close> are never initialised.
\<close>

datatype dram_ctrl_t = DRAM_FIFO | DRAM_FRFCFS

record memory_config =
  scheduler_type :: dram_ctrl_t
  gpgpu_dram_return_queue_size :: int
  m_n_sub_partition_per_memory_channel :: int
  gpgpu_frfcfs_dram_sched_queue_size :: int
  seperate_write_queue_enabled :: bool
  gpgpu_frfcfs_dram_write_queue_size :: int
  dram_bnk_indexing_policy :: int
  dual_bus_interface :: int
  tCCDL :: u32
  tRTPL :: u32
  tCCD :: u32
  tRRD :: u32
  tRCD :: u32
  tRCDWR :: u32
  tRAS :: u32
  tRP :: u32
  tRC :: u32
  tCDLR :: u32
  tWR :: u32
  CL :: u32
  WL :: u32
  BL :: u32
  tRTW :: u32
  tWTR :: u32
  tWTP :: u32
  nbkgrp :: u32
  nbk :: u32
  data_command_freq_ratio :: u32
  dram_bnkgrp_indexing_policy :: u32
  elimnate_rw_turnaround :: bool
  simple_dram_model :: bool

definition mem_key :: "gpu_config \<Rightarrow> string \<Rightarrow> int" where
  "mem_key c k = map_get0 (memory_config_map c) k"

definition mem_word :: "gpu_config \<Rightarrow> string \<Rightarrow> u32" where
  "mem_word c k = word_of_int (mem_key c k)"

definition scheduler_of :: "int \<Rightarrow> dram_ctrl_t res" where
  "scheduler_of n = (if n = 0 then Inr DRAM_FIFO else if n = 1 then Inr DRAM_FRFCFS
                     else Inl Exit_Called)"

definition memory_config_init :: "gpu_config \<Rightarrow> memory_config res" where
  "memory_config_init c =
     rbind (scheduler_of (mem_key c ''scheduler_type'')) (\<lambda>sched.
     let cl = mem_word c ''CL''; wl = mem_word c ''WL''; bl = mem_word c ''BL'';
         ratio = mem_word c ''data_command_freq_ratio''; cdlr = mem_word c ''tCDLR'';
         wr = mem_word c ''tWR''; rcd = mem_word c ''tRCD''; burst = bl div ratio;
         eliminate = False in
     guard (ratio \<noteq> 0) Undefined_Behaviour
     (Inr \<lparr>scheduler_type = sched,
       gpgpu_dram_return_queue_size = mem_key c ''gpgpu_dram_return_queue_size'',
       m_n_sub_partition_per_memory_channel = mem_key c ''m_n_sub_partition_per_memory_channel'',
       gpgpu_frfcfs_dram_sched_queue_size = mem_key c ''gpgpu_frfcfs_dram_sched_queue_size'',
       seperate_write_queue_enabled = (mem_key c ''seperate_write_queue_enabled'' \<noteq> 0),
       gpgpu_frfcfs_dram_write_queue_size = mem_key c ''gpgpu_frfcfs_dram_write_queue_size'',
       dram_bnk_indexing_policy = mem_key c ''dram_bnk_indexing_policy'',
       dual_bus_interface = mem_key c ''dual_bus_interface'',
       tCCDL = mem_word c ''tCCDL'', tRTPL = mem_word c ''tRTPL'', tCCD = mem_word c ''tCCD'',
       tRRD = mem_word c ''tRRD'', tRCD = rcd, tRCDWR = rcd - (wl + 1),
       tRAS = mem_word c ''tRAS'', tRP = mem_word c ''tRP'', tRC = mem_word c ''tRC'',
       tCDLR = cdlr, tWR = wr, CL = cl, WL = wl, BL = bl,
       tRTW = (if eliminate then 0 else cl + burst + 2 - wl),
       tWTR = (if eliminate then 0 else wl + burst + cdlr),
       tWTP = wl + burst + wr, nbkgrp = mem_word c ''nbkgrp'', nbk = mem_word c ''nbk'',
       data_command_freq_ratio = ratio,
       dram_bnkgrp_indexing_policy = mem_word c ''dram_bnkgrp_indexing_policy'',
       elimnate_rw_turnaround = eliminate,
       simple_dram_model = (mem_key c ''simple_dram_model'' \<noteq> 0)\<rparr>))"

end
