(* ===== verification/Dram.thy ===== *)
theory Dram
  imports Mem_Config Gpu_Env Delay_Queue
begin

text \<open>
  A DRAM channel, \<^verbatim>\<open>dram.h\<close> and \<^verbatim>\<open>dram.cpp\<close>: a queue of two requests (\<open>mrqq\<close>), one slot
  per bank, the delay line \<open>rwq\<close> of \<open>CL\<close> stages and the return queue.  A request is kept as a
  value (it has one owner at a time) that names the \<open>mem_fetch\<close> it is for; of the request's fields
  the constructor sets four and the others stay uninitialised (\<open>None\<close>), as do the statistics the
  class never initialises.  The command engine (\<open>issue_col_command\<close>, \<open>issue_row_command\<close>) is
  modelled although \<open>cycle\<close> no longer calls it.
\<close>

section \<open>State\<close>

datatype dram_rw = READ | WRITE

datatype bank_state = BANK_IDLE | BANK_ACTIVE

record dram_req_t =
  req_row :: u32
  req_bk :: u64
  req_rw :: dram_rw
  req_data :: mf_ptr
  txbytes :: "u32 option"

record bankgrp_t =
  CCDLc :: u32
  RTPLc :: u32

record bank_t =
  RCDc :: u32
  RCDWRc :: u32
  RASc :: u32
  RPc :: u32
  RCc :: u32
  WTPc :: u32
  RTPc :: u32
  bank_mode :: bank_state
  curr_row :: u32
  mrq :: "dram_req_t option"
  n_access :: u32
  n_writes :: u32
  n_idle :: u32
  bkgrpindex :: u32

record dram_t =
  dram_config :: memory_config
  dram_id :: u32
  bkgrp :: "bankgrp_t list"
  banks :: "bank_t list"
  prio :: u32
  RRDc :: u32
  CCDc :: u32
  RTWc :: u32
  WTRc :: u32
  dram_rw :: dram_rw
  rwq :: "dram_req_t fifo_pipeline"
  mrqq :: "dram_req_t fifo_pipeline"
  returnq :: "mf_ptr fifo_pipeline"
  n_act :: "u64 option"
  n_pre :: "u64 option"
  bwutil :: "u32 option"
  n_act_partial :: "u32 option"
  n_pre_partial :: "u32 option"
  bwutil_partial :: "u32 option"
  bank_accesses :: "u32 list"

definition new_bank :: "u32 \<Rightarrow> bank_t" where
  "new_bank grp =
     \<lparr>RCDc = 0, RCDWRc = 0, RASc = 0, RPc = 0, RCc = 0, WTPc = 0, RTPc = 0, bank_mode = BANK_IDLE,
      curr_row = 0, mrq = None, n_access = 0, n_writes = 0, n_idle = 0, bkgrpindex = grp\<rparr>"

text \<open>
  The constructor.  It dereferences the first bank and the first group, and divides by the number
  of banks per group, so both numbers must be positive and the quotient too.
\<close>

definition new_dram :: "memory_config \<Rightarrow> u32 \<Rightarrow> dram_t res" where
  "new_dram c n =
     guard (0 < nbkgrp c \<and> 0 < nbk c \<and> nbk c div nbkgrp c \<noteq> 0) Undefined_Behaviour
     (rbind (new_fifo_pipeline (unat (CL c)) (unat (CL c + 1))) (\<lambda>rwq0.
      rbind (new_fifo_pipeline 0 2) (\<lambda>mrqq0.
      rbind (new_fifo_pipeline 0
               (if gpgpu_dram_return_queue_size c = 0 then 1024
                else unat (word_of_int (gpgpu_dram_return_queue_size c) :: u32))) (\<lambda>returnq0.
      Inr \<lparr>dram_config = c, dram_id = n,
        bkgrp = replicate (unat (nbkgrp c)) \<lparr>CCDLc = 0, RTPLc = 0\<rparr>,
        banks = map (\<lambda>i. new_bank (of_nat i div (nbk c div nbkgrp c))) [0..<unat (nbk c)],
        prio = 0, RRDc = 0, CCDc = 0, RTWc = 0, WTRc = 0, dram_rw = READ, rwq = rwq0,
        mrqq = mrqq0, returnq = returnq0, n_act = None, n_pre = None, bwutil = None,
        n_act_partial = None, n_pre_partial = None, bwutil_partial = None,
        bank_accesses = replicate (unat (nbk c)) 0\<rparr>))))"

section \<open>Operations\<close>

definition dram_full :: "dram_t \<Rightarrow> bool" where
  "dram_full d = fifo_full (mrqq d)"

text \<open>\<open>dram_req_t(data, ...)\<close>: the bank and row must have been decoded.\<close>

definition new_dram_req :: "mf_ptr \<Rightarrow> mem_fetch \<Rightarrow> dram_req_t res" where
  "new_dram_req p mf =
     rbind (deref (bk mf)) (\<lambda>b. rbind (deref (row mf)) (\<lambda>r.
       Inr \<lparr>req_row = ucast r, req_bk = b, req_rw = (if m_access_type mf then WRITE else READ),
            req_data = p, txbytes = None\<rparr>))"

definition dram_push :: "mf_ptr \<Rightarrow> gpu_env \<Rightarrow> dram_t \<Rightarrow> dram_t res" where
  "dram_push p g d =
     rbind (mf_at p g) (\<lambda>mf. rbind (new_dram_req p mf) (\<lambda>r.
     rbind (fifo_push (Some r) (mrqq d)) (\<lambda>q. Inr (d\<lparr>mrqq := q\<rparr>))))"

definition return_queue_top :: "dram_t \<Rightarrow> mf_ptr option" where
  "return_queue_top d = fifo_top (returnq d)"

definition return_queue_pop :: "dram_t \<Rightarrow> (mf_ptr option \<times> dram_t) res" where
  "return_queue_pop d = rbind (fifo_pop (returnq d)) (\<lambda>(p, q). Inr (p, d\<lparr>returnq := q\<rparr>))"

definition scheduler_fifo :: "dram_t \<Rightarrow> dram_t res" where
  "scheduler_fifo d =
     (if fifo_empty (mrqq d) then Inr d
      else
        rbind (deref (fifo_top (mrqq d))) (\<lambda>head.
        let bkn = unat (ucast (req_bk head) :: u32) in
        rbind (nth_res (banks d) bkn) (\<lambda>b.
        if mrq b = None then
          rbind (fifo_pop (mrqq d)) (\<lambda>(r, q).
          rbind (nth_res (bank_accesses d) bkn) (\<lambda>n.
            Inr (d\<lparr>mrqq := q, banks := (banks d)[bkn := b\<lparr>mrq := r\<rparr>],
                   bank_accesses := (bank_accesses d)[bkn := n + 1]\<rparr>)))
        else Inr d)))"

text \<open>The retirement of the head of \<open>rwq\<close>, when the return queue can take it.\<close>

definition dram_retire :: "dram_t \<Rightarrow> dram_t res" where
  "dram_retire d =
     (if fifo_full (returnq d) then Inr d
      else rbind (fifo_pop (rwq d)) (\<lambda>(cmd, q).
           let d = d\<lparr>rwq := q\<rparr> in
           case cmd of
             None \<Rightarrow> Inr d
           | Some r \<Rightarrow> rbind (fifo_push (Some (req_data r)) (returnq d)) (\<lambda>q.
                       Inr (d\<lparr>returnq := q\<rparr>))))"

text \<open>The transfer of the bank's request into \<open>rwq\<close>.\<close>

definition bank_transfer :: "nat \<Rightarrow> dram_t \<Rightarrow> dram_t res" where
  "bank_transfer i d =
     rbind (nth_res (banks d) i) (\<lambda>b.
     rbind (case mrq b of None \<Rightarrow> Inr d
            | Some r \<Rightarrow> rbind (fifo_push (Some r) (rwq d)) (\<lambda>q. Inr (d\<lparr>rwq := q\<rparr>)))
       (\<lambda>d. Inr (d\<lparr>banks := (banks d)[i := b\<lparr>mrq := None\<rparr>]\<rparr>)))"

definition dram_cycle :: "dram_t \<Rightarrow> dram_t res" where
  "dram_cycle d =
     rbind (dram_retire d) (\<lambda>d.
     rbind (case scheduler_type (dram_config d) of
              DRAM_FIFO \<Rightarrow> scheduler_fifo d | DRAM_FRFCFS \<Rightarrow> Inr d) (\<lambda>d.
     foldM bank_transfer [0..<unat (nbk (dram_config d))] d))"

section \<open>The command engine\<close>

text \<open>Bits of the bank number; the other policies fall off the end of the function.\<close>

definition get_bankgrp_number :: "u32 \<Rightarrow> dram_t \<Rightarrow> u32 res" where
  "get_bankgrp_number i d =
     (if dram_bnkgrp_indexing_policy (dram_config d) = 1
      then Inr (i AND (nbkgrp (dram_config d) - 1)) else Inl Undefined_Behaviour)"

definition burst_cycles :: "memory_config \<Rightarrow> u32 res" where
  "burst_cycles c = guard (data_command_freq_ratio c \<noteq> 0) Undefined_Behaviour
     (Inr (BL c div data_command_freq_ratio c))"

definition switch_rw :: "dram_rw \<Rightarrow> u32 \<Rightarrow> dram_t \<Rightarrow> dram_t res" where
  "switch_rw to_rw len d =
     (if dram_rw d \<noteq> to_rw then
        rbind (set_min_length (unat len) (rwq d)) (\<lambda>q. Inr (d\<lparr>dram_rw := to_rw, rwq := q\<rparr>))
      else Inr d)"

definition issue_col_command :: "nat \<Rightarrow> dram_t \<Rightarrow> (bool \<times> dram_t) res" where
  "issue_col_command j d =
     rbind (get_bankgrp_number (of_nat j) d) (\<lambda>grp.
     rbind (nth_res (banks d) j) (\<lambda>b.
     case mrq b of
       None \<Rightarrow> Inr (False, d)
     | Some r \<Rightarrow>
         rbind (nth_res (bkgrp d) (unat grp)) (\<lambda>gr.
         let c = dram_config d in
         if CCDc d = 0 \<and> RCDc b = 0 \<and> CCDLc gr = 0 \<and> curr_row b = req_row r \<and>
            req_rw r = READ \<and> WTRc d = 0 \<and> bank_mode b = BANK_ACTIVE \<and> \<not> fifo_full (rwq d)
         then
           rbind (switch_rw READ (CL c) d) (\<lambda>d.
           rbind (fifo_push (Some r) (rwq d)) (\<lambda>q.
           rbind (burst_cycles c) (\<lambda>burst.
             Inr (True, d\<lparr>rwq := q, CCDc := tCCD c, RTWc := tRTW c,
               bkgrp := (bkgrp d)[unat grp := gr\<lparr>CCDLc := tCCDL c, RTPLc := tRTPL c\<rparr>],
               bwutil := map_option (\<lambda>n. n + burst) (bwutil d),
               bwutil_partial := map_option (\<lambda>n. n + burst) (bwutil_partial d),
               banks := (banks d)[j := b\<lparr>RTPc := burst, n_access := n_access b + 1, mrq := None\<rparr>]\<rparr>))))
         else if CCDc d = 0 \<and> RCDWRc b = 0 \<and> CCDLc gr = 0 \<and> curr_row b = req_row r \<and>
            req_rw r = WRITE \<and> RTWc d = 0 \<and> bank_mode b = BANK_ACTIVE \<and> \<not> fifo_full (rwq d)
         then
           rbind (switch_rw WRITE (WL c) d) (\<lambda>d.
           rbind (fifo_push (Some r) (rwq d)) (\<lambda>q.
           rbind (burst_cycles c) (\<lambda>burst.
             Inr (True, d\<lparr>rwq := q, CCDc := tCCD c, WTRc := tWTR c,
               bkgrp := (bkgrp d)[unat grp := gr\<lparr>CCDLc := tCCDL c\<rparr>],
               bwutil := map_option (\<lambda>n. n + burst) (bwutil d),
               bwutil_partial := map_option (\<lambda>n. n + burst) (bwutil_partial d),
               banks := (banks d)[j := b\<lparr>WTPc := tWTP c, mrq := None\<rparr>]\<rparr>))))
         else Inr (False, d))))"

definition issue_row_command :: "nat \<Rightarrow> dram_t \<Rightarrow> (bool \<times> dram_t) res" where
  "issue_row_command j d =
     rbind (get_bankgrp_number (of_nat j) d) (\<lambda>grp.
     rbind (nth_res (banks d) j) (\<lambda>b.
     case mrq b of
       None \<Rightarrow> Inr (False, d)
     | Some r \<Rightarrow>
         rbind (nth_res (bkgrp d) (unat grp)) (\<lambda>gr.
         let c = dram_config d in
         if RRDc d = 0 \<and> bank_mode b = BANK_IDLE \<and> RPc b = 0 \<and> RCc b = 0 then
           Inr (True, d\<lparr>RRDc := tRRD c, prio := (of_nat j + 1) mod nbk c,
             n_act_partial := map_option (\<lambda>n. n + 1) (n_act_partial d),
             n_act := map_option (\<lambda>n. n + 1) (n_act d),
             banks := (banks d)[j := b\<lparr>curr_row := req_row r, bank_mode := BANK_ACTIVE,
               RCDc := tRCD c, RCDWRc := tRCDWR c, RASc := tRAS c, RCc := tRC c\<rparr>]\<rparr>)
         else if curr_row b \<noteq> req_row r \<and> bank_mode b = BANK_ACTIVE \<and> RASc b = 0 \<and>
            WTPc b = 0 \<and> RTPc b = 0 \<and> RTPLc gr = 0 then
           Inr (True, d\<lparr>prio := (of_nat j + 1) mod nbk c,
             n_pre := map_option (\<lambda>n. n + 1) (n_pre d),
             n_pre_partial := map_option (\<lambda>n. n + 1) (n_pre_partial d),
             banks := (banks d)[j := b\<lparr>bank_mode := BANK_IDLE, RPc := tRP c\<rparr>]\<rparr>)
         else Inr (False, d))))"

end
