(* ===== verification/Memory_Partition.thy ===== *)
theory Memory_Partition
  imports L2_Cache Dram
begin

text \<open>
  The memory side, \<open>memory_partition\<close> of \<^verbatim>\<open>cache.h\<close> and \<^verbatim>\<open>cache.cpp\<close>: the L2 slices, the
  DRAM channels between them and their latency queues, with the two DRAM models (a fixed latency,
  \<open>dram_model_cycle\<close>, and the channel of \<open>Dram\<close>, \<open>dram_cycle\<close>).
\<close>

record dram_delay_t =
  ready_cycle :: int
  dd_req :: mf_ptr
  dd_l2_id :: int

record memory_partition =
  mp_config :: memory_config
  mp_cache_config :: cache_config
  mp_gpu_config :: gpu_config
  m_l2_caches :: "l2_data_cache list"
  m_dram :: "dram_t list"
  m_dram_latency_queue :: "dram_delay_t list list"
  last_issued_partition :: "int list"

type_synonym mp_state = "memory_partition \<times> gpu_env"

text \<open>\<open>mem_num / m_n_sub_partition_per_memory_channel\<close>, the number of channels.\<close>

definition mp_channels :: "gpu_config \<Rightarrow> memory_config \<Rightarrow> int res" where
  "mp_channels gc mc =
     rbind (cfg_int gc ''mem_num'') (\<lambda>mems.
       guard (m_n_sub_partition_per_memory_channel mc \<noteq> 0) Undefined_Behaviour
         (Inr (mems sdiv m_n_sub_partition_per_memory_channel mc)))"

definition new_memory_partition ::
  "cache_config \<Rightarrow> gpu_config \<Rightarrow> memory_config \<Rightarrow> memory_partition res"
where
  "new_memory_partition cc gc mc =
     rbind (mp_channels gc mc) (\<lambda>n.
     guard (0 \<le> n) Undefined_Behaviour
     (rbind (foldM (\<lambda>i ds. rbind (new_dram mc (of_nat i)) (\<lambda>d. Inr (ds @ [d]))) [0..<nat n] [])
       (\<lambda>ds. Inr \<lparr>mp_config = mc, mp_cache_config = cc, mp_gpu_config = gc, m_l2_caches = [],
                  m_dram = ds, m_dram_latency_queue = replicate (nat n) [],
                  last_issued_partition = replicate (nat n) 0\<rparr>)))"

definition memory_partition_init :: "memory_partition \<Rightarrow> memory_partition res" where
  "memory_partition_init mp =
     rbind (cfg_int (mp_gpu_config mp) ''mem_num'') (\<lambda>mems.
       foldM (\<lambda>i mp. rbind (new_l2_data_cache (mp_cache_config mp) (mp_gpu_config mp) (int i)) (\<lambda>l2.
                Inr (mp\<lparr>m_l2_caches := m_l2_caches mp @ [l2]\<rparr>)))
         [0..<nat mems] mp)"

definition l2_of :: "int \<Rightarrow> memory_partition \<Rightarrow> l2_data_cache res" where
  "l2_of i mp = guard (0 \<le> i) Undefined_Behaviour (nth_res (m_l2_caches mp) (nat i))"

definition set_l2 :: "int \<Rightarrow> l2_data_cache \<Rightarrow> memory_partition \<Rightarrow> memory_partition" where
  "set_l2 i l2 mp = mp\<lparr>m_l2_caches := (m_l2_caches mp)[nat i := l2]\<rparr>"

definition can_issue_to_dram :: "int \<Rightarrow> memory_partition \<Rightarrow> bool res" where
  "can_issue_to_dram i mp = rbind (l2_of i mp) (\<lambda>l2. Inr (\<not> dram_L2_queue_full l2))"

text \<open>\<open>(p + last_issued_partition + 1) % n\<close> in unsigned arithmetic.\<close>

definition next_spid :: "u32 \<Rightarrow> int \<Rightarrow> int \<Rightarrow> int" where
  "next_spid p last_issued n = uint ((p + word_of_int last_issued + 1) mod (word_of_int n :: u32))"

text \<open>
  The loop over the sub-partitions of a channel: the first that has a request and may issue moves it
  to the latency queue (unless the channel is full) and ends the loop.  The result is the last
  sub-partition looked at.  \<open>mark\<close> is the assignment of \<open>mf->l2_id\<close> that only \<open>dram_cycle\<close> makes.
\<close>

fun issue_to_dram ::
  "(int \<Rightarrow> mem_fetch \<Rightarrow> mem_fetch) \<Rightarrow> nat \<Rightarrow> int \<Rightarrow> nat list \<Rightarrow> int \<Rightarrow> mp_state \<Rightarrow> (int \<times> mp_state) res"
where
  "issue_to_dram mark ch last_issued [] spid s = Inr (spid, s)"
| "issue_to_dram mark ch last_issued (p # ps) spid (mp, g) =
     (let n = m_n_sub_partition_per_memory_channel (mp_config mp);
          spid = next_spid (of_nat p) last_issued n; l2_id = spid + int ch * n in
      rbind (l2_of l2_id mp) (\<lambda>l2.
      rbind (can_issue_to_dram l2_id mp) (\<lambda>can.
      if \<not> L2_dram_queue_empty l2 \<and> can then
        rbind (nth_res (m_dram mp) ch) (\<lambda>d.
        if dram_full d then Inr (spid, mp, g)
        else
          rbind (deref (L2_dram_queue_top l2)) (\<lambda>mf.
          rbind (L2_dram_queue_pop l2) (\<lambda>l2.
          rbind (mf_update mf (mark l2_id) g) (\<lambda>g.
          rbind (cfg_int (mp_gpu_config mp) ''l2_miss_latency'') (\<lambda>latency.
          rbind (nth_res (m_dram_latency_queue mp) ch) (\<lambda>q.
            Inr (spid,
              (set_l2 l2_id l2 mp)\<lparr>m_dram_latency_queue := (m_dram_latency_queue mp)[ch := q @
                 [\<lparr>ready_cycle = gpu_sim_cycles g + latency, dd_req = mf, dd_l2_id = l2_id\<rparr>]]\<rparr>,
              g)))))))
      else issue_to_dram mark ch last_issued ps spid (mp, g))))"

definition sub_partitions :: "memory_partition \<Rightarrow> nat list" where
  "sub_partitions mp =
     [0..<unat (word_of_int (m_n_sub_partition_per_memory_channel (mp_config mp)) :: u32)]"

definition dram_model_return :: "nat \<Rightarrow> mp_state \<Rightarrow> mp_state res" where
  "dram_model_return ch = (\<lambda>(mp, g).
     rbind (nth_res (m_dram_latency_queue mp) ch) (\<lambda>q.
     case q of
       [] \<Rightarrow> Inr (mp, g)
     | d # rest \<Rightarrow>
         if gpu_sim_cycles g \<ge> ready_cycle d then
           rbind (l2_of (dd_l2_id d) mp) (\<lambda>l2.
           if \<not> dram_L2_queue_full l2 then
             rbind (dram_L2_queue_push (Some (dd_req d)) l2) (\<lambda>l2.
             guard (trace_file_ok g) Exit_Called
             (rbind (mf_at (dd_req d) g) (\<lambda>_.
               Inr ((set_l2 (dd_l2_id d) l2 mp)
                      \<lparr>m_dram_latency_queue := (m_dram_latency_queue mp)[ch := rest]\<rparr>, g))))
           else Inr (mp, g))
         else Inr (mp, g)))"

definition dram_model_cycle :: "nat \<Rightarrow> mp_state \<Rightarrow> mp_state res" where
  "dram_model_cycle ch s =
     rbind (dram_model_return ch s) (\<lambda>(mp, g).
     rbind (nth_res (last_issued_partition mp) ch) (\<lambda>last_issued.
     rbind (issue_to_dram (\<lambda>_ mf. mf) ch last_issued (sub_partitions mp) 0 (mp, g)) (\<lambda>(spid, mp, g).
       Inr (mp\<lparr>last_issued_partition := (last_issued_partition mp)[ch := spid]\<rparr>, g))))"

definition dram_return :: "nat \<Rightarrow> mp_state \<Rightarrow> mp_state res" where
  "dram_return ch = (\<lambda>(mp, g).
     rbind (nth_res (m_dram mp) ch) (\<lambda>d.
     case return_queue_top d of
       None \<Rightarrow> Inr (mp, g)
     | Some p \<Rightarrow>
         rbind (mf_at p g) (\<lambda>mf.
         rbind (deref (l2_id mf)) (\<lambda>i.
         rbind (l2_of i mp) (\<lambda>l2.
         if \<not> dram_L2_queue_full l2 then
           rbind (dram_L2_queue_push (Some p) l2) (\<lambda>l2.
           rbind (return_queue_pop d) (\<lambda>(_, d).
             Inr ((set_l2 i l2 mp)\<lparr>m_dram := (m_dram mp)[ch := d]\<rparr>, g)))
         else Inr (mp, g))))))"

definition dram_tick :: "nat \<Rightarrow> mp_state \<Rightarrow> mp_state res" where
  "dram_tick ch = (\<lambda>(mp, g).
     rbind (nth_res (m_dram mp) ch) (\<lambda>d. rbind (Dram.dram_cycle d) (\<lambda>d.
       Inr (mp\<lparr>m_dram := (m_dram mp)[ch := d]\<rparr>, g))))"

definition dram_accept :: "nat \<Rightarrow> mp_state \<Rightarrow> mp_state res" where
  "dram_accept ch = (\<lambda>(mp, g).
     rbind (nth_res (m_dram_latency_queue mp) ch) (\<lambda>q.
     case q of
       [] \<Rightarrow> Inr (mp, g)
     | e # rest \<Rightarrow>
         if gpu_sim_cycles g \<ge> ready_cycle e then
           rbind (nth_res (m_dram mp) ch) (\<lambda>d.
           if \<not> dram_full d then
             rbind (dram_push (dd_req e) g d) (\<lambda>d.
               Inr (mp\<lparr>m_dram := (m_dram mp)[ch := d],
                      m_dram_latency_queue := (m_dram_latency_queue mp)[ch := rest]\<rparr>, g))
           else Inr (mp, g))
         else Inr (mp, g)))"

text \<open>\<open>dram_cycle(subpid)\<close> does not store \<open>spid\<close> back.\<close>

definition mp_dram_cycle :: "nat \<Rightarrow> mp_state \<Rightarrow> mp_state res" where
  "mp_dram_cycle ch s =
     rbind (dram_return ch s) (\<lambda>s.
     rbind (dram_tick ch s) (\<lambda>(mp, g).
     rbind (nth_res (last_issued_partition mp) ch) (\<lambda>last_issued.
     rbind (issue_to_dram (\<lambda>i mf. mf\<lparr>l2_id := Some i\<rparr>) ch last_issued (sub_partitions mp) 0 (mp, g))
       (\<lambda>(_, s). dram_accept ch s))))"

definition l2_tick :: "int \<Rightarrow> nat \<Rightarrow> mp_state \<Rightarrow> mp_state res" where
  "l2_tick cycles i = (\<lambda>(mp, g).
     rbind (nth_res (m_l2_caches mp) i) (\<lambda>l2. rbind (l2_cache_cycle cycles (l2, g)) (\<lambda>(l2, g).
       Inr (mp\<lparr>m_l2_caches := (m_l2_caches mp)[i := l2]\<rparr>, g))))"

definition memory_partition_cycle :: "int \<Rightarrow> mp_state \<Rightarrow> mp_state res" where
  "memory_partition_cycle cycles = (\<lambda>(mp, g).
     rbind (mp_channels (mp_gpu_config mp) (mp_config mp)) (\<lambda>n.
     rbind (foldM (\<lambda>ch (mp, g). if simple_dram_model (mp_config mp)
                     then dram_model_cycle ch (mp, g) else mp_dram_cycle ch (mp, g))
              [0..<nat n] (mp, g)) (\<lambda>(mp, g).
     rbind (cfg_int (mp_gpu_config mp) ''mem_num'') (\<lambda>mems.
       foldM (l2_tick cycles) [0..<nat mems] (mp, g)))))"

end
