(* ===== verification/Kernel.thy ===== *)
theory Kernel
  imports Cpp_String Cpp_Containers
begin

text \<open>
  Kernels, blocks, warps and instructions, \<^verbatim>\<open>kernel.h\<close> and \<^verbatim>\<open>kernel.cpp\<close>.  Objects that the code
  reaches through pointers are values of the map that owns them: the blocks of a kernel and the
  warps of a block.  Line numbers, counters and identifiers of type \<open>int\<close> are integers.
\<close>

section \<open>Instructions\<close>

record trace_inst =
  ti_block_id :: int
  ti_warp_id :: int
  ti_pc :: int
  ti_pc_index :: int
  ti_active_mask :: string
  ti_active_thread_num :: int
  ti_dest_num :: int
  ti_dest_regs :: "string list"
  ti_opcode :: string
  ti_src_num :: int
  ti_src_regs :: "string list"

text \<open>The table \<open>h2b\<close>; a character that is not in it reads as 0.\<close>

definition h2b :: "char \<Rightarrow> int" where
  "h2b c =
     (case map_of (zip ''0123456789abcdef'' [0, 1, 1, 2, 1, 2, 2, 3, 1, 2, 2, 3, 2, 3, 3, 4]) c of
        None \<Rightarrow> 0 | Some n \<Rightarrow> n)"

definition count_active_thread :: "string \<Rightarrow> int" where
  "count_active_thread active_mask = fold (\<lambda>c n. n + h2b c) active_mask 0"

definition new_trace_inst ::
  "int \<Rightarrow> int \<Rightarrow> int \<Rightarrow> string \<Rightarrow> int \<Rightarrow> string list \<Rightarrow> string \<Rightarrow> int \<Rightarrow> string list \<Rightarrow> int \<Rightarrow> trace_inst"
where
  "new_trace_inst block_id warp_id pc active_mask dest_num dest_regs opcode src_num src_regs pc_index =
     \<lparr>ti_block_id = block_id, ti_warp_id = warp_id, ti_pc = pc, ti_pc_index = pc_index,
      ti_active_mask = active_mask, ti_active_thread_num = count_active_thread active_mask,
      ti_dest_num = dest_num, ti_dest_regs = dest_regs, ti_opcode = opcode, ti_src_num = src_num,
      ti_src_regs = src_regs\<rparr>"

record mem_inst =
  mi_opcode :: string
  m_coalesced_address :: "(int \<times> int) list"
  mi_pc :: int
  mi_pc_index :: int
  completions_index :: int

definition new_mem_inst :: "string \<Rightarrow> (int \<times> int) list \<Rightarrow> int \<Rightarrow> int \<Rightarrow> mem_inst" where
  "new_mem_inst opcode addrs p i =
     \<lparr>mi_opcode = opcode, m_coalesced_address = addrs, mi_pc = p, mi_pc_index = i,
      completions_index = 0\<rparr>"

record inst =
  i_block_id :: int
  i_warp_id :: int
  i_pc :: int
  i_active_mask :: string
  i_active_thread_num :: int
  i_dest_num :: int
  i_dest_regs :: "string list"
  i_full_opcode :: string
  i_opcode :: string
  i_src_num :: int
  i_src_regs :: "string list"
  i_pc_index :: int
  m_dependency :: "nat list"

text \<open>The opcode proper is what comes before the first dot.\<close>

definition opcode_prefix :: "string \<Rightarrow> string" where
  "opcode_prefix op = (case str_find ''.'' op of Some i \<Rightarrow> take i op | None \<Rightarrow> op)"

definition new_inst :: "trace_inst \<Rightarrow> inst" where
  "new_inst t =
     \<lparr>i_block_id = ti_block_id t, i_warp_id = ti_warp_id t, i_pc = ti_pc t,
      i_active_mask = ti_active_mask t, i_active_thread_num = ti_active_thread_num t,
      i_dest_num = ti_dest_num t, i_dest_regs = ti_dest_regs t, i_full_opcode = ti_opcode t,
      i_opcode = opcode_prefix (ti_opcode t), i_src_num = ti_src_num t,
      i_src_regs = ti_src_regs t, i_pc_index = ti_pc_index t, m_dependency = []\<rparr>"

definition inst_is_atomic :: "inst \<Rightarrow> bool" where
  "inst_is_atomic i \<longleftrightarrow> i_opcode i \<in> {''ATOM'', ''ATOMS'', ''ATOMG''}"

section \<open>Warps\<close>

record warp =
  w_block_id :: int
  w_warp_id :: int
  m_mem_inst :: "mem_inst list"
  warp_point :: nat
  completions :: "int list"
  w_active :: bool
  max_dep :: int
  m_insts :: "inst list"
  pending_request :: "(int, int) std_map"
  pending_inst :: int
  m_at_barrier :: bool
  thread_mask :: u32
  m_pending_mem_request_num :: int

definition new_warp :: "int \<Rightarrow> int \<Rightarrow> warp" where
  "new_warp block_id warp_id =
     \<lparr>w_block_id = block_id, w_warp_id = warp_id, m_mem_inst = [], warp_point = 0,
      completions = [], w_active = True, max_dep = 0, m_insts = [], pending_request = [],
      pending_inst = 0, m_at_barrier = False, thread_mask = 0, m_pending_mem_request_num = 0\<rparr>"

text \<open>The position of the instruction in \<open>m_mem_inst\<close> that the returned pointer denotes.\<close>

definition get_mem_inst :: "int \<Rightarrow> int \<Rightarrow> warp \<Rightarrow> nat option" where
  "get_mem_inst p i w = find_index (\<lambda>m. mi_pc m = p \<and> mi_pc_index m = i) (m_mem_inst w)"

definition increase_pending_request :: "int \<Rightarrow> warp \<Rightarrow> warp" where
  "increase_pending_request i w =
     (if map_of (pending_request w) i = None
      then w\<lparr>pending_request := map_put i 1 (pending_request w)\<rparr>
      else w\<lparr>pending_request := map_put i (map_get0 (pending_request w) i + 1) (pending_request w)\<rparr>)"

definition decrease_pending_request :: "int \<Rightarrow> warp \<Rightarrow> bool \<times> warp" where
  "decrease_pending_request i w =
     (let n = map_get0 (pending_request w) i - 1
      in (n = 0, w\<lparr>pending_request := map_put i n (pending_request w)\<rparr>))"

text \<open>The subscript inserts a zero.\<close>

definition pending_request_can_decrease :: "int \<Rightarrow> warp \<Rightarrow> bool" where
  "pending_request_can_decrease i w \<longleftrightarrow> map_get0 (pending_request w) i > 0"

definition reg_deps :: "(string, nat) std_map \<Rightarrow> string list \<Rightarrow> nat list" where
  "reg_deps m regs = concat (map (\<lambda>r. case map_of m r of None \<Rightarrow> [] | Some i \<Rightarrow> [i]) regs)"

text \<open>One turn of the loop: the dependencies of an instruction and the new table of last writers.\<close>

definition inst_dependency ::
  "nat \<Rightarrow> (string, nat) std_map \<Rightarrow> inst \<Rightarrow> inst \<times> (string, nat) std_map"
where
  "inst_dependency index dep i =
     (let d = m_dependency i @ reg_deps dep (i_dest_regs i) @ reg_deps dep (i_src_regs i);
          dep' = (if i_dest_num i \<noteq> 0 then fold (\<lambda>r m. map_put r index m) (i_dest_regs i) dep
                  else dep);
          d = (if i_opcode i = ''EXIT'' \<or> str_contains ''BAR'' (i_opcode i)
               then d @ map snd dep' else d)
      in (i\<lparr>m_dependency := d\<rparr>, dep'))"

fun dependency_loop :: "nat \<Rightarrow> (string, nat) std_map \<Rightarrow> inst list \<Rightarrow> inst list" where
  "dependency_loop index dep [] = []"
| "dependency_loop index dep (i # rest) =
     (let (i', dep') = inst_dependency index dep i
      in i' # dependency_loop (index + 1) dep' rest)"

definition get_inst_dependency :: "warp \<Rightarrow> warp" where
  "get_inst_dependency w = w\<lparr>m_insts := dependency_loop 0 [] (m_insts w)\<rparr>"

section \<open>Blocks and kernels\<close>

record kernel_info =
  ki_kernel_id :: u32
  m_grid_size :: u32
  m_block_size :: u32
  m_num_registers :: u32
  m_shared_mem_bytes :: u32

definition zero_kernel_info :: kernel_info where
  "zero_kernel_info = \<lparr>ki_kernel_id = 0, m_grid_size = 0, m_block_size = 0, m_num_registers = 0,
     m_shared_mem_bytes = 0\<rparr>"

record cta =
  b_kernel_id :: int
  b_block_id :: int
  mem_inst_map :: "(int, mem_inst list) std_map"
  warp_vec :: "(int, warp) std_map"
  retired_warps :: "warp list"
  b_active :: bool
  m_actual_end :: int

definition new_block :: "int \<Rightarrow> int \<Rightarrow> cta" where
  "new_block kernel_id block_id =
     \<lparr>b_kernel_id = kernel_id, b_block_id = block_id, mem_inst_map = [], warp_vec = [],
      retired_warps = [], b_active = True, m_actual_end = 0\<rparr>"

definition block_is_active :: "cta \<Rightarrow> bool" where
  "block_is_active b \<longleftrightarrow> warp_vec b \<noteq> []"

definition get_warp :: "int \<Rightarrow> cta \<Rightarrow> warp option" where
  "get_warp warp_id b = map_of (warp_vec b) warp_id"

record kernel =
  k_kernel_id :: int
  m_kernel_info :: kernel_info
  trace_insts :: "trace_inst list"
  m_blocks :: "(int, cta) std_map"
  block_pointer :: int
  request_nums :: int

definition new_kernel :: "int \<Rightarrow> kernel" where
  "new_kernel kernel_id =
     \<lparr>k_kernel_id = kernel_id, m_kernel_info = zero_kernel_info, trace_insts = [], m_blocks = [],
      block_pointer = 0, request_nums = 0\<rparr>"

text \<open>An instruction of the trace goes to the end of its warp, which its first one creates.  A block
  that does not exist is a null pointer.\<close>

definition place_inst :: "trace_inst \<Rightarrow> (int, cta) std_map \<Rightarrow> (int, cta) std_map res" where
  "place_inst t blocks =
     (let i = new_inst t; b = i_block_id i; wid = i_warp_id i in
      rbind (deref (map_of blocks b)) (\<lambda>blk.
        let w = (case map_of (warp_vec blk) wid of Some w \<Rightarrow> w | None \<Rightarrow> new_warp b wid);
            w = w\<lparr>m_insts := m_insts w @ [i]\<rparr>
        in Inr (map_put b (blk\<lparr>warp_vec := map_put wid w (warp_vec blk)\<rparr>) blocks)))"

definition resolve_block :: "nat \<Rightarrow> (int, cta) std_map \<Rightarrow> (int, cta) std_map res" where
  "resolve_block i blocks =
     rbind (deref (map_of blocks (int i))) (\<lambda>b.
       Inr (map_put (int i)
              (b\<lparr>warp_vec := map (\<lambda>(k, w). (k, get_inst_dependency w)) (warp_vec b)\<rparr>) blocks))"

definition init_blocks :: "kernel \<Rightarrow> kernel res" where
  "init_blocks k =
     (let n = unat (m_grid_size (m_kernel_info k));
          blocks = fold (\<lambda>i. map_put (int i) (new_block (k_kernel_id k) (int i))) [0..<n] (m_blocks k)
      in rbind (foldM place_inst (trace_insts k) blocks) (\<lambda>blocks.
         rbind (foldM resolve_block [0..<n] blocks) (\<lambda>blocks. Inr (k\<lparr>m_blocks := blocks\<rparr>))))"

section \<open>Dependencies\<close>

text \<open>The instruction that wrote a register last before position \<open>n\<close>.\<close>

definition writes_reg :: "string \<Rightarrow> inst \<Rightarrow> bool" where
  "writes_reg r i \<longleftrightarrow> i_dest_num i \<noteq> 0 \<and> r \<in> set (i_dest_regs i)"

fun last_writer :: "inst list \<Rightarrow> nat \<Rightarrow> string \<Rightarrow> nat option" where
  "last_writer insts 0 r = None"
| "last_writer insts (Suc n) r =
     (if writes_reg r (insts ! n) then Some n else last_writer insts n r)"

text \<open>Instructions that wait for every register written so far.\<close>

definition waits_for_all :: "inst \<Rightarrow> bool" where
  "waits_for_all i \<longleftrightarrow> i_opcode i = ''EXIT'' \<or> str_contains ''BAR'' (i_opcode i)"

lemma last_writer_less: "last_writer insts n r = Some j \<Longrightarrow> j < n"
  by (induction n) (auto split: if_splits)

lemma last_writer_Some:
  "last_writer insts n r = Some j \<longleftrightarrow>
   j < n \<and> writes_reg r (insts ! j) \<and> (\<forall>k. j < k \<and> k < n \<longrightarrow> \<not> writes_reg r (insts ! k))"
proof (induction n)
  case (Suc n)
  then show ?case by (cases "writes_reg r (insts ! n)") (auto simp: less_Suc_eq)
qed simp

lemma fold_map_put:
  "wf_map m \<Longrightarrow> wf_map (fold (\<lambda>r m. map_put r x m) rs m) \<and>
   map_of (fold (\<lambda>r m. map_put r x m) rs m) = (\<lambda>r. if r \<in> set rs then Some x else map_of m r)"
proof (induction rs arbitrary: m)
  case (Cons r rs)
  from Cons.IH [OF wf_map_put [OF Cons.prems]] show ?case
    by (auto simp: map_of_put [OF Cons.prems] fun_eq_iff)
qed simp

text \<open>What resolving the \<open>n\<close>th instruction \<open>i\<close> must give: \<open>i'\<close> differs in its dependencies, which
  are those \<open>i\<close> had, the last writers of its registers and, if it waits for all, every last writer.\<close>

definition resolved :: "inst list \<Rightarrow> nat \<Rightarrow> inst \<Rightarrow> inst \<Rightarrow> bool" where
  "resolved insts n i i' \<longleftrightarrow>
     i' = i\<lparr>m_dependency := m_dependency i'\<rparr> \<and>
     set (m_dependency i') = set (m_dependency i) \<union>
       {j. \<exists>r \<in> set (i_dest_regs i) \<union> set (i_src_regs i). last_writer insts n r = Some j} \<union>
       (if waits_for_all i then {j. \<exists>r. last_writer insts (Suc n) r = Some j} else {})"

lemma inst_dependency_spec:
  assumes "wf_map dep" and "map_of dep = last_writer insts n" and "insts ! n = i"
    and run: "inst_dependency n dep i = (i', dep')"
  shows "resolved insts n i i' \<and> wf_map dep' \<and> map_of dep' = last_writer insts (Suc n)"
proof -
  have dep': "dep' = (if i_dest_num i \<noteq> 0
    then fold (\<lambda>r m. map_put r n m) (i_dest_regs i) dep else dep)"
    using run by (auto simp: inst_dependency_def Let_def split: if_splits)
  have wf: "wf_map dep'" and lw: "map_of dep' = last_writer insts (Suc n)"
    using fold_map_put [OF assms(1), of n "i_dest_regs i"] assms(1,2,3)
    by (auto simp: dep' writes_reg_def fun_eq_iff)
  have deps: "set (reg_deps dep regs) = {j. \<exists>r \<in> set regs. last_writer insts n r = Some j}" for regs
    by (auto simp: reg_deps_def assms(2) split: option.splits)
  have "snd ` set dep' = ran (map_of dep')"
    using wf_map_distinct [OF wf] by (rule ran_distinct [symmetric])
  also have "\<dots> = {j. \<exists>r. last_writer insts (Suc n) r = Some j}"
    by (simp only: lw ran_def)
  finally have all: "snd ` set dep' = {j. \<exists>r. last_writer insts (Suc n) r = Some j}" .
  have i': "i' = i\<lparr>m_dependency := m_dependency i'\<rparr>"
    and "m_dependency i' = m_dependency i @ reg_deps dep (i_dest_regs i) @ reg_deps dep (i_src_regs i) @
      (if waits_for_all i then map snd dep' else [])"
    using run by (auto simp: inst_dependency_def Let_def waits_for_all_def split: if_splits)
  then have "set (m_dependency i') = set (m_dependency i) \<union>
      {j. \<exists>r \<in> set (i_dest_regs i) \<union> set (i_src_regs i). last_writer insts n r = Some j} \<union>
      (if waits_for_all i then {j. \<exists>r. last_writer insts (Suc n) r = Some j} else {})"
    by (simp only: set_append deps if_distrib [of set] set_map all set_simps) blast
  with i' have "resolved insts n i i'" unfolding resolved_def by blast
  with wf lw show ?thesis by blast
qed

lemma dependency_loop_spec:
  assumes "wf_map dep" and "map_of dep = last_writer insts n" and "drop n insts = rest"
  shows "length (dependency_loop n dep rest) = length rest \<and>
    (\<forall>m < length rest. resolved insts (n + m) (rest ! m) (dependency_loop n dep rest ! m))"
  using assms
proof (induction rest arbitrary: n dep)
  case (Cons i rest)
  from Cons.prems(3) have i: "insts ! n = i" and rest: "drop (Suc n) insts = rest"
    by (metis nth_via_drop) (metis Cons.prems(3) drop_Suc list.sel(3) tl_drop)
  obtain i' dep' where run: "inst_dependency n dep i = (i', dep')" by (meson surj_pair)
  note step = inst_dependency_spec [OF Cons.prems(1,2) i run]
  have loop: "dependency_loop n dep (i # rest) = i' # dependency_loop (Suc n) dep' rest"
    using run by simp
  from step have "wf_map dep'" "map_of dep' = last_writer insts (Suc n)" by blast+
  note IH = Cons.IH [OF this rest]
  have "resolved insts (n + m) ((i # rest) ! m) ((i' # dependency_loop (Suc n) dep' rest) ! m)"
    if "m < length (i # rest)" for m
    using that IH step by (cases m) auto
  then show ?case
    using IH unfolding loop by simp
qed simp

text \<open>C10. The dependencies that \<open>get_inst_dependency\<close> computes for an instruction are exactly the
  last instructions before it that wrote one of its source or destination registers; a barrier or
  \<open>EXIT\<close> waits in addition for the last writer of every register, itself included.  Nothing
  else of the instructions changes.\<close>

theorem get_inst_dependency_correct:
  assumes "n < length (m_insts w)"
  shows "length (m_insts (get_inst_dependency w)) = length (m_insts w) \<and>
    resolved (m_insts w) n (m_insts w ! n) (m_insts (get_inst_dependency w) ! n)"
  using dependency_loop_spec [of "[]" "m_insts w" 0 "m_insts w"] assms
  by (simp add: get_inst_dependency_def fun_eq_iff)

definition sample_insts :: "inst list" where
  "sample_insts = map new_inst
     [new_trace_inst 0 0 0 ''ffffffff'' 1 [''R1''] ''LDG.E'' 1 [''R2''] 0,
      new_trace_inst 0 0 16 ''ffffffff'' 1 [''R3''] ''IADD3'' 1 [''R2''] 0,
      new_trace_inst 0 0 32 ''ffffffff'' 1 [''R1''] ''FADD'' 2 [''R1'', ''R3''] 0]"

theorem get_inst_dependency_correct_witness:
  "set (m_dependency (m_insts (get_inst_dependency ((new_warp 0 0)\<lparr>m_insts := sample_insts\<rparr>)) ! 2)) =
     {0, 1}"
proof -
  let ?w = "(new_warp 0 0)\<lparr>m_insts := sample_insts\<rparr>"
  have "last_writer sample_insts 2 ''R1'' = Some 0" "last_writer sample_insts 2 ''R3'' = Some 1"
    "\<not> waits_for_all (sample_insts ! 2)" "m_dependency (sample_insts ! 2) = []"
    "i_dest_regs (sample_insts ! 2) = [''R1'']" "i_src_regs (sample_insts ! 2) = [''R1'', ''R3'']"
    "2 < length sample_insts"
    by code_simp+
  moreover from this(7) have "resolved sample_insts 2 (sample_insts ! 2)
      (m_insts (get_inst_dependency ?w) ! 2)"
    using get_inst_dependency_correct [of 2 ?w] by simp
  ultimately show ?thesis by (auto simp: resolved_def)
qed

section \<open>Active threads\<close>

text \<open>The value of a mask, most significant digit first.\<close>

definition hex_value :: "char \<Rightarrow> nat option" where
  "hex_value c = map_of (zip ''0123456789abcdef'' [0..<16]) c"

definition mask_value :: "string \<Rightarrow> nat" where
  "mask_value m = fold (\<lambda>c n. 16 * n + the (hex_value c)) m 0"

fun popcount :: "nat \<Rightarrow> nat" where
  "popcount n = (if n = 0 then 0 else n mod 2 + popcount (n div 2))"

declare popcount.simps [simp del]

lemma popcount_0 [simp]: "popcount 0 = 0"
  by (simp add: popcount.simps)

lemma popcount_double: "b < 2 \<Longrightarrow> popcount (2 * n + b) = popcount n + b"
  by (simp add: popcount.simps [of "2 * n + b"])

lemma four_bits:
  "2 * a + x = d \<Longrightarrow> 2 * b + y = a \<Longrightarrow> 2 * c + z = b \<Longrightarrow>
   16 * n + d = 2 * (2 * (2 * (2 * n + c) + z) + y) + (x :: nat)"
  by auto

lemma popcount_16: "d < 16 \<Longrightarrow> popcount (16 * n + d) = popcount n + popcount d"
proof -
  assume "d < 16"
  have d: "2 * (d div 2) + d mod 2 = d" "2 * (d div 4) + d div 2 mod 2 = d div 2"
    "2 * (d div 8) + d div 4 mod 2 = d div 4"
    using mult_div_mod_eq [of 2 "d div 2"] mult_div_mod_eq [of 2 "d div 4"]
    by (simp_all add: div_mult2_eq [symmetric])
  note 4 = four_bits [OF d, of n]
  note 0 = four_bits [OF d, of 0]
  have b: "d div 8 < 2" using \<open>d < 16\<close> by simp
  have "popcount (16 * n + d) = popcount n + d div 8 + d div 4 mod 2 + d div 2 mod 2 + d mod 2"
    by (subst 4) (simp only: popcount_double b mod_less_divisor [OF zero_less_numeral])
  moreover have "popcount (16 * 0 + d) = popcount 0 + d div 8 + d div 4 mod 2 + d div 2 mod 2 + d mod 2"
    by (subst 0) (simp only: popcount_double b mod_less_divisor [OF zero_less_numeral])
  ultimately show ?thesis by simp
qed

lemma h2b_table:
  "list_all (\<lambda>c. h2b c = int (popcount (the (hex_value c))) \<and> the (hex_value c) < 16)
     ''0123456789abcdef''"
  by code_simp

lemma h2b_popcount:
  assumes "hex_value c = Some v"
  shows "h2b c = int (popcount v) \<and> v < 16"
proof -
  from assms have "c \<in> set ''0123456789abcdef''"
    unfolding hex_value_def by (metis map_of_SomeD set_zip_leftD)
  with h2b_table assms show ?thesis by (auto simp only: list_all_iff option.sel)
qed

lemma count_active_append:
  "fold (\<lambda>c n. n + h2b c) m a = a + fold (\<lambda>c n. n + h2b c) m 0"
proof (induction m arbitrary: a)
  case (Cons c m)
  show ?case using Cons.IH [of "a + h2b c"] Cons.IH [of "0 + h2b c"] by simp
qed simp

text \<open>The number of active threads of an instruction is the number of bits set in its mask.\<close>

theorem count_active_thread_popcount:
  assumes "\<forall>c \<in> set m. hex_value c \<noteq> None"
  shows "count_active_thread m = int (popcount (mask_value m))"
  using assms
proof (induction m rule: rev_induct)
  case (snoc c m)
  from snoc.prems obtain v where v: "hex_value c = Some v" by auto
  note h = h2b_popcount [OF v]
  have "mask_value (m @ [c]) = 16 * mask_value m + v" by (simp add: mask_value_def v)
  then have "popcount (mask_value (m @ [c])) = popcount (mask_value m) + popcount v"
    using h popcount_16 by simp
  moreover have "count_active_thread (m @ [c]) = count_active_thread m + h2b c"
    by (simp add: count_active_thread_def)
  ultimately show ?case using snoc h by simp
qed (simp add: count_active_thread_def mask_value_def)

theorem count_active_thread_popcount_witness:
  "count_active_thread ''0000001d'' = int (popcount 29)"
proof -
  have "\<forall>c \<in> set ''0000001d''. hex_value c \<noteq> None" "mask_value ''0000001d'' = 29"
    by code_simp+
  then show ?thesis using count_active_thread_popcount [of "''0000001d''"] by simp
qed

end
