(* ===== verification/Trace_Reader.thy ===== *)
theory Trace_Reader
  imports Kernel
begin

text \<open>
  The trace files, \<^verbatim>\<open>trace_reader.h\<close>, \<^verbatim>\<open>trace_reader.cpp\<close> and the readers of \<^verbatim>\<open>kernel.cpp\<close>.
  The contents of a file is an argument: \<open>None\<close> when it cannot be opened.  A stream position is the
  number of characters before it.
\<close>

section \<open>The index of the memory trace\<close>

record trace_reader =
  tr_kernel_id :: int
  m_block_mem_index_ready :: bool
  m_mem_file :: "string option"
  m_block_mem_offsets :: "(int, nat list) std_map"

definition new_trace_reader :: "int \<Rightarrow> trace_reader" where
  "new_trace_reader kernel_id =
     \<lparr>tr_kernel_id = kernel_id, m_block_mem_index_ready = False, m_mem_file = None,
      m_block_mem_offsets = []\<rparr>"

definition is_memory_trace_line :: "string \<Rightarrow> bool" where
  "is_memory_trace_line line \<longleftrightarrow>
     str_contains ''LDG'' line \<or> str_contains ''STG'' line \<or> str_contains ''LD.'' line \<or>
     str_contains ''ST.'' line \<or> str_contains ''ATOM'' line"

definition add_offset :: "int \<Rightarrow> nat \<Rightarrow> (int, nat list) std_map \<Rightarrow> (int, nat list) std_map" where
  "add_offset b off m = map_put b ((case map_of m b of None \<Rightarrow> [] | Some os \<Rightarrow> os) @ [off]) m"

definition index_line ::
  "nat \<Rightarrow> string \<Rightarrow> (int, nat list) std_map \<Rightarrow> (int, nat list) std_map res"
where
  "index_line off line m =
     (if \<not> is_memory_trace_line line then Inr m
      else case find_first_of '' '' line of
             None \<Rightarrow> Inr m
           | Some pos \<Rightarrow> rbind (stoi (take pos line)) (\<lambda>b. Inr (add_offset b off m)))"

function index_loop ::
  "nat \<Rightarrow> istream \<Rightarrow> string \<Rightarrow> (int, nat list) std_map \<Rightarrow> (int, nat list) std_map res"
where
  "index_loop size0 st line m =
     (let off = size0 - length (stream_rest st); (ok, line, st') = getline st line in
      if \<not> ok then Inr m
      else rbind (index_line off line m) (index_loop size0 st' line))"
  by pat_completeness auto
termination
  by (relation "measure (\<lambda>(size0, st, line, m). length (stream_rest st))")
    (auto dest!: getline_shrinks [OF sym])

declare index_loop.simps [simp del]

definition build_block_mem_index :: "string option \<Rightarrow> trace_reader \<Rightarrow> trace_reader res" where
  "build_block_mem_index file r =
     (case file of
        None \<Rightarrow> Inl Exit_Called
      | Some content \<Rightarrow>
          rbind (index_loop (length content) (open_stream content) [] []) (\<lambda>m.
            Inr (r\<lparr>m_mem_file := file, m_block_mem_offsets := m,
                   m_block_mem_index_ready := True\<rparr>)))"

definition get_block_mem_offsets :: "int \<Rightarrow> trace_reader \<Rightarrow> nat list option res" where
  "get_block_mem_offsets block_id r =
     guard (m_block_mem_index_ready r) Exit_Called (Inr (map_of (m_block_mem_offsets r) block_id))"

text \<open>
  \<open>gen_block_mem_trace\<close>: the lines written to the file of each block, in order.  The positions are
  kept in \<open>unsigned\<close> variables and compared with the 64-bit \<open>npos\<close>, so every line passes the test;
  without a space, \<open>pos_split\<close> is \<open>2 ^ 32 - 1\<close> and \<open>pos_split + 1\<close> is 0.
\<close>

definition block_trace_line :: "string \<Rightarrow> (int \<times> string) res" where
  "block_trace_line line =
     (let n = length line - 2;
          tail = (\<lambda>k. if length line < 2 then drop k line else take n (drop k line)) in
      case find_first_of '' '' line of
        Some pos \<Rightarrow> rbind (stoi (take pos line)) (\<lambda>b. Inr (b, tail (pos + 1)))
      | None \<Rightarrow> rbind (stoi line) (\<lambda>b. Inr (b, tail 0)))"

definition gen_block_mem_trace :: "string \<Rightarrow> (int \<times> string) list res" where
  "gen_block_mem_trace content =
     foldM (\<lambda>line out. rbind (block_trace_line line) (\<lambda>x. Inr (out @ [x]))) (file_lines content) []"

section \<open>The instruction trace\<close>

text \<open>\<open>tmp_str.front(); tmp_str.pop()\<close>, undefined on an empty queue.\<close>

fun pop_word :: "string list \<Rightarrow> (string \<times> string list) res" where
  "pop_word [] = Inl Undefined_Behaviour"
| "pop_word (w # ws) = Inr (w, ws)"

fun pop_words :: "nat \<Rightarrow> string list \<Rightarrow> (string list \<times> string list) res" where
  "pop_words 0 ws = Inr ([], ws)"
| "pop_words (Suc n) ws =
     rbind (pop_word ws) (\<lambda>(w, ws). rbind (pop_words n ws) (\<lambda>(us, ws). Inr (w # us, ws)))"

definition pop_int :: "string list \<Rightarrow> (int \<times> string list) res" where
  "pop_int ws = rbind (pop_word ws) (\<lambda>(w, ws). rbind (stoi w) (\<lambda>n. Inr (n, ws)))"

text \<open>The occurrence counters \<open>block_pc_num\<close>: 0 the first time, then one more each time.\<close>

definition count_pc :: "'k \<Rightarrow> ('k \<Rightarrow> int option) \<Rightarrow> int \<times> ('k \<Rightarrow> int option)" where
  "count_pc k m =
     (let i = (case m k of None \<Rightarrow> 0 | Some n \<Rightarrow> n + 1) in (i, m(k := Some i)))"

type_synonym sass_counts = "int \<times> int \<times> int \<Rightarrow> int option"

definition parse_inst_line :: "string \<Rightarrow> sass_counts \<Rightarrow> (trace_inst \<times> sass_counts) res" where
  "parse_inst_line line counts =
     rbind (pop_int (words line)) (\<lambda>(block_id, ws).
     rbind (pop_int ws) (\<lambda>(warp_id, ws).
     rbind (pop_word ws) (\<lambda>(pc_s, ws).
     rbind (pop_word ws) (\<lambda>(active_mask, ws).
     rbind (pop_int ws) (\<lambda>(dest_num, ws).
     rbind (pop_words (nat dest_num) ws) (\<lambda>(dest_regs, ws).
     rbind (pop_word ws) (\<lambda>(opcode, ws).
     rbind (pop_int ws) (\<lambda>(src_num, ws).
     rbind (pop_words (nat src_num) ws) (\<lambda>(src_regs, ws).
     let p = strtoll16 pc_s; (i, counts) = count_pc (block_id, warp_id, p) counts
     in Inr (new_trace_inst block_id warp_id p active_mask dest_num dest_regs opcode src_num
               src_regs i, counts))))))))))"

text \<open>\<open>line.replace(line.find(str), str.length(), "")\<close>, then \<open>stoi\<close>.\<close>

definition header_value :: "string \<Rightarrow> string \<Rightarrow> u32 res" where
  "header_value str line =
     (case str_find str line of
        None \<Rightarrow> Inl Out_Of_Range
      | Some i \<Rightarrow> rbind (stoi (take i line @ drop (i + length str) line)) (\<lambda>n. Inr (word_of_int n)))"

definition sass_line ::
  "string list \<Rightarrow> string \<Rightarrow> kernel_info \<times> trace_inst list \<times> sass_counts \<Rightarrow>
   (kernel_info \<times> trace_inst list \<times> sass_counts) res"
where
  "sass_line skipped line = (\<lambda>(info, insts, counts).
     if line \<in> set skipped then Inr (info, insts, counts)
     else if str_contains ''kernel_id = '' line then
       rbind (header_value ''kernel_id = '' line) (\<lambda>n. Inr (info\<lparr>ki_kernel_id := n\<rparr>, insts, counts))
     else if str_contains ''grid_size = '' line then
       rbind (header_value ''grid_size = '' line) (\<lambda>n. Inr (info\<lparr>m_grid_size := n\<rparr>, insts, counts))
     else if str_contains ''block_size = '' line then
       rbind (header_value ''block_size = '' line) (\<lambda>n. Inr (info\<lparr>m_block_size := n\<rparr>, insts, counts))
     else if str_contains ''shared_mem_bytes = '' line then
       rbind (header_value ''shared_mem_bytes = '' line) (\<lambda>n.
         Inr (info\<lparr>m_shared_mem_bytes := n\<rparr>, insts, counts))
     else if str_contains ''num_registers = '' line then
       rbind (header_value ''num_registers = '' line) (\<lambda>n.
         Inr (info\<lparr>m_num_registers := n\<rparr>, insts, counts))
     else
       rbind (parse_inst_line line counts) (\<lambda>(i, counts). Inr (info, insts @ [i], counts)))"

definition sass_headers :: "string list" where
  "sass_headers = [''Flexsim version 3 sass trace'', ''Flexsim kernel info end'',
     ''SwiftSim sass trace'', ''SwiftSim kernel info end'']"

definition read_sass ::
  "string option \<Rightarrow> kernel_info \<Rightarrow> trace_inst list \<Rightarrow> (kernel_info \<times> trace_inst list) res"
where
  "read_sass file info insts =
     (case file of
        None \<Rightarrow> Inl Exit_Called
      | Some content \<Rightarrow>
          rbind (foldM (sass_line sass_headers) (file_lines content) (info, insts, \<lambda>_. None))
            (\<lambda>(info, insts, _). Inr (info, insts)))"

definition read_all_block_sass ::
  "string option \<Rightarrow> kernel_info \<Rightarrow> trace_inst list \<Rightarrow> (kernel_info \<times> trace_inst list) res"
where
  "read_all_block_sass file info insts =
     (case file of
        None \<Rightarrow> Inl Exit_Called
      | Some content \<Rightarrow>
          rbind (foldM (sass_line (take 2 sass_headers)) (file_lines content) (info, insts, \<lambda>_. None))
            (\<lambda>(info, insts, _). Inr (info, insts)))"

section \<open>The memory requests of a block\<close>

text \<open>\<open>(int) log2(n)\<close>, for a positive \<open>int\<close>.\<close>

fun ilog2 :: "nat \<Rightarrow> nat" where
  "ilog2 n = (if n < 2 then 0 else Suc (ilog2 (n div 2)))"

declare ilog2.simps [simp del]

definition SECTOR_BYTES :: int where
  "SECTOR_BYTES = 32"

text \<open>The line address and the sector of an address.\<close>

definition sector_of :: "nat \<Rightarrow> int \<Rightarrow> int \<times> int" where
  "sector_of l a =
     (let cache_line = a div 2 ^ l; offset = a - cache_line * 2 ^ l
      in (cache_line * 2 ^ l, offset sdiv SECTOR_BYTES))"

definition coalesce :: "nat \<Rightarrow> string list \<Rightarrow> (int \<times> int) list" where
  "coalesce l ws =
     fold (\<lambda>w acc. let x = sector_of l (strtoll16 w) in if x \<in> set acc then acc else acc @ [x]) ws []"

type_synonym mem_counts = "int \<times> int \<Rightarrow> int option"

definition read_mem_line ::
  "int \<Rightarrow> string \<Rightarrow> (int, mem_inst list) std_map \<times> mem_counts \<Rightarrow>
   ((int, mem_inst list) std_map \<times> mem_counts) res"
where
  "read_mem_line line_size line = (\<lambda>(m, counts).
     if line = ''===='' then Inr (m, counts)
     else case find_first_of '' '' line of
            None \<Rightarrow> Inr (m, counts)
          | Some pos \<Rightarrow>
              rbind (pop_int (words (drop (pos + 1) line))) (\<lambda>(warp_id, ws).
              rbind (pop_word ws) (\<lambda>(pc_s, ws).
              rbind (pop_word ws) (\<lambda>(opcode, ws).
              guard (0 < line_size \<or> ws = []) Undefined_Behaviour
              (let p = strtoll16 pc_s; (i, counts) = count_pc (warp_id, p) counts;
                   mi = new_mem_inst opcode (coalesce (ilog2 (nat line_size)) ws) p i;
                   old = (case map_of m warp_id of None \<Rightarrow> [] | Some l \<Rightarrow> l)
               in Inr (map_put warp_id (old @ [mi]) m, counts))))))"

definition read_mem :: "trace_reader \<Rightarrow> int \<Rightarrow> int \<Rightarrow> cta \<Rightarrow> cta res" where
  "read_mem r line_size block_id b =
     rbind (get_block_mem_offsets block_id r) (\<lambda>offsets.
     if offsets = None \<or> offsets = Some [] then Inr b
     else
       case m_mem_file r of
         None \<Rightarrow> Inl Exit_Called
       | Some content \<Rightarrow>
           rbind (foldM (\<lambda>off s.
                    let (ok, line, _) = getline (open_stream (drop off content)) [] in
                    if ok then read_mem_line line_size line s else Inr s)
                  (the offsets) (mem_inst_map b, \<lambda>_. None)) (\<lambda>(m, _).
             Inr (b\<lparr>mem_inst_map := m\<rparr>)))"

definition load_mem_request :: "trace_reader \<Rightarrow> int \<Rightarrow> int \<Rightarrow> cta \<Rightarrow> cta res" where
  "load_mem_request r line_size block_id b =
     rbind (read_mem r line_size block_id b) (\<lambda>b.
       Inr (b\<lparr>warp_vec := map (\<lambda>(k, w).
              (k, w\<lparr>m_mem_inst := (case map_of (mem_inst_map b) (w_warp_id w) of
                                     None \<Rightarrow> [] | Some l \<Rightarrow> l)\<rparr>)) (warp_vec b)\<rparr>))"

section \<open>Coalescing\<close>

lemma coalesce_append:
  "fold (\<lambda>w acc. let x = f w in if x \<in> set acc then acc else acc @ [x]) ws acc0 = acc \<Longrightarrow>
   distinct acc0 \<Longrightarrow> distinct acc \<and> set acc = set acc0 \<union> f ` set ws"
proof (induction ws arbitrary: acc0)
  case (Cons w ws)
  from Cons.IH [of "if f w \<in> set acc0 then acc0 else acc0 @ [f w]"] Cons.prems show ?case
    by (auto simp: Let_def split: if_splits)
qed simp

lemma coalesce_set:
  "distinct (coalesce l ws) \<and> set (coalesce l ws) = (\<lambda>w. sector_of l (strtoll16 w)) ` set ws"
  using coalesce_append [of "\<lambda>w. sector_of l (strtoll16 w)" ws "[]" "coalesce l ws"]
  by (simp add: coalesce_def)

lemma sector_of_eq: "sector_of l a = (a - a mod 2 ^ l, a mod 2 ^ l div 32)"
proof -
  have "a - a div 2 ^ l * 2 ^ l = a mod 2 ^ l" by (simp add: minus_div_mult_eq_mod)
  moreover have "(a mod 2 ^ l) sdiv 32 = a mod 2 ^ l div 32"
    by (simp add: signed_divide_int_def zero_le_mult_iff sgn_if)
  ultimately show ?thesis
    by (simp add: sector_of_def Let_def SECTOR_BYTES_def minus_mod_eq_div_mult)
qed

lemma sector_of_bytes:
  assumes "5 \<le> l"
  shows "(\<lambda>(line, s). (line + 32 * s) div 32) (sector_of l a) = a div 32"
    and "sector_of l a = sector_of l b \<longleftrightarrow> a div 32 = b div 32"
proof -
  have two: "(2 :: int) ^ l = 32 * 2 ^ (l - 5)"
    using assms power_add [of "2 :: int" 5 "l - 5"] by simp
  show whole: "(\<lambda>(line, s). (line + 32 * s) div 32) (sector_of l a) = a div 32" for a
  proof -
    have "a - a mod 2 ^ l + 32 * (a mod 2 ^ l div 32) = a - a mod 2 ^ l mod 32"
      using mult_div_mod_eq [of 32 "a mod 2 ^ l"] by linarith
    also have "a mod 2 ^ l mod 32 = a mod 32" by (simp add: two zmod_zmult2_eq mod_mod_cancel)
    finally have "a - a mod 2 ^ l + 32 * (a mod 2 ^ l div 32) = a div 32 * 32"
      by (simp add: minus_mod_eq_div_mult)
    then show ?thesis by (simp add: sector_of_eq)
  qed
  have "a mod 2 ^ l div 32 = (a div 32) mod 2 ^ (l - 5)" for a :: int
    by (simp add: two zmod_zmult2_eq)
  moreover have "a - a mod 2 ^ l = (a div 32) div 2 ^ (l - 5) * 2 ^ l" for a :: int
    by (simp add: two zdiv_zmult2_eq minus_mod_eq_div_mult [symmetric])
      (simp add: two zdiv_zmult2_eq minus_mod_eq_div_mult)
  ultimately have "a div 32 = b div 32 \<Longrightarrow> sector_of l a = sector_of l b"
    by (simp add: sector_of_eq)
  then show "sector_of l a = sector_of l b \<longleftrightarrow> a div 32 = b div 32"
    using whole [of a] whole [of b] by auto
qed

text \<open>C11. Coalescing: for lines of \<open>2 ^ l\<close> bytes, of 32 at least, a warp's access becomes one
  request per 32-byte sector its threads touch: the requests are distinct, each is a line address and
  a sector within the line that some thread addresses, and their number is the number of distinct
  sectors.\<close>

theorem coalesce_one_per_sector:
  assumes "5 \<le> l"
  shows "length (coalesce l ws) = card ((\<lambda>w. strtoll16 w div 32) ` set ws) \<and>
    distinct (coalesce l ws) \<and>
    (\<forall>(line, s) \<in> set (coalesce l ws). line mod 2 ^ l = 0 \<and> 0 \<le> s \<and> s < 2 ^ (l - 5) \<and>
       (\<exists>w \<in> set ws. strtoll16 w div 32 = (line + 32 * s) div 32))"
proof -
  let ?S = "(\<lambda>w. sector_of l (strtoll16 w)) ` set ws"
  let ?k = "\<lambda>x :: int \<times> int. (fst x + 32 * snd x) div 32"
  have k: "?k (sector_of l a) = a div 32" for a
    using sector_of_bytes(1) [OF assms, of a] by (simp add: case_prod_beta)
  have "inj_on ?k ?S" using k sector_of_bytes(2) [OF assms] by (auto simp: inj_on_def)
  then have "card ?S = card (?k ` ?S)" by (simp add: card_image)
  also have "?k ` ?S = (\<lambda>w. strtoll16 w div 32) ` set ws" by (simp only: image_image k)
  finally have "length (coalesce l ws) = card ((\<lambda>w. strtoll16 w div 32) ` set ws)"
    using coalesce_set [of l ws] by (metis distinct_card)
  moreover have "line mod 2 ^ l = 0 \<and> 0 \<le> s \<and> s < 2 ^ (l - 5) \<and>
      (\<exists>w \<in> set ws. strtoll16 w div 32 = (line + 32 * s) div 32)"
    if "(line, s) \<in> set (coalesce l ws)" for line s
  proof -
    from that obtain w where w: "w \<in> set ws" "(line, s) = sector_of l (strtoll16 w)"
      using coalesce_set [of l ws] by auto
    have "(2 :: int) ^ l = 32 * 2 ^ (l - 5)"
      using assms power_add [of "2 :: int" 5 "l - 5"] by simp
    then have "strtoll16 w mod 2 ^ l div 32 = strtoll16 w div 32 mod 2 ^ (l - 5)"
      by (simp add: zmod_zmult2_eq)
    then have "line mod 2 ^ l = 0 \<and> 0 \<le> s \<and> s < 2 ^ (l - 5)"
      using w(2) by (simp add: sector_of_eq minus_mod_eq_div_mult)
    then show ?thesis using w k [of "strtoll16 w"] by (auto simp flip: w(2))
  qed
  ultimately show ?thesis using coalesce_set [of l ws] by blast
qed

theorem coalesce_one_per_sector_witness:
  "length (coalesce 7 [''0x1000'', ''0x1004'', ''0x1020'', ''0x1080'']) =
     card {strtoll16 ''0x1000'' div 32, strtoll16 ''0x1004'' div 32, strtoll16 ''0x1020'' div 32,
           strtoll16 ''0x1080'' div 32}"
  using coalesce_one_per_sector [of 7 "[''0x1000'', ''0x1004'', ''0x1020'', ''0x1080'']"] by simp

section \<open>The index\<close>

text \<open>The block a line of the memory trace belongs to, and the line at an offset.\<close>

definition line_block :: "string \<Rightarrow> int option" where
  "line_block line =
     (if is_memory_trace_line line
      then case find_first_of '' '' line of
             None \<Rightarrow> None
           | Some pos \<Rightarrow> (case stoi (take pos line) of Inl _ \<Rightarrow> None | Inr b \<Rightarrow> Some b)
      else None)"

definition line_at :: "string \<Rightarrow> nat \<Rightarrow> string" where
  "line_at content off = takeWhile (\<lambda>c. c \<noteq> CHR 0x0A) (drop off content)"

definition offsets_of :: "(int, nat list) std_map \<Rightarrow> int \<Rightarrow> nat list" where
  "offsets_of m b = (case map_of m b of None \<Rightarrow> [] | Some os \<Rightarrow> os)"

lemma index_line_spec:
  assumes "wf_map m" and "index_line off line m = Inr m'"
  shows "wf_map m' \<and>
    offsets_of m' b = offsets_of m b @ (if line_block line = Some b then [off] else [])"
proof -
  have add: "wf_map (add_offset c off m)"
    "offsets_of (add_offset c off m) b = offsets_of m b @ (if c = b then [off] else [])" for c
    using assms(1) by (auto simp: add_offset_def wf_map_put offsets_of_def map_of_put split: option.splits)
  from assms(2) show ?thesis
    using add assms(1)
    by (auto simp: index_line_def line_block_def rbind_eq_Inr split: if_splits option.splits sum.splits)
qed

lemma index_loop_spec:
  assumes "index_loop (length content) st line m = Inr m'" and "wf_map m"
    and "content = pre @ stream_rest st" and "stream_eof st \<longrightarrow> stream_rest st = []"
  shows "map (line_at content) (offsets_of m' b) = map (line_at content) (offsets_of m b) @
    filter (\<lambda>l. line_block l = Some b) (file_lines (stream_rest st))"
  using assms
proof (induction "length (stream_rest st)" arbitrary: st line m pre rule: less_induct)
  case less
  obtain ok line' st' where g: "getline st line = (ok, line', st')" by (metis prod_cases3)
  show ?case
  proof (cases "stream_rest st = []")
    case True
    then have "\<not> ok" using g by (auto simp: getline_def split: if_splits)
    then show ?thesis
      using less.prems(1) g True by (subst (asm) index_loop.simps) (simp add: file_lines.simps)
  next
    case False
    define rest where "rest = stream_rest st"
    let ?nl = "\<lambda>c. c \<noteq> CHR 0x0A"
    have ok: "ok" and line': "line' = takeWhile ?nl rest"
      and st': "st' = \<lparr>stream_rest = tl (dropWhile ?nl rest), stream_eof = (dropWhile ?nl rest = [])\<rparr>"
      using g False less.prems(4) by (auto simp: getline_def Let_def rest_def split: if_splits)
    have off: "length content - length rest = length pre"
      using less.prems(3) by (simp add: rest_def)
    have at: "line_at content (length pre) = line'"
      using less.prems(3) line' by (simp add: line_at_def rest_def)
    from less.prems(1) g ok obtain m1 where m1: "index_line (length pre) line' m = Inr m1"
      and run: "index_loop (length content) st' line' m1 = Inr m'"
      by (subst (asm) index_loop.simps) (auto simp: rbind_eq_Inr off [unfolded rest_def])
    from index_line_spec [OF less.prems(2) m1, of b] at
    have wf1: "wf_map m1" and o1: "map (line_at content) (offsets_of m1 b) =
        map (line_at content) (offsets_of m b) @ (if line_block line' = Some b then [line'] else [])"
      by auto
    have shorter: "length (stream_rest st') < length (stream_rest st)"
      using getline_shrinks [of st line line' st'] g ok by simp
    obtain pre' where pre': "content = pre' @ stream_rest st'"
      by (metis (no_types, lifting) append.assoc istream.select_convs(1) less.prems(3) rest_def st'
          append_Nil2 hd_Cons_tl takeWhile_dropWhile_id append_Cons append_Nil list.sel(2))
    have lines: "file_lines (stream_rest st) = line' # file_lines (stream_rest st')"
      using False by (subst file_lines.simps) (simp add: line' st' rest_def)
    have "stream_eof st' \<longrightarrow> stream_rest st' = []"
      by (auto simp: st' simp del: dropWhile_eq_Nil_conv)
    from less.hyps [OF shorter run wf1 pre' this] show ?thesis
      by (simp add: o1 lines)
  qed
qed

text \<open>C12. The index of the memory trace: the offsets it stores for a block lead exactly to the
  lines of that block, in the order of the file.\<close>

theorem block_mem_index_correct:
  assumes "build_block_mem_index (Some content) r = Inr r'"
    and "get_block_mem_offsets b r' = Inr offs"
  shows "map (line_at content) (case offs of None \<Rightarrow> [] | Some os \<Rightarrow> os) =
    filter (\<lambda>l. line_block l = Some b) (file_lines content)"
proof -
  from assms(1) obtain m where m: "index_loop (length content) (open_stream content) [] [] = Inr m"
    and r': "r' = r\<lparr>m_mem_file := Some content, m_block_mem_offsets := m,
                    m_block_mem_index_ready := True\<rparr>"
    by (auto simp: build_block_mem_index_def rbind_eq_Inr)
  have "offs = map_of m b"
    using assms(2) by (simp add: get_block_mem_offsets_def r')
  then show ?thesis
    using index_loop_spec [OF m, of "[]" b] by (simp add: open_stream_def offsets_of_def)
qed

definition sample_mem :: string where
  "sample_mem = ''0 0 LDG x'' @ [CHR 0x0A] @ ''1 0 STG y'' @ [CHR 0x0A] @ ''0 1 LDG z''"

theorem block_mem_index_correct_witness:
  "map (line_at sample_mem) [0, 20] = [''0 0 LDG x'', ''0 1 LDG z'']"
proof -
  let ?r = "(new_trace_reader 0)\<lparr>m_mem_file := Some sample_mem,
    m_block_mem_offsets := [(0, [0, 20]), (1, [10])], m_block_mem_index_ready := True\<rparr>"
  have "build_block_mem_index (Some sample_mem) (new_trace_reader 0) = Inr ?r"
    "get_block_mem_offsets 0 ?r = Inr (Some [0, 20])"
    "filter (\<lambda>l. line_block l = Some 0) (file_lines sample_mem) = [''0 0 LDG x'', ''0 1 LDG z'']"
    by code_simp+
  then show ?thesis
    using block_mem_index_correct [of sample_mem "new_trace_reader 0" ?r 0 "Some [0, 20]"] by simp
qed

end
