(* ===== verification/Streaming_Multiprocessor.thy ===== *)
theory Streaming_Multiprocessor
  imports L1_Cache Trace_Reader
begin

text \<open>
  A streaming multiprocessor, the classes \<open>streaming_multiprocessor\<close>, \<open>sm_unit\<close> and \<open>LdStInst\<close>
  of \<^verbatim>\<open>gpu.h\<close> and \<^verbatim>\<open>gpu.cpp\<close>.  Execution units are shared through pointers, so they live in a
  list and the maps of the subcores hold positions in it.  A pointer to a warp is its block and warp
  number, a pointer to one of its memory instructions the position in \<open>m_mem_inst\<close>; the blocks are
  those of the kernel, and \<open>block_vec\<close> is the set of the block numbers resident here.  An operation
  acts on the multiprocessor, the kernel and the shared environment.
\<close>

section \<open>State\<close>

definition INT_MAX :: int where
  "INT_MAX = 2 ^ 31 - 1"

definition subcores :: nat where
  "subcores = 4"

record sm_unit =
  unit_name :: string
  ready_time :: int
  m_inst :: "nat option"
  m_warp :: "(int \<times> int) option"
  mem_fetch_point :: int
  unit_latency :: int
  unit_width :: int

definition new_sm_unit :: "string \<Rightarrow> int \<Rightarrow> sm_unit" where
  "new_sm_unit name width =
     \<lparr>unit_name = name, ready_time = 0, m_inst = None, m_warp = None, mem_fetch_point = 0,
      unit_latency = 0, unit_width = width\<rparr>"

definition set_ldst_inst :: "nat \<Rightarrow> int \<times> int \<Rightarrow> sm_unit \<Rightarrow> sm_unit" where
  "set_ldst_inst i w u =
     u\<lparr>m_inst := Some i, m_warp := Some w, ready_time := INT_MAX, mem_fetch_point := 0,
       unit_latency := 4\<rparr>"

record streaming_multiprocessor =
  m_l1_cache_config :: cache_config
  m_l1_data_cache :: l1_data_cache
  units :: "sm_unit list"
  m_subcores :: "(string, nat) std_map list"
  sm_id :: u32
  m_max_blocks :: int
  block_vec :: "(int, unit) std_map"
  retired_mem_fetches :: "mf_ptr list"
  is_active :: bool
  sm_gpu_config :: gpu_config
  cycles :: int
  m_execute_inst :: int
  m_issue_active_cycles :: int
  m_memory_stall_cycles :: int
  m_dependency_stall_cycles :: int
  m_unit_stall_cycles :: int
  m_scheduler_idle_cycles :: int
  m_execute_ldst_inst :: int
  m_ldst_inst :: int
  m_total_inst :: int
  m_queue_sm_to_l1_busy :: "bool list"

type_synonym sm_state = "streaming_multiprocessor \<times> kernel \<times> gpu_env"

section \<open>Units\<close>

text \<open>The loop over the kinds of units of one subcore; \<open>unit_out\<close> survives the outer loop, so all
  the kinds with fewer than four units share one unit.\<close>

definition add_unit ::
  "string \<times> int \<Rightarrow> sm_unit list \<times> nat option \<times> (string, nat) std_map \<Rightarrow>
   sm_unit list \<times> nat option \<times> (string, nat) std_map"
where
  "add_unit kind = (\<lambda>(us, unit_out, subcore).
     let (name, n) = kind in
     if n < int subcores then
       (case unit_out of
          None \<Rightarrow> (us @ [new_sm_unit name n], Some (length us), map_put name (length us) subcore)
        | Some u \<Rightarrow> (us, unit_out, map_put name u subcore))
     else (us @ [new_sm_unit name (n sdiv int subcores)], unit_out, map_put name (length us) subcore))"

definition load_all_subcore_units :: "(string, int) std_map \<Rightarrow> sm_unit list \<times> (string, nat) std_map list"
where
  "load_all_subcore_units kinds =
     (let (us, _, cores) =
        fold (\<lambda>_ (us, unit_out, cores).
                let (us, unit_out, subcore) = fold add_unit kinds (us, unit_out, [])
                in (us, unit_out, cores @ [subcore])) [0..<subcores] ([], None, [])
      in (us, cores))"

definition new_sm :: "u32 \<Rightarrow> gpu_config \<Rightarrow> cache_config \<Rightarrow> streaming_multiprocessor" where
  "new_sm n gc cc =
     (let (us, cores) = load_all_subcore_units (m_sm_pipeline_units gc) in
      \<lparr>m_l1_cache_config = cc, m_l1_data_cache = new_l1_data_cache cc gc n, units = us,
       m_subcores = cores, sm_id = n, m_max_blocks = 0, block_vec = [], retired_mem_fetches = [],
       is_active = False, sm_gpu_config = gc, cycles = 0, m_execute_inst = 0,
       m_issue_active_cycles = 0, m_memory_stall_cycles = 0, m_dependency_stall_cycles = 0,
       m_unit_stall_cycles = 0, m_scheduler_idle_cycles = 0, m_execute_ldst_inst = 0,
       m_ldst_inst = 0, m_total_inst = 0, m_queue_sm_to_l1_busy = replicate 4 False\<rparr>)"

definition get_isa_latency_entry :: "gpu_config \<Rightarrow> string \<Rightarrow> (int \<times> string) res" where
  "get_isa_latency_entry gc opcode =
     (case map_of (gpu_isa_latency gc) opcode of
        None \<Rightarrow> Inl Exit_Called
      | Some e \<Rightarrow> guard (snd e \<noteq> []) Exit_Called (Inr e))"

definition get_subcore_unit :: "nat \<Rightarrow> string \<Rightarrow> streaming_multiprocessor \<Rightarrow> nat res" where
  "get_subcore_unit sub_num name sm =
     guard (sub_num < length (m_subcores sm)) Exit_Called
       (case map_of (m_subcores sm ! sub_num) name of None \<Rightarrow> Inl Exit_Called | Some u \<Rightarrow> Inr u)"

definition get_issue_interval_cycles :: "string \<Rightarrow> sm_unit \<Rightarrow> int" where
  "get_issue_interval_cycles name u =
     (if unit_width u \<le> 0 then 1
      else if name \<in> {''TENSOR_units'', ''UDP_units'', ''BRA_units''} then 1
      else max 1 (32 sdiv unit_width u))"

definition update_unit ::
  "nat \<Rightarrow> (sm_unit \<Rightarrow> sm_unit) \<Rightarrow> streaming_multiprocessor \<Rightarrow> streaming_multiprocessor res"
where
  "update_unit i f sm =
     rbind (nth_res (units sm) i) (\<lambda>u. Inr (sm\<lparr>units := (units sm)[i := f u]\<rparr>))"

definition check_unit :: "nat \<Rightarrow> string \<Rightarrow> streaming_multiprocessor \<Rightarrow> bool res" where
  "check_unit sub_num name sm =
     rbind (get_subcore_unit sub_num name sm) (\<lambda>i. rbind (nth_res (units sm) i) (\<lambda>u.
       Inr (ready_time u \<le> cycles sm)))"

section \<open>Warps\<close>

text \<open>What a warp pointer denotes: a warp of its block, retired or not.\<close>

definition warp_at :: "int \<times> int \<Rightarrow> kernel \<Rightarrow> warp res" where
  "warp_at ref k =
     rbind (deref (map_of (m_blocks k) (fst ref))) (\<lambda>b.
       case map_of (warp_vec b) (snd ref) of
         Some w \<Rightarrow> Inr w
       | None \<Rightarrow> deref (find (\<lambda>w. w_warp_id w = snd ref) (retired_warps b)))"

definition update_warp :: "int \<times> int \<Rightarrow> (warp \<Rightarrow> warp res) \<Rightarrow> kernel \<Rightarrow> kernel res" where
  "update_warp ref f k =
     rbind (deref (map_of (m_blocks k) (fst ref))) (\<lambda>b.
     rbind (warp_at ref k) (\<lambda>w.
     rbind (f w) (\<lambda>w'.
       let b' = (if map_of (warp_vec b) (snd ref) \<noteq> None
                 then b\<lparr>warp_vec := map_put (snd ref) w' (warp_vec b)\<rparr>
                 else b\<lparr>retired_warps := map (\<lambda>w. if w_warp_id w = snd ref then w' else w)
                                           (retired_warps b)\<rparr>)
       in Inr (k\<lparr>m_blocks := map_put (fst ref) b' (m_blocks k)\<rparr>))))"

definition get_block :: "int \<Rightarrow> streaming_multiprocessor \<Rightarrow> kernel \<Rightarrow> cta res" where
  "get_block block_id sm k =
     (if map_of (block_vec sm) block_id \<noteq> None then deref (map_of (m_blocks k) block_id)
      else Inl Exit_Called)"

definition check_dependency :: "int \<Rightarrow> warp \<Rightarrow> bool res" where
  "check_dependency now w =
     rbind (nth_res (m_insts w) (warp_point w)) (\<lambda>i.
       foldM (\<lambda>d ok. if \<not> ok then Inr False
                      else rbind (nth_res (completions w) d) (\<lambda>t. Inr (\<not> now < t)))
         (rev (m_dependency i)) True)"

definition check_unit_in_subcore :: "warp \<Rightarrow> nat \<Rightarrow> streaming_multiprocessor \<Rightarrow> bool res" where
  "check_unit_in_subcore w sub_num sm =
     rbind (nth_res (m_insts w) (warp_point w)) (\<lambda>i.
     rbind (get_isa_latency_entry (sm_gpu_config sm) (i_opcode i)) (\<lambda>e.
       check_unit sub_num (snd e) sm))"

section \<open>Loads, stores and atomics\<close>

definition is_store_opcode :: "string \<Rightarrow> bool" where
  "is_store_opcode opcode \<longleftrightarrow>
     str_contains ''STG'' opcode \<or> str_contains ''ST.'' opcode \<or> str_contains ''STS'' opcode \<or>
     opcode = ''ST''"

definition push_completion :: "int \<Rightarrow> warp \<Rightarrow> warp" where
  "push_completion t w = w\<lparr>completions := completions w @ [t]\<rparr>"

definition delay_unit :: "nat \<Rightarrow> int \<Rightarrow> streaming_multiprocessor \<Rightarrow> streaming_multiprocessor res" where
  "delay_unit i n = update_unit i (\<lambda>u. u\<lparr>ready_time := ready_time u + n\<rparr>)"

definition shared_latency :: "int \<Rightarrow> int" where
  "shared_latency n = (if n < 2 then 8 else if n < 4 then 10 else if n < 8 then 14
     else if n < 16 then 22 else if n < 32 then 37 else 69)"

definition process_LDS_STS_ATOMS :: "int \<Rightarrow> nat \<Rightarrow> int \<times> int \<Rightarrow> sm_state \<Rightarrow> sm_state res" where
  "process_LDS_STS_ATOMS active_thread_num i ref = (\<lambda>(sm, k, g).
     rbind (nth_res (units sm) i) (\<lambda>u.
     rbind (delay_unit i (get_issue_interval_cycles (unit_name u) u) sm) (\<lambda>sm.
     rbind (update_warp ref
              (\<lambda>w. Inr (push_completion (cycles sm + shared_latency active_thread_num) w)) k) (\<lambda>k.
       Inr (sm, k, g)))))"

text \<open>What the instruction's warp keeps of a global access: its completion time, which a load learns
  later, and where the requests find it.\<close>

definition start_ldst :: "string \<Rightarrow> nat \<Rightarrow> int \<Rightarrow> warp \<Rightarrow> warp" where
  "start_ldst full_opcode mi t w =
     (let w = push_completion t w
      in w\<lparr>m_mem_inst := (m_mem_inst w)[mi := (m_mem_inst w ! mi)
              \<lparr>mi_opcode := full_opcode, completions_index := int (length (completions w)) - 1\<rparr>],
           pending_inst := pending_inst w + 1\<rparr>)"

definition process_LDG_STG ::
  "int \<Rightarrow> int \<Rightarrow> int \<Rightarrow> string \<Rightarrow> nat \<Rightarrow> int \<times> int \<Rightarrow> sm_state \<Rightarrow> sm_state res"
where
  "process_LDG_STG pc_t pc_index_t active_thread_num full_opcode i ref = (\<lambda>(sm, k, g).
     rbind (warp_at ref k) (\<lambda>w.
     let mi = get_mem_inst pc_t pc_index_t w in
     if mi = None \<or> active_thread_num = 0 \<or> m_coalesced_address (m_mem_inst w ! the mi) = [] then
       rbind (nth_res (units sm) i) (\<lambda>u.
       rbind (delay_unit i (get_issue_interval_cycles (unit_name u) u) sm) (\<lambda>sm.
       rbind (update_warp ref (\<lambda>w. Inr (push_completion (cycles sm + 1) w)) k) (\<lambda>k.
         Inr (sm, k, g))))
     else
       rbind (update_warp ref (\<lambda>w. Inr (start_ldst full_opcode (the mi)
                (if is_store_opcode full_opcode then cycles sm + 1 else INT_MAX) w)) k) (\<lambda>k.
       rbind (update_unit i (set_ldst_inst (the mi) ref) sm) (\<lambda>sm. Inr (sm, k, g)))))"

text \<open>Push a new request into the queue of its bank; the bank is its sector.\<close>

definition l1_bank_hash :: "mem_fetch \<Rightarrow> u32" where
  "l1_bank_hash mf = m_sector_mask mf"

definition push_to_bank :: "mf_ptr \<Rightarrow> mem_fetch \<Rightarrow> streaming_multiprocessor \<Rightarrow> streaming_multiprocessor" where
  "push_to_bank p mf sm =
     (let l1 = m_l1_data_cache sm; bank = sint (l1_bank_hash mf)
      in sm\<lparr>m_l1_data_cache :=
           l1\<lparr>m_sm_to_l1 := map_put bank (bank_queue (m_sm_to_l1 l1) bank @ [p]) (m_sm_to_l1 l1)\<rparr>\<rparr>)"

definition count_request :: "int \<Rightarrow> warp \<Rightarrow> warp" where
  "count_request ci w =
     (let w = increase_pending_request ci w
      in w\<lparr>m_pending_mem_request_num := m_pending_mem_request_num w + 1\<rparr>)"

definition atom_request :: "int \<times> int \<Rightarrow> int \<times> int \<Rightarrow> sm_state \<Rightarrow> sm_state res" where
  "atom_request ref address = (\<lambda>(sm, k, g).
     rbind (warp_at ref k) (\<lambda>w.
     let ci = int (length (completions w)) - 1;
         (p, g) = mf_new (new_mem_fetch (sm_id sm) True (word_of_int (fst address))
                    (word_of_int (snd address)) GLOBAL True (cycles sm) (w_block_id w)
                    (w_warp_id w) ci) g in
     rbind (mf_at p g) (\<lambda>mf.
     rbind (update_warp ref (\<lambda>w. Inr (count_request ci w)) k) (\<lambda>k.
       Inr (push_to_bank p mf sm, k, g)))))"

definition process_ATOM_ATOMG :: "int \<Rightarrow> int \<Rightarrow> nat \<Rightarrow> int \<times> int \<Rightarrow> sm_state \<Rightarrow> sm_state res" where
  "process_ATOM_ATOMG pc_t pc_index_t i ref = (\<lambda>(sm, k, g).
     rbind (delay_unit i 4 sm) (\<lambda>sm.
     rbind (update_warp ref (\<lambda>w. Inr (push_completion INT_MAX w)) k) (\<lambda>k.
     rbind (warp_at ref k) (\<lambda>w.
     rbind (deref (get_mem_inst pc_t pc_index_t w)) (\<lambda>mi.
       foldM (atom_request ref) (m_coalesced_address (m_mem_inst w ! mi)) (sm, k, g))))))"

definition ldst_process ::
  "inst \<Rightarrow> nat \<Rightarrow> int \<times> int \<Rightarrow> sm_state \<Rightarrow> sm_state res"
where
  "ldst_process i u ref = (\<lambda>(sm, k, g).
     let op = (if i_full_opcode i = [] then i_opcode i else i_full_opcode i) in
     if str_contains ''LDG'' op \<or> str_contains ''STG'' op \<or> str_contains ''LD.'' op \<or>
        str_contains ''ST.'' op
     then process_LDG_STG (i_pc i) (i_pc_index i) (i_active_thread_num i) op u ref (sm, k, g)
     else if str_contains ''LDS'' op \<or> str_contains ''STS'' op \<or> str_contains ''ATOMS'' op
     then process_LDS_STS_ATOMS (i_active_thread_num i) u ref (sm, k, g)
     else if str_contains ''ATOM'' op \<or> str_contains ''ATOMG'' op
     then process_ATOM_ATOMG (i_pc i) (i_pc_index i) u ref (sm, k, g)
     else
       (case map_of (gpu_isa_latency (sm_gpu_config sm)) (i_opcode i) of
          None \<Rightarrow> Inl Exit_Called
        | Some (latency, name) \<Rightarrow>
            rbind (nth_res (units sm) u) (\<lambda>un.
            rbind (delay_unit u (get_issue_interval_cycles name un) sm) (\<lambda>sm.
            rbind (update_warp ref (\<lambda>w. Inr (push_completion (cycles sm + latency) w)) k) (\<lambda>k.
              Inr (sm, k, g))))))"

text \<open>
  The cycle of a load/store unit: the next sector of its instruction becomes a request, unless a
  request went to that bank this cycle; with the last sector the unit is free again.
\<close>

definition ldst_request :: "streaming_multiprocessor \<Rightarrow> warp \<Rightarrow> mem_inst \<Rightarrow> int \<times> int \<Rightarrow> u32 \<Rightarrow> mem_fetch"
where
  "ldst_request sm w ins a n =
     (let is_store = is_store_opcode (mi_opcode ins)
      in (new_mem_fetch (sm_id sm) is_store (word_of_int (fst a)) (word_of_int (snd a)) GLOBAL False
            (cycles sm) (w_block_id w) (w_warp_id w) (completions_index ins) n)
         \<lparr>m_no_reply := is_store, pc := mi_pc ins, pc_index := mi_pc_index ins\<rparr>)"

definition release_ldst :: "nat \<Rightarrow> int \<times> int \<Rightarrow> sm_state \<Rightarrow> sm_state res" where
  "release_ldst i ref = (\<lambda>(sm, k, g).
     rbind (update_warp ref (\<lambda>w. Inr (w\<lparr>pending_inst := pending_inst w - 1\<rparr>)) k) (\<lambda>k.
     rbind (update_unit i (\<lambda>u. u\<lparr>mem_fetch_point := -1, m_inst := None, m_warp := None,
              ready_time := cycles sm, unit_latency := 0\<rparr>) sm) (\<lambda>sm. Inr (sm, k, g))))"

definition send_sector :: "nat \<Rightarrow> int \<times> int \<Rightarrow> warp \<Rightarrow> mem_inst \<Rightarrow> int \<Rightarrow> sm_state \<Rightarrow> sm_state res" where
  "send_sector i ref w ins point = (\<lambda>(sm, k, g).
     let a = m_coalesced_address ins ! nat point in
     guard (0 \<le> snd a \<and> snd a < 4) Undefined_Behaviour
     (if m_queue_sm_to_l1_busy sm ! nat (snd a) then Inr (sm, k, g)
      else
        (let (p, g) = mf_new (ldst_request sm w ins a) g in
         rbind (mf_at p g) (\<lambda>mf.
         let sm = push_to_bank p mf sm;
             sm = sm\<lparr>m_queue_sm_to_l1_busy := (m_queue_sm_to_l1_busy sm)[nat (snd a) := True]\<rparr>;
             k = k\<lparr>request_nums := request_nums k + 1\<rparr> in
         rbind (if needs_reply mf
                then update_warp ref (\<lambda>w. Inr (count_request (completions_index ins) w)) k
                else Inr k) (\<lambda>k.
         if point + 1 = int (length (m_coalesced_address ins)) then release_ldst i ref (sm, k, g)
         else
           rbind (update_unit i (\<lambda>u. u\<lparr>mem_fetch_point := point + 1\<rparr>) sm) (\<lambda>sm.
             Inr (sm, k, g)))))))"

definition unit_cycle :: "nat \<Rightarrow> sm_state \<Rightarrow> sm_state res" where
  "unit_cycle i = (\<lambda>(sm, k, g).
     rbind (nth_res (units sm) i) (\<lambda>u.
     case (m_inst u, m_warp u) of
       (Some mi, Some ref) \<Rightarrow>
         if unit_name u \<noteq> ''LDS_units'' then Inr (sm, k, g)
         else
           rbind (warp_at ref k) (\<lambda>w.
           rbind (nth_res (m_mem_inst w) mi) (\<lambda>ins.
           if mem_fetch_point u < 0 \<or> mem_fetch_point u \<ge> int (length (m_coalesced_address ins))
           then Inr (sm, k, g)
           else send_sector i ref w ins (mem_fetch_point u) (sm, k, g)))
     | _ \<Rightarrow> Inr (sm, k, g)))"

section \<open>Dependencies\<close>

lemma check_dependency_fold:
  "\<forall>d \<in> set ds. d < length cs \<Longrightarrow>
   foldM (\<lambda>d ok. if \<not> ok then Inr False else rbind (nth_res cs d) (\<lambda>t. Inr (\<not> now < t))) ds b =
   Inr (b \<and> (\<forall>d \<in> set ds. cs ! d \<le> (now :: int)))"
proof (induction ds arbitrary: b)
  case (Cons d ds)
  then show ?case by (cases b) auto
qed auto

lemma check_dependency_out_of_range:
  "list_all (\<lambda>t. t \<le> now) cs \<Longrightarrow> \<exists>d \<in> set ds. d \<ge> length cs \<Longrightarrow>
   foldM (\<lambda>d ok. if \<not> ok then Inr False else rbind (nth_res cs d) (\<lambda>t. Inr (\<not> (now :: int) < t))) ds True =
   Inl Undefined_Behaviour"
proof (induction ds)
  case (Cons d ds)
  then show ?case
    by (cases "d < length cs") (auto simp: list_all_length nth_res_def not_less)
qed simp

lemma check_dependency_ready:
  assumes "warp_point w < length (m_insts w)" and "m_insts w ! warp_point w = i"
    and "\<forall>d \<in> set (m_dependency i). d < length (completions w)"
  shows "check_dependency now w = Inr (\<forall>d \<in> set (m_dependency i). completions w ! d \<le> now)"
proof -
  have "\<forall>d \<in> set (rev (m_dependency i)). d < length (completions w)" using assms(3) by simp
  from check_dependency_fold [OF this, of now True] show ?thesis
    using assms(1,2) by (simp add: check_dependency_def)
qed

lemma check_dependency_undefined:
  assumes "warp_point w < length (m_insts w)" and "m_insts w ! warp_point w = i"
    and "list_all (\<lambda>t. t \<le> now) (completions w)" and "d \<in> set (m_dependency i)"
    and "length (completions w) \<le> d"
  shows "check_dependency now w = Inl Undefined_Behaviour"
proof -
  have "\<exists>d \<in> set (rev (m_dependency i)). d \<ge> length (completions w)" using assms(4,5) by auto
  from check_dependency_out_of_range [OF assms(3) this] show ?thesis
    using assms(1,2) by (simp add: check_dependency_def)
qed

lemma check_dependency_let_through:
  assumes "foldM (\<lambda>d ok. if \<not> ok then Inr False else rbind (nth_res cs d) (\<lambda>t. Inr (\<not> now < t))) ds b = Inr True"
  shows "b \<and> (\<forall>d \<in> set ds. d < length cs \<and> cs ! d \<le> (now :: int))"
  using assms
proof (induction ds arbitrary: b)
  case (Cons d ds)
  then show ?case by (cases b) (fastforce simp: rbind_eq_Inr nth_res_eq_Inr)+
qed simp

lemma dependencies_resolved:
  assumes "n < length (m_insts w)" and "m_dependency (m_insts w ! n) = []"
  shows "length (m_insts (get_inst_dependency w)) = length (m_insts w)"
    "set (m_dependency (m_insts (get_inst_dependency w) ! n)) =
      {j. \<exists>r \<in> set (i_dest_regs (m_insts w ! n)) \<union> set (i_src_regs (m_insts w ! n)).
            last_writer (m_insts w) n r = Some j} \<union>
      (if waits_for_all (m_insts w ! n) then {j. \<exists>r. last_writer (m_insts w) (Suc n) r = Some j} else {})"
  using dependency_loop_spec [of "[]" "m_insts w" 0 "m_insts w"] assms
  by (simp_all add: get_inst_dependency_def fun_eq_iff resolved_def)

text \<open>The registers an instruction waits for: its own, or at a barrier and at \<^verbatim>\<open>EXIT\<close> every register.\<close>

definition awaits :: "inst \<Rightarrow> string \<Rightarrow> bool" where
  "awaits i r \<longleftrightarrow> waits_for_all i \<or> r \<in> set (i_dest_regs i) \<union> set (i_src_regs i)"

text \<open>C13. A warp whose instructions were resolved, and every instruction of which issued so far recorded
  one completion time, may issue its next instruction exactly when the last earlier writers of all
  registers it waits for have completed: its own registers, at a barrier and at \<^verbatim>\<open>EXIT\<close> every register.
  The exception is a barrier or \<^verbatim>\<open>EXIT\<close> that writes a register itself, which is never let through.\<close>

theorem check_dependency_correct:
  assumes "n < length (m_insts w)" and "m_dependency (m_insts w ! n) = []" and "length cs = n"
  shows "if waits_for_all (m_insts w ! n) \<and> (\<exists>r. writes_reg r (m_insts w ! n))
    then check_dependency now ((get_inst_dependency w)\<lparr>warp_point := n, completions := cs\<rparr>) \<noteq> Inr True
    else check_dependency now ((get_inst_dependency w)\<lparr>warp_point := n, completions := cs\<rparr>) =
      Inr (\<forall>r. awaits (m_insts w ! n) r \<longrightarrow>
             (case last_writer (m_insts w) n r of None \<Rightarrow> True | Some j \<Rightarrow> cs ! j \<le> now))"
proof -
  let ?i = "m_insts w ! n" and ?w = "(get_inst_dependency w)\<lparr>warp_point := n, completions := cs\<rparr>"
  note deps = dependencies_resolved [OF assms(1,2)]
  show ?thesis
  proof (cases "waits_for_all ?i \<and> (\<exists>r. writes_reg r ?i)")
    case True
    then have "n \<in> set (m_dependency (m_insts (get_inst_dependency w) ! n))" using deps(2) by auto
    then show ?thesis
      using True check_dependency_let_through assms(1,3) deps(1)
      by (fastforce simp: check_dependency_def rbind_eq_Inr nth_res_eq_Inr)
  next
    case False
    then have "set (m_dependency (m_insts (get_inst_dependency w) ! n)) =
        {j. \<exists>r. awaits ?i r \<and> last_writer (m_insts w) n r = Some j}"
      using deps(2) by (auto simp: awaits_def)
    moreover from this have "\<forall>d \<in> set (m_dependency (m_insts ?w ! n)). d < length (completions ?w)"
      using assms(3) last_writer_less [of "m_insts w" n] by auto
    from check_dependency_ready [OF _ _ this, of now] have
      "check_dependency now ?w = Inr (\<forall>d \<in> set (m_dependency (m_insts (get_inst_dependency w) ! n)). cs ! d \<le> now)"
      using deps(1) assms(1) by simp
    ultimately show ?thesis using False by (auto split: option.split)
  qed
qed

definition exit_insts :: "inst list" where
  "exit_insts = sample_insts @ [new_inst (new_trace_inst 0 0 0 ''ffffffff'' 0 [] ''EXIT'' 0 [] 0)]"

theorem check_dependency_correct_witness:
  "check_dependency 9
     ((get_inst_dependency ((new_warp 0 0)\<lparr>m_insts := exit_insts\<rparr>))\<lparr>warp_point := 2, completions := [INT_MAX, 5]\<rparr>) =
     Inr False \<and>
   check_dependency 9
     ((get_inst_dependency ((new_warp 0 0)\<lparr>m_insts := exit_insts\<rparr>))\<lparr>warp_point := 3, completions := [4, 5, 10]\<rparr>) =
     Inr False"
proof -
  let ?w = "(new_warp 0 0)\<lparr>m_insts := exit_insts\<rparr>"
  have "last_writer exit_insts 2 ''R1'' = Some 0"
    "\<not> waits_for_all (exit_insts ! 2)" "m_dependency (exit_insts ! 2) = []"
    "i_dest_regs (exit_insts ! 2) = [''R1'']" "2 < length exit_insts"
    by code_simp+
  then have "check_dependency 9 ((get_inst_dependency ?w)\<lparr>warp_point := 2, completions := [INT_MAX, 5]\<rparr>) = Inr False"
    using check_dependency_correct [of 2 ?w "[INT_MAX, 5]" 9]
    by (auto simp: awaits_def INT_MAX_def split: if_splits option.splits)
  moreover have "waits_for_all (exit_insts ! 3)" "m_dependency (exit_insts ! 3) = []" "i_dest_num (exit_insts ! 3) = 0"
    "3 < length exit_insts" "last_writer exit_insts 3 ''R1'' = Some 2"
    by code_simp+
  ultimately show ?thesis
    using check_dependency_correct [of 3 ?w "[4, 5, 10]" 9]
    by (auto simp: awaits_def writes_reg_def intro!: exI [of _ "''R1''"])
qed

text \<open>C14. A barrier or \<open>EXIT\<close> that writes a register waits for itself: its own position is
  among its dependencies, so as soon as all earlier instructions are complete the check reads the
  completion times out of range.\<close>

theorem barrier_waits_for_itself:
  assumes "n < length (m_insts w)" and "waits_for_all (m_insts w ! n)"
    and "writes_reg r (m_insts w ! n)" and "length cs = n" and "list_all (\<lambda>t. t \<le> now) cs"
  shows "check_dependency now ((get_inst_dependency w)\<lparr>warp_point := n, completions := cs\<rparr>) =
    Inl Undefined_Behaviour"
proof -
  let ?i = "m_insts (get_inst_dependency w) ! n"
  have spec: "length (m_insts (get_inst_dependency w)) = length (m_insts w)"
    "resolved (m_insts w) n (m_insts w ! n) ?i"
    using dependency_loop_spec [of "[]" "m_insts w" 0 "m_insts w"] assms(1)
    by (simp_all add: get_inst_dependency_def fun_eq_iff)
  have "last_writer (m_insts w) (Suc n) r = Some n" using assms(3) by simp
  then have "\<exists>r. last_writer (m_insts w) (Suc n) r = Some n" by blast
  then have n: "n \<in> set (m_dependency ?i)"
    using spec(2) [unfolded resolved_def, THEN conjunct2] assms(2) by (simp del: last_writer.simps)
  let ?w = "(get_inst_dependency w)\<lparr>warp_point := n, completions := cs\<rparr>"
  show ?thesis
    using check_dependency_undefined [of ?w ?i now n] n spec(1) assms(1,4,5) by simp
qed

theorem barrier_waits_for_itself_witness:
  "check_dependency 9
     ((get_inst_dependency ((new_warp 0 0)\<lparr>m_insts :=
         [new_inst (new_trace_inst 0 0 0 ''ffffffff'' 1 [''R1''] ''BAR.RED.POPC'' 0 [] 0)]\<rparr>))
        \<lparr>warp_point := 0, completions := []\<rparr>) = Inl Undefined_Behaviour"
proof -
  let ?i = "new_inst (new_trace_inst 0 0 0 ''ffffffff'' 1 [''R1''] ''BAR.RED.POPC'' 0 [] 0)"
  have "waits_for_all ?i" "writes_reg ''R1'' ?i" by code_simp+
  then show ?thesis
    using barrier_waits_for_itself [of 0 "(new_warp 0 0)\<lparr>m_insts := [?i]\<rparr>" "''R1''" "[]" 9] by simp
qed

section \<open>Sharing of units\<close>

text \<open>The loops that build the units: once \<open>unit_out\<close> is set it stays, and every kind with fewer
  than four units is mapped to it.\<close>

definition small_kinds_ok :: "(string \<times> int) set \<Rightarrow> nat option \<Rightarrow> (string, nat) std_map \<Rightarrow> bool" where
  "small_kinds_ok K uo sub \<longleftrightarrow>
     wf_map sub \<and> (\<forall>(name, n) \<in> K. n < int subcores \<longrightarrow> uo \<noteq> None \<and> map_of sub name = uo)"

lemma fold_add_unit:
  assumes "fold add_unit kinds (us, uo, sub) = (us', uo', sub')" and "small_kinds_ok K uo sub"
    and "distinct (map fst kinds)" and "fst ` K \<inter> fst ` set kinds = {}"
  shows "small_kinds_ok (K \<union> set kinds) uo' sub' \<and> (uo \<noteq> None \<longrightarrow> uo' = uo)"
  using assms
proof (induction kinds arbitrary: us uo sub K)
  case (Cons kind kinds)
  obtain name n where kind: "kind = (name, n)" by (cases kind)
  obtain us1 uo1 sub1 where step: "add_unit kind (us, uo, sub) = (us1, uo1, sub1)"
    by (metis prod_cases3)
  have ok: "small_kinds_ok (insert kind K) uo1 sub1" and keep: "uo \<noteq> None \<longrightarrow> uo1 = uo"
    using step Cons.prems(2,4)
    by (force simp: add_unit_def kind small_kinds_ok_def map_of_put wf_map_put
        split: if_splits option.splits)+
  have "fst ` insert kind K \<inter> fst ` set kinds = {}"
    using Cons.prems(3,4) by (auto simp: kind)
  from Cons.IH [OF _ ok _ this] Cons.prems(1,3) step
  have "small_kinds_ok (insert kind K \<union> set kinds) uo' sub' \<and> (uo1 \<noteq> None \<longrightarrow> uo' = uo1)"
    by simp
  with keep show ?case by auto
qed simp

text \<open>All the kinds of units of which there are fewer than four share a single unit, in and
  across the subcores: two such kinds never issue independently, and the shared unit has the name
  and the width of the first of them.\<close>

theorem small_units_shared:
  assumes "distinct (map fst kinds)" and "load_all_subcore_units kinds = (us, cores)"
    and "(k1, n1) \<in> set kinds" "n1 < 4" and "(k2, n2) \<in> set kinds" "n2 < 4" and "i < 4" "j < 4"
  shows "\<exists>u. map_of (cores ! i) k1 = Some u \<and> map_of (cores ! j) k2 = Some u"
proof -
  let ?f = "\<lambda>(_ :: nat) (us, unit_out, cores).
    let (us, unit_out, subcore) = fold add_unit kinds (us, unit_out, [])
    in (us, unit_out, cores @ [subcore])"
  have run: "length cores' = length cores0 + length xs \<and> (uo0 \<noteq> None \<longrightarrow> uo' = uo0) \<and>
      (\<forall>sub \<in> set cores'. small_kinds_ok (set kinds) uo' sub)"
    if "fold ?f xs (us0, uo0, cores0) = (us', uo', cores')"
      and "\<forall>sub \<in> set cores0. small_kinds_ok (set kinds) uo0 sub"
    for xs us0 uo0 cores0 us' uo' cores'
    using that
  proof (induction xs arbitrary: us0 uo0 cores0)
    case (Cons x xs)
    obtain us1 uo1 sub1 where step: "fold add_unit kinds (us0, uo0, []) = (us1, uo1, sub1)"
      by (metis prod_cases3)
    have "small_kinds_ok {} uo0 []" by (simp add: small_kinds_ok_def)
    from fold_add_unit [OF step this assms(1)]
    have sub1: "small_kinds_ok (set kinds) uo1 sub1" and keep: "uo0 \<noteq> None \<longrightarrow> uo1 = uo0"
      by auto
    have "\<forall>sub \<in> set (cores0 @ [sub1]). small_kinds_ok (set kinds) uo1 sub"
      using Cons.prems(2) sub1 keep
      by (auto simp: small_kinds_ok_def)
    from Cons.IH [OF _ this] Cons.prems(1) step keep show ?case by auto
  qed simp
  obtain uo where "fold ?f [0..<subcores] ([], None, []) = (us, uo, cores)"
    using assms(2) by (auto simp: load_all_subcore_units_def split: prod.splits)
  from run [OF this] have "length cores = 4"
    and ok: "\<forall>sub \<in> set cores. small_kinds_ok (set kinds) uo sub"
    by (auto simp: subcores_def)
  then have "cores ! i \<in> set cores" "cores ! j \<in> set cores" using assms(7,8) by simp_all
  then have "small_kinds_ok (set kinds) uo (cores ! i)" "small_kinds_ok (set kinds) uo (cores ! j)"
    using ok by blast+
  then have "uo \<noteq> None" "map_of (cores ! i) k1 = uo" "map_of (cores ! j) k2 = uo"
    using assms(3-6) by (auto simp: small_kinds_ok_def subcores_def)
  then show ?thesis by auto
qed

theorem small_units_shared_witness:
  "\<exists>u. map_of (snd (load_all_subcore_units [(''DP_units'', 2), (''SFU_units'', 16), (''UDP_units'', 1)]) ! 0)
         ''DP_units'' = Some u \<and>
       map_of (snd (load_all_subcore_units [(''DP_units'', 2), (''SFU_units'', 16), (''UDP_units'', 1)]) ! 3)
         ''UDP_units'' = Some u"
  using small_units_shared [of "[(''DP_units'', 2), (''SFU_units'', 16), (''UDP_units'', 1)]"
      "fst (load_all_subcore_units [(''DP_units'', 2), (''SFU_units'', 16), (''UDP_units'', 1)])"
      "snd (load_all_subcore_units [(''DP_units'', 2), (''SFU_units'', 16), (''UDP_units'', 1)])"
      "''DP_units''" 2 "''UDP_units''" 1 0 3]
  by simp

end
