(* ===== verification/Sm_Cycle.thy ===== *)
theory Sm_Cycle
  imports Streaming_Multiprocessor
begin

text \<open>
  The cycle of a multiprocessor (\<^verbatim>\<open>gpu.cpp\<close>): write-back of the L1 and of the replies from L2,
  retirement of blocks, the load/store units, the launch of blocks and the issue of instructions to
  the subcores, with the classification of idle cycles.
\<close>

section \<open>Issue\<close>

text \<open>One dispatch of \<open>issue_inst\<close>; the counter is the number of threads issued.\<close>

definition dispatch_inst ::
  "nat \<Rightarrow> int \<times> int \<Rightarrow> int \<times> sm_state \<Rightarrow> (int \<times> sm_state) res"
where
  "dispatch_inst sub_num ref = (\<lambda>(issued, sm, k, g).
     rbind (warp_at ref k) (\<lambda>w.
     rbind (nth_res (m_insts w) (warp_point w)) (\<lambda>i.
     let sm = sm\<lparr>m_total_inst := m_total_inst sm + 1\<rparr> in
     rbind (get_isa_latency_entry (sm_gpu_config sm) (i_opcode i)) (\<lambda>(latency, name).
     rbind (get_subcore_unit sub_num name sm) (\<lambda>u.
     rbind (nth_res (units sm) u) (\<lambda>un.
     if ready_time un \<le> cycles sm then
       rbind (if name = ''LDS_units'' then
                ldst_process i u ref
                  (sm\<lparr>m_ldst_inst := m_ldst_inst sm + 1,
                      m_execute_ldst_inst := m_execute_ldst_inst sm + i_active_thread_num i\<rparr>, k, g)
              else
                rbind (delay_unit u (get_issue_interval_cycles name un) sm) (\<lambda>sm.
                rbind (update_warp ref (\<lambda>w. Inr (push_completion (cycles sm + latency) w)) k) (\<lambda>k.
                  Inr (sm, k, g)))) (\<lambda>(sm, k, g).
       rbind (update_warp ref (\<lambda>w. Inr (w\<lparr>warp_point := warp_point w + 1\<rparr>)) k) (\<lambda>k.
         Inr (issued + i_active_thread_num i, sm, k, g)))
     else Inr (issued, sm, k, g)))))))"

definition issue_inst :: "nat \<Rightarrow> int \<times> int \<Rightarrow> sm_state \<Rightarrow> (int \<times> sm_state) res" where
  "issue_inst sub_num ref = (\<lambda>(sm, k, g).
     rbind (cfg_int (sm_gpu_config sm) ''num_inst_dispatch_units_per_warp'') (\<lambda>n.
       foldM (\<lambda>_. dispatch_inst sub_num ref) [0..<nat n] (0, sm, k, g)))"

text \<open>The first subcore that is free this cycle and whose unit for the warp is ready.\<close>

fun find_subcore ::
  "warp \<Rightarrow> bool list \<Rightarrow> nat list \<Rightarrow> streaming_multiprocessor \<Rightarrow> nat option res"
where
  "find_subcore w active [] sm = Inr None"
| "find_subcore w active (s # ss) sm =
     (if active ! s then
        rbind (check_unit_in_subcore w s sm) (\<lambda>ok.
          if ok then Inr (Some s) else find_subcore w active ss sm)
      else find_subcore w active ss sm)"

definition finished :: "warp \<Rightarrow> bool" where
  "finished w \<longleftrightarrow> warp_point w \<ge> length (m_insts w) \<and> m_pending_mem_request_num w = 0 \<and>
     pending_inst w = 0"

definition retire_warp :: "int \<times> int \<Rightarrow> sm_state \<Rightarrow> sm_state res" where
  "retire_warp ref = (\<lambda>(sm, k, g).
     rbind (warp_at ref k) (\<lambda>w.
     rbind (get_block (w_block_id w) sm k) (\<lambda>b.
       Inr (sm, k\<lparr>m_blocks := map_put (w_block_id w)
               (b\<lparr>warp_vec := map_erase (snd ref) (warp_vec b),
                  retired_warps := retired_warps b @ [w\<lparr>w_active := False\<rparr>]\<rparr>) (m_blocks k)\<rparr>, g))))"

text \<open>
  The loop over the warps of a block: finished warps are retired; the first warp that can issue does
  and ends the loop, so a block issues at most once a cycle.  The list holds the numbers of the warps
  still to be looked at.
\<close>

type_synonym issue_state = "int \<times> bool list \<times> sm_state"

fun issue_block :: "int \<Rightarrow> int list \<Rightarrow> issue_state \<Rightarrow> issue_state res" where
  "issue_block bid [] s = Inr s"
| "issue_block bid (wid # rest) (issued, active, sm, k, g) =
     (if True \<notin> set active then Inr (issued, active, sm, k, g)
      else
        rbind (warp_at (bid, wid) k) (\<lambda>w.
        if finished w then
          rbind (retire_warp (bid, wid) (sm, k, g)) (\<lambda>s. issue_block bid rest (issued, active, s))
        else if \<not> warp_point w < length (m_insts w)
        then issue_block bid rest (issued, active, sm, k, g)
        else
          rbind (check_dependency (cycles sm) w) (\<lambda>ready.
          if \<not> ready then issue_block bid rest (issued, active, sm, k, g)
          else
            rbind (find_subcore w active [0..<subcores] sm) (\<lambda>sub.
            case sub of
              None \<Rightarrow> issue_block bid rest (issued, active, sm, k, g)
            | Some sub_num \<Rightarrow>
                rbind (issue_inst sub_num (bid, wid) (sm, k, g)) (\<lambda>(n, s).
                  Inr (issued + n, active[sub_num := False], s))))))"

definition subcore_active :: "nat \<Rightarrow> streaming_multiprocessor \<Rightarrow> bool res" where
  "subcore_active sub_num sm =
     foldM (\<lambda>(name, _) ok. if ok then Inr True else check_unit sub_num name sm)
       (m_sm_pipeline_units (sm_gpu_config sm)) False"

definition subcores_active :: "streaming_multiprocessor \<Rightarrow> bool list res" where
  "subcores_active sm =
     foldM (\<lambda>s active. rbind (subcore_active s sm) (\<lambda>a. Inr (active @ [a]))) [0..<subcores] []"

definition issue_from_block :: "int \<Rightarrow> issue_state \<Rightarrow> issue_state res" where
  "issue_from_block bid = (\<lambda>(issued, active, sm, k, g).
     if True \<notin> set active then Inr (issued, active, sm, k, g)
     else
       rbind (deref (map_of (m_blocks k) bid)) (\<lambda>b.
       if block_is_active b
       then issue_block bid (map fst (warp_vec b)) (issued, active, sm, k, g)
       else Inr (issued, active, sm, k, g)))"

definition schedule_warps_in_subcores :: "sm_state \<Rightarrow> (int \<times> sm_state) res" where
  "schedule_warps_in_subcores = (\<lambda>(sm, k, g).
     rbind (subcores_active sm) (\<lambda>active.
     rbind (foldM issue_from_block (map fst (block_vec sm)) (0, active, sm, k, g))
       (\<lambda>(issued, active, s). Inr (issued, s))))"

section \<open>Write-back\<close>

text \<open>
  One request of an instruction is done: when it was the last, the instruction completes now.  The
  completion index must be that of an issued instruction.
\<close>

definition complete_request :: "int \<Rightarrow> int \<Rightarrow> warp \<Rightarrow> warp res" where
  "complete_request now ci w =
     (let (all_done, w) = decrease_pending_request ci w in
      rbind (if all_done
             then guard (0 \<le> ci \<and> nat ci < length (completions w)) Undefined_Behaviour
                    (Inr (w\<lparr>completions := (completions w)[nat ci := now]\<rparr>))
             else Inr w) (\<lambda>w.
        Inr (w\<lparr>m_pending_mem_request_num := m_pending_mem_request_num w - 1\<rparr>)))"

definition warp_of_mf :: "mem_fetch \<Rightarrow> streaming_multiprocessor \<Rightarrow> kernel \<Rightarrow> warp res" where
  "warp_of_mf mf sm k =
     rbind (get_block (m_src_block_id mf) sm k) (\<lambda>b. deref (get_warp (m_src_warp_id mf) b))"

definition credit_warp :: "mem_fetch \<Rightarrow> sm_state \<Rightarrow> sm_state res" where
  "credit_warp mf = (\<lambda>(sm, k, g).
     rbind (update_warp (m_src_block_id mf, m_src_warp_id mf)
              (complete_request (cycles sm) (m_completion_index mf)) k) (\<lambda>k. Inr (sm, k, g)))"

text \<open>The two callers differ in what an uncounted request means.\<close>

definition credit_or_exit :: "mem_fetch \<Rightarrow> sm_state \<Rightarrow> sm_state res" where
  "credit_or_exit mf = (\<lambda>(sm, k, g).
     rbind (warp_of_mf mf sm k) (\<lambda>w.
       guard (pending_request_can_decrease (m_completion_index mf) w) Exit_Called
         (credit_warp mf (sm, k, g))))"

fun write_back_loop :: "mf_ptr list \<Rightarrow> sm_state \<Rightarrow> (mf_ptr list \<times> sm_state) res" where
  "write_back_loop [] s = Inr ([], s)"
| "write_back_loop (p # rest) (sm, k, g) =
     rbind (mf_at p g) (\<lambda>mf.
     if m_l1_ready_time mf \<le> cycles sm then
       rbind (warp_of_mf mf sm k) (\<lambda>w.
       rbind (if pending_request_can_decrease (m_completion_index mf) w
              then credit_warp mf (sm, k, g) else Inr (sm, k, g)) (\<lambda>(sm, k, g).
       rbind (mf_delete p g) (\<lambda>g. write_back_loop rest (sm, k, g))))
     else Inr (p # rest, sm, k, g))"

definition write_back :: "sm_state \<Rightarrow> sm_state res" where
  "write_back = (\<lambda>(sm, k, g).
     rbind (write_back_loop (l1_to_sm (m_l1_data_cache sm)) (sm, k, g)) (\<lambda>(q, sm, k, g).
       Inr (sm\<lparr>m_l1_data_cache := (m_l1_data_cache sm)\<lparr>l1_to_sm := q\<rparr>\<rparr>, k, g)))"

text \<open>The body of the loop that answers the requests merged in the MSHR.\<close>

definition answer_merged :: "mf_ptr \<Rightarrow> sm_state \<Rightarrow> sm_state res" where
  "answer_merged p = (\<lambda>(sm, k, g).
     rbind (mf_at p g) (\<lambda>mf.
     rbind (credit_or_exit mf (sm, k, g)) (\<lambda>(sm, k, g).
     rbind (cache_fill p (word_of_int (cycles sm)) (m_l1_data_cache sm, g)) (\<lambda>(l1, g).
       Inr (sm\<lparr>m_l1_data_cache := l1,
               retired_mem_fetches := retired_mem_fetches sm @ [p]\<rparr>, k, g)))))"

definition write_back_request_l2 :: "mf_ptr option \<Rightarrow> sm_state \<Rightarrow> sm_state res" where
  "write_back_request_l2 reply = (\<lambda>(sm, k, g).
     case reply of
       None \<Rightarrow> Inr (sm, k, g)
     | Some p \<Rightarrow>
         rbind (mf_at p g) (\<lambda>mf.
         if \<not> is_write mf then
           rbind (mshr_while (m_sector_address mf) answer_merged (m_mshrs (m_l1_data_cache sm))
                    (sm, k, g)) (\<lambda>(t, sm, k, g).
             Inr (sm\<lparr>m_l1_data_cache := (m_l1_data_cache sm)\<lparr>m_mshrs := t\<rparr>\<rparr>, k, g))
         else
           rbind (credit_or_exit mf (sm, k, g)) (\<lambda>(sm, k, g).
           rbind (mf_delete p g) (\<lambda>g. Inr (sm, k, g)))))"

section \<open>Why a cycle is idle\<close>

text \<open>The warps of the resident active blocks, in the order of the loops.\<close>

definition resident_warps :: "streaming_multiprocessor \<Rightarrow> kernel \<Rightarrow> warp list res" where
  "resident_warps sm k =
     foldM (\<lambda>bid ws. rbind (deref (map_of (m_blocks k) bid)) (\<lambda>b.
              Inr (if block_is_active b then ws @ map snd (warp_vec b) else ws)))
       (map fst (block_vec sm)) []"

definition has_ready_warp :: "warp list \<Rightarrow> bool" where
  "has_ready_warp ws = list_ex (\<lambda>w. warp_point w < length (m_insts w)) ws"

definition has_pending_memory_warp :: "warp list \<Rightarrow> bool" where
  "has_pending_memory_warp ws = list_ex (\<lambda>w. m_pending_mem_request_num w > 0 \<or> pending_inst w > 0) ws"

definition waits_for_dependency :: "int \<Rightarrow> warp \<Rightarrow> bool" where
  "waits_for_dependency now w \<longleftrightarrow>
     list_ex (\<lambda>d. d < length (completions w) \<and> now < completions w ! d)
       (m_dependency (m_insts w ! warp_point w))"

definition has_dependency_stall_warp :: "int \<Rightarrow> warp list \<Rightarrow> bool" where
  "has_dependency_stall_warp now ws =
     list_ex (\<lambda>w. warp_point w < length (m_insts w) \<and> waits_for_dependency now w) ws"

fun has_unit_stall_warp :: "streaming_multiprocessor \<Rightarrow> warp list \<Rightarrow> bool res" where
  "has_unit_stall_warp sm [] = Inr False"
| "has_unit_stall_warp sm (w # ws) =
     (if warp_point w \<ge> length (m_insts w) \<or> waits_for_dependency (cycles sm) w
      then has_unit_stall_warp sm ws
      else
        rbind (get_isa_latency_entry (sm_gpu_config sm) (i_opcode (m_insts w ! warp_point w)))
          (\<lambda>e. foldM (\<lambda>s stalled. if \<not> stalled then Inr False
                 else rbind (check_unit s (snd e) sm) (\<lambda>ok. Inr (\<not> ok))) [0..<subcores] True))"

text \<open>The chain of tests after the issue.\<close>

definition classify_cycle :: "int \<Rightarrow> streaming_multiprocessor \<Rightarrow> kernel \<Rightarrow> streaming_multiprocessor res"
where
  "classify_cycle t sm k =
     (if t > 0 then Inr (sm\<lparr>m_issue_active_cycles := m_issue_active_cycles sm + 1\<rparr>)
      else
        rbind (resident_warps sm k) (\<lambda>ws.
        if has_pending_memory_warp ws
        then Inr (sm\<lparr>m_memory_stall_cycles := m_memory_stall_cycles sm + 1\<rparr>)
        else if has_dependency_stall_warp (cycles sm) ws
        then Inr (sm\<lparr>m_dependency_stall_cycles := m_dependency_stall_cycles sm + 1\<rparr>)
        else rbind (has_unit_stall_warp sm ws) (\<lambda>stall.
        if stall then Inr (sm\<lparr>m_unit_stall_cycles := m_unit_stall_cycles sm + 1\<rparr>)
        else if has_ready_warp ws
        then Inr (sm\<lparr>m_scheduler_idle_cycles := m_scheduler_idle_cycles sm + 1\<rparr>)
        else Inr sm)))"

section \<open>The cycle\<close>

definition blocks_left :: "kernel \<Rightarrow> bool" where
  "blocks_left k \<longleftrightarrow> block_pointer k < int (length (m_blocks k))"

definition sm_active :: "streaming_multiprocessor \<Rightarrow> kernel \<Rightarrow> (bool \<times> streaming_multiprocessor) res" where
  "sm_active sm k =
     rbind (foldM (\<lambda>bid a. if a then Inr True
                     else rbind (deref (map_of (m_blocks k) bid)) (\<lambda>b. Inr (block_is_active b)))
              (map fst (block_vec sm)) False) (\<lambda>a.
       let a = (a \<or> blocks_left k) in Inr (a, sm\<lparr>is_active := a\<rparr>))"

definition del_inactive_block :: "streaming_multiprocessor \<Rightarrow> kernel \<Rightarrow> streaming_multiprocessor res" where
  "del_inactive_block sm k =
     rbind (foldM (\<lambda>(bid, u) bs. rbind (deref (map_of (m_blocks k) bid)) (\<lambda>b.
              Inr (if block_is_active b then bs @ [(bid, u)] else bs))) (block_vec sm) [])
       (\<lambda>bs. Inr (sm\<lparr>block_vec := bs\<rparr>))"

definition room_for_block :: "streaming_multiprocessor \<Rightarrow> bool" where
  "room_for_block sm \<longleftrightarrow> of_nat (length (block_vec sm)) < (word_of_int (m_max_blocks sm) :: u64)"

text \<open>Load the requests of the kernel's next block and make it resident.\<close>

definition take_block :: "trace_reader \<Rightarrow> streaming_multiprocessor \<times> kernel \<Rightarrow>
  (streaming_multiprocessor \<times> kernel) res"
where
  "take_block r = (\<lambda>(sm, k).
     rbind (deref (map_of (m_blocks k) (block_pointer k))) (\<lambda>b.
     rbind (stoi (map_get_str (l1_cache_config (sm_gpu_config sm)) ''l1_cache_line_size'')) (\<lambda>line_size.
     rbind (load_mem_request r line_size (b_block_id b) b) (\<lambda>b.
       Inr (sm\<lparr>block_vec := map_put (b_block_id b) () (block_vec sm)\<rparr>,
            k\<lparr>m_blocks := map_put (block_pointer k) b (m_blocks k),
              block_pointer := block_pointer k + 1\<rparr>)))))"

text \<open>\<open>while (block_vec.size() < m_max_blocks && block_pointer < m_blocks.size())\<close>: at most
  as many turns as the kernel has blocks.\<close>

fun launch_blocks :: "nat \<Rightarrow> trace_reader \<Rightarrow> streaming_multiprocessor \<times> kernel \<Rightarrow>
  (streaming_multiprocessor \<times> kernel) res"
where
  "launch_blocks 0 r s = Inr s"
| "launch_blocks (Suc n) r (sm, k) =
     (if room_for_block sm \<and> blocks_left k
      then rbind (take_block r (sm, k)) (launch_blocks n r)
      else Inr (sm, k))"

definition lds_units :: "streaming_multiprocessor \<Rightarrow> nat list" where
  "lds_units sm =
     concat (map (\<lambda>m. case map_of m ''LDS_units'' of None \<Rightarrow> [] | Some u \<Rightarrow> [u]) (m_subcores sm))"

definition sm_cycle :: "trace_reader \<Rightarrow> sm_state \<Rightarrow> sm_state res" where
  "sm_cycle r = (\<lambda>(sm, k, g).
     rbind (sm_active sm k) (\<lambda>(a, sm).
     if \<not> a then Inr (sm, k, g)
     else
       (let sm = sm\<lparr>cycles := cycles sm + 1, m_queue_sm_to_l1_busy := replicate 4 False\<rparr> in
        rbind (icnt_receive (sm_id sm) g) (\<lambda>(mf, g).
        rbind (write_back (sm, k, g)) (\<lambda>s.
        rbind (write_back_request_l2 mf s) (\<lambda>(sm, k, g).
        rbind (l1_cache_cycle (cycles sm) (m_l1_data_cache sm, g)) (\<lambda>(l1, g).
        rbind (del_inactive_block (sm\<lparr>m_l1_data_cache := l1\<rparr>) k) (\<lambda>sm.
        rbind (foldM unit_cycle (lds_units sm) (sm, k, g)) (\<lambda>(sm, k, g).
        rbind (launch_blocks (length (m_blocks k)) r (sm, k)) (\<lambda>(sm, k).
        rbind (schedule_warps_in_subcores (sm, k, g)) (\<lambda>(t, sm, k, g).
        rbind (classify_cycle t sm k) (\<lambda>sm.
          Inr (sm\<lparr>m_execute_inst := m_execute_inst sm + t\<rparr>, k, g)))))))))))))"

end
