(* ===== verification/Sm_Issue.thy ===== *)
theory Sm_Issue
  imports Sm_Cycle
begin

text \<open>
  The issue of instructions (\<^verbatim>\<open>issue_inst\<close> of \<^verbatim>\<open>gpu.cpp\<close>): every operation that touches the issuing
  warp records exactly one completion time, so completion times are found at the positions of their
  instructions, where \<open>check_dependency\<close> looks for them.
\<close>

section \<open>One completion per issued instruction\<close>

text \<open>An operation on the warp behind a reference.\<close>

lemma find_map_replace:
  "find P xs = Some x \<Longrightarrow> P y \<Longrightarrow> find P (map (\<lambda>w. if P w then y else w) xs) = Some y"
  by (induction xs) (auto split: if_splits)

lemma update_warpE:
  assumes "update_warp ref f k = Inr k'"
  obtains w w' where "warp_at ref k = Inr w" "f w = Inr w'"
    "w_warp_id w' = w_warp_id w \<Longrightarrow> warp_at ref k' = Inr w'"
proof -
  from assms obtain b w w' where b: "map_of (m_blocks k) (fst ref) = Some b"
    and w: "warp_at ref k = Inr w" and w': "f w = Inr w'"
    and k': "k' = k\<lparr>m_blocks := map_put (fst ref)
      (if map_of (warp_vec b) (snd ref) \<noteq> None
       then b\<lparr>warp_vec := map_put (snd ref) w' (warp_vec b)\<rparr>
       else b\<lparr>retired_warps := map (\<lambda>w. if w_warp_id w = snd ref then w' else w) (retired_warps b)\<rparr>)
      (m_blocks k)\<rparr>"
    by (auto simp: update_warp_def rbind_eq_Inr deref_eq_Inr Let_def)
  have "warp_at ref k' = Inr w'" if id: "w_warp_id w' = w_warp_id w"
  proof (cases "map_of (warp_vec b) (snd ref)")
    case None
    with w b have f: "find (\<lambda>w. w_warp_id w = snd ref) (retired_warps b) = Some w"
      by (auto simp: warp_at_def deref_eq_Inr)
    then have "w_warp_id w = snd ref" by (auto simp: find_Some_iff)
    with id find_map_replace [OF f, of w'] None k' show ?thesis by (simp add: warp_at_def)
  next
    case (Some v)
    then show ?thesis by (simp add: warp_at_def k')
  qed
  with w w' that show ?thesis by blast
qed

text \<open>The warp recorded one completion time, and nothing else that the issue reads changed.\<close>

definition recorded :: "int list \<Rightarrow> warp \<Rightarrow> warp \<Rightarrow> bool" where
  "recorded ts w w' \<longleftrightarrow> completions w' = completions w @ ts \<and> warp_point w' = warp_point w \<and>
     m_insts w' = m_insts w \<and> w_warp_id w' = w_warp_id w"

lemma update_warp_records:
  assumes "update_warp ref f k = Inr k'" and "warp_at ref k = Inr w"
    and "\<And>w'. f w = Inr w' \<Longrightarrow> recorded ts w w'"
  shows "\<exists>w'. warp_at ref k' = Inr w' \<and> recorded ts w w'"
  using assms(1)
  by (rule update_warpE) (use assms(2,3) in \<open>auto simp: recorded_def\<close>)

lemma recorded_push: "recorded [t] w (push_completion t w)"
  by (simp add: recorded_def push_completion_def)

lemma recorded_trans: "recorded ts w w' \<Longrightarrow> recorded us w' w'' \<Longrightarrow> recorded (ts @ us) w w''"
  by (simp add: recorded_def)

lemma recorded_count: "recorded [] w (count_request ci w)"
  by (simp add: recorded_def count_request_def increase_pending_request_def Let_def)

lemma atom_request_records:
  assumes "atom_request ref a (sm, k, g) = Inr (sm', k', g')" and "warp_at ref k = Inr w"
  shows "\<exists>w'. warp_at ref k' = Inr w' \<and> recorded [] w w'"
proof -
  from assms obtain ci where "update_warp ref (\<lambda>w. Inr (count_request ci w)) k = Inr k'"
    by (auto simp: atom_request_def rbind_eq_Inr Let_def mf_new_def)
  from update_warp_records [OF this assms(2), of "[]"] recorded_count show ?thesis by auto
qed

lemma atom_requests_record:
  assumes "foldM (atom_request ref) as (sm, k, g) = Inr (sm', k', g')" and "warp_at ref k = Inr w"
  shows "\<exists>w'. warp_at ref k' = Inr w' \<and> recorded [] w w'"
  using assms
proof (induction as arbitrary: sm k g w)
  case (Cons a as)
  then obtain sm1 k1 g1 where a: "atom_request ref a (sm, k, g) = Inr (sm1, k1, g1)"
    and as: "foldM (atom_request ref) as (sm1, k1, g1) = Inr (sm', k', g')"
    by (auto simp: rbind_eq_Inr)
  from atom_request_records [OF a Cons.prems(2)] obtain w1
    where w1: "warp_at ref k1 = Inr w1" "recorded [] w w1" by blast
  from Cons.IH [OF as w1(1)] w1(2) recorded_trans [of "[]" w w1 "[]"] show ?case by auto
qed (simp add: recorded_def)

lemma shared_records:
  assumes "process_LDS_STS_ATOMS n u ref (sm, k, g) = Inr (sm', k', g')" and "warp_at ref k = Inr w"
  shows "\<exists>w' t. warp_at ref k' = Inr w' \<and> recorded [t] w w'"
proof -
  from assms obtain t where "update_warp ref (\<lambda>w. Inr (push_completion t w)) k = Inr k'"
    by (auto simp: process_LDS_STS_ATOMS_def rbind_eq_Inr)
  from update_warp_records [OF this assms(2), of "[t]"] recorded_push show ?thesis by auto
qed

lemma global_records:
  assumes "process_LDG_STG p pi n op u ref (sm, k, g) = Inr (sm', k', g')" and "warp_at ref k = Inr w"
  shows "\<exists>w' t. warp_at ref k' = Inr w' \<and> recorded [t] w w'"
proof -
  have start: "recorded [t] v (start_ldst op mi t v)" for mi t v
    by (simp add: recorded_def start_ldst_def push_completion_def Let_def)
  from assms have "\<exists>t. update_warp ref (\<lambda>w. Inr (push_completion t w)) k = Inr k' \<or>
      (\<exists>mi. update_warp ref (\<lambda>w. Inr (start_ldst op mi t w)) k = Inr k')"
    unfolding process_LDG_STG_def by (auto simp: rbind_eq_Inr Let_def split: if_splits)
  then obtain t where "update_warp ref (\<lambda>w. Inr (push_completion t w)) k = Inr k' \<or>
      (\<exists>mi. update_warp ref (\<lambda>w. Inr (start_ldst op mi t w)) k = Inr k')" by blast
  then show ?thesis
  proof (elim disjE exE)
    assume "update_warp ref (\<lambda>w. Inr (push_completion t w)) k = Inr k'"
    from update_warp_records [OF this assms(2), of "[t]"] recorded_push show ?thesis by auto
  next
    fix mi assume "update_warp ref (\<lambda>w. Inr (start_ldst op mi t w)) k = Inr k'"
    from update_warp_records [OF this assms(2), of "[t]"] start show ?thesis by auto
  qed
qed

lemma atom_records:
  assumes "process_ATOM_ATOMG p pi u ref (sm, k, g) = Inr (sm', k', g')" and "warp_at ref k = Inr w"
  shows "\<exists>w' t. warp_at ref k' = Inr w' \<and> recorded [t] w w'"
proof -
  from assms obtain k1 as sm1 where k1: "update_warp ref (\<lambda>w. Inr (push_completion INT_MAX w)) k = Inr k1"
    and as: "foldM (atom_request ref) as (sm1, k1, g) = Inr (sm', k', g')"
    by (auto simp: process_ATOM_ATOMG_def rbind_eq_Inr)
  from update_warp_records [OF k1 assms(2), of "[INT_MAX]"] recorded_push
  obtain w1 where w1: "warp_at ref k1 = Inr w1" "recorded [INT_MAX] w w1" by auto
  from atom_requests_record [OF as w1(1)] w1(2) recorded_trans [of "[INT_MAX]" w w1 "[]"]
  show ?thesis by auto
qed

lemma ldst_records:
  assumes "ldst_process i u ref (sm, k, g) = Inr (sm', k', g')" and "warp_at ref k = Inr w"
  shows "\<exists>w' t. warp_at ref k' = Inr w' \<and> recorded [t] w w'"
proof -
  have other: ?thesis if "update_warp ref (\<lambda>w. Inr (push_completion t w)) k = Inr k'" for t
    using update_warp_records [OF that assms(2), of "[t]"] recorded_push by auto
  define op where "op = (if i_full_opcode i = [] then i_opcode i else i_full_opcode i)"
  show ?thesis
    using assms(1) global_records [OF _ assms(2)] shared_records [OF _ assms(2)]
      atom_records [OF _ assms(2)] other
    by (auto simp: ldst_process_def Let_def rbind_eq_Inr simp flip: op_def
        split: if_splits option.splits)
qed

text \<open>In-order issue: a dispatch either finds the unit busy and leaves the warp alone, or it
  advances the warp by exactly one instruction, records exactly one completion time for it and
  counts its threads.  So the completion time of an instruction is found at its position.\<close>

theorem dispatch_inst_issues_one:
  assumes "dispatch_inst sub_num ref (issued, sm, k, g) = Inr (issued', sm', k', g')"
    and "warp_at ref k = Inr w"
  shows "\<exists>w'. warp_at ref k' = Inr w' \<and>
    (w' = w \<and> issued' = issued \<or>
     (\<exists>t. completions w' = completions w @ [t] \<and> warp_point w' = warp_point w + 1 \<and>
        m_insts w' = m_insts w \<and> warp_point w < length (m_insts w) \<and>
        issued' = issued + i_active_thread_num (m_insts w ! warp_point w)))"
proof -
  define i where "i = m_insts w ! warp_point w"
  from assms have len: "warp_point w < length (m_insts w)"
    by (auto simp: dispatch_inst_def rbind_eq_Inr nth_res_eq_Inr)
  consider (busy) "k' = k" "issued' = issued"
    | (issue) k1 t w1 where "warp_at ref k1 = Inr w1" "recorded [t] w w1"
        "update_warp ref (\<lambda>w. Inr (w\<lparr>warp_point := warp_point w + 1\<rparr>)) k1 = Inr k'"
        "issued' = issued + i_active_thread_num i"
  proof -
    have push: "\<exists>w1. warp_at ref k1 = Inr w1 \<and> recorded [t] w w1"
      if "update_warp ref (\<lambda>w. Inr (push_completion t w)) k = Inr k1" for k1 t
      using update_warp_records [OF that assms(2), of "[t]"] recorded_push by auto
    note ldst = ldst_records [OF _ assms(2)]
    show ?thesis
      using assms that
      by (auto simp: dispatch_inst_def rbind_eq_Inr nth_res_eq_Inr Let_def i_def
          split: if_splits dest!: push ldst)
  qed
  then show ?thesis
  proof cases
    case busy
    with assms(2) show ?thesis by auto
  next
    case issue
    from issue(3) obtain w2 where "warp_at ref k' = Inr w2" "w2 = w1\<lparr>warp_point := warp_point w1 + 1\<rparr>"
      by (rule update_warpE) (use issue(1) in auto)
    then show ?thesis
      using issue(2,4) len by (intro exI [of _ w2]) (auto simp: recorded_def i_def)
  qed
qed

text \<open>A multiprocessor with one resident warp of three instructions.\<close>

definition tiny_config :: gpu_config where
  "tiny_config = empty_gpu_config
     \<lparr>m_gpu_config := [(''num_inst_dispatch_units_per_warp'', ''1'')],
      m_sm_pipeline_units := [(''INT_units'', 64), (''LDS_units'', 16)],
      gpu_isa_latency := [(''IADD3'', 4, ''INT_units''), (''LDG'', 30, ''LDS_units'')]\<rparr>"

definition tiny_sm :: streaming_multiprocessor where
  "tiny_sm = (new_sm 0 tiny_config two_by_two)\<lparr>block_vec := [(0, ())], cycles := 7\<rparr>"

definition tiny_warp :: warp where
  "tiny_warp = get_inst_dependency ((new_warp 0 0)\<lparr>m_insts := tl sample_insts\<rparr>)"

definition tiny_kernel :: kernel where
  "tiny_kernel = (new_kernel 1)\<lparr>m_blocks := [(0, (new_block 1 0)\<lparr>warp_vec := [(0, tiny_warp)]\<rparr>)],
     block_pointer := 1\<rparr>"

definition tiny_env :: gpu_env where
  "tiny_env =
     \<lparr>mf_heap = \<lambda>_. None, next_mf_ptr = 0, mf_id = 0,
      m_icnt = new_local_interconnect
        \<lparr>cfg_in_buffer_limit = 512, cfg_out_buffer_limit = 512, subnets = 2, arbiter_algo = NAIVE_RR\<rparr>,
      gpu_sim_cycles = 7, address_to_sms = \<lambda>_. {}, total_access = 0, l2_push_num = 0, l2_pop_num = 0,
      trace_file_ok = True\<rparr>"

theorem dispatch_inst_issues_one_witness:
  "case dispatch_inst 1 (0, 0) (0, tiny_sm, tiny_kernel, tiny_env) of
     Inl _ \<Rightarrow> False
   | Inr (n, sm, k, g) \<Rightarrow> \<exists>w. warp_at (0, 0) k = Inr w \<and>
       (w = tiny_warp \<and> n = 0 \<or> (\<exists>t. completions w = [t]))"
proof -
  have w: "warp_at (0, 0) tiny_kernel = Inr tiny_warp" and c: "completions tiny_warp = []"
    by (simp_all add: tiny_kernel_def warp_at_def tiny_warp_def get_inst_dependency_def new_warp_def)
  have "case dispatch_inst 1 (0, 0) (0, tiny_sm, tiny_kernel, tiny_env) of
     Inl _ \<Rightarrow> False | Inr _ \<Rightarrow> True"
    by code_simp
  then obtain n sm k g where
    run: "dispatch_inst 1 (0, 0) (0, tiny_sm, tiny_kernel, tiny_env) = Inr (n, sm, k, g)"
    by (auto split: sum.splits)
  from dispatch_inst_issues_one [OF run w] c show ?thesis
    unfolding run by auto
qed

end
