(* ===== verification/Sm_Accounting.thy ===== *)
theory Sm_Accounting
  imports Sm_Issue
begin

text \<open>
  What a multiprocessor counts: the outstanding requests of a warp and of its instructions, whose
  last reply completes the instruction, and the classes of its cycles: which class an active cycle is
  put into, and which cycles are in none.
\<close>

section \<open>Counting requests\<close>

text \<open>The counter of pending requests of a warp is the sum of those of its instructions.\<close>

definition requests_counted :: "warp \<Rightarrow> bool" where
  "requests_counted w \<longleftrightarrow> wf_map (pending_request w) \<and> (\<forall>(i, n) \<in> set (pending_request w). 0 \<le> n) \<and>
     m_pending_mem_request_num w = sum_list (map snd (pending_request w))"

lemma sum_map_put:
  "wf_map m \<Longrightarrow> sum_list (map snd (map_put k v m)) = sum_list (map snd m) - map_get0 m k + v"
proof (induction k v m rule: map_put.induct)
  case (2 k v k' v' m)
  then have "k < k' \<Longrightarrow> map_of m k = None"
    by (auto simp: wf_map_Cons map_of_None_iff)
  with 2 show ?case by (auto simp: wf_map_Cons map_get0_def)
qed (simp add: map_get0_def)

lemma map_get0_put: "wf_map m \<Longrightarrow> map_get0 (map_put k v m) i = (if i = k then v else map_get0 m i)"
  by (simp add: map_get0_def map_of_put)

lemma map_get0_nonneg: "\<forall>(i, n) \<in> set m. 0 \<le> n \<Longrightarrow> 0 \<le> map_get0 m i"
  by (auto simp: map_get0_def split: option.splits dest!: map_of_SomeD)

lemma map_put_values:
  "\<forall>(i, n) \<in> set m. 0 \<le> n \<Longrightarrow> 0 \<le> v \<Longrightarrow> \<forall>(i, n) \<in> set (map_put k v m). (0 :: int) \<le> n"
  by (auto dest!: set_map_put)

lemma increase_eq:
  "increase_pending_request i w =
   w\<lparr>pending_request := map_put i (map_get0 (pending_request w) i + 1) (pending_request w)\<rparr>"
  by (simp add: increase_pending_request_def map_get0_def)

lemma count_request_spec:
  assumes "requests_counted w"
  shows "requests_counted (count_request i w) \<and>
    map_get0 (pending_request (count_request i w)) j =
      map_get0 (pending_request w) j + (if j = i then 1 else 0) \<and>
    m_pending_mem_request_num (count_request i w) = m_pending_mem_request_num w + 1 \<and>
    completions (count_request i w) = completions w"
proof -
  have nonneg: "0 \<le> map_get0 (pending_request w) i + 1"
    using assms map_get0_nonneg [of "pending_request w" i] by (simp add: requests_counted_def)
  then show ?thesis
    using assms map_put_values [of "pending_request w" "map_get0 (pending_request w) i + 1" i]
    by (simp add: requests_counted_def count_request_def increase_eq Let_def sum_map_put wf_map_put
        map_get0_put)
qed

lemma complete_request_spec:
  assumes "requests_counted w" and "0 < map_get0 (pending_request w) (int c)"
    and "c < length (completions w)"
  shows "\<exists>w'. complete_request now (int c) w = Inr w' \<and> requests_counted w' \<and>
    map_get0 (pending_request w') (int c) = map_get0 (pending_request w) (int c) - 1 \<and>
    m_pending_mem_request_num w' = m_pending_mem_request_num w - 1 \<and>
    completions w' = (if map_get0 (pending_request w) (int c) = 1 then (completions w)[c := now]
                      else completions w)"
  using assms map_put_values [of "pending_request w" "map_get0 (pending_request w) (int c) - 1" "int c"]
  by (auto simp: complete_request_def decrease_pending_request_def Let_def requests_counted_def
      sum_map_put wf_map_put map_get0_put)

lemma complete_request_other:
  assumes "requests_counted w" and "0 < map_get0 (pending_request w) i" and "complete_request now i w = Inr w'"
  shows "map_get0 (pending_request w') j = map_get0 (pending_request w) j - (if j = i then 1 else 0)"
  using assms
  by (auto simp: complete_request_def decrease_pending_request_def Let_def requests_counted_def rbind_eq_Inr guard_eq_Inr
      map_get0_put split: if_splits)

text \<open>
  A warp's requests and replies, in any order and of any of its instructions: a load sends one sector a
  cycle, so the replies to its first requests can come before its last ones are sent.
\<close>

datatype request_event = is_Sent: Sent int | Answered int int

fun request_step :: "request_event \<Rightarrow> warp \<Rightarrow> warp res" where
  "request_step (Sent i) w = Inr (count_request i w)"
| "request_step (Answered now i) w = complete_request now i w"

text \<open>What is outstanding, for an instruction and for the warp.\<close>

definition sent :: "request_event list \<Rightarrow> int \<Rightarrow> int" where
  "sent es i = int (length (filter (\<lambda>e. e = Sent i) es))"

definition answered :: "request_event list \<Rightarrow> int \<Rightarrow> int" where
  "answered es i = int (length (filter (\<lambda>e. case e of Sent _ \<Rightarrow> False | Answered _ j \<Rightarrow> j = i) es))"

definition outstanding :: "(int \<Rightarrow> int) \<Rightarrow> request_event list \<Rightarrow> int \<Rightarrow> int" where
  "outstanding before es i = before i + sent es i - answered es i"

definition outstanding_of_warp :: "int \<Rightarrow> request_event list \<Rightarrow> int" where
  "outstanding_of_warp before es =
     before + int (length (filter is_Sent es)) - int (length (filter (\<lambda>e. \<not> is_Sent e) es))"

text \<open>Every reply answers a request that is outstanding, of one of the \<open>n\<close> instructions issued.\<close>

definition answers_ok :: "nat \<Rightarrow> (int \<Rightarrow> int) \<Rightarrow> request_event list \<Rightarrow> bool" where
  "answers_ok n before es \<longleftrightarrow>
     (\<forall>k<length es. \<forall>t i. es ! k = Answered t i \<longrightarrow> 0 \<le> i \<and> i < int n \<and> 0 < outstanding before (take k es) i)"

text \<open>The time of the last reply with which nothing of the instruction was outstanding.\<close>

definition completed_at :: "(int \<Rightarrow> int) \<Rightarrow> request_event list \<Rightarrow> int \<Rightarrow> int \<Rightarrow> bool" where
  "completed_at before es i t \<longleftrightarrow>
     (\<exists>k<length es. es ! k = Answered t i \<and> outstanding before (take (Suc k) es) i = 0 \<and>
        (\<forall>j<length es. k < j \<longrightarrow> (\<forall>u. es ! j = Answered u i \<longrightarrow> outstanding before (take (Suc j) es) i \<noteq> 0)))"

lemma outstanding_snoc:
  "outstanding before (es @ [e]) i = outstanding before es i +
     (case e of Sent j \<Rightarrow> if j = i then 1 else 0 | Answered _ j \<Rightarrow> if j = i then -1 else 0)"
  by (simp add: outstanding_def sent_def answered_def split: request_event.split)

lemma outstanding_of_warp_snoc:
  "outstanding_of_warp before (es @ [e]) = outstanding_of_warp before es + (if is_Sent e then 1 else -1)"
  by (simp add: outstanding_of_warp_def)

lemma no_events [simp]:
  "outstanding before [] i = before i" "outstanding_of_warp b [] = b" "\<not> completed_at before [] i t"
  by (simp_all add: outstanding_def sent_def answered_def outstanding_of_warp_def completed_at_def)

lemma all_events_snoc: "(\<forall>k<length (es @ [e]). P k) \<longleftrightarrow> P (length es) \<and> (\<forall>k<length es. P k)"
  by (auto simp: less_Suc_eq)

lemma ex_event_snoc: "(\<exists>k<length (es @ [e]). P k) \<longleftrightarrow> P (length es) \<or> (\<exists>k<length es. P k)"
  by (auto simp: less_Suc_eq)

lemma answers_ok_snoc:
  "answers_ok n before (es @ [e]) \<longleftrightarrow> answers_ok n before es \<and>
     (\<forall>t i. e = Answered t i \<longrightarrow> 0 \<le> i \<and> i < int n \<and> 0 < outstanding before es i)"
  unfolding answers_ok_def all_events_snoc by (auto simp: nth_append)

lemma completed_at_snoc:
  "completed_at before (es @ [e]) i t \<longleftrightarrow>
     (if (\<exists>u. e = Answered u i) \<and> outstanding before (es @ [e]) i = 0 then e = Answered t i
      else completed_at before es i t)"
proof -
  have take_snoc: "take (Suc k) (es @ [e]) = take (Suc k) es" if "k < length es" for k
    using that by simp
  show ?thesis
    unfolding completed_at_def ex_event_snoc all_events_snoc
    by (simp add: nth_append take_snoc cong: conj_cong) (auto simp: take_snoc)
qed

text \<open>C16. An instruction completes with the last of its requests.  Whatever requests of a warp are sent
  and answered, in whatever order, as long as replies answer requests that are outstanding: the pending
  counters of the instructions and of the warp are exactly what is outstanding, and the completion
  time of an instruction is the cycle of the last reply with which nothing of it was outstanding;
  without such a reply the time is left as it was.\<close>

theorem requests_complete_once:
  assumes "requests_counted w" and "answers_ok (length (completions w)) (map_get0 (pending_request w)) es"
  shows "\<exists>w'. foldM request_step es w = Inr w' \<and> requests_counted w' \<and>
    (\<forall>i. map_get0 (pending_request w') i = outstanding (map_get0 (pending_request w)) es i) \<and>
    m_pending_mem_request_num w' = outstanding_of_warp (m_pending_mem_request_num w) es \<and>
    length (completions w') = length (completions w) \<and>
    (\<forall>c<length (completions w).
       (\<forall>t. completed_at (map_get0 (pending_request w)) es (int c) t \<longrightarrow> completions w' ! c = t) \<and>
       ((\<nexists>t. completed_at (map_get0 (pending_request w)) es (int c) t) \<longrightarrow> completions w' ! c = completions w ! c))"
  using assms(2)
proof (induction es rule: rev_induct)
  case Nil
  then show ?case using assms(1) by simp
next
  case (snoc e es)
  let ?b = "map_get0 (pending_request w)"
  from snoc obtain w1 where w1: "foldM request_step es w = Inr w1" "requests_counted w1"
    "\<And>i. map_get0 (pending_request w1) i = outstanding ?b es i"
    "m_pending_mem_request_num w1 = outstanding_of_warp (m_pending_mem_request_num w) es"
    "length (completions w1) = length (completions w)"
    "\<And>c t. c < length (completions w) \<Longrightarrow> completed_at ?b es (int c) t \<Longrightarrow> completions w1 ! c = t"
    "\<And>c. c < length (completions w) \<Longrightarrow> \<nexists>t. completed_at ?b es (int c) t \<Longrightarrow> completions w1 ! c = completions w ! c"
    by (auto simp: answers_ok_snoc)
  show ?case
  proof (cases e)
    case (Sent i)
    then show ?thesis
      using w1 count_request_spec [OF w1(2), of i]
      by (simp add: foldM_append outstanding_snoc outstanding_of_warp_snoc completed_at_snoc)
  next
    case (Answered now i)
    with snoc.prems obtain c where c: "i = int c" "c < length (completions w)" "0 < outstanding ?b es i"
      by (auto simp: answers_ok_snoc) (metis nat_0_le nat_less_iff)
    with complete_request_spec [OF w1(2), of c now] w1(3,5) obtain w2 where w2:
      "complete_request now (int c) w1 = Inr w2" "requests_counted w2"
      "m_pending_mem_request_num w2 = m_pending_mem_request_num w1 - 1"
      "completions w2 = (if outstanding ?b es (int c) = 1 then (completions w1)[c := now] else completions w1)"
      by auto
    moreover have "map_get0 (pending_request w2) j = outstanding ?b (es @ [e]) j" for j
      using complete_request_other [OF w1(2) _ w2(1)] w1(3) c by (auto simp: outstanding_snoc Answered)
    ultimately show ?thesis
      using w1 c by (auto simp: foldM_append outstanding_snoc outstanding_of_warp_snoc completed_at_snoc Answered nth_list_update)
  qed
qed

text \<open>With its last request answered an instruction has the time of its last reply.\<close>

lemma completed_at_last_reply:
  assumes "outstanding before (es @ Answered t i # rest) i = 0" and "answered rest i = 0" "sent rest i = 0"
  shows "completed_at before (es @ Answered t i # rest) i t"
  using assms
proof (induction rest rule: rev_induct)
  case Nil
  then show ?case by (simp add: completed_at_snoc)
next
  case (snoc e rest)
  have e: "e \<noteq> Sent i" "\<And>u. e \<noteq> Answered u i"
    using snoc.prems(2,3) by (auto simp: sent_def answered_def split: if_splits)
  moreover have "outstanding before (es @ Answered t i # rest) i = 0"
    using snoc.prems(1) e outstanding_snoc [of before "es @ Answered t i # rest" e i]
    by (cases e) auto
  moreover have "answered rest i = 0" "sent rest i = 0"
    using snoc.prems(2,3) by (auto simp: sent_def answered_def split: if_splits)
  ultimately show ?case
    using snoc.IH completed_at_snoc [of before "es @ Answered t i # rest" e i t] by auto
qed

definition issued_pair :: warp where
  "issued_pair = (new_warp 0 0)\<lparr>completions := [INT_MAX, INT_MAX]\<rparr>"

theorem requests_complete_once_witness:
  "\<exists>w'. foldM request_step [Sent 0, Sent 1, Answered 100 0, Sent 0, Sent 0, Answered 101 0, Answered 102 1, Answered 103 0]
      issued_pair = Inr w' \<and> completions w' = [103, 102] \<and> m_pending_mem_request_num w' = 0"
proof -
  let ?es = "[Sent 0, Sent 1, Answered 100 0, Sent 0, Sent 0, Answered 101 0, Answered 102 1, Answered 103 0]"
  have counted: "requests_counted issued_pair" by (simp add: requests_counted_def issued_pair_def new_warp_def)
  have none: "map_get0 (pending_request issued_pair) = (\<lambda>_. 0)"
    by (simp add: issued_pair_def new_warp_def map_get0_def fun_eq_iff)
  have ok: "answers_ok (length (completions issued_pair)) (map_get0 (pending_request issued_pair)) ?es"
    unfolding none
    by (auto simp: answers_ok_def issued_pair_def less_Suc_eq nth_Cons' outstanding_def sent_def answered_def
        numeral_nat split: if_splits)
  have at: "completed_at (\<lambda>_. 0) ?es 0 103" "completed_at (\<lambda>_. 0) ?es 1 102"
    using completed_at_last_reply [of "\<lambda>_. 0" "take 7 ?es" 103 0 "[]"]
      completed_at_last_reply [of "\<lambda>_. 0" "take 6 ?es" 102 1 "[Answered 103 0]"]
    by (simp_all add: outstanding_def sent_def answered_def)
  from requests_complete_once [OF counted ok] at show ?thesis
    unfolding none
    by (auto simp: issued_pair_def new_warp_def outstanding_of_warp_def less_Suc_eq nth_Cons' length_Suc_conv
        numeral_2_eq_2)
qed

text \<open>So an instruction of many sectors completes too early when a reply overtakes its next request.\<close>

theorem completes_too_early:
  "\<exists>w'. foldM request_step [Sent 0, Answered 100 0, Sent 0] issued_pair = Inr w' \<and>
     completions w' = [100, INT_MAX] \<and> map_get0 (pending_request w') 0 = 1"
  by (simp add: issued_pair_def new_warp_def complete_request_def decrease_pending_request_def Let_def count_request_def
      increase_pending_request_def map_get0_def)

section \<open>Where the cycles go\<close>

definition stall_counters :: "streaming_multiprocessor \<Rightarrow> int \<times> int \<times> int \<times> int \<times> int \<times> int \<times> int" where
  "stall_counters sm = (cycles sm, m_execute_inst sm, m_issue_active_cycles sm, m_memory_stall_cycles sm,
     m_dependency_stall_cycles sm, m_unit_stall_cycles sm, m_scheduler_idle_cycles sm)"

named_theorems keeps_counters \<open>operations that leave the cycle counters alone\<close>

text \<open>An invariant of the state that an operation threads.\<close>

definition same_counters :: "streaming_multiprocessor \<Rightarrow> sm_state \<Rightarrow> bool" where
  "same_counters sm0 s \<longleftrightarrow> stall_counters (fst s) = stall_counters sm0"

lemma same_counters_refl [simp]: "same_counters sm (sm, k, g)"
  by (simp add: same_counters_def)

lemma update_unit_counters [keeps_counters]:
  "update_unit i f sm = Inr sm' \<Longrightarrow> stall_counters sm' = stall_counters sm"
  by (auto simp: update_unit_def stall_counters_def rbind_eq_Inr)

lemma delay_unit_counters [keeps_counters]:
  "delay_unit i n sm = Inr sm' \<Longrightarrow> stall_counters sm' = stall_counters sm"
  unfolding delay_unit_def by (rule update_unit_counters)








lemma release_ldst_counters [keeps_counters]:
  "release_ldst i ref (sm, k, g) = Inr (sm', k', g') \<Longrightarrow> stall_counters sm' = stall_counters sm"
  by (auto simp: release_ldst_def rbind_eq_Inr dest: update_unit_counters)














text \<open>The counters of the classes.\<close>

datatype cycle_class = Issuing | Memory_Stall | Dependency_Stall | Unit_Stall | Scheduler_Idle


text \<open>
  Why nothing was issued, from the warps of the active blocks: memory before dependencies before units,
  and of the warps that have instructions left the first decides between the units and the scheduler.
  If all have reached their ends there is no reason.
\<close>

definition unfinished :: "warp \<Rightarrow> bool" where
  "unfinished w \<longleftrightarrow> warp_point w < length (m_insts w)"

definition idle_class :: "streaming_multiprocessor \<Rightarrow> warp list \<Rightarrow> cycle_class option" where
  "idle_class sm ws =
     (if \<exists>w \<in> set ws. 0 < m_pending_mem_request_num w \<or> 0 < pending_inst w then Some Memory_Stall
      else if \<exists>w \<in> set ws. unfinished w \<and>
        (\<exists>d \<in> set (m_dependency (m_insts w ! warp_point w)). d < length (completions w) \<and> cycles sm < completions w ! d)
      then Some Dependency_Stall
      else case find unfinished ws of
             None \<Rightarrow> None
           | Some w \<Rightarrow> Some (if \<forall>s \<in> {0..<subcores}. check_unit_in_subcore w s sm = Inr False then Unit_Stall else Scheduler_Idle))"




text \<open>The reason depends neither on the counters of the classes nor on that of the instructions.\<close>

lemma check_unit_counters:
  "check_unit_in_subcore w s (sm\<lparr>m_issue_active_cycles := n\<rparr>) = check_unit_in_subcore w s sm"
  "check_unit_in_subcore w s (sm\<lparr>m_memory_stall_cycles := n\<rparr>) = check_unit_in_subcore w s sm"
  "check_unit_in_subcore w s (sm\<lparr>m_dependency_stall_cycles := n\<rparr>) = check_unit_in_subcore w s sm"
  "check_unit_in_subcore w s (sm\<lparr>m_unit_stall_cycles := n\<rparr>) = check_unit_in_subcore w s sm"
  "check_unit_in_subcore w s (sm\<lparr>m_scheduler_idle_cycles := n\<rparr>) = check_unit_in_subcore w s sm"
  "check_unit_in_subcore w s (sm\<lparr>m_execute_inst := n\<rparr>) = check_unit_in_subcore w s sm"
  "cycles (sm\<lparr>m_issue_active_cycles := n\<rparr>) = cycles sm"
  "cycles (sm\<lparr>m_memory_stall_cycles := n\<rparr>) = cycles sm"
  "cycles (sm\<lparr>m_dependency_stall_cycles := n\<rparr>) = cycles sm"
  "cycles (sm\<lparr>m_unit_stall_cycles := n\<rparr>) = cycles sm"
  "cycles (sm\<lparr>m_scheduler_idle_cycles := n\<rparr>) = cycles sm"
  "cycles (sm\<lparr>m_execute_inst := n\<rparr>) = cycles sm"
  by (simp_all add: check_unit_in_subcore_def check_unit_def get_subcore_unit_def)

lemma idle_class_counters [simp]:
  "idle_class (sm\<lparr>m_issue_active_cycles := n\<rparr>) = idle_class sm"
  "idle_class (sm\<lparr>m_memory_stall_cycles := n\<rparr>) = idle_class sm"
  "idle_class (sm\<lparr>m_dependency_stall_cycles := n\<rparr>) = idle_class sm"
  "idle_class (sm\<lparr>m_unit_stall_cycles := n\<rparr>) = idle_class sm"
  "idle_class (sm\<lparr>m_scheduler_idle_cycles := n\<rparr>) = idle_class sm"
  "idle_class (sm\<lparr>m_execute_inst := n\<rparr>) = idle_class sm"
  unfolding idle_class_def check_unit_counters by simp_all


text \<open>No cycle is unaccounted for while a warp waits for memory or has instructions left.\<close>

lemma idle_class_Some:
  "idle_class sm ws \<noteq> None \<longleftrightarrow>
   (\<exists>w \<in> set ws. 0 < m_pending_mem_request_num w \<or> 0 < pending_inst w \<or> unfinished w)"
proof -
  have "find unfinished ws = None \<longleftrightarrow> \<not> (\<exists>w \<in> set ws. unfinished w)" by (auto simp: find_None_iff)
  then show ?thesis by (cases "find unfinished ws") (auto simp: idle_class_def)
qed






end
