(* ===== verification/Occupancy.thy ===== *)
theory Occupancy
  imports Complex_Main Kernel Config_Reader
begin

text \<open>
  How many blocks fit on a multiprocessor: the \<open>max_block_limit_by_*\<close> functions of
  \<^verbatim>\<open>gpu.cpp\<close>, which compute in single precision.  A \<open>float\<close> is a rational number of 24 significant
  bits; \<open>fl\<close> rounds to the nearest one, ties to even, in the range of the normal numbers.  A
  division by zero (whose infinity the code then converts to \<open>int\<close>) is undefined behaviour.
\<close>

section \<open>Single precision\<close>

definition round_half_even :: "rat \<Rightarrow> int" where
  "round_half_even q =
     (let n = \<lfloor>q\<rfloor>; r = q - of_int n
      in if 2 * r < 1 then n else if 2 * r > 1 then n + 1 else if even n then n else n + 1)"

fun fl_scaled :: "nat \<Rightarrow> rat \<Rightarrow> rat" where
  "fl_scaled 0 q = 0"
| "fl_scaled (Suc fuel) q =
     (if q < 2 ^ 23 then fl_scaled fuel (2 * q) / 2
      else if q \<ge> 2 ^ 24 then 2 * fl_scaled fuel (q / 2)
      else of_int (round_half_even q))"

text \<open>150 doublings or halvings reach every normal number.\<close>

definition fl :: "rat \<Rightarrow> rat" where
  "fl q = (if q < 0 then - fl_scaled 150 (- q) else if q = 0 then 0 else fl_scaled 150 q)"

definition fdiv :: "rat \<Rightarrow> rat \<Rightarrow> rat res" where
  "fdiv x y = guard (y \<noteq> 0) Undefined_Behaviour (Inr (fl (x / y)))"

definition fmul :: "rat \<Rightarrow> rat \<Rightarrow> rat" where
  "fmul x y = fl (x * y)"

definition of_int32 :: "int \<Rightarrow> rat" where
  "of_int32 n = fl (of_int n)"

text \<open>The conversion to \<open>int\<close> truncates and is undefined out of range.\<close>

definition to_int32 :: "rat \<Rightarrow> int res" where
  "to_int32 q =
     (let n = (if q < 0 then \<lceil>q\<rceil> else \<lfloor>q\<rfloor>)
      in guard (- (2 ^ 31) \<le> n \<and> n < 2 ^ 31) Undefined_Behaviour (Inr n))"

definition ceil2 :: "rat \<Rightarrow> rat \<Rightarrow> int res" where
  "ceil2 x s = rbind (fdiv x s) (\<lambda>q. to_int32 (fmul s (of_int \<lceil>q\<rceil>)))"

definition floor2 :: "rat \<Rightarrow> rat \<Rightarrow> int res" where
  "floor2 x s = rbind (fdiv x s) (\<lambda>q. to_int32 (fmul s (of_int \<lfloor>q\<rfloor>)))"

text \<open>\<open>std::stof\<close> on a decimal number with an optional fraction.\<close>

definition stof :: "string \<Rightarrow> rat res" where
  "stof s =
     (let (neg, t) = strip_sign (dropWhile is_space s);
          whole = takeWhile is_digit t; rest = dropWhile is_digit t;
          frac = (case rest of [] \<Rightarrow> [] | c # u \<Rightarrow> if c = CHR ''.'' then takeWhile is_digit u else []);
          v = of_int (decimal (whole @ frac)) / 10 ^ length frac
      in if whole = [] \<and> frac = [] then Inl Invalid_Argument
         else Inr (fl (if neg then - v else v)))"

section \<open>The limits\<close>

definition cap :: "gpu_config \<Rightarrow> string \<Rightarrow> int" where
  "cap c k = map_get0 (m_compute_capability c) k"

definition warps_per_block :: "gpu_config \<Rightarrow> kernel_info \<Rightarrow> int res" where
  "warps_per_block c ki =
     rbind (fdiv (of_int32 (uint (m_block_size ki))) (of_int32 (cap c ''warp_size''))) (\<lambda>q. ceil2 q 1)"

definition max_block_limit_by_regs :: "gpu_config \<Rightarrow> kernel_info \<Rightarrow> int res" where
  "max_block_limit_by_regs c ki =
     rbind (warps_per_block c ki) (\<lambda>warps.
     if m_num_registers ki = 0 then Inr (cap c ''max_active_blocks_per_SM'')
     else
       rbind (ceil2 (fmul (of_int32 (uint (m_num_registers ki))) (of_int32 (cap c ''warp_size'')))
                (of_int32 (cap c ''register_allocation_size''))) (\<lambda>regs_per_warp.
       rbind (fdiv (of_int32 (cap c ''max_registers_per_block'')) (of_int32 regs_per_warp)) (\<lambda>q.
       rbind (stof (map_get_str (m_gpu_config c) ''num_warp_schedulers_per_SM'')) (\<lambda>scheds.
       rbind (floor2 q scheds) (\<lambda>regs_per_sm.
       rbind (fdiv (of_int32 regs_per_sm) (of_int32 warps)) (\<lambda>a.
       rbind (floor2 a 1) (\<lambda>x.
       rbind (fdiv (of_int32 (cap c ''max_registers_per_SM''))
                (of_int32 (cap c ''max_registers_per_block''))) (\<lambda>b.
       rbind (floor2 b 1) (\<lambda>y. Inr (x * y))))))))))"

definition max_block_limit_by_smem :: "gpu_config \<Rightarrow> kernel_info \<Rightarrow> int res" where
  "max_block_limit_by_smem c ki =
     (if m_shared_mem_bytes ki = 0 then Inr (cap c ''max_active_blocks_per_SM'')
      else
        rbind (ceil2 (of_int32 (uint (m_shared_mem_bytes ki)))
                 (of_int32 (cap c ''smem_allocation_size''))) (\<lambda>smem.
        rbind (stof (map_get_str (m_gpu_config c) ''shared_mem_size'')) (\<lambda>size.
        rbind (fdiv size (of_int32 smem)) (\<lambda>q. floor2 q 1))))"

definition max_block_limit_by_warps :: "gpu_config \<Rightarrow> kernel_info \<Rightarrow> int res" where
  "max_block_limit_by_warps c ki =
     rbind (warps_per_block c ki) (\<lambda>warps.
     rbind (fdiv (of_int32 (cap c ''max_active_threads_per_SM'')) (of_int32 (cap c ''warp_size''))) (\<lambda>a.
     rbind (fdiv a (of_int32 warps)) (\<lambda>q.
     rbind (floor2 q 1) (\<lambda>n. Inr (min (cap c ''max_active_blocks_per_SM'') n)))))"

definition max_block_limit_by_others :: int where
  "max_block_limit_by_others = 2 ^ 31 - 1"

definition max_block_per_sm :: "gpu_config \<Rightarrow> kernel_info \<Rightarrow> int res" where
  "max_block_per_sm c ki =
     rbind (max_block_limit_by_smem c ki) (\<lambda>smem.
     rbind (max_block_limit_by_regs c ki) (\<lambda>regs.
     rbind (max_block_limit_by_warps c ki) (\<lambda>warps.
       Inr (min (min smem regs) (min warps max_block_limit_by_others)))))"


section \<open>Single precision is exact for hardware-sized numbers\<close>

lemma round_half_even_int [simp]: "round_half_even (of_int n) = n"
  by (simp add: round_half_even_def)

lemma round_half_even_error: "\<bar>of_int (round_half_even q) - q\<bar> \<le> 1 / 2"
proof -
  define n where "n = \<lfloor>q\<rfloor>"
  have n: "of_int n \<le> q" "q < of_int n + 1" unfolding n_def by linarith+
  show ?thesis using n
    by (simp add: round_half_even_def Let_def abs_if n_def [symmetric])
qed

text \<open>The rounding error is at most half a unit in the last of 24 bits.\<close>

lemma fl_scaled_error:
  assumes "0 < q" "q < 2 ^ 24" "2 ^ 23 \<le> 2 ^ f * q"
  shows "\<bar>fl_scaled (Suc f) q - q\<bar> \<le> q / 2 ^ 24"
  using assms
proof (induction f arbitrary: q)
  case 0
  then show ?case using round_half_even_error [of q] by simp
next
  case (Suc f)
  show ?case
  proof (cases "q < 2 ^ 23")
    case True
    with Suc.prems have "\<bar>fl_scaled (Suc f) (2 * q) - 2 * q\<bar> \<le> 2 * q / 2 ^ 24"
      by (intro Suc.IH) (simp_all add: mult.assoc mult.left_commute)
    then show ?thesis using True by (simp only: fl_scaled.simps(2) [of "Suc f"] if_True)
  next
    case False
    then show ?thesis using Suc.prems(2) round_half_even_error [of q] by simp
  qed
qed

lemma fl_scaled_int:
  assumes "0 < n" "n < 2 ^ 24" "2 ^ 23 \<le> 2 ^ f * n"
  shows "fl_scaled (Suc f) (of_int n) = of_int n"
  using assms
proof (induction f arbitrary: n)
  case (Suc f)
  show ?case
  proof (cases "n < 2 ^ 23")
    case True
    with Suc.prems have "fl_scaled (Suc f) (of_int (2 * n)) = of_int (2 * n)"
      by (intro Suc.IH) (simp_all add: mult.assoc mult.left_commute)
    moreover have "(of_int n :: rat) < 2 ^ 23" using True by simp
    ultimately show ?thesis by (simp only: fl_scaled.simps(2) [of "Suc f"] if_True of_int_mult) simp
  qed (use Suc.prems(2) in simp)
qed simp

lemma fl_int:
  assumes "0 \<le> n" "n < 2 ^ 24"
  shows "fl (of_int n) = of_int n"
proof (cases "n = 0")
  case False
  have "(2 :: int) ^ 23 \<le> 2 ^ 149 * n" using assms False by simp
  then show ?thesis using fl_scaled_int [of n 149] assms False
    by (simp add: fl_def del: fl_scaled.simps)
qed (simp add: fl_def)

lemma fl_error:
  assumes "0 < q" "q < 2 ^ 24" "1 / 2 ^ 100 \<le> q"
  shows "\<bar>fl q - q\<bar> \<le> q / 2 ^ 24"
proof -
  have "(2 :: rat) ^ 23 \<le> 2 ^ 149 * q" using assms(3) by simp
  then show ?thesis using fl_scaled_error [OF assms(1,2), of 149] assms(1)
    by (simp add: fl_def del: fl_scaled.simps)
qed


lemma fl_quotient_error:
  assumes "0 < q" "q < 2 ^ 22" "1 / 2 ^ 44 \<le> q"
  shows "\<bar>fl q - q\<bar> \<le> q / 2 ^ 24"
  using assms by (intro fl_error) simp_all

text \<open>What the code computes with a correctly rounded quotient: the floor and the ceiling of the
  exact one.  \<open>near e r x y\<close> says that \<open>r\<close> is the quotient up to \<open>e\<close> rounding errors, and the
  quotient itself when that is an integer.\<close>

definition near :: "rat \<Rightarrow> int \<Rightarrow> int \<Rightarrow> bool" where
  "near r x y \<longleftrightarrow>
     \<bar>r - of_int x / of_int y\<bar> * 2 ^ 22 \<le> of_int x / of_int y \<and> (y dvd x \<longrightarrow> r = of_int (x div y))"

lemma near_bounds:
  assumes "near r x y" "0 \<le> x" "x < 2 ^ 22" "0 < y"
  shows "of_int (x div y) \<le> r" "r < of_int (x div y) + 1"
    "\<lceil>r\<rceil> = - (- x div y)" "\<lfloor>r\<rfloor> = x div y"
proof -
  let ?q = "of_int x / of_int y :: rat"
  have y: "0 < (of_int y :: rat)" using assms(4) by simp
  have "\<bar>r - ?q\<bar> * 2 ^ 22 * of_int y \<le> of_int x"
    using assms(1) y by (simp add: near_def field_simps)
  moreover have "(of_int x :: rat) < 2 ^ 22" using assms(3) by simp
  ultimately have e: "\<bar>r - ?q\<bar> * of_int y < 1" by simp
  have div: "of_int x = of_int (x div y) * of_int y + (of_int (x mod y) :: rat)"
    by (metis div_mult_mod_eq of_int_add of_int_mult)
  then have q: "?q = of_int (x div y) + of_int (x mod y) / of_int y"
    using y by (simp add: field_simps)
  have "of_int (x div y) \<le> r \<and> r < of_int (x div y) + 1 \<and> \<lceil>r\<rceil> = - (- x div y)"
  proof (cases "y dvd x")
    case True
    then show ?thesis using assms(1) by (auto simp: near_def dvd_neg_div)
  next
    case False
    then have "1 \<le> x mod y" "x mod y \<le> y - 1"
      using assms(4) pos_mod_bound [of y x] pos_mod_sign [of y x]
      by (simp_all add: dvd_eq_mod_eq_0 order_less_le del: pos_mod_sign pos_mod_bound)
    then have m: "1 \<le> (of_int (x mod y) :: rat)" "(of_int (x mod y) :: rat) \<le> of_int y - 1"
      by (metis of_int_1 of_int_le_iff, metis of_int_1 of_int_diff of_int_le_iff)
    have "r * of_int y - of_int x = (r - ?q) * of_int y" using y by (simp add: field_simps)
    then have "\<bar>r * of_int y - of_int x\<bar> < 1" using e y by (simp add: abs_mult)
    then have "r * of_int y - of_int x < 1" "of_int x - r * of_int y < 1" by linarith+
    then have "of_int (x div y) * of_int y < r * of_int y"
      "r * of_int y < of_int (x div y) * of_int y + of_int y"
      using div m by linarith+
    then have "of_int (x div y) * of_int y < r * of_int y"
      "r * of_int y < (of_int (x div y) + 1) * of_int y"
      by (simp_all only: distrib_right mult_1)
    then have *: "of_int (x div y) < r" "r < of_int (x div y) + 1"
      using y mult_less_cancel_right_pos by blast+
    moreover have "- (- x div y) = x div y + 1"
      using False assms(4) zdiv_zminus1_eq_if [of y x] by (simp add: dvd_eq_mod_eq_0)
    ultimately show ?thesis by (simp add: ceiling_eq_iff)
  qed
  then show "of_int (x div y) \<le> r" "r < of_int (x div y) + 1"
    "\<lceil>r\<rceil> = - (- x div y)" "\<lfloor>r\<rfloor> = x div y"
    by (simp_all add: floor_eq_iff)
qed


lemma quotient_range:
  assumes "0 < x" "x < 2 ^ 22" "0 < y" "y < 2 ^ 44"
  shows "0 < (of_int x / of_int y :: rat)" "(of_int x / of_int y :: rat) < 2 ^ 22"
    "1 / 2 ^ 44 \<le> (of_int x / of_int y :: rat)"
proof -
  have y: "1 \<le> (of_int y :: rat)" "(of_int y :: rat) < 2 ^ 44"
    using assms(3,4) of_int_less_iff [of y "2 ^ 44", where 'a = rat] by simp_all
  have x: "1 \<le> (of_int x :: rat)" "(of_int x :: rat) < 2 ^ 22"
    using assms(1,2) of_int_less_iff [of x "2 ^ 22", where 'a = rat] by simp_all
  show "0 < (of_int x / of_int y :: rat)" using x y by simp
  have "(of_int x :: rat) / of_int y \<le> of_int x"
    using x y by (simp add: divide_le_eq mult_left_mono)
  then show "(of_int x / of_int y :: rat) < 2 ^ 22" using x by simp
  show "1 / 2 ^ 44 \<le> (of_int x / of_int y :: rat)" using x y by (simp add: field_simps)
qed

lemma near_fl:
  assumes "0 \<le> x" "x < 2 ^ 22" "0 < y" "y < 2 ^ 44"
  shows "near (fl (of_int x / of_int y)) x y"
proof (cases "x = 0")
  case False
  let ?q = "of_int x / of_int y :: rat"
  have q: "0 < ?q" "?q < 2 ^ 22" "1 / 2 ^ 44 \<le> ?q"
    using quotient_range [of x y] assms False by simp_all
  have "\<bar>fl ?q - ?q\<bar> \<le> ?q / 2 ^ 24" by (rule fl_quotient_error [OF q])
  then have "\<bar>fl ?q - ?q\<bar> * 2 ^ 22 \<le> ?q" using q(1) by simp
  moreover have "fl ?q = of_int (x div y)" if d: "y dvd x"
  proof -
    have "?q = of_int (x div y)" using d assms(3) by (auto simp: elim!: dvdE)
    moreover have "x div y \<le> x" using assms(1,3) zdiv_mono2 [of x 1 y] by simp
    ultimately show ?thesis using fl_int [of "x div y"] assms by (simp add: pos_imp_zdiv_nonneg_iff)
  qed
  ultimately show ?thesis by (simp add: near_def)
qed (simp add: near_def fl_def)

text \<open>A quotient rounded twice.\<close>

lemma two_roundings:
  fixes q :: rat
  assumes "\<bar>r - a\<bar> \<le> a / 2 ^ 24" "\<bar>a - q\<bar> \<le> q / 2 ^ 24" "0 < q"
  shows "\<bar>r - q\<bar> * 2 ^ 22 \<le> q"
  using assms by (simp add: abs_if split: if_splits)

lemma near_fl_fl:
  assumes "0 \<le> x" "x < 2 ^ 22" "0 < y" "y < 2 ^ 22" "0 < s" "s < 2 ^ 22"
  shows "near (fl (fl (of_int x / of_int y) / of_int s)) x (y * s)"
proof (cases "x = 0")
  case False
  let ?q = "of_int x / of_int y :: rat" and ?s = "of_int s :: rat"
  have q: "0 < ?q" "?q < 2 ^ 22" "1 / 2 ^ 44 \<le> ?q"
    using quotient_range [of x y] assms False by simp_all
  have s: "1 \<le> ?s" "?s < 2 ^ 22"
    using assms(5,6) of_int_less_iff [of s "2 ^ 22", where 'a = rat] by simp_all
  define a where "a = fl ?q"
  have a: "\<bar>a - ?q\<bar> \<le> ?q / 2 ^ 24" unfolding a_def by (rule fl_quotient_error [OF q])
  then have a': "0 < a" "a < 2 ^ 23" "1 / 2 ^ 45 \<le> a" using q by (simp_all add: abs_if split: if_splits)
  have "a / ?s \<le> a" using a' s by (simp add: divide_le_eq)
  moreover have "1 / 2 ^ 67 \<le> a / ?s" using a' s by (simp add: field_simps)
  ultimately have b: "\<bar>fl (a / ?s) - a / ?s\<bar> \<le> a / ?s / 2 ^ 24"
    using a' s by (intro fl_error) simp_all
  have "a / ?s - ?q / ?s = (a - ?q) / ?s" by (simp add: diff_divide_distrib)
  then have "\<bar>a / ?s - ?q / ?s\<bar> = \<bar>a - ?q\<bar> / ?s" using s by simp
  moreover have "\<bar>a - ?q\<bar> / ?s \<le> ?q / 2 ^ 24 / ?s" using a s by (intro divide_right_mono) simp_all
  ultimately have c: "\<bar>a / ?s - ?q / ?s\<bar> \<le> ?q / ?s / 2 ^ 24" by simp
  have "0 < ?q / ?s" by (rule divide_pos_pos) (use q s in linarith)+
  with b c have "\<bar>fl (a / ?s) - ?q / ?s\<bar> * 2 ^ 22 \<le> ?q / ?s" by (rule two_roundings)
  then have "\<bar>fl (a / ?s) - of_int x / of_int (y * s)\<bar> * 2 ^ 22 \<le> of_int x / of_int (y * s)" by simp
  moreover have "fl (a / ?s) = of_int (x div (y * s))" if d: "y * s dvd x"
  proof -
    from d obtain n where n: "x = y * s * n" by (rule dvdE)
    then have "0 < n"
      using assms False mult_pos_pos [OF assms(3,5)] by (auto simp: zero_less_mult_iff order_le_less)
    moreover have "s * n \<le> x" "n \<le> s * n" unfolding n
      using assms(3,5) \<open>0 < n\<close> by (simp_all add: mult.assoc)
    moreover have "?q = of_int (s * n)" unfolding n using assms(3) by simp
    ultimately have "a = of_int (s * n)" using assms(1,2) fl_int [of "s * n"] by (simp add: a_def)
    then have "a / ?s = of_int n" using assms(5) by simp
    moreover have "n \<le> x" using \<open>n \<le> s * n\<close> \<open>s * n \<le> x\<close> by (rule order_trans)
    then have "n < 2 ^ 24" using assms(2) by simp
    ultimately show ?thesis using fl_int [of n] \<open>0 < n\<close> assms(3,5) by (simp add: n)
  qed
  ultimately show ?thesis by (simp add: near_def a_def)
qed (simp add: near_def fl_def)


section \<open>Occupancy in integers\<close>

lemma of_int32_exact [simp]: "0 \<le> n \<Longrightarrow> n < 2 ^ 22 \<Longrightarrow> of_int32 n = of_int n"
  by (simp add: of_int32_def fl_int)

lemma fdiv_exact: "0 < y \<Longrightarrow> fdiv x (of_int y) = Inr (fl (x / of_int y))"
  by (simp add: fdiv_def)

lemma to_int32_exact:
  assumes "0 \<le> n" "n < 2 ^ 22"
  shows "to_int32 (of_int n) = Inr n"
  using assms by (simp add: to_int32_def)

text \<open>Division that rounds up.\<close>

definition ceil_div :: "int \<Rightarrow> int \<Rightarrow> int" where
  "ceil_div x y = - (- x div y)"

lemma ceil_div_pos: "0 < x \<Longrightarrow> 0 < y \<Longrightarrow> 0 < ceil_div x y"
  by (simp add: ceil_div_def pos_imp_zdiv_neg_iff)

lemma ceil_div_nonneg: "0 \<le> x \<Longrightarrow> 0 < y \<Longrightarrow> 0 \<le> ceil_div x y"
  using ceil_div_pos [of x y] by (cases "x = 0") (simp_all add: ceil_div_def)

lemma fmul_exact:
  assumes "0 \<le> m" "0 \<le> n" "m * n < 2 ^ 22"
  shows "fmul (of_int m) (of_int n) = of_int (m * n)"
  using fl_int [of "m * n"] assms by (simp add: fmul_def)

lemma scaled_exact:
  assumes "0 < s" "0 \<le> n" "s * n < 2 ^ 22"
  shows "to_int32 (fmul (of_int s) (of_int n)) = Inr (s * n)"
proof -
  have "fmul (of_int s) (of_int n) = of_int (s * n)" using assms by (intro fmul_exact) simp_all
  then show ?thesis using assms to_int32_exact [of "s * n"] by (simp only:) simp
qed

lemma floor2_exact:
  assumes "0 < s" "near (fl (q / of_int s)) x y" "0 \<le> x" "x < 2 ^ 22" "0 < y" "s * (x div y) < 2 ^ 22"
  shows "floor2 q (of_int s) = Inr (s * (x div y))"
  using near_bounds(4) [OF assms(2-5)] scaled_exact [OF assms(1) _ assms(6)] assms(1,3,5)
  by (simp add: floor2_def fdiv_exact pos_imp_zdiv_nonneg_iff)

lemma ceil2_exact:
  assumes "0 < s" "near (fl (q / of_int s)) x y" "0 \<le> x" "x < 2 ^ 22" "0 < y" "s * ceil_div x y < 2 ^ 22"
  shows "ceil2 q (of_int s) = Inr (s * ceil_div x y)"
  using near_bounds(3) [OF assms(2-5)] scaled_exact [OF assms(1) _ assms(6)] ceil_div_nonneg [OF assms(3,5)]
    assms(1)
  by (simp add: ceil2_def fdiv_exact ceil_div_def del: of_int_minus)


section \<open>Occupancy in integers\<close>

text \<open>The limits in integer arithmetic: a block's registers are allocated per warp in units of
  \<open>ra\<close>, its shared memory in units of \<open>sa\<close>.\<close>

record occupancy_facts =
  o_block_size :: int
  o_regs :: int
  o_smem :: int
  o_warp_size :: int
  o_max_blocks :: int
  o_max_threads :: int
  o_reg_unit :: int
  o_block_regs :: int
  o_sm_regs :: int
  o_smem_unit :: int
  o_sm_smem :: int
  o_scheds :: int

definition o_warps :: "occupancy_facts \<Rightarrow> int" where
  "o_warps o' = ceil_div (o_block_size o') (o_warp_size o')"

definition o_warp_regs :: "occupancy_facts \<Rightarrow> int" where
  "o_warp_regs o' = o_reg_unit o' * ceil_div (o_regs o' * o_warp_size o') (o_reg_unit o')"

definition o_block_smem :: "occupancy_facts \<Rightarrow> int" where
  "o_block_smem o' = o_smem_unit o' * ceil_div (o_smem o') (o_smem_unit o')"

definition blocks_by_regs :: "occupancy_facts \<Rightarrow> int" where
  "blocks_by_regs o' =
     (if o_regs o' = 0 then o_max_blocks o'
      else o_scheds o' * (o_block_regs o' div (o_warp_regs o' * o_scheds o')) div o_warps o' *
        (o_sm_regs o' div o_block_regs o'))"

definition blocks_by_smem :: "occupancy_facts \<Rightarrow> int" where
  "blocks_by_smem o' = (if o_smem o' = 0 then o_max_blocks o' else o_sm_smem o' div o_block_smem o')"

definition blocks_by_warps :: "occupancy_facts \<Rightarrow> int" where
  "blocks_by_warps o' = min (o_max_blocks o') (o_max_threads o' div o_warp_size o' div o_warps o')"

definition occupancy :: "occupancy_facts \<Rightarrow> int" where
  "occupancy o' = min (min (blocks_by_smem o') (blocks_by_regs o')) (min (blocks_by_warps o') (2 ^ 31 - 1))"

text \<open>The facts of a configuration and a kernel, and the range in which 24 bits are enough.\<close>

definition facts_of :: "gpu_config \<Rightarrow> kernel_info \<Rightarrow> occupancy_facts \<Rightarrow> bool" where
  "facts_of c ki o' \<longleftrightarrow>
     o_block_size o' = uint (m_block_size ki) \<and> o_regs o' = uint (m_num_registers ki) \<and>
     o_smem o' = uint (m_shared_mem_bytes ki) \<and> o_warp_size o' = cap c ''warp_size'' \<and>
     o_max_blocks o' = cap c ''max_active_blocks_per_SM'' \<and>
     o_max_threads o' = cap c ''max_active_threads_per_SM'' \<and>
     o_reg_unit o' = cap c ''register_allocation_size'' \<and>
     o_block_regs o' = cap c ''max_registers_per_block'' \<and>
     o_sm_regs o' = cap c ''max_registers_per_SM'' \<and>
     o_smem_unit o' = cap c ''smem_allocation_size'' \<and>
     stof (map_get_str (m_gpu_config c) ''shared_mem_size'') = Inr (of_int (o_sm_smem o')) \<and>
     stof (map_get_str (m_gpu_config c) ''num_warp_schedulers_per_SM'') = Inr (of_int (o_scheds o'))"

definition hardware_sized :: "occupancy_facts \<Rightarrow> bool" where
  "hardware_sized o' \<longleftrightarrow>
     list_all (\<lambda>n. 0 < n \<and> n < 2 ^ 22) [o_block_size o', o_warp_size o', o_reg_unit o', o_block_regs o',
       o_sm_regs o', o_smem_unit o', o_sm_smem o', o_scheds o', o_max_threads o'] \<and>
     0 \<le> o_regs o' \<and> o_regs o' * o_warp_size o' < 2 ^ 22 \<and> o_warp_regs o' < 2 ^ 22 \<and>
     0 \<le> o_smem o' \<and> o_smem o' < 2 ^ 22 \<and> o_block_smem o' < 2 ^ 22 \<and>
     o_scheds o' * (o_block_regs o' div (o_warp_regs o' * o_scheds o')) < 2 ^ 22 \<and>
     o_warp_size o' dvd o_max_threads o'"


lemma ceil_div_le:
  assumes "0 \<le> x" "0 < y"
  shows "ceil_div x y \<le> x"
proof -
  have "- x * y \<le> - x" using assms mult_left_mono [of 1 y x] by simp
  then have "- x * y div y \<le> - x div y" using assms(2) by (rule zdiv_mono1)
  moreover have "- x * y div y = - x" using assms(2) by (intro nonzero_mult_div_cancel_right) simp
  ultimately show ?thesis by (simp add: ceil_div_def)
qed

lemma warps_per_block_exact:
  assumes "facts_of c ki o'" "hardware_sized o'"
  shows "warps_per_block c ki = Inr (o_warps o')" "0 < o_warps o'" "o_warps o' < 2 ^ 22"
proof -
  have b: "0 < o_block_size o'" "o_block_size o' < 2 ^ 22" "0 < o_warp_size o'" "o_warp_size o' < 2 ^ 22"
    using assms(2) by (simp_all add: hardware_sized_def)
  show w: "0 < o_warps o'" "o_warps o' < 2 ^ 22"
    using b ceil_div_pos [OF b(1,3)] ceil_div_le [of "o_block_size o'" "o_warp_size o'"]
    by (simp_all add: o_warps_def)
  have "near (fl (fl (of_int (o_block_size o') / of_int (o_warp_size o')) / of_int 1))
      (o_block_size o') (o_warp_size o' * 1)"
    using b by (intro near_fl_fl) simp_all
  from ceil2_exact [OF _ this] b w
  have "ceil2 (fl (of_int (o_block_size o') / of_int (o_warp_size o'))) 1 = Inr (o_warps o')"
    by (simp add: o_warps_def)
  then show "warps_per_block c ki = Inr (o_warps o')"
    using assms(1) b by (simp add: warps_per_block_def facts_of_def fdiv_exact)
qed

lemma max_block_limit_by_warps_exact:
  assumes "facts_of c ki o'" "hardware_sized o'"
  shows "max_block_limit_by_warps c ki = Inr (blocks_by_warps o')"
proof -
  let ?t = "o_max_threads o' div o_warp_size o'"
  note w = warps_per_block_exact [OF assms]
  have b: "0 < o_warp_size o'" "o_warp_size o' < 2 ^ 22" "0 < o_max_threads o'" "o_max_threads o' < 2 ^ 22"
    "o_warp_size o' dvd o_max_threads o'"
    using assms(2) by (simp_all add: hardware_sized_def)
  have t: "0 \<le> ?t" "?t < 2 ^ 22"
    using b zdiv_mono2 [of "o_max_threads o'" 1 "o_warp_size o'"]
    by (simp_all add: pos_imp_zdiv_nonneg_iff)
  have a: "fl (of_int (o_max_threads o') / of_int (o_warp_size o')) = of_int ?t"
    using near_fl [of "o_max_threads o'" "o_warp_size o'"] b by (simp add: near_def)
  have "near (fl (fl (of_int ?t / of_int (o_warps o')) / of_int 1)) ?t (o_warps o' * 1)"
    using t w by (intro near_fl_fl) simp_all
  from floor2_exact [OF _ this] t w zdiv_mono2 [of ?t 1 "o_warps o'"]
  have "floor2 (fl (of_int ?t / of_int (o_warps o'))) 1 = Inr (?t div o_warps o')"
    by simp
  then show ?thesis using assms(1) b w a
    by (simp add: max_block_limit_by_warps_def facts_of_def fdiv_exact blocks_by_warps_def)
qed

lemma max_block_limit_by_smem_exact:
  assumes "facts_of c ki o'" "hardware_sized o'"
  shows "max_block_limit_by_smem c ki = Inr (blocks_by_smem o')"
proof (cases "o_smem o' = 0")
  case True
  then show ?thesis using assms(1)
    by (simp add: max_block_limit_by_smem_def facts_of_def blocks_by_smem_def unsigned_eq_0_iff)
next
  case False
  let ?u = "o_smem_unit o'" and ?S = "o_sm_smem o'" and ?b = "o_block_smem o'"
  have b: "0 < o_smem o'" "o_smem o' < 2 ^ 22" "0 < ?u" "?u < 2 ^ 22" "0 < ?S" "?S < 2 ^ 22" "?b < 2 ^ 22"
    using assms(2) False by (simp_all add: hardware_sized_def)
  have "0 < ?b" using b ceil_div_pos [of "o_smem o'" ?u] by (simp add: o_block_smem_def)
  have "near (fl (of_int (o_smem o') / of_int ?u)) (o_smem o') ?u" using b by (intro near_fl) simp_all
  from ceil2_exact [OF _ this] b have unit: "ceil2 (of_int (o_smem o')) (of_int ?u) = Inr ?b"
    by (simp add: o_block_smem_def)
  have "near (fl (fl (of_int ?S / of_int ?b) / of_int 1)) ?S (?b * 1)"
    using b \<open>0 < ?b\<close> by (intro near_fl_fl) simp_all
  from floor2_exact [OF _ this] b \<open>0 < ?b\<close> zdiv_mono2 [of ?S 1 ?b]
  have "floor2 (fl (of_int ?S / of_int ?b)) 1 = Inr (?S div ?b)" by simp
  then show ?thesis using assms(1) b unit \<open>0 < ?b\<close> False
    by (auto simp: max_block_limit_by_smem_def facts_of_def blocks_by_smem_def fdiv_exact)
qed


lemma max_block_limit_by_regs_exact:
  assumes "facts_of c ki o'" "hardware_sized o'"
  shows "max_block_limit_by_regs c ki = Inr (blocks_by_regs o')"
proof (cases "o_regs o' = 0")
  case True
  then show ?thesis using assms(1) warps_per_block_exact [OF assms]
    by (simp add: max_block_limit_by_regs_def facts_of_def blocks_by_regs_def unsigned_eq_0_iff)
next
  case False
  let ?w = "o_warps o'" and ?u = "o_reg_unit o'" and ?B = "o_block_regs o'" and ?R = "o_sm_regs o'"
  let ?s = "o_scheds o'" and ?p = "o_warp_regs o'" and ?n = "o_regs o' * o_warp_size o'"
  let ?q = "?B div (?p * ?s)"
  note w = warps_per_block_exact [OF assms]
  have b: "0 < o_regs o'" "?n < 2 ^ 22" "0 < o_warp_size o'" "o_warp_size o' < 2 ^ 22" "0 < ?u"
    "?u < 2 ^ 22" "0 < ?B" "?B < 2 ^ 22" "0 < ?R" "?R < 2 ^ 22" "0 < ?s" "?s < 2 ^ 22" "?p < 2 ^ 22"
    "?s * ?q < 2 ^ 22"
    using assms(2) False by (simp_all add: hardware_sized_def)
  have n: "0 < ?n" "o_regs o' \<le> ?n" using b by simp_all
  have r: "o_regs o' < 2 ^ 22" using n(2) b(2) by (rule order_le_less_trans)
  have p: "0 < ?p" using b ceil_div_pos [OF n(1) b(5)] by (simp add: o_warp_regs_def)
  have mul: "fmul (of_int (o_regs o')) (of_int (o_warp_size o')) = of_int ?n"
    using b by (intro fmul_exact) simp_all
  have "near (fl (of_int ?n / of_int ?u)) ?n ?u" using b n by (intro near_fl) simp_all
  from ceil2_exact [OF b(5) this] b n have unit: "ceil2 (of_int ?n) (of_int ?u) = Inr ?p"
    by (simp add: o_warp_regs_def)
  have "near (fl (fl (of_int ?B / of_int ?p) / of_int ?s)) ?B (?p * ?s)"
    using b p by (intro near_fl_fl) simp_all
  from floor2_exact [OF b(11) this] b p
  have per_sm: "floor2 (fl (of_int ?B / of_int ?p)) (of_int ?s) = Inr (?s * ?q)" by simp
  have q: "0 \<le> ?s * ?q" using b p by (simp add: pos_imp_zdiv_nonneg_iff)
  have "near (fl (fl (of_int (?s * ?q) / of_int ?w) / of_int 1)) (?s * ?q) (?w * 1)"
    using b q w by (intro near_fl_fl) simp_all
  from floor2_exact [OF _ this] b q w zdiv_mono2 [of "?s * ?q" 1 ?w]
  have x: "floor2 (fl (of_int (?s * ?q) / of_int ?w)) 1 = Inr (?s * ?q div ?w)" by simp
  have "near (fl (fl (of_int ?R / of_int ?B) / of_int 1)) ?R (?B * 1)"
    using b by (intro near_fl_fl) simp_all
  from floor2_exact [OF _ this] b zdiv_mono2 [of ?R 1 ?B]
  have y: "floor2 (fl (of_int ?R / of_int ?B)) 1 = Inr (?R div ?B)" by simp
  have args: "of_int32 (o_regs o') = of_int (o_regs o')" "of_int32 (?s * ?q) = of_int (?s * ?q)"
    "of_int32 ?p = of_int ?p" "of_int32 ?w = of_int ?w"
    using b p q w r by (simp_all del: of_int_mult)
  have f: "m_num_registers ki \<noteq> 0" "uint (m_num_registers ki) = o_regs o'"
    "cap c ''warp_size'' = o_warp_size o'" "cap c ''register_allocation_size'' = ?u"
    "cap c ''max_registers_per_block'' = ?B" "cap c ''max_registers_per_SM'' = ?R"
    "stof (map_get_str (m_gpu_config c) ''num_warp_schedulers_per_SM'') = Inr (of_int ?s)"
    using assms(1) False by (auto simp: facts_of_def)
  show ?thesis
    using b p w False
    by (simp add: max_block_limit_by_regs_def f args mul unit per_sm x y w fdiv_exact blocks_by_regs_def
        del: of_int_mult)
qed

lemma max_block_per_sm_int:
  assumes "facts_of c ki o'" "hardware_sized o'"
  shows "max_block_per_sm c ki = Inr (occupancy o')"
  using max_block_limit_by_smem_exact [OF assms] max_block_limit_by_regs_exact [OF assms]
    max_block_limit_by_warps_exact [OF assms]
  by (simp add: max_block_per_sm_def occupancy_def max_block_limit_by_others_def)

text \<open>C19. For the sizes of real hardware (below 2^22, where a \<open>float\<close> still separates a quotient from
  the next integer after two roundings) the occupancy the code computes in single precision is the
  one of exact integer arithmetic: the least of the limits by shared memory, by registers and by
  warps.\<close>

theorem max_block_per_sm_exact:
  assumes "facts_of c ki o'" "hardware_sized o'"
  shows "max_block_per_sm c ki = Inr (occupancy o')"
  using assms by (rule max_block_per_sm_int)

text \<open>A block of 256 threads with 64 registers each and 20000 bytes of shared memory on a
  multiprocessor with 65536 registers and 100 KB: registers allow 4 blocks, memory 5, warps 6.\<close>

definition ampere_config :: gpu_config where
  "ampere_config = empty_gpu_config
     \<lparr>m_gpu_config := [(''shared_mem_size'', ''102400''), (''num_warp_schedulers_per_SM'', ''4'')],
      m_compute_capability := [(''max_active_blocks_per_SM'', 16), (''max_active_threads_per_SM'', 1536),
        (''warp_size'', 32), (''register_allocation_size'', 256), (''max_registers_per_block'', 65536),
        (''max_registers_per_SM'', 65536), (''smem_allocation_size'', 128)]\<rparr>"

lemma stof_examples: "stof ''102400'' = Inr 102400" "stof ''4'' = Inr 4"
  using fl_int [of 102400] fl_int [of 4]
  by (simp_all add: stof_def strip_sign_def is_space_def is_digit_def decimal_def digit_val_def)

theorem max_block_per_sm_exact_witness:
  "max_block_per_sm ampere_config
     (zero_kernel_info\<lparr>m_block_size := 256, m_num_registers := 64, m_shared_mem_bytes := 20000\<rparr>) = Inr 4"
proof -
  let ?o = "\<lparr>o_block_size = 256, o_regs = 64, o_smem = 20000, o_warp_size = 32, o_max_blocks = 16,
    o_max_threads = 1536, o_reg_unit = 256, o_block_regs = 65536, o_sm_regs = 65536, o_smem_unit = 128,
    o_sm_smem = 102400, o_scheds = 4\<rparr>"
  have "facts_of ampere_config
      (zero_kernel_info\<lparr>m_block_size := 256, m_num_registers := 64, m_shared_mem_bytes := 20000\<rparr>) ?o"
    by (simp add: facts_of_def ampere_config_def cap_def map_get0_def map_get_str_def stof_examples)
  moreover have "hardware_sized ?o"
    by (simp add: hardware_sized_def o_warp_regs_def o_block_smem_def ceil_div_def)
  moreover have "occupancy ?o = 4"
    by (simp add: occupancy_def blocks_by_smem_def blocks_by_regs_def blocks_by_warps_def o_warps_def
        o_warp_regs_def o_block_smem_def ceil_div_def)
  ultimately show ?thesis using max_block_per_sm_exact [where o' = ?o] by (simp only:)
qed

end
