(* ===== verification/Gpu.thy ===== *)
theory Gpu
  imports Sm_Cycle Memory_Partition Occupancy
begin

text \<open>
  The class \<open>gpu\<close> (\<^verbatim>\<open>gpu.h\<close>, \<^verbatim>\<open>gpu.cpp\<close>): construction from the configuration, the launch of a
  kernel, the first distribution of its blocks, and the loop that advances memory, interconnect and
  multiprocessors until no multiprocessor is active.  What is printed is not modelled; the totals
  that are kept in the object are.
\<close>

record gpu =
  m_gpu_configs :: gpu_config
  g_env :: gpu_env
  m_active_kernel :: kernel
  traceReader :: trace_reader
  m_sm :: "streaming_multiprocessor list"
  m_memory_partition :: memory_partition
  gpu_sim_insn :: int
  active_sm_cycles :: int
  total_sm_cycles :: int
  issue_active_sm_cycles :: int
  memory_stall_sm_cycles :: int
  dependency_stall_sm_cycles :: int
  unit_stall_sm_cycles :: int
  scheduler_idle_sm_cycles :: int

section \<open>Construction\<close>

text \<open>A cache configuration from a section of the file, by the names of its keys.\<close>

definition cache_config_of ::
  "(string, string) std_map \<Rightarrow> string \<Rightarrow> string \<Rightarrow> string \<Rightarrow> cache_config res"
where
  "cache_config_of m lvl banks_key mshr =
     (let s = (\<lambda>k. map_get_str m k); n = (\<lambda>k. stoi (map_get_str m k)) in
      rbind (n banks_key) (\<lambda>n_banks.
      rbind (n (lvl @ ''_cache_n_sets'')) (\<lambda>n_sets.
      rbind (n (lvl @ ''_cache_line_size'')) (\<lambda>line_size.
      rbind (n (lvl @ ''_cache_m_assoc'')) (\<lambda>assoc.
      rbind (n (mshr @ ''_m_mshr_entries'')) (\<lambda>entries.
      rbind (n (mshr @ ''_m_mshr_max_merge'')) (\<lambda>merge.
        new_cache_config True n_banks n_sets line_size assoc
          (s (lvl @ ''_cache_m_replacement_policy'')) (s (lvl @ ''_cache_m_write_policy''))
          (s (lvl @ ''_cache_m_alloc_policy'')) (s (lvl @ ''_cache_m_write_alloc_policy''))
          (s (lvl @ ''_cache_m_set_index_function'')) (s (lvl @ ''_cache_mshr_type''))
          entries merge True)))))))"

definition new_env :: "mf_ptr local_interconnect \<Rightarrow> bool \<Rightarrow> gpu_env" where
  "new_env ic trace_ok =
     \<lparr>mf_heap = \<lambda>_. None, next_mf_ptr = 0, mf_id = 0, m_icnt = ic, gpu_sim_cycles = 0,
      address_to_sms = \<lambda>_. {}, total_access = 0, l2_push_num = 0, l2_pop_num = 0,
      trace_file_ok = trace_ok\<rparr>"

definition build_gpu :: "gpu_config \<Rightarrow> bool \<Rightarrow> gpu res" where
  "build_gpu c trace_ok =
     rbind (cfg_int c ''sm_num'') (\<lambda>sm_num.
     rbind (cache_config_of (l1_cache_config c) ''l1'' ''l1_cache_n_banks'' ''l1'') (\<lambda>l1.
     rbind (cache_config_of (l2_cache_config c) ''l2'' ''l2_cache_sub_partitions'' ''l2'') (\<lambda>l2.
     rbind (memory_config_init c) (\<lambda>mc.
     rbind (new_memory_partition l2 c mc) (\<lambda>mp.
     rbind (memory_partition_init mp) (\<lambda>mp.
     rbind (creat_icnt c) (\<lambda>ic.
       Inr \<lparr>m_gpu_configs = c, g_env = new_env ic trace_ok, m_active_kernel = new_kernel 0,
            traceReader = new_trace_reader 0, m_sm = map (\<lambda>i. new_sm (of_nat i) c l1) [0..<nat sm_num],
            m_memory_partition = mp, gpu_sim_insn = 0, active_sm_cycles = 0, total_sm_cycles = 0,
            issue_active_sm_cycles = 0, memory_stall_sm_cycles = 0, dependency_stall_sm_cycles = 0,
            unit_stall_sm_cycles = 0, scheduler_idle_sm_cycles = 0\<rparr>)))))))"

section \<open>Launch\<close>

definition launch_kernel :: "int \<Rightarrow> string option \<Rightarrow> gpu \<Rightarrow> gpu res" where
  "launch_kernel kernel_id sass g =
     rbind (read_sass sass zero_kernel_info []) (\<lambda>(info, insts).
     rbind (init_blocks ((new_kernel kernel_id)\<lparr>m_kernel_info := info, trace_insts := insts\<rparr>)) (\<lambda>k.
       Inr (g\<lparr>m_active_kernel := k, traceReader := new_trace_reader kernel_id\<rparr>)))"

text \<open>One block of \<open>first_spawn_block\<close>: it goes to the multiprocessor \<open>index\<close> if that has room;
  otherwise the block is passed over and \<open>index\<close> stays.\<close>

definition spawn_block ::
  "trace_reader \<Rightarrow> gpu_config \<Rightarrow> int \<Rightarrow> int \<Rightarrow> int \<Rightarrow> int \<times> streaming_multiprocessor list \<times> kernel \<Rightarrow>
   (int \<times> streaming_multiprocessor list \<times> kernel) res"
where
  "spawn_block r c max_blocks active_sms bid = (\<lambda>(index, sms, k).
     rbind (nth_res sms (nat index)) (\<lambda>sm.
     if of_nat (length (block_vec sm)) < (word_of_int max_blocks :: u64) then
       rbind (deref (map_of (m_blocks k) bid)) (\<lambda>b.
       rbind (stoi (map_get_str (l1_cache_config c) ''l1_cache_line_size'')) (\<lambda>line_size.
       rbind (load_mem_request r line_size (b_block_id b) b) (\<lambda>b.
       guard (active_sms \<noteq> 0) Undefined_Behaviour
       (Inr ((index + 1) smod active_sms,
             sms[nat index := sm\<lparr>block_vec := map_put bid () (block_vec sm), is_active := True\<rparr>],
             k\<lparr>m_blocks := map_put bid b (m_blocks k), block_pointer := block_pointer k + 1\<rparr>)))))
     else Inr (index, sms, k)))"

definition first_spawn_block :: "gpu \<Rightarrow> gpu res" where
  "first_spawn_block g =
     (let k = m_active_kernel g; c = m_gpu_configs g in
      rbind (max_block_per_sm c (m_kernel_info k)) (\<lambda>max_blocks.
      guard (0 < max_blocks) Exit_Called
      (rbind (cfg_int c ''sm_num'') (\<lambda>sm_num.
       let active_sms = min (sint (m_grid_size (m_kernel_info k))) sm_num;
           sms = map (\<lambda>sm. sm\<lparr>m_max_blocks := max_blocks\<rparr>) (m_sm g) in
       rbind (foldM (spawn_block (traceReader g) c max_blocks active_sms)
                (map fst (m_blocks k)) (0, sms, k)) (\<lambda>(index, sms, k).
         Inr (g\<lparr>m_sm := sms, m_active_kernel := k\<rparr>))))))"

section \<open>The simulation loop\<close>

definition sm_turn ::
  "trace_reader \<Rightarrow> streaming_multiprocessor \<Rightarrow>
   bool \<times> streaming_multiprocessor list \<times> kernel \<times> gpu_env \<Rightarrow>
   (bool \<times> streaming_multiprocessor list \<times> kernel \<times> gpu_env) res"
where
  "sm_turn r sm = (\<lambda>(active, sms, k, e).
     rbind (sm_cycle r (sm, k, e)) (\<lambda>(sm, k, e).
     rbind (sm_active sm k) (\<lambda>(a, sm). Inr (active \<or> a, sms @ [sm], k, e))))"

definition gpu_iteration :: "gpu \<Rightarrow> (bool \<times> gpu) res" where
  "gpu_iteration g =
     (let e = (g_env g)\<lparr>gpu_sim_cycles := gpu_sim_cycles (g_env g) + 1\<rparr> in
      rbind (memory_partition_cycle (gpu_sim_cycles e) (m_memory_partition g, e)) (\<lambda>(mp, e).
      rbind (icnt_advance (m_icnt e)) (\<lambda>ic.
      rbind (foldM (sm_turn (traceReader g)) (m_sm g) (False, [], m_active_kernel g, e\<lparr>m_icnt := ic\<rparr>))
        (\<lambda>(active, sms, k, e).
          Inr (active, g\<lparr>m_memory_partition := mp, m_sm := sms, m_active_kernel := k, g_env := e\<rparr>)))))"

text \<open>\<open>while (sm_active) ...\<close>: \<open>None\<close> when it never ends.\<close>

partial_function (option) gpu_loop :: "gpu \<Rightarrow> gpu res option" where
  "gpu_loop g =
     (case gpu_iteration g of
        Inl e \<Rightarrow> Some (Inl e)
      | Inr r \<Rightarrow> if fst r then gpu_loop (snd r) else Some (Inr (snd r)))"

text \<open>The cycles that pending writes to DRAM would add.\<close>

definition stg_cycles :: "memory_partition \<Rightarrow> int" where
  "stg_cycles mp =
     fold (\<lambda>l2 n. fold (\<lambda>(_, t) n. max n t) (l2_to_dram l2) n) (m_l2_caches mp) 0"

definition sum_running :: "(streaming_multiprocessor \<Rightarrow> int) \<Rightarrow> gpu \<Rightarrow> int" where
  "sum_running f g = sum_list (map f (filter (\<lambda>sm. cycles sm > 0) (m_sm g)))"

definition gpu_totals :: "gpu \<Rightarrow> gpu res" where
  "gpu_totals g =
     (let c = m_gpu_configs g; stg = stg_cycles (m_memory_partition g) in
      rbind (if filter (\<lambda>sm. cycles sm > 0) (m_sm g) = [] then Inr 0
             else cfg_int c ''kernel_launch_cycles'') (\<lambda>launch.
      rbind (cfg_int c ''block_launch_cycles'') (\<lambda>block_launch.
        Inr (g\<lparr>g_env := (g_env g)\<lparr>gpu_sim_cycles := gpu_sim_cycles (g_env g) + stg\<rparr>,
               gpu_sim_insn := sum_running m_execute_inst g,
               active_sm_cycles := sum_running cycles g,
               total_sm_cycles := sum_running (\<lambda>sm. cycles sm + stg + launch) g
                 + sint (word_of_int block_launch * m_grid_size (m_kernel_info (m_active_kernel g))),
               issue_active_sm_cycles := sum_running m_issue_active_cycles g,
               memory_stall_sm_cycles := sum_running m_memory_stall_cycles g,
               dependency_stall_sm_cycles := sum_running m_dependency_stall_cycles g,
               unit_stall_sm_cycles := sum_running m_unit_stall_cycles g,
               scheduler_idle_sm_cycles := sum_running m_scheduler_idle_cycles g\<rparr>))))"

definition gpu_cycle :: "gpu \<Rightarrow> gpu res option" where
  "gpu_cycle g =
     (case gpu_loop g of
        None \<Rightarrow> None
      | Some (Inl e) \<Rightarrow> Some (Inl e)
      | Some (Inr g) \<Rightarrow> Some (gpu_totals g))"

end
