(* ===== verification/L1_Access.thy ===== *)
theory L1_Access
  imports L1_Cache
begin

text \<open>
  What an access of the L1 cache (\<open>l1_data_cache::cache_access\<close>, \<^verbatim>\<open>cache.cpp\<close>) does to the
  cache as an abstract object: the set of cached sectors, the requests waiting in the MSHR table, and
  the queues to the multiprocessor and to L2.
\<close>

section \<open>Touching a line\<close>

lemma touched_block:
  assumes "blk_tag b' = blk_tag b" "blk_status b' = blk_status b" "m_readable b' = m_readable b"
  shows "holds_sector tg s b' = holds_sector tg s b" and "holds_line tg b' = holds_line tg b"
    and "is_valid_line b' = is_valid_line b" and "settled_block b' = settled_block b"
  using assms
  by (simp_all add: holds_sector_def holds_line_def is_valid_line_def is_invalid_line_def
      settled_block_def is_reserved_line_def)

lemma cached_touched:
  assumes "i < length (ta_lines t)"
    and "blk_tag b' = blk_tag (ta_lines t ! i)" "blk_status b' = blk_status (ta_lines t ! i)"
      "m_readable b' = m_readable (ta_lines t ! i)"
  shows "cached (t\<lparr>ta_lines := (ta_lines t)[i := b']\<rparr>) a s = cached t a s"
    and "unique_tags t \<Longrightarrow> unique_tags (t\<lparr>ta_lines := (ta_lines t)[i := b']\<rparr>)"
proof -
  note same = touched_block [OF assms(2-4)]
  have nth: "holds_sector tg k ((ta_lines t)[i := b'] ! j) = holds_sector tg k (ta_lines t ! j)"
    "is_valid_line ((ta_lines t)[i := b'] ! j) = is_valid_line (ta_lines t ! j)"
    "blk_tag ((ta_lines t)[i := b'] ! j) = blk_tag (ta_lines t ! j)" for tg k j
    using assms(1,2) same by (cases "i = j"; simp)+
  show "cached (t\<lparr>ta_lines := (ta_lines t)[i := b']\<rparr>) a s = cached t a s"
    by (simp add: cached_def nth split: sum.split)
  show "unique_tags t \<Longrightarrow> unique_tags (t\<lparr>ta_lines := (ta_lines t)[i := b']\<rparr>)"
    unfolding unique_tags_def by (simp add: nth)
qed

lemma probe_block_addr:
  assumes "indexable l s' (ta_config t)"
  shows "tag_array_probe (block_addr (ta_config t) a) s t = tag_array_probe a s t"
  using assms set_index_block_addr [of l s' "ta_config t" a]
  by (auto simp: indexable_def tag_array_probe_def tag_eq_block_addr block_addr_idem)

definition tags_ok :: "nat \<Rightarrow> nat \<Rightarrow> tag_array \<Rightarrow> bool" where
  "tags_ok l n t \<longleftrightarrow> wf_tags l n t \<and> replaceable t \<and> unique_tags t"

text \<open>An access to a cached sector moves its stamps and nothing else.\<close>

lemma access_cached:
  assumes ok: "tags_ok l n t" and s: "unat s < SECTOR_CHUNCK_SIZE" and time: "time < u32_max"
    and hit: "cached t a s"
  shows "\<exists>i t'. tag_array_probe a s t = Inr (HIT, Some i) \<and>
    tag_array_access (block_addr (ta_config t) a) time s t = Inr (HIT, Some i, t') \<and>
    tags_ok l n t' \<and> ta_config t' = ta_config t \<and> cached t' = cached t"
proof -
  have wf: "wf_tags l n t" and rep: "replaceable t" and uniq: "unique_tags t"
    using ok by (simp_all add: tags_ok_def)
  obtain si where si: "set_index (ta_config t) a = Inr si" using wf_set_index [OF wf] by blast
  from probe_hit_iff_cached [OF wf rep uniq s, of a] hit
  obtain i where p: "tag_array_probe a s t = Inr (HIT, Some i)" by blast
  have i: "i < length (ta_lines t)"
    by (rule probe_cases [OF wf rep s si]) (use p in \<open>auto split: if_splits\<close>)
  let ?b = "(ta_lines t ! i)\<lparr>m_last_sector_access_time :=
      (m_last_sector_access_time (ta_lines t ! i))[unat s := time], m_line_last_access_time := time\<rparr>"
  let ?t = "t\<lparr>ta_lines := (ta_lines t)[i := ?b]\<rparr>"
  have idx: "indexable l n (ta_config t)" using wf by (simp add: wf_tags_def)
  have "tag_array_access (block_addr (ta_config t) a) time s t = Inr (HIT, Some i, ?t)"
    using s i by (simp add: tag_array_access_def probe_block_addr [OF idx] p update_line_def
        set_last_access_time_def with_sector_def)
  moreover have "settled_block ?b"
    using settled_lineD [OF wf i] by (simp add: settled_block_def is_reserved_line_def)
  then have "wf_tags l n ?t" by (rule wf_tags_update [OF wf])
  moreover have "stamp (ta_config t) ?b < u32_max"
    using time stamp_bound [OF rep i] by (simp add: stamp_def split: if_splits)
  then have "replaceable ?t" by (rule replaceable_update [OF rep])
  moreover have "unique_tags ?t" by (rule cached_touched(2) [OF i _ _ _ uniq]) simp_all
  moreover have "cached ?t = cached t" by (intro ext cached_touched(1) [OF i]) simp_all
  ultimately show ?thesis using p by (auto simp: tags_ok_def)
qed

lemma probe_uncached:
  assumes ok: "tags_ok l n t" and s: "unat s < SECTOR_CHUNCK_SIZE" and miss: "\<not> cached t a s"
  shows "\<exists>st i. tag_array_probe a s t = Inr (st, Some i) \<and> st \<noteq> HIT \<and> st \<noteq> RESERVATION_FAIL"
proof -
  have wf: "wf_tags l n t" and rep: "replaceable t" and uniq: "unique_tags t"
    using ok by (simp_all add: tags_ok_def)
  obtain si where si: "set_index (ta_config t) a = Inr si" using wf_set_index [OF wf] by blast
  from probe_hit_iff_cached [OF wf rep uniq s, of a] miss
  have no: "\<forall>i. tag_array_probe a s t \<noteq> Inr (HIT, Some i)" by blast
  show ?thesis
    by (rule probe_cases [OF wf rep s si]) (use no in \<open>auto split: if_splits\<close>)
qed

section \<open>Reads\<close>

definition wf_l1 :: "nat \<Rightarrow> nat \<Rightarrow> l1_data_cache \<Rightarrow> bool" where
  "wf_l1 l n c \<longleftrightarrow> ta_config (m_tag_array c) = m_cache_config c \<and> tags_ok l n (m_tag_array c) \<and>
     wf_mshr (m_mshrs c) \<and> mshr_bounded (m_mshrs c) \<and> 0 < m_max_merged (m_mshrs c)"

text \<open>The address under which the cache files a request in its MSHR table.\<close>

definition mshr_key :: "'a data_cache_scheme \<Rightarrow> mem_fetch \<Rightarrow> u64" where
  "mshr_key c mf = mshr_addr (m_cache_config c) (m_sector_address mf)"

lemma mshr_bounded_add:
  assumes "wf_mshr t" and "mshr_bounded t" and "\<not> mshr_full a t" and "0 < m_max_merged t"
  shows "mshr_bounded (mshr_add a p atm t)"
proof -
  have len: "length (m_data (mshr_add a p atm t)) =
      (if map_of (m_data t) a = None then Suc (length (m_data t)) else length (m_data t))"
    using assms(1) by (simp add: mshr_add_def Let_def length_map_put wf_mshr_def)
  have "unat (m_max_merged t) > 0" using assms(4) by (simp add: unat_gt_0 word_gt_0)
  then show ?thesis
    using assms(2,3) len
    by (auto simp: mshr_bounded_def mshr_full_def waiting_add [OF assms(1)] waiting_def mshr_at_def
        new_mshr_entry_def split: option.splits)
qed

text \<open>What a read must do: \<open>hit\<close>, \<open>full\<close> and \<open>key\<close> describe the cache before it.\<close>

definition read_outcome ::
  "bool \<Rightarrow> bool \<Rightarrow> u64 \<Rightarrow> mf_ptr \<Rightarrow> l1_data_cache \<Rightarrow> cache_request_status \<Rightarrow> l1_data_cache \<Rightarrow> bool"
where
  "read_outcome hit full key p c st c' \<longleftrightarrow>
     (if hit then st = HIT \<and> l1_to_sm c' = l1_to_sm c @ [p] \<and> m_miss_queue c' = m_miss_queue c \<and>
        waiting (m_mshrs c') = waiting (m_mshrs c)
      else if full then st = RESERVATION_FAIL \<and> l1_to_sm c' = l1_to_sm c \<and>
        m_miss_queue c' = m_miss_queue c \<and> waiting (m_mshrs c') = waiting (m_mshrs c)
      else st = MISS \<and> l1_to_sm c' = l1_to_sm c \<and>
        waiting (m_mshrs c') = (waiting (m_mshrs c))(key := waiting (m_mshrs c) key @ [p]) \<and>
        m_miss_queue c' = m_miss_queue c @ (if waiting (m_mshrs c) key = [] then [p] else []))"

lemma l1_tlb_ok:
  "mf_heap g p = Some mf \<Longrightarrow>
   \<exists>g'. l1_tlb p (c, g) = Inr (c\<lparr>l1_tlb_hit := True\<rparr>, g')"
  by (cases c) (auto simp: l1_tlb_def mf_update_def mf_at_def)

lemma l1_read_miss_spec:
  assumes "wf_l1 l n c" and "mf_heap g p = Some mf"
  shows "\<exists>st c' g'. l1_read_miss p (c, g) = Inr (st, c', g') \<and> wf_l1 l n c' \<and>
    m_tag_array c' = m_tag_array c \<and>
    read_outcome False (mshr_full (mshr_key c mf) (m_mshrs c)) (mshr_key c mf) p c st c'"
proof -
  let ?a = "mshr_key c mf"
  have wf: "wf_mshr (m_mshrs c)" using assms(1) by (simp add: wf_l1_def)
  note probe = mshr_probe_iff [OF wf, of ?a]
  show ?thesis
  proof (cases "mshr_full ?a (m_mshrs c)")
    case True
    then show ?thesis
      using assms by (simp add: l1_read_miss_def mf_at_def Let_def mshr_key_def read_outcome_def)
  next
    case False
    have add: "wf_mshr (mshr_add ?a p (is_atomic mf) (m_mshrs c))"
      "mshr_bounded (mshr_add ?a p (is_atomic mf) (m_mshrs c))"
      using assms(1) False by (simp_all add: wf_l1_def wf_mshr_add mshr_bounded_add)
    obtain g' where tlb: "l1_tlb p (dc_mshr_add ?a p mf (c\<lparr>m_load_sector_miss := m_load_sector_miss c + 1\<rparr>), g) =
        Inr ((dc_mshr_add ?a p mf (c\<lparr>m_load_sector_miss := m_load_sector_miss c + 1\<rparr>))\<lparr>l1_tlb_hit := True\<rparr>, g')"
      using l1_tlb_ok [OF assms(2)] by blast
    show ?thesis
    proof (cases "waiting (m_mshrs c) ?a = []")
      case True
      then show ?thesis
        using assms False add probe tlb waiting_add [OF wf]
        by (simp add: l1_read_miss_def mf_at_def Let_def read_outcome_def wf_l1_def dc_mshr_add_def
            mshr_key_def)
    next
      case nonempty: False
      then show ?thesis
        using assms False add probe waiting_add [OF wf]
        by (simp add: l1_read_miss_def mf_at_def Let_def read_outcome_def wf_l1_def dc_mshr_add_def
            mshr_key_def)
    qed
  qed
qed

text \<open>C17. A read of the L1 cache always ends, and is a refinement of one step of a set of cached
  sectors with a table of waiting requests: a cached sector is answered at once and is ready after
  the hit latency; otherwise, if the table is full for its address, nothing happens but the access
  count and the request will be tried again; otherwise it waits in the table, and only the first to
  wait for its sector is sent down.  No read changes which sectors are cached, and the invariants
  of tags and table are kept.\<close>

theorem l1_read_refines:
  assumes "wf_l1 l n c" and "mf_heap g p = Some mf" and "\<not> is_write mf"
    and "unat (m_sector_mask mf) < SECTOR_CHUNCK_SIZE" and "time < u32_max"
    and "cfg_int (dc_gpu_config c) ''l1_hit_latency'' = Inr latency"
  shows "\<exists>st c' g'. l1_cache_access addr p time (c, g) = Inr (st, c', g') \<and> wf_l1 l n c' \<and>
    cached (m_tag_array c') = cached (m_tag_array c) \<and>
    read_outcome (cached (m_tag_array c) addr (m_sector_mask mf))
      (mshr_full (mshr_key c mf) (m_mshrs c)) (mshr_key c mf) p c st c' \<and>
    (st = HIT \<longrightarrow> map_option m_l1_ready_time (mf_heap g' p) = Some (latency + sint time))"
proof -
  let ?c = "count_access False c"
  have cfg: "m_cache_config ?c = m_cache_config c" "m_tag_array ?c = m_tag_array c"
    "dc_gpu_config ?c = dc_gpu_config c" "m_mshrs ?c = m_mshrs c" "l1_to_sm ?c = l1_to_sm c"
    "m_miss_queue ?c = m_miss_queue c"
    by (simp_all add: count_access_def)
  have ok: "tags_ok l n (m_tag_array c)" and same: "ta_config (m_tag_array c) = m_cache_config c"
    using assms(1) by (simp_all add: wf_l1_def)
  show ?thesis
  proof (cases "cached (m_tag_array c) addr (m_sector_mask mf)")
    case True
    from access_cached [OF ok assms(4,5) True] obtain i t'
      where p: "tag_array_probe addr (m_sector_mask mf) (m_tag_array c) = Inr (HIT, Some i)"
        and acc: "tag_array_access (block_addr (m_cache_config c) addr) time (m_sector_mask mf)
          (m_tag_array c) = Inr (HIT, Some i, t')"
        and t': "tags_ok l n t'" "ta_config t' = m_cache_config c" "cached t' = cached (m_tag_array c)"
      by (auto simp: same)
    show ?thesis
      using True assms p acc t'
      by (simp add: l1_cache_access_def mf_at_def Let_def l1_read_hit_def dc_touch_def mf_update_def
          cfg wf_l1_def read_outcome_def)
  next
    case False
    from probe_uncached [OF ok assms(4) False] obtain st i
      where p: "tag_array_probe addr (m_sector_mask mf) (m_tag_array c) = Inr (st, Some i)"
        and st: "st \<noteq> HIT" "st \<noteq> RESERVATION_FAIL" by blast
    have "wf_l1 l n ?c" using assms(1) by (simp add: wf_l1_def cfg)
    from l1_read_miss_spec [OF this assms(2)] obtain st' c' g' where
      run: "l1_read_miss p (?c, g) = Inr (st', c', g')" "wf_l1 l n c'"
        "m_tag_array c' = m_tag_array c"
        "read_outcome False (mshr_full (mshr_key c mf) (m_mshrs c)) (mshr_key c mf) p c st' c'"
      by (auto simp: cfg mshr_key_def read_outcome_def)
    moreover have "st' \<noteq> HIT" using run(4) by (auto simp: read_outcome_def split: if_splits)
    ultimately show ?thesis
      using False assms(2,3) p st
      by (simp add: l1_cache_access_def mf_at_def Let_def cfg)
  qed
qed

text \<open>A small L1 cache whose only waiting request is the one at address 0.\<close>

definition small_l1 :: l1_data_cache where
  "small_l1 = (new_l1_data_cache (two_by_two\<lparr>m_mshr_entries := 2, m_mshr_max_merge := 2\<rparr>)
      (empty_gpu_config\<lparr>m_gpu_config := [(''l1_hit_latency'', ''28'')]\<rparr>) 0)"

definition read_at_0x80 :: mem_fetch where
  "read_at_0x80 = new_mem_fetch 0 False 0x80 1 GLOBAL False 5 0 0 0 0"

theorem l1_read_refines_witness:
  "\<exists>c' g'. l1_cache_access 0x80 3 7 (small_l1,
       \<lparr>mf_heap = [3 \<mapsto> read_at_0x80], next_mf_ptr = 4, mf_id = 0,
        m_icnt = new_local_interconnect \<lparr>cfg_in_buffer_limit = 512, cfg_out_buffer_limit = 512,
          subnets = 2, arbiter_algo = NAIVE_RR\<rparr>,
        gpu_sim_cycles = 7, address_to_sms = \<lambda>_. {}, total_access = 0, l2_push_num = 0, l2_pop_num = 0,
        trace_file_ok = True\<rparr>) = Inr (MISS, c', g') \<and>
     m_miss_queue c' = [3] \<and> waiting (m_mshrs c') (mshr_key small_l1 read_at_0x80) = [3]"
  (is "\<exists>c' g'. l1_cache_access 0x80 3 7 (small_l1, ?g) = _ \<and> _ \<and> _")
proof -
  let ?cc = "two_by_two\<lparr>m_mshr_entries := 2, m_mshr_max_merge := 2\<rparr>"
  have idx: "indexable 7 1 ?cc" by (simp add: indexable_def pow2_geometry_def two_by_two_def l2_geometry_def)
  have tags: "m_tag_array small_l1 = new_tag_array ?cc 0" "m_cache_config small_l1 = ?cc"
    "m_mshrs small_l1 = new_mshr_table 2 2" "m_miss_queue small_l1 = []"
    by (simp_all add: small_l1_def new_l1_data_cache_def new_data_cache_def data_cache.defs)
  have "replaceable (new_tag_array ?cc 0)"
    by (rule replaceable_new_tag_array) (simp add: two_by_two_def l2_geometry_def)
  then have wf: "wf_l1 7 1 small_l1"
    using wf_new_tag_array [OF idx] unique_new_tag_array
    by (simp add: wf_l1_def tags tags_ok_def mshr_bounded_def)
      (simp add: new_tag_array_def new_mshr_table_def)
  have lat: "cfg_int (dc_gpu_config small_l1) ''l1_hit_latency'' = Inr 28" by code_simp
  have sec: "unat (m_sector_mask read_at_0x80) < SECTOR_CHUNCK_SIZE" "\<not> is_write read_at_0x80"
    "m_sector_mask read_at_0x80 = 1"
    by (simp_all add: read_at_0x80_def new_mem_fetch_def SECTOR_CHUNCK_SIZE_def is_write_def)
  have miss: "\<not> cached (m_tag_array small_l1) 0x80 1" by code_simp
  have room: "\<not> mshr_full (mshr_key small_l1 read_at_0x80) (m_mshrs small_l1)"
    "waiting (m_mshrs small_l1) (mshr_key small_l1 read_at_0x80) = []"
    by (simp_all add: tags mshr_full_def new_mshr_table_def) (simp add: waiting_def mshr_at_def new_mshr_entry_def)
  have "mf_heap ?g 3 = Some read_at_0x80" by simp
  from l1_read_refines [OF wf this sec(2,1) _ lat, of 7 "0x80"] show ?thesis
    using miss room sec(3) by (auto simp: read_outcome_def tags(4))
qed

end
