(* ===== verification/Block_Distribution.thy ===== *)
theory Block_Distribution
  imports Gpu
begin

text \<open>
  The first distribution of a kernel's blocks (\<open>gpu::first_spawn_block\<close>, \<^verbatim>\<open>gpu.cpp\<close>): blocks go
  round the active multiprocessors until each holds as many as fit.
\<close>

section \<open>Residues\<close>

lemma filter_mod_blocks: "0 < a \<Longrightarrow> j < a \<Longrightarrow> length (filter (\<lambda>x. x mod a = j) [0..<q * a]) = q"
proof (induction q)
  case (Suc q)
  have "[0..<Suc q * a] = [0..<q * a] @ [q * a..<q * a + a]"
    by (metis add.commute le0 mult_Suc upt_add_eq_append)
  moreover have "filter (\<lambda>x. x mod a = j) [q * a..<q * a + a] = [q * a + j]"
  proof -
    have "[q * a..<q * a + a] = [q * a..<q * a + j] @ [q * a + j..<q * a + a]"
      using Suc.prems upt_add_eq_append [of "q * a" "q * a + j" "a - j"] by simp
    also have "[q * a + j..<q * a + a] = (q * a + j) # [q * a + Suc j..<q * a + a]"
      using Suc.prems by (simp add: upt_conv_Cons)
    finally have "[q * a..<q * a + a] =
      [q * a..<q * a + j] @ (q * a + j) # [q * a + Suc j..<q * a + a]" .
    moreover have "x mod a \<noteq> j" if "x \<in> set [q * a..<q * a + j]" for x
    proof -
      from that have "x = (x - q * a) + q * a" "x - q * a < j" by auto
      then show ?thesis using Suc.prems by (metis less_trans mod_less mod_mult_self1 nat_neq_iff)
    qed
    moreover have "x mod a \<noteq> j" if "x \<in> set [q * a + Suc j..<q * a + a]" for x
    proof -
      from that have "x = (x - q * a) + q * a" "x - q * a < a" "j < x - q * a" by auto
      then show ?thesis by (metis mod_less mod_mult_self1 nat_neq_iff)
    qed
    ultimately show ?thesis using Suc.prems by (simp add: filter_empty_conv)
  qed
  ultimately show ?case using Suc by simp
qed simp

lemma filter_mod_length: "0 < a \<Longrightarrow> length (filter (\<lambda>x. x mod a = p mod a) [0..<p]) = p div a"
proof -
  assume a: "0 < a"
  let ?q = "p div a * a"
  have p: "p = ?q + p mod a" by simp
  have "[0..<p] = [0..<?q] @ [?q..<?q + p mod a]"
    by (metis le_add1 le0 p upt_add_eq_append)
  moreover have "filter (\<lambda>x. x mod a = p mod a) [?q..<?q + p mod a] = []"
  proof -
    have "x mod a \<noteq> p mod a" if "x \<in> set [?q..<?q + p mod a]" for x
    proof -
      from that have "?q \<le> x" "x < ?q + p mod a" by (simp_all only: set_upt atLeastLessThan_iff)
      then have "x = (x - ?q) + ?q" "x - ?q < p mod a" by linarith+
      then show ?thesis
        using a by (metis less_trans mod_less mod_less_divisor mod_mult_self1 nat_neq_iff)
    qed
    then show ?thesis by (simp add: filter_empty_conv)
  qed
  ultimately show ?thesis using filter_mod_blocks [OF a mod_less_divisor [OF a]] by simp
qed

section \<open>One block\<close>

lemma room_iff:
  "n < 2 ^ 31 \<Longrightarrow> 0 < mb \<Longrightarrow> mb < 2 ^ 31 \<Longrightarrow> (of_nat n :: u64) < word_of_int mb \<longleftrightarrow> n < nat mb"
proof -
  assume n: "n < 2 ^ 31" and mb: "0 < mb" "mb < 2 ^ 31"
  have "unat (of_nat n :: u64) = n" using n by (simp add: unat_of_nat)
  moreover have "unat (word_of_int mb :: u64) = nat mb"
    using mb by (simp only: unat_eq_nat_uint uint_word_of_int) simp
  ultimately show ?thesis by (simp add: word_less_nat_alt)
qed

text \<open>The blocks a multiprocessor holds once \<open>p\<close> blocks are placed on \<open>a\<close> multiprocessors.\<close>

definition share :: "nat \<Rightarrow> nat \<Rightarrow> nat \<Rightarrow> nat list" where
  "share a p j = filter (\<lambda>x. j < a \<and> x mod a = j) [0..<p]"

lemma share_Suc: "share a (Suc p) j = share a p j @ (if j < a \<and> p mod a = j then [p] else [])"
  by (simp add: share_def)

lemma share_length: "0 < a \<Longrightarrow> length (share a p (p mod a)) = p div a"
  using filter_mod_length [of a p] by (simp add: share_def)

definition distributed ::
  "nat \<Rightarrow> nat \<Rightarrow> streaming_multiprocessor list \<Rightarrow> kernel \<Rightarrow> nat \<Rightarrow>
   int \<times> streaming_multiprocessor list \<times> kernel \<Rightarrow> bool"
where
  "distributed a mb sms0 k0 i = (\<lambda>(index, sms, k).
     let p = min i (a * mb) in
     index = int (p mod a) \<and> length sms = length sms0 \<and>
     (\<forall>j < length sms0. map fst (block_vec (sms ! j)) = map int (share a p j)) \<and>
     block_pointer k = block_pointer k0 + int p \<and>
     (\<forall>x \<ge> int i. map_of (m_blocks k) x = map_of (m_blocks k0) x))"

lemma smod_next: "0 < a \<Longrightarrow> (int (p mod a) + 1) smod int a = int (Suc p mod a)"
proof -
  assume "0 < a"
  then have "(int (p mod a) + 1) smod int a = (int (p mod a) + 1) mod int a"
    by (simp add: signed_modulo_int_def signed_divide_int_def minus_mult_div_eq_mod
        zmod_int sgn_if mult.commute)
  also have "\<dots> = int (Suc (p mod a) mod a)" by (simp add: zmod_int add.commute)
  also have "Suc (p mod a) mod a = Suc p mod a" by (simp add: mod_Suc_eq)
  finally show ?thesis .
qed

lemma spawn_block_step:
  assumes inv: "distributed a (nat mb) sms0 k0 i s" and a: "0 < a" "a \<le> length sms0"
    and i: "i < 2 ^ 31" and mb: "0 < mb" "mb < 2 ^ 31"
    and b: "map_of (m_blocks k0) (int i) = Some b"
    and line: "stoi (map_get_str (l1_cache_config c) ''l1_cache_line_size'') = Inr ls"
    and load: "load_mem_request r ls (b_block_id b) b = Inr b'"
  shows "\<exists>s'. spawn_block r c mb (int a) (int i) s = Inr s' \<and> distributed a (nat mb) sms0 k0 (Suc i) s'"
proof -
  obtain index sms k where s: "s = (index, sms, k)" by (metis prod_cases3)
  define p where "p = min i (a * nat mb)"
  from inv have idx: "index = int (p mod a)" and len: "length sms = length sms0"
    and share: "\<And>j. j < length sms0 \<Longrightarrow> map fst (block_vec (sms ! j)) = map int (share a p j)"
    and ptr: "block_pointer k = block_pointer k0 + int p"
    and rest: "\<And>x. int i \<le> x \<Longrightarrow> map_of (m_blocks k) x = map_of (m_blocks k0) x"
    by (auto simp: distributed_def s p_def Let_def)
  have pa: "p mod a < length sms" using a len by (metis mod_less_divisor order_less_le_trans)
  then have nth: "nth_res sms (p mod a) = Inr (sms ! (p mod a))" by simp
  have "length (block_vec (sms ! (p mod a))) = length (share a p (p mod a))"
    using share [of "p mod a"] pa len by (metis length_map)
  then have held: "length (block_vec (sms ! (p mod a))) = p div a" by (simp add: share_length a)
  have "p div a \<le> i" unfolding p_def by (meson div_le_dividend le_trans min.cobounded1)
  then have room: "(of_nat (length (block_vec (sms ! (p mod a)))) :: u64) < word_of_int mb \<longleftrightarrow>
      p < a * nat mb"
  proof -
    have "(of_nat (p div a) :: u64) < word_of_int mb \<longleftrightarrow> p div a < nat mb"
      using room_iff [OF _ mb, of "p div a"] \<open>p div a \<le> i\<close> i by linarith
    then show ?thesis by (simp add: held div_less_iff_less_mult a mult.commute)
  qed
  show ?thesis
  proof (cases "i < a * nat mb")
    case True
    then have p: "p = i" "min (Suc i) (a * nat mb) = Suc i" by (simp_all add: p_def)
    let ?sm = "(sms ! (p mod a))\<lparr>block_vec := map_put (int i) () (block_vec (sms ! (p mod a))),
      is_active := True\<rparr>"
    let ?s = "(int (Suc p mod a), sms[p mod a := ?sm],
      k\<lparr>m_blocks := map_put (int i) b' (m_blocks k), block_pointer := block_pointer k + 1\<rparr>)"
    have run: "spawn_block r c mb (int a) (int i) s = Inr ?s"
    proof -
      have "p < a * nat mb" using True p by simp
      then show ?thesis using a by (simp add: spawn_block_def s nth rest b line load room idx smod_next)
    qed
    have small: "\<forall>e \<in> set (block_vec (sms ! (p mod a))). fst e < int i"
    proof
      fix e assume "e \<in> set (block_vec (sms ! (p mod a)))"
      then have "fst e \<in> set (map fst (block_vec (sms ! (p mod a))))" by simp
      also have "\<dots> = set (map int (share a p (p mod a)))" using share pa len by simp
      finally show "fst e < int i" by (auto simp: share_def p)
    qed
    have "map fst (block_vec (sms[p mod a := ?sm] ! j)) = map int (share a (Suc i) j)"
      if j: "j < length sms0" for j
    proof (cases "j = p mod a")
      case True
      then show ?thesis
        using share [OF j] j len map_put_last [OF small] a by (simp add: share_Suc p)
    next
      case False
      then show ?thesis using share [OF j] by (simp add: share_Suc p)
    qed
    moreover have "map_of (map_put (int i) b' (m_blocks k)) x = map_of (m_blocks k0) x"
      if "int (Suc i) \<le> x" for x
    proof -
      have "x \<noteq> int i" using that by simp
      then have "map_of (map_put (int i) b' (m_blocks k)) x = map_of (m_blocks k) x"
        by (rule map_of_put_other)
      then show ?thesis using rest that by simp
    qed
    ultimately show ?thesis
      using run p ptr len by (simp add: distributed_def Let_def)
  next
    case False
    then have p: "p = a * nat mb" "min (Suc i) (a * nat mb) = p" by (simp_all add: p_def)
    then have "spawn_block r c mb (int a) (int i) s = Inr s"
      using room nth by (simp add: spawn_block_def s idx)
    then show ?thesis
      using p idx share ptr len rest by (simp add: distributed_def s Let_def)
  qed
qed

section \<open>The distribution\<close>

lemma spawn_blocks:
  assumes inv: "distributed a (nat mb) sms0 k0 i s" and a: "0 < a" "a \<le> length sms0"
    and n: "i + n \<le> 2 ^ 31" and mb: "0 < mb" "mb < 2 ^ 31"
    and line: "stoi (map_get_str (l1_cache_config c) ''l1_cache_line_size'') = Inr ls"
    and blocks: "\<And>x. i \<le> x \<Longrightarrow> x < i + n \<Longrightarrow>
      \<exists>b b'. map_of (m_blocks k0) (int x) = Some b \<and> load_mem_request r ls (b_block_id b) b = Inr b'"
  shows "\<exists>s'. foldM (spawn_block r c mb (int a)) (map int [i..<i + n]) s = Inr s' \<and>
    distributed a (nat mb) sms0 k0 (i + n) s'"
  using inv n blocks
proof (induction n arbitrary: i s)
  case (Suc n)
  from Suc.prems(3) [of i] obtain b b' where b: "map_of (m_blocks k0) (int i) = Some b"
    "load_mem_request r ls (b_block_id b) b = Inr b'" by auto
  have i: "i < 2 ^ 31" using Suc.prems(2) by simp
  from spawn_block_step [OF Suc.prems(1) a i mb b(1) line b(2)] obtain s1
    where s1: "spawn_block r c mb (int a) (int i) s = Inr s1" "distributed a (nat mb) sms0 k0 (Suc i) s1"
    by blast
  have "[i..<i + Suc n] = i # [Suc i..<Suc i + n]" by (simp add: upt_conv_Cons)
  moreover from Suc.IH [OF s1(2)] Suc.prems(2,3) obtain s' where
    "foldM (spawn_block r c mb (int a)) (map int [Suc i..<Suc i + n]) s1 = Inr s'"
    "distributed a (nat mb) sms0 k0 (Suc i + n) s'"
    by auto
  ultimately show ?case using s1(1) by simp
qed simp

text \<open>C18. The first distribution of blocks: with room for \<open>mb\<close> blocks on each multiprocessor and
  \<open>a\<close> active ones, the first \<open>p = min n (a * mb)\<close> of the \<open>n\<close> blocks are placed, block \<open>x\<close> on
  multiprocessor \<open>x mod a\<close> and nowhere else, no multiprocessor holds more than \<open>mb\<close>, and the
  kernel's block pointer moves past exactly the placed ones, so none is skipped or launched twice
  later.\<close>

theorem first_spawn_block_distributes:
  assumes mb: "max_block_per_sm (m_gpu_configs g) (m_kernel_info k) = Inr mb" "0 < mb" "mb < 2 ^ 31"
    and k: "m_active_kernel g = k" and keys: "map fst (m_blocks k) = map int [0..<n]"
    and n: "0 < n" "n < 2 ^ 31" "m_grid_size (m_kernel_info k) = of_nat n"
    and sms: "m_sm g \<noteq> []" "cfg_int (m_gpu_configs g) ''sm_num'' = Inr (int (length (m_sm g)))"
      "list_all (\<lambda>sm. block_vec sm = []) (m_sm g)"
    and line: "stoi (map_get_str (l1_cache_config (m_gpu_configs g)) ''l1_cache_line_size'') = Inr ls"
    and load: "list_all (\<lambda>(x, b). \<exists>b'. load_mem_request (traceReader g) ls (b_block_id b) b = Inr b')
      (m_blocks k)"
  defines "a \<equiv> min n (length (m_sm g))"
  defines "p \<equiv> min n (a * nat mb)"
  shows "\<exists>g'. first_spawn_block g = Inr g' \<and> length (m_sm g') = length (m_sm g) \<and>
    block_pointer (m_active_kernel g') = block_pointer k + int p \<and>
    (\<forall>j < length (m_sm g). map fst (block_vec (m_sm g' ! j)) = map int (share a p j) \<and>
       length (share a p j) \<le> nat mb)"
proof -
  let ?sms = "map (\<lambda>sm. sm\<lparr>m_max_blocks := mb\<rparr>) (m_sm g)"
  have a: "0 < a" "a \<le> length ?sms" using n(1) sms(1) by (simp_all add: a_def)
  have uint: "uint (of_nat n :: u32) = int n"
    using n(2) by (simp add: unsigned_of_nat take_bit_nat_eq_self)
  have grid: "min (sint (m_grid_size (m_kernel_info k))) (int (length (m_sm g))) = int a"
  proof -
    have "sint (of_nat n :: u32) = int n"
      using n(2) by (simp add: signed_of_nat signed_take_bit_int_eq_self)
    then show ?thesis by (simp add: n(3) a_def)
  qed
  have inv: "distributed a (nat mb) ?sms k 0 (0, ?sms, k)"
    using sms(3) by (auto simp: distributed_def share_def list_all_length)
  have blocks: "\<exists>b b'. map_of (m_blocks k) (int x) = Some b \<and>
      load_mem_request (traceReader g) ls (b_block_id b) b = Inr b'" if "x < n" for x
  proof -
    have "int x \<in> fst ` set (m_blocks k)"
      using that keys by (metis (no_types) image_eqI list.set_map set_upt atLeastLessThan_iff le0)
    then obtain b where b: "map_of (m_blocks k) (int x) = Some b"
      by (metis map_of_None_iff not_None_eq)
    then show ?thesis using load by (auto simp: list_all_iff dest!: map_of_SomeD)
  qed
  from spawn_blocks [OF inv a _ mb(2,3) line, of n "traceReader g"] n(2) blocks
  obtain s where run: "foldM (spawn_block (traceReader g) (m_gpu_configs g) mb (int a))
      (map int [0..<n]) (0, ?sms, k) = Inr s"
    and inv': "distributed a (nat mb) ?sms k n s"
    by auto
  obtain index sms' k' where s: "s = (index, sms', k')" by (metis prod_cases3)
  have res: "first_spawn_block g = Inr (g\<lparr>m_sm := sms', m_active_kernel := k'\<rparr>)"
    using mb sms(2) run by (simp add: first_spawn_block_def Let_def k keys grid s)
  have "length (share a p j) \<le> nat mb" for j
  proof (cases "j < a")
    case True
    have "length (share a p j) \<le> length (filter (\<lambda>x. x mod a = j) [0..<nat mb * a])"
    proof -
      have "p \<le> nat mb * a" by (simp add: p_def mult.commute)
      then have "[0..<nat mb * a] = [0..<p] @ [p..<nat mb * a]"
        by (metis le0 le_add_diff_inverse upt_add_eq_append)
      then show ?thesis using True by (simp add: share_def)
    qed
    then show ?thesis using filter_mod_blocks [OF a(1) True] by simp
  qed (simp add: share_def)
  then show ?thesis
    using inv' res by (simp add: distributed_def s p_def Let_def)
qed

text \<open>Three blocks on two multiprocessors with room for one block each.\<close>

definition two_sm_config :: gpu_config where
  "two_sm_config = ampere_config
     \<lparr>m_gpu_config := [(''sm_num'', ''2''), (''shared_mem_size'', ''102400''),
        (''num_warp_schedulers_per_SM'', ''4'')],
      l1_cache_config := [(''l1_cache_line_size'', ''128'')],
      m_compute_capability := [(''max_active_blocks_per_SM'', 1), (''max_active_threads_per_SM'', 1536),
        (''warp_size'', 32), (''register_allocation_size'', 256), (''max_registers_per_block'', 65536),
        (''max_registers_per_SM'', 65536), (''smem_allocation_size'', 128)]\<rparr>"

definition three_block_kernel :: kernel where
  "three_block_kernel = (new_kernel 1)
     \<lparr>m_kernel_info := zero_kernel_info\<lparr>m_grid_size := 3, m_block_size := 32\<rparr>,
      m_blocks := map (\<lambda>i. (i, new_block 1 i)) [0, 1, 2]\<rparr>"

definition two_sm_gpu :: "memory_partition \<Rightarrow> gpu_env \<Rightarrow> gpu" where
  "two_sm_gpu mp e =
     \<lparr>m_gpu_configs = two_sm_config, g_env = e, m_active_kernel = three_block_kernel,
      traceReader = (new_trace_reader 1)\<lparr>m_block_mem_index_ready := True\<rparr>,
      m_sm = [new_sm 0 two_sm_config two_by_two, new_sm 1 two_sm_config two_by_two],
      m_memory_partition = mp, gpu_sim_insn = 0, active_sm_cycles = 0, total_sm_cycles = 0,
      issue_active_sm_cycles = 0, memory_stall_sm_cycles = 0, dependency_stall_sm_cycles = 0,
      unit_stall_sm_cycles = 0, scheduler_idle_sm_cycles = 0\<rparr>"

theorem first_spawn_block_distributes_witness:
  "\<forall>mp e. \<exists>g'. first_spawn_block (two_sm_gpu mp e) = Inr g' \<and>
     block_pointer (m_active_kernel g') = 2 \<and> map fst (block_vec (m_sm g' ! 1)) = [1]"
proof (intro allI)
  fix mp e
  let ?g = "two_sm_gpu mp e"
  have mb: "max_block_per_sm two_sm_config (m_kernel_info three_block_kernel) = Inr 1"
  proof -
    let ?o = "\<lparr>o_block_size = 32, o_regs = 0, o_smem = 0, o_warp_size = 32, o_max_blocks = 1,
      o_max_threads = 1536, o_reg_unit = 256, o_block_regs = 65536, o_sm_regs = 65536,
      o_smem_unit = 128, o_sm_smem = 102400, o_scheds = 4\<rparr>"
    have "facts_of two_sm_config (m_kernel_info three_block_kernel) ?o"
      by (simp add: facts_of_def two_sm_config_def three_block_kernel_def zero_kernel_info_def cap_def
          map_get0_def map_get_str_def stof_examples)
    moreover have "hardware_sized ?o"
      by (simp add: hardware_sized_def o_warp_regs_def o_block_smem_def ceil_div_def)
    moreover have "occupancy ?o = 1"
      by (simp add: occupancy_def blocks_by_smem_def blocks_by_regs_def blocks_by_warps_def o_warps_def
          ceil_div_def)
    ultimately show ?thesis using max_block_per_sm_int [where o' = ?o] by (simp only:)
  qed
  have line: "stoi (map_get_str (l1_cache_config two_sm_config) ''l1_cache_line_size'') = Inr 128"
    and num: "cfg_int two_sm_config ''sm_num'' = Inr 2"
    by code_simp+
  have load: "list_all (\<lambda>(x, b). \<exists>b'. load_mem_request (traceReader ?g) 128 (b_block_id b) b = Inr b')
      (m_blocks three_block_kernel)"
    by (simp add: three_block_kernel_def two_sm_gpu_def load_mem_request_def read_mem_def
        get_block_mem_offsets_def new_trace_reader_def)
  have keys: "map fst (m_blocks three_block_kernel) = map int [0..<3]" by code_simp
  have g: "m_gpu_configs ?g = two_sm_config" "m_active_kernel ?g = three_block_kernel"
    "length (m_sm ?g) = 2" "m_sm ?g \<noteq> []" "list_all (\<lambda>sm. block_vec sm = []) (m_sm ?g)"
    by (simp_all add: two_sm_gpu_def new_sm_def Let_def split_beta)
  have grid: "m_grid_size (m_kernel_info three_block_kernel) = of_nat 3"
    by (simp add: three_block_kernel_def)
  have share1: "share 2 2 1 = [1]" by code_simp
  have pointer: "block_pointer three_block_kernel = 0"
    by (simp add: three_block_kernel_def new_kernel_def)
  have "\<exists>g'. first_spawn_block ?g = Inr g' \<and> length (m_sm g') = length (m_sm ?g) \<and>
    block_pointer (m_active_kernel g') =
      block_pointer three_block_kernel + int (min 3 (min 3 (length (m_sm ?g)) * nat 1)) \<and>
    (\<forall>j < length (m_sm ?g). map fst (block_vec (m_sm g' ! j)) =
       map int (share (min 3 (length (m_sm ?g))) (min 3 (min 3 (length (m_sm ?g)) * nat 1)) j) \<and>
       length (share (min 3 (length (m_sm ?g))) (min 3 (min 3 (length (m_sm ?g)) * nat 1)) j) \<le> nat 1)"
    by (rule first_spawn_block_distributes [where ls = 128])
      (simp_all only: g mb num line load keys grid, simp_all)
  then obtain g' where g': "first_spawn_block ?g = Inr g'" "block_pointer (m_active_kernel g') = 2"
    "map fst (block_vec (m_sm g' ! 1)) = map int (share 2 2 1)"
    by (auto simp: g(3) pointer)
  then show "\<exists>g'. first_spawn_block ?g = Inr g' \<and> block_pointer (m_active_kernel g') = 2 \<and>
      map fst (block_vec (m_sm g' ! 1)) = [1]"
    using share1 by (auto simp only: list.map of_nat_1)
qed

end
