(* ===== verification/Command_Line.thy ===== *)
theory Command_Line
  imports Cpp_String
begin

text \<open>
  The command line of the simulator (\<^verbatim>\<open>main.cpp\<close>): which kernels of a benchmark are to be
  simulated.  The kernels are listed in a file, found in the trace directory, or given as numbers.
  The contents of files and directories are functions of their paths, the messages on the standard
  error stream are not modelled; \<open>exit(1)\<close> is \<open>Exit_Called\<close>.
\<close>

section \<open>Decimal numbers\<close>

text \<open>\<open>std::to_string\<close> of an integer.\<close>

fun digits_of :: "nat \<Rightarrow> string" where
  "digits_of n = (if n < 10 then [char_of (48 + n)] else digits_of (n div 10) @ [char_of (48 + n mod 10)])"

declare digits_of.simps [simp del]

definition to_string :: "int \<Rightarrow> string" where
  "to_string n = (if n < 0 then CHR ''-'' # digits_of (nat (- n)) else digits_of (nat n))"

lemma digit_char [simp]:
  assumes "d < 10"
  shows "is_digit (char_of (48 + d))" "digit_val (char_of (48 + d)) = int d"
proof -
  have "(of_char (char_of (48 + d) :: char) :: nat) = 48 + d" using assms by simp
  moreover from this have "(of_char (char_of (48 + d) :: char) :: int) = int (48 + d)"
    by (metis of_nat_of_char)
  ultimately have n: "(of_char (char_of (48 + d) :: char) :: nat) = 48 + d"
    "(of_char (char_of (48 + d) :: char) :: int) = 48 + int d"
    by simp_all
  show "is_digit (char_of (48 + d))" "digit_val (char_of (48 + d)) = int d"
    using assms by (simp_all add: is_digit_def digit_val_def n)
qed

lemma not_digit [simp]: "\<not> is_digit (CHR ''-'')" "\<not> is_digit (CHR ''+'')" "\<not> is_digit (CHR 0x0A)"
  by (simp_all add: is_digit_def)

lemma digit_no_space: "is_digit c \<Longrightarrow> \<not> is_space c"
  by (auto simp: is_digit_def is_space_def Let_def)

lemma digits_of_digits: "digits_of n \<noteq> [] \<and> list_all is_digit (digits_of n)"
proof (induction n rule: digits_of.induct)
  case (1 n)
  then show ?case by (subst (1 2) digits_of.simps) auto
qed

lemma decimal_digits_of: "decimal (digits_of n) = int n"
proof (induction n rule: digits_of.induct)
  case (1 n)
  show ?case
  proof (cases "n < 10")
    case False
    have "10 * int (n div 10) + int (n mod 10) = int n" by presburger
    with 1 False show ?thesis by (subst digits_of.simps) (simp add: decimal_def)
  qed (subst digits_of.simps, simp add: decimal_def)
qed

lemma takeWhile_digits_of:
  assumes "rest = [] \<or> \<not> is_digit (hd rest)"
  shows "takeWhile is_digit (digits_of n @ rest) = digits_of n"
    "dropWhile is_digit (digits_of n @ rest) = rest"
proof -
  have "\<forall>c \<in> set (digits_of n). is_digit c" using digits_of_digits [of n] by (auto simp: list_all_iff)
  moreover have "takeWhile is_digit rest = []" "dropWhile is_digit rest = rest"
    using assms by (cases rest; simp)+
  ultimately show "takeWhile is_digit (digits_of n @ rest) = digits_of n"
    "dropWhile is_digit (digits_of n @ rest) = rest"
    by (simp_all add: takeWhile_append2 dropWhile_append2)
qed

lemma stoi_digits_of:
  assumes "int n < 2 ^ 31"
  shows "stoi (digits_of n) = Inr (int n)"
proof -
  obtain c t where ct: "digits_of n = c # t" "is_digit c"
    using digits_of_digits [of n] by (cases "digits_of n") auto
  moreover have "c \<noteq> CHR ''-''" "c \<noteq> CHR ''+''" using ct(2) by auto
  ultimately have "strip_sign (dropWhile is_space (digits_of n)) = (False, digits_of n)"
    by (simp add: strip_sign_def digit_no_space)
  then show ?thesis
    using takeWhile_digits_of(1) [of "[]" n] assms decimal_digits_of [of n] ct(1)
    by (simp add: stoi_def Let_def)
qed

lemma no_space_digits_of [simp]: "no_space (digits_of n)"
  using digits_of_digits [of n] digit_no_space by (auto simp: list_all_iff)

lemma not_space [simp]: "\<not> is_space (CHR ''-'')" "\<not> is_space (CHR ''0'')" "\<not> is_space (CHR ''R'')"
  by (simp_all add: is_space_def)

lemma no_space_to_string [simp]: "no_space (to_string n)"
  by (simp add: to_string_def)

section \<open>The kernels to simulate\<close>

text \<open>The number after \<^verbatim>\<open>kernel-\<close>, which starts at \<open>pos\<close>: \<open>None\<close> when there is no digit.\<close>

definition kernel_number :: "nat \<Rightarrow> string \<Rightarrow> int res option" where
  "kernel_number pos line =
     (let digits = takeWhile is_digit (drop pos line)
      in if digits = [] then None else Some (stoi digits))"

definition parse_g_line :: "string \<Rightarrow> int list \<Rightarrow> int list res" where
  "parse_g_line line ids =
     (if line = [] \<or> hd line = CHR ''#'' then Inr ids
      else case str_find ''kernel-'' line of
        None \<Rightarrow> Inr ids
      | Some pos \<Rightarrow>
          (case kernel_number (pos + 7) line of
             None \<Rightarrow> Inr ids
           | Some n \<Rightarrow> rbind n (\<lambda>n. Inr (ids @ [n]))))"

definition parse_g_kernel_ids :: "string option \<Rightarrow> int list res" where
  "parse_g_kernel_ids file =
     (case file of
        None \<Rightarrow> Inl Exit_Called
      | Some content \<Rightarrow>
          rbind (foldM parse_g_line (file_lines content) []) (\<lambda>ids.
            guard (ids \<noteq> []) Exit_Called (Inr ids)))"

text \<open>The names in the trace directory: a \<open>std::set\<close> keeps the numbers in order and once each.\<close>

definition trace_file_entry :: "string \<Rightarrow> int list \<Rightarrow> int list res" where
  "trace_file_entry name ids =
     (if str_find ''kernel-'' name \<noteq> Some 0 then Inr ids
      else case kernel_number 7 name of
        None \<Rightarrow> Inr ids
      | Some n \<Rightarrow>
          if \<not> str_contains ''.sass'' name \<and> \<not> str_contains ''.mem'' name then Inr ids
          else if str_contains ''-block-'' name then Inr ids
          else rbind n (\<lambda>n. Inr (insort_insert n ids)))"

definition discover_kernel_ids_from_trace_dir :: "string list option \<Rightarrow> int list res" where
  "discover_kernel_ids_from_trace_dir dir =
     (case dir of
        None \<Rightarrow> Inl Exit_Called
      | Some names \<Rightarrow>
          rbind (foldM trace_file_entry names []) (\<lambda>ids. guard (ids \<noteq> []) Exit_Called (Inr ids)))"

text \<open>
  The dispatch of \<open>main\<close> on its arguments (without the name of the program).  The loop up to
  \<open>kernel_end\<close> increments its \<open>int\<close> once more, which overflows at \<open>INT_MAX\<close>.
\<close>

definition kernel_ids_of_arguments ::
  "string \<Rightarrow> (string \<Rightarrow> string option) \<Rightarrow> (string \<Rightarrow> string list option) \<Rightarrow> string list \<Rightarrow>
   (string \<times> int list) res"
where
  "kernel_ids_of_arguments trace_root files dirs args =
     (case args of
        [benchmark] \<Rightarrow>
          rbind (discover_kernel_ids_from_trace_dir (dirs (trace_root @ benchmark @ ''/traces'')))
            (\<lambda>ids. Inr (benchmark, ids))
      | [benchmark, n] \<Rightarrow>
          rbind (stoi n) (\<lambda>n. Inr (benchmark, map (\<lambda>i. int i + 1) [0..<nat n]))
      | [benchmark, a, b] \<Rightarrow>
          if a = ''--g'' then rbind (parse_g_kernel_ids (files b)) (\<lambda>ids. Inr (benchmark, ids))
          else
            rbind (stoi a) (\<lambda>first. rbind (stoi b) (\<lambda>final.
              guard (first \<le> final \<longrightarrow> final < 2 ^ 31 - 1) Undefined_Behaviour
                (Inr (benchmark, map (\<lambda>i. first + int i) [0..<nat (final + 1 - first)]))))
      | _ \<Rightarrow> Inl Exit_Called)"

section \<open>The kernel list\<close>

text \<open>A line of the list the tracer's scripts write: the name of a kernel's trace file.\<close>

definition kernel_line :: "string \<Rightarrow> int \<Rightarrow> string" where
  "kernel_line ext n = ''kernel-'' @ to_string n @ ext"

lemma parse_kernel_line:
  assumes "0 \<le> n" "n < 2 ^ 31" "ext = [] \<or> \<not> is_digit (hd ext)"
  shows "parse_g_line (kernel_line ext n) ids = Inr (ids @ [n])"
  using assms takeWhile_digits_of [OF assms(3), of "nat n"] digits_of_digits [of "nat n"]
    stoi_digits_of [of "nat n"]
  by (simp add: parse_g_line_def kernel_line_def kernel_number_def to_string_def Let_def)

lemma kernel_line_no_newline:
  assumes "0 \<le> n" "CHR 0x0A \<notin> set ext"
  shows "CHR 0x0A \<notin> set (kernel_line ext n)"
  using assms digits_of_digits [of "nat n"] not_digit(3)
  by (auto simp: kernel_line_def to_string_def list_all_iff simp del: not_digit)

lemma file_lines_kernel_lines:
  assumes "\<forall>n \<in> set ids. 0 \<le> n" "CHR 0x0A \<notin> set ext"
  shows "file_lines (concat (map (\<lambda>n. kernel_line ext n @ [CHR 0x0A]) ids)) = map (kernel_line ext) ids"
  using assms
proof (induction ids)
  case Nil
  then show ?case by (simp add: file_lines.simps)
next
  case (Cons n ids)
  then show ?case using file_lines_line [OF kernel_line_no_newline [of n ext]] by simp
qed

lemma parse_kernel_lines:
  assumes "\<forall>n \<in> set ids. 0 \<le> n \<and> n < 2 ^ 31" "ext = [] \<or> \<not> is_digit (hd ext)"
  shows "foldM parse_g_line (map (kernel_line ext) ids) acc = Inr (acc @ ids)"
  using assms(1) by (induction ids arbitrary: acc) (simp_all add: parse_kernel_line [OF _ _ assms(2)])

text \<open>The kernel list survives writing and reading: from a file with one line
  \<^verbatim>\<open>kernel-<n><ext>\<close> per kernel the reader of \<^verbatim>\<open>--g\<close> recovers exactly the numbers, in their order
  and with their repetitions, whatever follows the number, as long as it does not begin with a digit.\<close>

theorem parse_g_kernel_ids_roundtrip:
  assumes "ids \<noteq> []" "\<forall>n \<in> set ids. 0 \<le> n \<and> n < 2 ^ 31"
    and "ext = [] \<or> \<not> is_digit (hd ext)" "CHR 0x0A \<notin> set ext"
  shows "parse_g_kernel_ids (Some (concat (map (\<lambda>n. kernel_line ext n @ [CHR 0x0A]) ids))) = Inr ids"
  using assms file_lines_kernel_lines [of ids ext] parse_kernel_lines [of ids ext "[]"]
  by (simp add: parse_g_kernel_ids_def)

theorem parse_g_kernel_ids_roundtrip_witness:
  "parse_g_kernel_ids (Some (concat (map (\<lambda>n. kernel_line ''.traceg'' n @ [CHR 0x0A]) [12, 3, 12]))) =
     Inr [12, 3, 12]"
  by (rule parse_g_kernel_ids_roundtrip) (simp_all add: is_digit_def)

section \<open>Discovery in the trace directory\<close>

text \<open>A file of kernel \<open>n\<close>, and not the trace of one of its blocks.\<close>

definition traced_kernel :: "string \<Rightarrow> int \<Rightarrow> bool" where
  "traced_kernel name n \<longleftrightarrow>
     prefix ''kernel-'' name \<and> kernel_number 7 name = Some (Inr n) \<and>
     (sublist ''.sass'' name \<or> sublist ''.mem'' name) \<and> \<not> sublist ''-block-'' name"

lemma str_find_0: "p \<noteq> [] \<Longrightarrow> str_find p s = Some 0 \<longleftrightarrow> prefix p s"
  by (cases s) auto

lemma trace_file_entry_set:
  assumes "trace_file_entry name ids = Inr ids'" "sorted ids" "distinct ids"
  shows "sorted ids' \<and> distinct ids' \<and> set ids' = set ids \<union> Collect (traced_kernel name)"
  using assms
  by (auto simp: trace_file_entry_def traced_kernel_def str_find_0 str_contains_iff rbind_eq_Inr
      set_insort_insert sorted_insort_insert distinct_insort_insert split: if_splits option.splits)

lemma trace_file_entries_set:
  assumes "foldM trace_file_entry names ids = Inr ids'" "sorted ids" "distinct ids"
  shows "sorted ids' \<and> distinct ids' \<and> set ids' = set ids \<union> {n. \<exists>name \<in> set names. traced_kernel name n}"
  using assms
proof (induction names arbitrary: ids)
  case (Cons name names)
  then obtain ids1 where "trace_file_entry name ids = Inr ids1" "foldM trace_file_entry names ids1 = Inr ids'"
    by (auto simp: rbind_eq_Inr)
  with Cons trace_file_entry_set [of name ids ids1] show ?case by auto
qed simp

text \<open>Discovery in the trace directory yields a strictly increasing list, and a number is in it
  exactly if some file of that kernel, \<^verbatim>\<open>kernel-<n>...\<close> with \<^verbatim>\<open>.sass\<close> or \<^verbatim>\<open>.mem\<close> in its name and not
  the trace of a single block, is in the directory.\<close>

theorem discover_kernel_ids_exact:
  assumes "discover_kernel_ids_from_trace_dir (Some names) = Inr ids"
  shows "sorted ids \<and> distinct ids \<and> ids \<noteq> [] \<and>
    set ids = {n. \<exists>name \<in> set names. traced_kernel name n}"
  using assms trace_file_entries_set [of names "[]" ids]
  by (auto simp: discover_kernel_ids_from_trace_dir_def rbind_eq_Inr guard_eq_Inr)

theorem discover_kernel_ids_exact_witness:
  "{n. \<exists>name \<in> {''kernel-11.sass'', ''kernel-2.mem'', ''kernel-2.sass'', ''kernel-7-block-3.mem'', ''stats''}.
     traced_kernel name n} = {2, 11}"
proof -
  have "discover_kernel_ids_from_trace_dir
      (Some [''kernel-11.sass'', ''kernel-2.mem'', ''kernel-2.sass'', ''kernel-7-block-3.mem'', ''stats'']) =
    Inr [2, 11]"
    by code_simp
  from discover_kernel_ids_exact [OF this] show ?thesis by simp
qed

end
