(* ===== verification/Worker_Pool.thy ===== *)
theory Worker_Pool
  imports Gpu Command_Line
begin

text \<open>
  The worker pool of \<^verbatim>\<open>main.cpp\<close>: \<open>main\<close> starts a thread per kernel in at most 32 slots, polls the
  slots, joins finished threads and starts the next kernel in their place.  The threads and \<open>main\<close>
  interleave freely; they share the slots' contexts, through the pointer a thread is given, and the
  progress counters, under a mutex.  A step of the relation below is one access to that shared state.
  A thread counts as finished from its last access on: what it prints and destroys behind that is its own.
  The name of the benchmark, the same in every context, and what is printed are left out.
\<close>

section \<open>Totals\<close>

datatype cycle_totals =
  Cycle_Totals
    (completed_gpu_cycles: int)
    (completed_active_sm_cycles: int)
    (completed_sm_cycles: int)
    (completed_issue_active_sm_cycles: int)
    (completed_memory_stall_sm_cycles: int)
    (completed_dependency_stall_sm_cycles: int)
    (completed_unit_stall_sm_cycles: int)
    (completed_scheduler_idle_sm_cycles: int)

text \<open>Totals are added field by field; the library's sums over lists apply to them.\<close>

instantiation cycle_totals :: comm_monoid_add
begin

definition zero_cycle_totals :: cycle_totals where
  "zero_cycle_totals = Cycle_Totals 0 0 0 0 0 0 0 0"

fun plus_cycle_totals :: "cycle_totals \<Rightarrow> cycle_totals \<Rightarrow> cycle_totals" where
  "plus_cycle_totals (Cycle_Totals a b c d e f g h) (Cycle_Totals a' b' c' d' e' f' g' h') =
     Cycle_Totals (a + a') (b + b') (c + c') (d + d') (e + e') (f + f') (g + g') (h + h')"

instance
proof
  fix x y z :: cycle_totals
  show "x + y + z = x + (y + z)" by (cases x; cases y; cases z) simp
  show "x + y = y + x" by (cases x; cases y) simp
  show "0 + x = x" by (cases x) (simp add: zero_cycle_totals_def)
qed

end

definition totals_of :: "gpu \<Rightarrow> cycle_totals" where
  "totals_of g =
     Cycle_Totals (gpu_sim_cycles (g_env g)) (active_sm_cycles g) (total_sm_cycles g)
       (issue_active_sm_cycles g) (memory_stall_sm_cycles g) (dependency_stall_sm_cycles g)
       (unit_stall_sm_cycles g) (scheduler_idle_sm_cycles g)"

section \<open>One kernel\<close>

datatype run_outcome = Trace_Missing | Simulated gpu

text \<open>
  \<open>run_single_kernel\<close> after the first progress message: \<open>None\<close> when the simulation never ends,
  \<open>Inl\<close> when it takes the process down.  A missing trace ends the thread before it has counted its
  kernel as finished.  The configuration files are read anew by every kernel's \<open>gpu\<close>.
\<close>

definition trace_file :: "string \<Rightarrow> string \<Rightarrow> int \<Rightarrow> string \<Rightarrow> string" where
  "trace_file trace_root benchmark kernel_id ext =
     trace_root @ benchmark @ ''/traces'' @ ''/kernel-'' @ to_string kernel_id @ ext"

definition run_single_kernel ::
  "string \<Rightarrow> string \<Rightarrow> bool \<Rightarrow> (string \<Rightarrow> string option) \<Rightarrow> string \<Rightarrow> string \<Rightarrow> int \<Rightarrow> run_outcome res option"
where
  "run_single_kernel gpu_file latency_file log_ok files trace_root benchmark kernel_id =
     (let mem = files (trace_file trace_root benchmark kernel_id ''.mem'');
          sass = files (trace_file trace_root benchmark kernel_id ''.sass'') in
      if mem = None \<or> sass = None then Some (Inr Trace_Missing)
      else
        obind (read_m_config gpu_file latency_file empty_gpu_config) (\<lambda>c.
        obind (Some (build_gpu c log_ok)) (\<lambda>g.
        obind (Some (launch_kernel kernel_id sass g)) (\<lambda>g.
        obind (Some (build_block_mem_index mem (traceReader g))) (\<lambda>r.
        obind (Some (first_spawn_block (g\<lparr>traceReader := r\<rparr>))) (\<lambda>g.
        obind (gpu_cycle g) (\<lambda>g. Some (Inr (Simulated g)))))))))"

text \<open>What a finished run adds to the progress counters.\<close>

fun finished_by :: "run_outcome \<Rightarrow> nat" where
  "finished_by Trace_Missing = 0"
| "finished_by (Simulated g) = 1"

fun totals_by :: "run_outcome \<Rightarrow> cycle_totals" where
  "totals_by Trace_Missing = 0"
| "totals_by (Simulated g) = totals_of g"

section \<open>The state of the process\<close>

record thread_slot =
  slot_thread :: nat
  ctx_kernel_id :: int
  slot_active :: bool

text \<open>A thread knows the slot whose context it was given until it has read the kernel's number.\<close>

datatype worker = Created nat | Running int | Finished int

text \<open>Where \<open>main\<close> stands: in the first loop, at the test of the polling loop, at a slot of the
  inner loop, behind the loops, or \<open>exit\<close> was called.\<close>

datatype main_at = Launching | Polling | Scanning nat | Returned | Exited

record pool =
  pool_slots :: "thread_slot list"
  next_kernel_index :: nat
  active_threads :: nat
  workers :: "worker list"
  started_kernels :: nat
  finished_kernels :: nat
  completed :: cycle_totals
  main_at :: main_at

definition MAX_CONCURRENT_KERNELS :: nat where
  "MAX_CONCURRENT_KERNELS = 32"

definition max_workers :: "int list \<Rightarrow> nat" where
  "max_workers ids = max 1 (min MAX_CONCURRENT_KERNELS (length ids))"

definition new_pool :: "int list \<Rightarrow> pool" where
  "new_pool ids =
     \<lparr>pool_slots = replicate (max_workers ids) \<lparr>slot_thread = 0, ctx_kernel_id = 0, slot_active = False\<rparr>,
      next_kernel_index = 0, active_threads = 0, workers = [], started_kernels = 0,
      finished_kernels = 0, completed = 0, main_at = Launching\<rparr>"

text \<open>\<open>launch_in_slot\<close> on the next kernel, with the increment of the index that follows each call.\<close>

definition launch_next :: "int list \<Rightarrow> nat \<Rightarrow> pool \<Rightarrow> pool" where
  "launch_next ids i s =
     s\<lparr>pool_slots := (pool_slots s)
         [i := \<lparr>slot_thread = length (workers s), ctx_kernel_id = ids ! next_kernel_index s, slot_active = True\<rparr>],
       workers := workers s @ [Created i],
       active_threads := active_threads s + 1,
       next_kernel_index := next_kernel_index s + 1\<rparr>"

definition release_slot :: "nat \<Rightarrow> pool \<Rightarrow> pool" where
  "release_slot i s =
     s\<lparr>pool_slots := (pool_slots s)[i := (pool_slots s ! i)\<lparr>slot_active := False\<rparr>],
       active_threads := active_threads s - 1\<rparr>"

text \<open>The body of the inner loop when the thread of slot \<open>i\<close> has been joined.\<close>

definition join_slot :: "int list \<Rightarrow> nat \<Rightarrow> pool \<Rightarrow> pool" where
  "join_slot ids i s =
     (let s = release_slot i s in
      (if next_kernel_index s < length ids then launch_next ids i s else s)\<lparr>main_at := Scanning (Suc i)\<rparr>)"

definition thread_finished :: "pool \<Rightarrow> nat \<Rightarrow> bool" where
  "thread_finished s i = (case workers s ! slot_thread (pool_slots s ! i) of Finished _ \<Rightarrow> True | _ \<Rightarrow> False)"

section \<open>Steps\<close>

inductive pool_step ::
  "int list \<Rightarrow> (int \<Rightarrow> run_outcome res option) \<Rightarrow> pool \<Rightarrow> pool \<Rightarrow> bool"
  for ids :: "int list" and run :: "int \<Rightarrow> run_outcome res option"
where
  Launch:
    "main_at s = Launching \<Longrightarrow> next_kernel_index s < length ids \<Longrightarrow>
     active_threads s < length (pool_slots s) \<Longrightarrow>
     pool_step ids run s (launch_next ids (active_threads s) s)"
| Launch_Fails:
    "main_at s = Launching \<Longrightarrow> next_kernel_index s < length ids \<Longrightarrow>
     active_threads s < length (pool_slots s) \<Longrightarrow> pool_step ids run s (s\<lparr>main_at := Exited\<rparr>)"
| Launched:
    "main_at s = Launching \<Longrightarrow>
     \<not> (next_kernel_index s < length ids \<and> active_threads s < length (pool_slots s)) \<Longrightarrow>
     pool_step ids run s (s\<lparr>main_at := Polling\<rparr>)"
| Poll:
    "main_at s = Polling \<Longrightarrow> 0 < active_threads s \<Longrightarrow> pool_step ids run s (s\<lparr>main_at := Scanning 0\<rparr>)"
| Return:
    "main_at s = Polling \<Longrightarrow> active_threads s = 0 \<Longrightarrow> pool_step ids run s (s\<lparr>main_at := Returned\<rparr>)"
| Skip:
    "main_at s = Scanning i \<Longrightarrow> i < length (pool_slots s) \<Longrightarrow> \<not> slot_active (pool_slots s ! i) \<Longrightarrow>
     pool_step ids run s (s\<lparr>main_at := Scanning (Suc i)\<rparr>)"
| Busy:
    "main_at s = Scanning i \<Longrightarrow> i < length (pool_slots s) \<Longrightarrow> slot_active (pool_slots s ! i) \<Longrightarrow>
     \<not> thread_finished s i \<Longrightarrow> pool_step ids run s (s\<lparr>main_at := Scanning (Suc i)\<rparr>)"
| Join:
    "main_at s = Scanning i \<Longrightarrow> i < length (pool_slots s) \<Longrightarrow> slot_active (pool_slots s ! i) \<Longrightarrow>
     thread_finished s i \<Longrightarrow> pool_step ids run s (join_slot ids i s)"
| Relaunch_Fails:
    "main_at s = Scanning i \<Longrightarrow> i < length (pool_slots s) \<Longrightarrow> slot_active (pool_slots s ! i) \<Longrightarrow>
     thread_finished s i \<Longrightarrow> next_kernel_index s < length ids \<Longrightarrow>
     pool_step ids run s ((release_slot i s)\<lparr>main_at := Exited\<rparr>)"
| Rescan:
    "main_at s = Scanning i \<Longrightarrow> \<not> i < length (pool_slots s) \<Longrightarrow> pool_step ids run s (s\<lparr>main_at := Polling\<rparr>)"
| Thread_Start:
    "main_at s \<noteq> Exited \<Longrightarrow> t < length (workers s) \<Longrightarrow> workers s ! t = Created i \<Longrightarrow>
     pool_step ids run s
       (s\<lparr>workers := (workers s)[t := Running (ctx_kernel_id (pool_slots s ! i))],
          started_kernels := started_kernels s + 1\<rparr>)"
| Thread_Return:
    "main_at s \<noteq> Exited \<Longrightarrow> t < length (workers s) \<Longrightarrow> workers s ! t = Running k \<Longrightarrow> run k = Some (Inr r) \<Longrightarrow>
     pool_step ids run s
       (s\<lparr>workers := (workers s)[t := Finished k], finished_kernels := finished_kernels s + finished_by r,
          completed := completed s + totals_by r\<rparr>)"
| Thread_Stops_Process:
    "main_at s \<noteq> Exited \<Longrightarrow> t < length (workers s) \<Longrightarrow> workers s ! t = Running k \<Longrightarrow> run k = Some (Inl e) \<Longrightarrow>
     pool_step ids run s (s\<lparr>main_at := Exited\<rparr>)"

inductive_cases pool_stepE: "pool_step ids run s s'"

inductive pool_reachable ::
  "int list \<Rightarrow> (int \<Rightarrow> run_outcome res option) \<Rightarrow> pool \<Rightarrow> bool"
  for ids :: "int list" and run :: "int \<Rightarrow> run_outcome res option"
where
  initial: "pool_reachable ids run (new_pool ids)"
| step: "pool_reachable ids run s \<Longrightarrow> pool_step ids run s s' \<Longrightarrow> pool_reachable ids run s'"

text \<open>\<open>main\<close>: the arguments, and the final states of the pool.\<close>

definition main_returns ::
  "string \<Rightarrow> string \<Rightarrow> bool \<Rightarrow> string \<Rightarrow> (string \<Rightarrow> string option) \<Rightarrow> (string \<Rightarrow> string list option) \<Rightarrow>
   string list \<Rightarrow> pool \<Rightarrow> bool"
where
  "main_returns gpu_file latency_file log_ok trace_root files dirs args s \<longleftrightarrow>
     (case kernel_ids_of_arguments trace_root files dirs args of
        Inl _ \<Rightarrow> False
      | Inr (benchmark, ids) \<Rightarrow>
          pool_reachable ids (run_single_kernel gpu_file latency_file log_ok files trace_root benchmark) s \<and>
          main_at s = Returned)"


section \<open>The invariant of the pool\<close>

text \<open>Every slot in use refers to a thread of its own and holds that thread's kernel, every thread
  that has not finished has a slot, and thread \<open>t\<close> works on the kernel \<open>ids ! t\<close>.\<close>

fun worker_ok ::
  "int list \<Rightarrow> (int \<Rightarrow> run_outcome res option) \<Rightarrow> thread_slot list \<Rightarrow> nat \<Rightarrow> worker \<Rightarrow> bool"
where
  "worker_ok ids run sl t (Created i) \<longleftrightarrow>
     i < length sl \<and> slot_active (sl ! i) \<and> slot_thread (sl ! i) = t"
| "worker_ok ids run sl t (Running k) \<longleftrightarrow>
     k = ids ! t \<and> (\<exists>i < length sl. slot_active (sl ! i) \<and> slot_thread (sl ! i) = t)"
| "worker_ok ids run sl t (Finished k) \<longleftrightarrow> k = ids ! t"

definition slots_ok ::
  "int list \<Rightarrow> (int \<Rightarrow> run_outcome res option) \<Rightarrow> thread_slot list \<Rightarrow> worker list \<Rightarrow> bool"
where
  "slots_ok ids run sl ws \<longleftrightarrow>
     (\<forall>i < length sl. slot_active (sl ! i) \<longrightarrow>
        slot_thread (sl ! i) < length ws \<and> ctx_kernel_id (sl ! i) = ids ! slot_thread (sl ! i)) \<and>
     (\<forall>i < length sl. \<forall>j < length sl. slot_active (sl ! i) \<longrightarrow> slot_active (sl ! j) \<longrightarrow>
        slot_thread (sl ! i) = slot_thread (sl ! j) \<longrightarrow> i = j) \<and>
     (\<forall>t < length ws. worker_ok ids run sl t (ws ! t))"

lemma worker_ok_other_slot:
  assumes "worker_ok ids run sl t w" "\<not> slot_active (sl ! i)"
  shows "worker_ok ids run (sl[i := x]) t w"
  using assms by (cases w) (simp_all, metis nth_list_update_neq, metis nth_list_update_neq)

lemma slots_ok_launch:
  assumes "slots_ok ids run sl ws" "i < length sl" "\<not> slot_active (sl ! i)"
  shows "slots_ok ids run
    (sl[i := \<lparr>slot_thread = length ws, ctx_kernel_id = ids ! length ws, slot_active = True\<rparr>])
    (ws @ [Created i])"
  using assms worker_ok_other_slot [of ids run sl _ _ i]
  unfolding slots_ok_def by (auto simp: nth_list_update nth_append less_Suc_eq dest: less_imp_neq)

lemma slots_ok_release:
  assumes ok: "slots_ok ids run sl ws" and i: "i < length sl" "slot_active (sl ! i)"
    and fin: "ws ! slot_thread (sl ! i) = Finished k"
  shows "slots_ok ids run (sl[i := (sl ! i)\<lparr>slot_active := False\<rparr>]) ws"
proof -
  have "worker_ok ids run (sl[i := (sl ! i)\<lparr>slot_active := False\<rparr>]) t (ws ! t)" if t: "t < length ws" for t
  proof -
    have "worker_ok ids run sl t (ws ! t)" using ok t by (simp add: slots_ok_def)
    moreover have "slot_thread (sl ! i) \<noteq> t" if "\<forall>k. ws ! t \<noteq> Finished k" using that fin by auto
    ultimately show ?thesis
      by (cases "ws ! t") (simp_all, metis nth_list_update_neq, metis nth_list_update_neq)
  qed
  then show ?thesis using ok i(1) unfolding slots_ok_def by (auto simp: nth_list_update split: if_splits)
qed

lemma slots_ok_worker:
  assumes "slots_ok ids run sl ws" "t < length ws" "worker_ok ids run sl t w"
  shows "slots_ok ids run sl (ws[t := w])"
  using assms unfolding slots_ok_def by (auto simp: nth_list_update)

text \<open>Counters are sums over the slots and the threads.\<close>

fun started_by :: "worker \<Rightarrow> nat" where
  "started_by (Created i) = 0"
| "started_by (Running k) = 1"
| "started_by (Finished k) = 1"

definition outcome_of :: "(int \<Rightarrow> run_outcome res option) \<Rightarrow> int \<Rightarrow> run_outcome" where
  "outcome_of run k = (case run k of Some (Inr r) \<Rightarrow> r | _ \<Rightarrow> Trace_Missing)"

fun finished_work :: "(int \<Rightarrow> run_outcome res option) \<Rightarrow> worker \<Rightarrow> nat \<times> cycle_totals" where
  "finished_work run (Finished k) = (finished_by (outcome_of run k), totals_by (outcome_of run k))"
| "finished_work run _ = (0, 0)"

abbreviation slots_used :: "thread_slot list \<Rightarrow> nat" where
  "slots_used sl \<equiv> (\<Sum>x\<leftarrow>sl. of_bool (slot_active x))"

lemma sum_list_map_update:
  fixes f :: "'a \<Rightarrow> 'b::comm_monoid_add"
  assumes "i < length xs"
  shows "(\<Sum>x\<leftarrow>xs[i := y]. f x) + f (xs ! i) = (\<Sum>x\<leftarrow>xs. f x) + f y"
  using assms
proof (induction xs arbitrary: i)
  case (Cons x xs)
  then show ?case
  proof (cases i)
    case (Suc j)
    with Cons.IH [of j] Cons.prems show ?thesis by (simp add: add.assoc)
  qed (simp add: ac_simps)
qed simp

lemma slots_used_on: "i < length sl \<Longrightarrow> \<not> slot_active (sl ! i) \<Longrightarrow> slot_active x \<Longrightarrow>
    slots_used (sl[i := x]) = slots_used sl + 1"
  using sum_list_map_update [of i sl "\<lambda>x. of_bool (slot_active x) :: nat" x] by simp

lemma slots_used_off: "i < length sl \<Longrightarrow> slot_active (sl ! i) \<Longrightarrow> \<not> slot_active x \<Longrightarrow>
    slots_used (sl[i := x]) = slots_used sl - 1"
  using sum_list_map_update [of i sl "\<lambda>x. of_bool (slot_active x) :: nat" x] by simp

lemma slots_used_le: "slots_used sl \<le> length sl"
  by (induction sl) auto

lemma slots_used_0: "slots_used sl = 0 \<longleftrightarrow> (\<forall>i < length sl. \<not> slot_active (sl ! i))"
  by (auto simp: in_set_conv_nth dest: nth_mem)

lemma slots_used_pos: "0 < slots_used sl \<longleftrightarrow> (\<exists>j < length sl. slot_active (sl ! j))"
  using slots_used_0 [of sl] by (metis neq0_conv)

lemma slots_used_filter: "slots_used sl = length (filter slot_active sl)"
  by (induction sl) auto

definition pool_ok :: "int list \<Rightarrow> (int \<Rightarrow> run_outcome res option) \<Rightarrow> pool \<Rightarrow> bool" where
  "pool_ok ids run s \<longleftrightarrow>
     length (pool_slots s) = max_workers ids \<and>
     length (workers s) = next_kernel_index s \<and> next_kernel_index s \<le> length ids \<and>
     active_threads s = slots_used (pool_slots s) \<and>
     slots_ok ids run (pool_slots s) (workers s) \<and>
     started_kernels s = (\<Sum>w\<leftarrow>workers s. started_by w) \<and>
     finished_kernels s = (\<Sum>w\<leftarrow>workers s. fst (finished_work run w)) \<and>
     completed s = (\<Sum>w\<leftarrow>workers s. snd (finished_work run w)) \<and>
     (main_at s = Launching \<longrightarrow> (\<forall>i < length (pool_slots s). slot_active (pool_slots s ! i) \<longleftrightarrow> i < active_threads s)) \<and>
     (main_at s \<noteq> Launching \<and> main_at s \<noteq> Exited \<longrightarrow>
        next_kernel_index s = length ids \<or> active_threads s = length (pool_slots s)) \<and>
     (main_at s = Returned \<longrightarrow> active_threads s = 0)"

lemma new_pool_ok: "pool_ok ids run (new_pool ids)"
  by (auto simp: pool_ok_def new_pool_def slots_ok_def)

lemma launch_next_ok:
  assumes "pool_ok ids run s" "next_kernel_index s < length ids" "main_at s = Launching"
    "active_threads s < length (pool_slots s)"
  shows "pool_ok ids run (launch_next ids (active_threads s) s)"
proof -
  let ?i = "active_threads s"
  have free: "\<not> slot_active (pool_slots s ! ?i)" using assms by (simp add: pool_ok_def)
  have "slots_ok ids run (pool_slots s) (workers s)" using assms(1) by (simp add: pool_ok_def)
  from slots_ok_launch [OF this assms(4) free] show ?thesis
    using assms free
    by (auto simp: pool_ok_def launch_next_def slots_used_on nth_list_update less_Suc_eq)
qed

lemma join_slot_ok:
  assumes ok: "pool_ok ids run s" and at: "main_at s = Scanning i" and i: "i < length (pool_slots s)"
    and active: "slot_active (pool_slots s ! i)" and fin: "thread_finished s i"
  shows "pool_ok ids run (join_slot ids i s)" "pool_ok ids run ((release_slot i s)\<lparr>main_at := Exited\<rparr>)"
proof -
  let ?x = "(pool_slots s ! i)\<lparr>slot_active := False\<rparr>"
  obtain k where k: "workers s ! slot_thread (pool_slots s ! i) = Finished k"
    using fin by (auto simp: thread_finished_def split: worker.splits)
  have s: "slots_ok ids run (pool_slots s) (workers s)" using ok by (simp add: pool_ok_def)
  note free = slots_ok_release [OF s i active k]
  have used: "slots_used ((pool_slots s)[i := ?x]) = slots_used (pool_slots s) - 1"
    using i active by (intro slots_used_off) simp_all
  have pos: "0 < slots_used (pool_slots s)" using slots_used_0 [of "pool_slots s"] i active by auto
  show "pool_ok ids run ((release_slot i s)\<lparr>main_at := Exited\<rparr>)"
    using ok free used by (simp add: pool_ok_def release_slot_def)
  have again: "slots_used ((pool_slots s)[i := y]) = slots_used (pool_slots s)" if "slot_active y" for y
    using sum_list_map_update [OF i, of "\<lambda>x. of_bool (slot_active x) :: nat" y] active that by simp
  from slots_ok_launch [OF free, of i] i
  have "slots_ok ids run ((pool_slots s)[i := \<lparr>slot_thread = length (workers s),
      ctx_kernel_id = ids ! length (workers s), slot_active = True\<rparr>]) (workers s @ [Created i])"
    by simp
  then show "pool_ok ids run (join_slot ids i s)"
    using ok at free used pos again
    by (auto simp: pool_ok_def join_slot_def release_slot_def launch_next_def Let_def)
qed

lemma finish_worker_sums:
  assumes "t < length ws" "ws ! t = Running k"
  shows "(\<Sum>w\<leftarrow>ws[t := Finished k]. started_by w) = (\<Sum>w\<leftarrow>ws. started_by w)"
    "(\<Sum>w\<leftarrow>ws[t := Finished k]. fst (finished_work run w)) =
       (\<Sum>w\<leftarrow>ws. fst (finished_work run w)) + finished_by (outcome_of run k)"
    "(\<Sum>w\<leftarrow>ws[t := Finished k]. snd (finished_work run w)) =
       (\<Sum>w\<leftarrow>ws. snd (finished_work run w)) + totals_by (outcome_of run k)"
  using sum_list_map_update [OF assms(1), of started_by "Finished k"]
    sum_list_map_update [OF assms(1), of "\<lambda>w. fst (finished_work run w)" "Finished k"]
    sum_list_map_update [OF assms(1), of "\<lambda>w. snd (finished_work run w)" "Finished k"] assms(2)
  by simp_all

lemma start_worker_sums:
  assumes "t < length ws" "ws ! t = Created i"
  shows "(\<Sum>w\<leftarrow>ws[t := Running k]. started_by w) = (\<Sum>w\<leftarrow>ws. started_by w) + 1"
    "(\<Sum>w\<leftarrow>ws[t := Running k]. fst (finished_work run w)) = (\<Sum>w\<leftarrow>ws. fst (finished_work run w))"
    "(\<Sum>w\<leftarrow>ws[t := Running k]. snd (finished_work run w)) = (\<Sum>w\<leftarrow>ws. snd (finished_work run w))"
  using sum_list_map_update [OF assms(1), of started_by "Running k"]
    sum_list_map_update [OF assms(1), of "\<lambda>w. fst (finished_work run w)" "Running k"]
    sum_list_map_update [OF assms(1), of "\<lambda>w. snd (finished_work run w)" "Running k"] assms(2)
  by simp_all

lemma pool_step_ok:
  assumes "pool_step ids run s s'" "pool_ok ids run s"
  shows "pool_ok ids run s'"
  using assms
proof (induction rule: pool_step.induct)
  case (Launch s)
  then show ?case by (simp add: launch_next_ok)
next
  case (Launched s)
  then show ?case using slots_used_le [of "pool_slots s"] by (auto simp: pool_ok_def)
next
  case (Join s i)
  then show ?case by (simp add: join_slot_ok)
next
  case (Relaunch_Fails s i)
  then show ?case by (simp add: join_slot_ok)
next
  case (Thread_Start s t i)
  have "worker_ok ids run (pool_slots s) t (Created i)"
    using Thread_Start by (metis pool_ok_def slots_ok_def)
  moreover have ok: "slots_ok ids run (pool_slots s) (workers s)" using Thread_Start by (simp add: pool_ok_def)
  ultimately have "worker_ok ids run (pool_slots s) t (Running (ctx_kernel_id (pool_slots s ! i)))"
    by (auto simp: slots_ok_def)
  from slots_ok_worker [OF ok Thread_Start.hyps(2) this] Thread_Start show ?case
    by (auto simp: pool_ok_def start_worker_sums)
next
  case (Thread_Return s t k r)
  have "worker_ok ids run (pool_slots s) t (Running k)" and ok: "slots_ok ids run (pool_slots s) (workers s)"
    using Thread_Return by (metis pool_ok_def slots_ok_def)+
  then have "worker_ok ids run (pool_slots s) t (Finished k)" by simp
  from slots_ok_worker [OF ok Thread_Return.hyps(2) this] Thread_Return finish_worker_sums [of t "workers s" k]
  show ?case by (auto simp: pool_ok_def outcome_of_def)
qed (auto simp: pool_ok_def)

lemma pool_reachable_ok: "pool_reachable ids run s \<Longrightarrow> pool_ok ids run s"
  by (induction rule: pool_reachable.induct) (simp_all add: new_pool_ok pool_step_ok)

section \<open>The pool always can finish\<close>

text \<open>What is left to do, compared lexicographically: kernels to launch, work of the launched
  threads, slots in use, and the way of \<open>main\<close> to its next join.\<close>

fun worker_left :: "worker \<Rightarrow> nat" where
  "worker_left (Created i) = 2"
| "worker_left (Running k) = 1"
| "worker_left (Finished k) = 0"

fun main_left :: "thread_slot list \<Rightarrow> main_at \<Rightarrow> nat" where
  "main_left sl Launching = 2 * length sl + 5"
| "main_left sl Polling = length sl + 2"
| "main_left sl (Scanning i) =
     (if \<exists>j < length sl. i \<le> j \<and> slot_active (sl ! j) then length sl - i else length sl + 3 + (length sl - i))"
| "main_left sl Returned = 0"
| "main_left sl Exited = 0"

definition pool_left :: "int list \<Rightarrow> pool \<Rightarrow> nat \<times> nat \<times> nat \<times> nat" where
  "pool_left ids s =
     (length ids - next_kernel_index s, \<Sum>w\<leftarrow>workers s. worker_left w, active_threads s,
      main_left (pool_slots s) (main_at s))"

definition pool_order :: "((nat \<times> nat \<times> nat \<times> nat) \<times> nat \<times> nat \<times> nat \<times> nat) set" where
  "pool_order = less_than <*lex*> less_than <*lex*> less_than <*lex*> less_than"

lemma wf_pool_order: "wf pool_order"
  by (auto simp: pool_order_def)

lemma worker_can_step:
  assumes "pool_ok ids run s" "main_at s \<noteq> Exited" "t < length (workers s)" "\<not> (\<exists>k. workers s ! t = Finished k)"
    and returns: "\<forall>k \<in> set ids. \<exists>r. run k = Some (Inr r)"
  shows "\<exists>s'. pool_step ids run s s' \<and> main_at s' \<noteq> Exited \<and> (pool_left ids s', pool_left ids s) \<in> pool_order"
proof (cases "workers s ! t")
  case (Created i)
  from pool_step.Thread_Start [where run = run and ids = ids, OF assms(2,3) Created]
    sum_list_map_update [OF assms(3), of worker_left "Running (ctx_kernel_id (pool_slots s ! i))"]
  show ?thesis using Created assms(2) by (fastforce simp: pool_left_def pool_order_def)
next
  case (Running k)
  have "worker_ok ids run (pool_slots s) t (Running k)"
    using assms(1,3) Running by (metis pool_ok_def slots_ok_def)
  then have "k \<in> set ids" using assms(1,3) by (simp add: pool_ok_def)
  with returns obtain r where "run k = Some (Inr r)" by blast
  from pool_step.Thread_Return [where ids = ids and run = run, OF assms(2,3) Running this]
    sum_list_map_update [OF assms(3), of worker_left "Finished k"]
  show ?thesis using Running assms(2) by (fastforce simp: pool_left_def pool_order_def)
qed (use assms in blast)

lemma scanning_can_step:
  assumes ok: "pool_ok ids run s" and at: "main_at s = Scanning i"
    and fin: "\<forall>t < length (workers s). \<exists>k. workers s ! t = Finished k"
  shows "\<exists>s'. pool_step ids run s s' \<and> main_at s' \<noteq> Exited \<and> (pool_left ids s', pool_left ids s) \<in> pool_order"
proof (cases "i < length (pool_slots s)")
  case False
  from pool_step.Rescan [OF at False] at False show ?thesis
    by (intro exI [of _ "s\<lparr>main_at := Polling\<rparr>"]) (auto simp: pool_left_def pool_order_def)
next
  case i: True
  show ?thesis
  proof (cases "slot_active (pool_slots s ! i)")
    case False
    have "(\<exists>j < length (pool_slots s). Suc i \<le> j \<and> slot_active (pool_slots s ! j)) \<longleftrightarrow>
        (\<exists>j < length (pool_slots s). i \<le> j \<and> slot_active (pool_slots s ! j))"
      using False by (metis Suc_le_eq le_neq_implies_less less_imp_le)
    with pool_step.Skip [OF at i False] at i show ?thesis
      by (intro exI [of _ "s\<lparr>main_at := Scanning (Suc i)\<rparr>"]) (auto simp: pool_left_def pool_order_def)
  next
    case True
    have "slot_thread (pool_slots s ! i) < length (workers s)"
      using ok i True unfolding pool_ok_def slots_ok_def by blast
    then have "thread_finished s i" using fin by (auto simp: thread_finished_def)
    moreover have "0 < active_threads s"
      using ok i True slots_used_pos [of "pool_slots s"] by (metis pool_ok_def)
    ultimately show ?thesis
      using ok pool_step.Join [OF at i True]
      by (intro exI [of _ "join_slot ids i s"])
        (auto simp: pool_left_def pool_order_def join_slot_def release_slot_def launch_next_def Let_def pool_ok_def)
  qed
qed

lemma pool_can_step:
  assumes ok: "pool_ok ids run s" and at: "main_at s \<noteq> Exited" "main_at s \<noteq> Returned"
    and returns: "\<forall>k \<in> set ids. \<exists>r. run k = Some (Inr r)"
  shows "\<exists>s'. pool_step ids run s s' \<and> main_at s' \<noteq> Exited \<and> (pool_left ids s', pool_left ids s) \<in> pool_order"
proof (cases "\<forall>t < length (workers s). \<exists>k. workers s ! t = Finished k")
  case False
  then show ?thesis using worker_can_step [OF ok at(1) _ _ returns] by blast
next
  case fin: True
  show ?thesis
  proof (cases "main_at s")
    case Launching
    show ?thesis
    proof (cases "next_kernel_index s < length ids \<and> active_threads s < length (pool_slots s)")
      case True
      from pool_step.Launch [OF Launching conjunct1 [OF True] conjunct2 [OF True]] True Launching
      show ?thesis
        by (intro exI [of _ "launch_next ids (active_threads s) s"])
          (auto simp: pool_left_def pool_order_def launch_next_def)
    next
      case False
      from pool_step.Launched [OF Launching False] Launching show ?thesis
        by (intro exI [of _ "s\<lparr>main_at := Polling\<rparr>"]) (simp add: pool_left_def pool_order_def)
    qed
  next
    case Polling
    show ?thesis
    proof (cases "active_threads s = 0")
      case True
      from pool_step.Return [OF Polling True] Polling show ?thesis
        by (intro exI [of _ "s\<lparr>main_at := Returned\<rparr>"]) (simp add: pool_left_def pool_order_def)
    next
      case False
      then have "\<exists>j < length (pool_slots s). slot_active (pool_slots s ! j)"
        using ok slots_used_pos [of "pool_slots s"] by (metis pool_ok_def neq0_conv)
      with False pool_step.Poll [OF Polling] Polling show ?thesis
        by (intro exI [of _ "s\<lparr>main_at := Scanning 0\<rparr>"]) (auto simp: pool_left_def pool_order_def)
    qed
  next
    case (Scanning i)
    then show ?thesis using scanning_can_step [OF ok _ fin] by blast
  qed (use at in simp_all)
qed

lemma pool_can_return:
  assumes "pool_reachable ids run s" "main_at s \<noteq> Exited"
    and returns: "\<forall>k \<in> set ids. \<exists>r. run k = Some (Inr r)"
  shows "\<exists>s'. (pool_step ids run)\<^sup>*\<^sup>* s s' \<and> pool_reachable ids run s' \<and> main_at s' = Returned"
  using assms(1,2)
proof (induction "pool_left ids s" arbitrary: s rule: wf_induct_rule [OF wf_pool_order])
  case less: (1 s)
  show ?case
  proof (cases "main_at s = Returned")
    case False
    from pool_can_step [OF pool_reachable_ok [OF less.prems(1)] less.prems(2) False returns]
    obtain s1 where s1: "pool_step ids run s s1" "main_at s1 \<noteq> Exited"
      "(pool_left ids s1, pool_left ids s) \<in> pool_order" by blast
    from less.hyps [OF s1(3) pool_reachable.step [OF less.prems(1) s1(1)] s1(2)] s1(1)
    show ?thesis by (meson converse_rtranclp_into_rtranclp)
  qed (use less.prems in blast)
qed

section \<open>Properties\<close>

lemma unfinished_le_used:
  assumes ok: "slots_ok ids run sl ws"
  shows "length (filter (\<lambda>w. \<forall>k. w \<noteq> Finished k) ws) \<le> slots_used sl"
proof -
  let ?U = "{t. t < length ws \<and> (\<forall>k. ws ! t \<noteq> Finished k)}"
  let ?A = "{i. i < length sl \<and> slot_active (sl ! i)}"
  have "?U \<subseteq> (\<lambda>i. slot_thread (sl ! i)) ` ?A"
  proof
    fix t assume t: "t \<in> ?U"
    then have "worker_ok ids run sl t (ws ! t)" using ok by (simp add: slots_ok_def)
    with t show "t \<in> (\<lambda>i. slot_thread (sl ! i)) ` ?A" by (cases "ws ! t") auto
  qed
  then have "card ?U \<le> card ((\<lambda>i. slot_thread (sl ! i)) ` ?A)" by (intro card_mono) simp_all
  also have "\<dots> \<le> card ?A" by (rule card_image_le) simp
  finally show ?thesis by (simp add: length_filter_conv_card slots_used_filter)
qed

lemma pool_ok_safe:
  assumes "pool_ok ids run s"
  shows "length (filter (\<lambda>w. \<forall>k. w \<noteq> Finished k) (workers s)) \<le> min MAX_CONCURRENT_KERNELS (length ids) \<and>
    (\<forall>t < length (workers s). t < length ids \<and>
       (\<forall>k. workers s ! t = Running k \<or> workers s ! t = Finished k \<longrightarrow> k = ids ! t) \<and>
       (\<forall>i. workers s ! t = Created i \<longrightarrow> ctx_kernel_id (pool_slots s ! i) = ids ! t)) \<and>
    (next_kernel_index s < length ids \<and> main_at s \<notin> {Launching, Exited} \<longrightarrow>
       active_threads s = max_workers ids)"
proof -
  have ok: "slots_ok ids run (pool_slots s) (workers s)" and len: "length (workers s) \<le> length ids"
    using assms by (simp_all add: pool_ok_def)
  have "length (filter (\<lambda>w. \<forall>k. w \<noteq> Finished k) (workers s)) \<le> max_workers ids"
    using unfinished_le_used [OF ok] slots_used_le [of "pool_slots s"] assms by (simp add: pool_ok_def)
  moreover have "length (filter (\<lambda>w. \<forall>k. w \<noteq> Finished k) (workers s)) \<le> length ids"
    using length_filter_le len by (rule le_trans)
  ultimately have few: "length (filter (\<lambda>w. \<forall>k. w \<noteq> Finished k) (workers s)) \<le>
      min MAX_CONCURRENT_KERNELS (length ids)"
    by (simp add: max_workers_def MAX_CONCURRENT_KERNELS_def)
  have "worker_ok ids run (pool_slots s) t (workers s ! t)" if "t < length (workers s)" for t
    using ok that by (simp add: slots_ok_def)
  with few ok len assms show ?thesis
    by (fastforce simp: slots_ok_def pool_ok_def)
qed

lemma pool_ok_returned:
  assumes ok: "pool_ok ids run s" and at: "main_at s = Returned"
  shows "workers s = map Finished ids \<and> started_kernels s = length ids \<and>
    finished_kernels s = (\<Sum>k\<leftarrow>ids. finished_by (outcome_of run k)) \<and>
    completed s = (\<Sum>k\<leftarrow>ids. totals_by (outcome_of run k))"
proof -
  have none: "slots_used (pool_slots s) = 0" and len: "length (workers s) = length ids"
    using ok at by (auto simp: pool_ok_def max_workers_def)
  have "workers s ! t = Finished (ids ! t)" if "t < length ids" for t
  proof -
    have "worker_ok ids run (pool_slots s) t (workers s ! t)"
      using ok len that by (simp add: pool_ok_def slots_ok_def)
    then show ?thesis using none unfolding slots_used_0 by (cases "workers s ! t") auto
  qed
  then have ws: "workers s = map Finished ids" using len by (intro nth_equalityI) simp_all
  have "(\<Sum>w\<leftarrow>map Finished ids. started_by w) = length ids" by (induction ids) simp_all
  then show ?thesis using ok ws by (simp add: pool_ok_def comp_def)
qed

text \<open>C20. At every moment of every interleaving at most 32 threads, and at most one per kernel, have
  not finished; a running thread simulates the kernel at its own position of the list although it
  reads the number from a slot that \<open>main\<close> reuses; and while kernels are left to launch and \<open>main\<close>
  polls, every slot is in use.\<close>

theorem worker_pool_safe:
  assumes "pool_reachable ids run s"
  shows "length (filter (\<lambda>w. \<forall>k. w \<noteq> Finished k) (workers s)) \<le> min MAX_CONCURRENT_KERNELS (length ids) \<and>
    (\<forall>t < length (workers s). t < length ids \<and>
       (\<forall>k. workers s ! t = Running k \<or> workers s ! t = Finished k \<longrightarrow> k = ids ! t) \<and>
       (\<forall>i. workers s ! t = Created i \<longrightarrow> ctx_kernel_id (pool_slots s ! i) = ids ! t)) \<and>
    (next_kernel_index s < length ids \<and> main_at s \<notin> {Launching, Exited} \<longrightarrow>
       active_threads s = max_workers ids)"
  using pool_reachable_ok [OF assms] by (rule pool_ok_safe)

text \<open>C21. When \<open>main\<close> returns, the threads have run exactly the kernels of the list, thread by thread,
  whatever the interleaving: every kernel is counted as started, the number of finished kernels is
  the number of those whose traces exist, and the totals are the sums over the kernels.\<close>

theorem worker_pool_runs_all:
  assumes "pool_reachable ids run s" "main_at s = Returned"
  shows "workers s = map Finished ids \<and> started_kernels s = length ids \<and>
    finished_kernels s = (\<Sum>k\<leftarrow>ids. finished_by (outcome_of run k)) \<and>
    completed s = (\<Sum>k\<leftarrow>ids. totals_by (outcome_of run k))"
  using pool_reachable_ok [OF assms(1)] assms(2) by (rule pool_ok_returned)

text \<open>C22. The pool cannot get stuck: if the simulation of every kernel of the list returns, then from
  every reachable state in which the process has not been stopped the end of \<open>main\<close> can be reached.\<close>

theorem worker_pool_can_return:
  assumes "pool_reachable ids run s" "main_at s \<noteq> Exited" "\<forall>k \<in> set ids. \<exists>r. run k = Some (Inr r)"
  shows "\<exists>s'. (pool_step ids run)\<^sup>*\<^sup>* s s' \<and> main_at s' = Returned \<and> workers s' = map Finished ids"
  using pool_can_return [OF assms] pool_ok_returned pool_reachable_ok by blast

text \<open>Three kernels, the second of them without traces.\<close>

definition sample_run :: "gpu \<Rightarrow> int \<Rightarrow> run_outcome res option" where
  "sample_run g k = Some (Inr (if k = 2 then Trace_Missing else Simulated g))"

theorem worker_pool_safe_witness:
  "length (filter (\<lambda>w. \<forall>k. w \<noteq> Finished k) (workers (launch_next [1, 2, 3] 0 (new_pool [1, 2, 3])))) \<le> 3"
proof -
  have "pool_step [1, 2, 3] (\<lambda>_. None) (new_pool [1, 2, 3])
      (launch_next [1, 2, 3] (active_threads (new_pool [1, 2, 3])) (new_pool [1, 2, 3]))"
    by (rule pool_step.Launch) (simp_all add: new_pool_def max_workers_def MAX_CONCURRENT_KERNELS_def)
  from worker_pool_safe [OF pool_reachable.step [OF pool_reachable.initial this]]
  show ?thesis by (simp add: new_pool_def MAX_CONCURRENT_KERNELS_def)
qed

lemma sample_pool_returns:
  "\<exists>s. pool_reachable [1, 2, 3] (sample_run g) s \<and> main_at s = Returned"
  using pool_can_return [OF pool_reachable.initial, of "[1, 2, 3]" "sample_run g"]
  by (auto simp: sample_run_def new_pool_def)

theorem worker_pool_runs_all_witness:
  "\<forall>g. \<exists>s. pool_reachable [1, 2, 3] (sample_run g) s \<and> main_at s = Returned \<and>
     workers s = [Finished 1, Finished 2, Finished 3] \<and> started_kernels s = 3 \<and> finished_kernels s = 2 \<and>
     completed s = totals_of g + totals_of g"
proof
  fix g
  obtain s where s: "pool_reachable [1, 2, 3] (sample_run g) s" "main_at s = Returned"
    using sample_pool_returns by blast
  from worker_pool_runs_all [OF s] s
  show "\<exists>s. pool_reachable [1, 2, 3] (sample_run g) s \<and> main_at s = Returned \<and>
     workers s = [Finished 1, Finished 2, Finished 3] \<and> started_kernels s = 3 \<and> finished_kernels s = 2 \<and>
     completed s = totals_of g + totals_of g"
    by (intro exI [of _ s]) (simp add: outcome_of_def sample_run_def)
qed

theorem worker_pool_can_return_witness:
  "\<forall>g. \<exists>s'. (pool_step [1, 2, 3] (sample_run g))\<^sup>*\<^sup>* (new_pool [1, 2, 3]) s' \<and> main_at s' = Returned \<and>
     workers s' = [Finished 1, Finished 2, Finished 3]"
proof
  fix g
  have "\<exists>s'. (pool_step [1, 2, 3] (sample_run g))\<^sup>*\<^sup>* (new_pool [1, 2, 3]) s' \<and> main_at s' = Returned \<and>
     workers s' = map Finished [1, 2, 3]"
    by (rule worker_pool_can_return [OF pool_reachable.initial]) (simp_all add: new_pool_def sample_run_def)
  then show "\<exists>s'. (pool_step [1, 2, 3] (sample_run g))\<^sup>*\<^sup>* (new_pool [1, 2, 3]) s' \<and> main_at s' = Returned \<and>
     workers s' = [Finished 1, Finished 2, Finished 3]"
    by simp
qed

end
