(* ===== verification/Trace_Grouping.thy ===== *)
theory Trace_Grouping
  imports Command_Line Occupancy
begin

text \<open>
  The post-processor of the traces (\<^verbatim>\<open>post-traces-processing.cpp\<close>): it regroups the lines of a raw
  trace, which come in the order in which the GPU executed them, by thread block and warp.  The
  pipes to the processes that read and write the (compressed) files are not modelled: \<open>cin\<close> is the
  text of the trace and \<open>cout\<close> the list of the lines written, each with its newline.  The warnings on
  the standard error stream are left out.
\<close>

section \<open>Streams and formats\<close>

text \<open>The lines of \<open>while (!in.eof()) getline(in, line)\<close>: what follows the last newline is a line
  as well, though it may be empty.\<close>

function eof_lines :: "string \<Rightarrow> string list" where
  "eof_lines s =
     (let rest = dropWhile (\<lambda>c. c \<noteq> CHR 0x0A) s
      in takeWhile (\<lambda>c. c \<noteq> CHR 0x0A) s # (if rest = [] then [] else eof_lines (tl rest)))"
  by pat_completeness auto
termination
proof (relation "measure length")
  fix s rest :: string
  assume "rest = dropWhile (\<lambda>c. c \<noteq> CHR 0x0A) s" "rest \<noteq> []"
  then show "(tl rest, s) \<in> measure length"
    using length_dropWhile_le [of "\<lambda>c. c \<noteq> CHR 0x0A" s] length_tl [of rest]
    by (metis diff_less in_measure le_trans length_greater_0_conv less_le_trans not_le zero_less_one)
qed simp

declare eof_lines.simps [simp del]

text \<open>\<open>in >> str\<close>: \<open>None\<close> when it fails, which leaves the string alone.\<close>

definition read_word :: "string \<Rightarrow> (string \<times> string) option" where
  "read_word s =
     (let t = dropWhile is_space s
      in if t = [] then None
         else Some (takeWhile (\<lambda>c. \<not> is_space c) t, dropWhile (\<lambda>c. \<not> is_space c) t))"

text \<open>\<open>in >> n\<close> for an \<open>unsigned\<close>: a number and the rest; or a failure that has written \<open>n\<close> (0
  without digits, the largest number when it is too big); or a failure at the end of the input that
  leaves \<open>n\<close> alone.  A minus sign negates modulo \<open>2 ^ 32\<close>.\<close>

datatype read_number = Number u32 string | Written u32 | Untouched

definition read_unsigned :: "string \<Rightarrow> read_number" where
  "read_unsigned s =
     (let t = dropWhile is_space s; (neg, u) = strip_sign t; ds = takeWhile is_digit u; v = decimal ds in
      if t = [] then Untouched
      else if ds = [] then Written 0
      else if 2 ^ 32 \<le> v then Written u32_max
      else Number (word_of_int (if neg then - v else v)) (dropWhile is_digit u))"

text \<open>\<open>sscanf\<close>: white space in the format matches any, other characters themselves; \<open>%d\<close> an
  integer.  The result lists the numbers converted before the first mismatch.\<close>

fun scan_literal :: "string \<Rightarrow> string \<Rightarrow> string option" where
  "scan_literal [] s = Some s"
| "scan_literal (f # fs) s =
     (if is_space f then scan_literal fs (dropWhile is_space s)
      else case s of [] \<Rightarrow> None | c # t \<Rightarrow> if c = f then scan_literal fs t else None)"

definition scan_int :: "string \<Rightarrow> (int \<times> string) option" where
  "scan_int s =
     (let (neg, t) = strip_sign (dropWhile is_space s); ds = takeWhile is_digit t in
      if ds = [] then None else Some (if neg then - decimal ds else decimal ds, dropWhile is_digit t))"

fun scan_ints :: "string list \<Rightarrow> string \<Rightarrow> int list" where
  "scan_ints [] s = []"
| "scan_ints (f # fs) s =
     (case scan_literal f s of
        None \<Rightarrow> []
      | Some s \<Rightarrow> (case scan_int s of None \<Rightarrow> [] | Some (n, s) \<Rightarrow> n # scan_ints fs s))"

section \<open>The state\<close>

text \<open>The table of lines: a pointer is a position in the list of the unique copies.\<close>

record WarpInstLUT =
  registration_table :: "string \<Rightarrow> nat option"
  unique_strings :: "string list"

definition empty_lut :: WarpInstLUT where
  "empty_lut = \<lparr>registration_table = Map.empty, unique_strings = []\<rparr>"

definition lookup_entry :: "string \<Rightarrow> WarpInstLUT \<Rightarrow> nat option" where
  "lookup_entry s lut = registration_table lut s"

definition register_new_entry :: "string \<Rightarrow> WarpInstLUT \<Rightarrow> (nat \<times> WarpInstLUT) res" where
  "register_new_entry s lut =
     (case lookup_entry s lut of
        Some p \<Rightarrow>
          rbind (nth_res (unique_strings lut) p) (\<lambda>t. guard (s = t) Aborted (Inr (p, lut)))
      | None \<Rightarrow>
          (let p = length (unique_strings lut) in
           Inr (p, \<lparr>registration_table = (registration_table lut)(s \<mapsto> p),
                    unique_strings = unique_strings lut @ [s]\<rparr>)))"

record threadblock_info =
  tb_initialized :: bool
  tb_id :: "u32 \<times> u32 \<times> u32"
  warp_insts_array :: "nat list list"

definition new_threadblock_info :: threadblock_info where
  "new_threadblock_info = \<lparr>tb_initialized = False, tb_id = (0, 0, 0), warp_insts_array = []\<rparr>"

text \<open>The variables of \<open>group_per_block\<close>; a dimension is \<open>None\<close> until \<open>sscanf\<close> has assigned it.\<close>

record grouping =
  insts :: "threadblock_info list"
  ldgsts_flags :: "bool list list"
  grid_dim :: "u32 option list"
  tb_dim :: "u32 option list"
  found_grid_dim :: bool
  found_block_dim :: bool
  passthrough_mode :: bool
  string1 :: string
  string2 :: string
  warp_inst_lut :: WarpInstLUT
  cout :: "string list"

definition new_grouping :: grouping where
  "new_grouping =
     \<lparr>insts = [], ldgsts_flags = [], grid_dim = replicate 3 None, tb_dim = replicate 3 None,
      found_grid_dim = False, found_block_dim = False, passthrough_mode = False,
      string1 = [], string2 = [], warp_inst_lut = empty_lut, cout = []\<rparr>"

definition print_line :: "string \<Rightarrow> grouping \<Rightarrow> grouping" where
  "print_line l g = g\<lparr>cout := cout g @ [l]\<rparr>"

section \<open>Header lines\<close>

text \<open>\<open>ss.ignore(); ss >> string1 >> string2\<close>.\<close>

definition read_key :: "string \<Rightarrow> grouping \<Rightarrow> grouping" where
  "read_key line g =
     (case read_word (tl line) of
        None \<Rightarrow> g
      | Some (w1, s) \<Rightarrow>
          (case read_word s of
             None \<Rightarrow> g\<lparr>string1 := w1\<rparr>
           | Some (w2, _) \<Rightarrow> g\<lparr>string1 := w1, string2 := w2\<rparr>))"

definition assign_dims :: "int list \<Rightarrow> u32 option list \<Rightarrow> u32 option list res" where
  "assign_dims ns ds =
     guard (list_all (\<lambda>n. - (2 ^ 31) \<le> n \<and> n < 2 ^ 31) ns) Undefined_Behaviour
       (Inr (map (\<lambda>n. Some (word_of_int n)) ns @ drop (length ns) ds))"

fun dims_product :: "u32 option list \<Rightarrow> u32 res" where
  "dims_product [] = Inr 1"
| "dims_product (d # ds) = rbind (deref d) (\<lambda>n. rbind (dims_product ds) (\<lambda>m. Inr (n * m)))"

definition resize :: "nat \<Rightarrow> 'a \<Rightarrow> 'a list \<Rightarrow> 'a list" where
  "resize n x xs = take n xs @ replicate (n - length xs) x"

text \<open>\<open>ceil(float(tb_dim_x * tb_dim_y * tb_dim_z) / 32)\<close>\<close>

definition warps_of_block :: "u32 \<Rightarrow> nat" where
  "warps_of_block n = nat \<lceil>fl (of_int (uint n)) / 32\<rceil>"

definition size_arrays :: "grouping \<Rightarrow> grouping res" where
  "size_arrays g =
     rbind (dims_product (grid_dim g)) (\<lambda>blocks.
     let is = resize (unat blocks) new_threadblock_info (insts g) in
     rbind (if is = [] then Inr 0 else rbind (dims_product (tb_dim g)) (\<lambda>n. Inr (warps_of_block n))) (\<lambda>w.
       Inr (g\<lparr>insts := map (\<lambda>b. b\<lparr>warp_insts_array := resize w [] (warp_insts_array b)\<rparr>) is,
              ldgsts_flags := map (\<lambda>_. replicate w True) is\<rparr>)))"

definition read_dims :: "string \<Rightarrow> grouping \<Rightarrow> grouping res" where
  "read_dims line g =
     (if string1 g = ''grid'' \<and> string2 g = ''dim'' then
        rbind (assign_dims (scan_ints [''-grid dim = ('', '','', '',''] line) (grid_dim g))
          (\<lambda>ds. Inr (g\<lparr>grid_dim := ds, found_grid_dim := True\<rparr>))
      else if string1 g = ''block'' \<and> string2 g = ''dim'' then
        rbind (assign_dims (scan_ints [''-block dim = ('', '','', '',''] line) (tb_dim g))
          (\<lambda>ds. Inr (g\<lparr>tb_dim := ds, found_block_dim := True\<rparr>))
      else Inr g)"

definition header_line :: "string \<Rightarrow> grouping \<Rightarrow> grouping res" where
  "header_line line g =
     rbind (read_dims line (read_key line g)) (\<lambda>g.
     rbind (if found_grid_dim g \<and> found_block_dim g then size_arrays g else Inr g) (\<lambda>g.
       Inr (print_line line g)))"

section \<open>Instruction lines\<close>

text \<open>The coordinates of the block and the warp, and the rest of the line.  \<open>tellg\<close> fails, and
  returns \<open>-1\<close>, when the last number has ended at the end of the line.\<close>

definition parse_position :: "string \<Rightarrow> (u32 \<times> u32 \<times> u32 \<times> u32 \<times> string) option" where
  "parse_position line =
     (case read_unsigned line of Number x s \<Rightarrow>
        (case read_unsigned s of Number y s \<Rightarrow>
           (case read_unsigned s of Number z s \<Rightarrow>
              (case read_unsigned s of Number w s \<Rightarrow> Some (x, y, z, w, if s = [] then line else tl s)
               | _ \<Rightarrow> None)
            | _ \<Rightarrow> None)
         | _ \<Rightarrow> None)
      | _ \<Rightarrow> None)"

fun skip_words :: "nat \<Rightarrow> string \<Rightarrow> string" where
  "skip_words 0 s = s"
| "skip_words (Suc n) s = (case read_word s of None \<Rightarrow> [] | Some (_, t) \<Rightarrow> skip_words n t)"

text \<open>The opcode of a line: behind the pc, the mask and the destination registers.  Without a
  third word the number of registers is read uninitialised.\<close>

definition opcode_of :: "string \<Rightarrow> string res" where
  "opcode_of s =
     (case read_unsigned (skip_words 2 s) of
        Untouched \<Rightarrow> Inl Undefined_Behaviour
      | Written _ \<Rightarrow> Inr []
      | Number n t \<Rightarrow> Inr (case read_word (skip_words (unat n) t) of None \<Rightarrow> [] | Some (w, _) \<Rightarrow> w))"

definition block_number :: "u32 option list \<Rightarrow> u32 \<times> u32 \<times> u32 \<Rightarrow> u32 res" where
  "block_number ds = (\<lambda>(x, y, z).
     rbind (deref (ds ! 0)) (\<lambda>gx. rbind (deref (ds ! 1)) (\<lambda>gy. Inr (z * gy * gx + y * gx + x))))"

definition append_inst :: "nat \<Rightarrow> nat \<Rightarrow> nat \<Rightarrow> grouping \<Rightarrow> grouping" where
  "append_inst b w p g =
     (let i = insts g ! b; ws = warp_insts_array i in
      g\<lparr>insts := (insts g)[b := i\<lparr>warp_insts_array := ws[w := ws ! w @ [p]]\<rparr>]\<rparr>)"

definition mark_block :: "nat \<Rightarrow> u32 \<times> u32 \<times> u32 \<Rightarrow> grouping \<Rightarrow> grouping" where
  "mark_block b xyz g =
     (if tb_initialized (insts g ! b) then g
      else g\<lparr>insts := (insts g)[b := (insts g ! b)\<lparr>tb_id := xyz, tb_initialized := True\<rparr>]\<rparr>)"

text \<open>The flag of a warp says that the next line of an \<^verbatim>\<open>LDGSTS\<close> is the first of two, which is dropped.\<close>

definition store_inst :: "nat \<Rightarrow> nat \<Rightarrow> string \<Rightarrow> nat \<Rightarrow> grouping \<Rightarrow> grouping" where
  "store_inst b w opcode p g =
     (if str_contains ''LDGSTS'' opcode then
        if w \<ge> length (ldgsts_flags g ! b) then g
        else
          (let first = ldgsts_flags g ! b ! w in
           (if first then g else append_inst b w p g)
             \<lparr>ldgsts_flags := (ldgsts_flags g)[b := (ldgsts_flags g ! b)[w := \<not> first]]\<rparr>)
      else if w \<ge> length (warp_insts_array (insts g ! b)) then g
      else append_inst b w p g)"

definition intern_line :: "string \<Rightarrow> WarpInstLUT \<Rightarrow> (nat \<times> WarpInstLUT) res" where
  "intern_line rest lut =
     (case lookup_entry rest lut of Some p \<Rightarrow> Inr (p, lut) | None \<Rightarrow> register_new_entry rest lut)"

definition inst_line :: "string \<Rightarrow> grouping \<Rightarrow> grouping res" where
  "inst_line line g =
     (case parse_position line of
        None \<Rightarrow> Inr g
      | Some (x, y, z, w, rest) \<Rightarrow>
          if \<not> found_grid_dim g \<or> \<not> found_block_dim g \<or> insts g = [] then Inr g
          else
            rbind (block_number (grid_dim g) (x, y, z)) (\<lambda>b.
            if length (insts g) \<le> unat b then Inr g
            else
              (let g = mark_block (unat b) (x, y, z) g in
               rbind (opcode_of rest) (\<lambda>opcode.
               rbind (intern_line rest (warp_inst_lut g)) (\<lambda>(p, lut).
                 Inr (store_inst (unat b) (unat w) opcode p (g\<lparr>warp_inst_lut := lut\<rparr>)))))))"

section \<open>A trace\<close>

definition group_line :: "string \<Rightarrow> grouping \<Rightarrow> grouping res" where
  "group_line line g =
     (if line = [] \<or> hd line = CHR ''#'' then Inr (print_line line g)
      else if hd line = CHR ''-'' then header_line line g
      else if passthrough_mode g then Inr (print_line line g)
      else if \<not> is_digit (hd line) then Inr (print_line line (g\<lparr>passthrough_mode := True\<rparr>))
      else inst_line line g)"

definition print_warp :: "nat \<Rightarrow> string list \<Rightarrow> string list" where
  "print_warp j warp =
     ['''', ''warp = '' @ to_string (int j), ''insts = '' @ to_string (int (length warp))] @ warp"

definition resolve :: "string list \<Rightarrow> nat list \<Rightarrow> string list res" where
  "resolve strings ps =
     (if list_all (\<lambda>p. p < length strings) ps then Inr (map (\<lambda>p. strings ! p) ps) else Inl Undefined_Behaviour)"

fun print_warps :: "string list \<Rightarrow> nat \<Rightarrow> nat list list \<Rightarrow> string list res" where
  "print_warps strings j [] = Inr []"
| "print_warps strings j (ps # pss) =
     rbind (resolve strings ps) (\<lambda>warp.
     rbind (print_warps strings (Suc j) pss) (\<lambda>rest. Inr (print_warp j warp @ rest)))"

definition tb_name :: "u32 \<times> u32 \<times> u32 \<Rightarrow> string" where
  "tb_name = (\<lambda>(x, y, z). to_string (uint x) @ '','' @ to_string (uint y) @ '','' @ to_string (uint z))"

definition print_block :: "string list \<Rightarrow> threadblock_info \<Rightarrow> string list res" where
  "print_block strings b =
     (if tb_initialized b \<and> warp_insts_array b \<noteq> [] then
        rbind (print_warps strings 0 (warp_insts_array b)) (\<lambda>ws.
          Inr (['''', ''#BEGIN_TB'', '''', ''thread block = '' @ tb_name (tb_id b)] @ ws @ ['''', ''#END_TB'']))
      else Inr [])"

fun print_blocks :: "string list \<Rightarrow> threadblock_info list \<Rightarrow> string list res" where
  "print_blocks strings [] = Inr []"
| "print_blocks strings (b # bs) =
     rbind (print_block strings b) (\<lambda>x. rbind (print_blocks strings bs) (\<lambda>y. Inr (x @ y)))"

definition group_lines :: "string list \<Rightarrow> string list res" where
  "group_lines lines =
     rbind (foldM group_line lines new_grouping) (\<lambda>g.
       if passthrough_mode g then Inr (cout g)
       else
         rbind (print_blocks (unique_strings (warp_inst_lut g)) (insts g)) (\<lambda>out. Inr (cout g @ out)))"

text \<open>\<open>group_per_block\<close>: the path of the output and the lines written to it, if the file's name has
  one of the two suffixes.\<close>

definition has_suffix :: "string \<Rightarrow> string \<Rightarrow> bool" where
  "has_suffix e s \<longleftrightarrow> length e < length s \<and> drop (length s - length e) s = e"

definition output_filepath :: "string \<Rightarrow> string option" where
  "output_filepath path =
     (if has_suffix ''.xz'' path then Some (take (length path - 3) path @ ''g.xz'')
      else if has_suffix ''.trace'' path then Some (path @ ''g'')
      else None)"

definition group_per_block :: "(string \<Rightarrow> string) \<Rightarrow> string \<Rightarrow> (string \<times> string list) option res" where
  "group_per_block source path =
     (case output_filepath path of
        None \<Rightarrow> Inr None
      | Some out \<Rightarrow> rbind (group_lines (eof_lines (source path))) (\<lambda>ls. Inr (Some (out, ls))))"

section \<open>The list of kernels\<close>

text \<open>The loop over the lines of a list: the lines written to the new list and the traces to
  group, or the exit code 1 (\<open>None\<close>).\<close>

definition grouped_name :: "string \<Rightarrow> string" where
  "grouped_name line = (if has_suffix ''.xz'' line then take (length line - 3) line @ ''g.xz'' else line @ ''g'')"

fun list_lines :: "string \<Rightarrow> string list \<Rightarrow> (string list \<times> string list) option" where
  "list_lines directory [] = Some ([], [])"
| "list_lines directory (l # ls) =
     (if l = [] then list_lines directory ls
      else if take 6 l = ''Memcpy'' then
        map_option (\<lambda>(out, todo). (l # out, todo)) (list_lines directory ls)
      else if take 6 l = ''kernel'' then
        map_option (\<lambda>(out, todo). (grouped_name l # out, (directory @ ''/'' @ l) # todo)) (list_lines directory ls)
      else None)"

definition directory_of :: "string \<Rightarrow> string" where
  "directory_of path =
     (case find_index (\<lambda>c. c = CHR ''/'') (rev path) of
        None \<Rightarrow> path
      | Some i \<Rightarrow> take (length path - Suc i) path)"

definition list_output :: "string list \<Rightarrow> string \<Rightarrow> string" where
  "list_output all_lists path =
     (if length all_lists = 1 \<or> hd all_lists = path then directory_of path @ ''/kernelslist.g'' else path @ ''.g'')"


section \<open>The table of lines\<close>

definition lut_ok :: "WarpInstLUT \<Rightarrow> bool" where
  "lut_ok lut \<longleftrightarrow>
     (\<forall>s p. registration_table lut s = Some p \<longrightarrow> p < length (unique_strings lut) \<and> unique_strings lut ! p = s)"

lemma empty_lut_ok [simp]: "lut_ok empty_lut"
  by (simp add: lut_ok_def empty_lut_def)

text \<open>A registered line keeps its copy, and the copy reads back as the line.\<close>

lemma intern_line_ok:
  assumes "lut_ok lut"
  obtains p lut' xs where "intern_line s lut = Inr (p, lut')" "lut_ok lut'"
    "unique_strings lut' = unique_strings lut @ xs" "p < length (unique_strings lut')"
    "unique_strings lut' ! p = s"
proof (cases "registration_table lut s")
  case None
  have "lut_ok \<lparr>registration_table = (registration_table lut)(s \<mapsto> length (unique_strings lut)),
      unique_strings = unique_strings lut @ [s]\<rparr>"
    using assms by (auto simp: lut_ok_def nth_append less_SucI)
  with None show ?thesis
    by (intro that) (auto simp: intern_line_def register_new_entry_def lookup_entry_def Let_def)
next
  case (Some p)
  with assms show ?thesis
    by (intro that [of p lut "[]"]) (auto simp: intern_line_def lookup_entry_def lut_ok_def)
qed

section \<open>Blank lines, comments and headers\<close>

definition plain_line :: "string \<Rightarrow> bool" where
  "plain_line l \<longleftrightarrow> l = [] \<or> hd l = CHR ''#'' \<or> hd l = CHR ''-''"

lemma print_line_simps [simp]:
  "cout (print_line l g) = cout g @ [l]" "passthrough_mode (print_line l g) = passthrough_mode g"
  by (simp_all add: print_line_def)

lemma read_key_simps [simp]:
  "cout (read_key l g) = cout g" "passthrough_mode (read_key l g) = passthrough_mode g"
  by (simp_all add: read_key_def split: option.splits prod.splits)

lemma size_arrays_simps:
  assumes "size_arrays g = Inr g'"
  shows "cout g' = cout g" "passthrough_mode g' = passthrough_mode g"
  using assms by (auto simp: size_arrays_def Let_def rbind_eq_Inr)

lemma header_line_prints:
  assumes "header_line l g = Inr g'"
  shows "cout g' = cout g @ [l] \<and> passthrough_mode g' = passthrough_mode g"
proof -
  obtain g1 g2 where g1: "read_dims l (read_key l g) = Inr g1"
    and g2: "(if found_grid_dim g1 \<and> found_block_dim g1 then size_arrays g1 else Inr g1) = Inr g2"
    and g': "g' = print_line l g2"
    using assms unfolding header_line_def rbind_eq_Inr by blast
  have "cout g1 = cout g" "passthrough_mode g1 = passthrough_mode g"
    using g1 by (auto simp: read_dims_def rbind_eq_Inr split: if_splits)
  then show ?thesis using g2 size_arrays_simps [of g1 g2] g' by (auto split: if_splits)
qed

lemma plain_lines_print:
  assumes "foldM group_line ls g = Inr g'" "list_all plain_line ls"
  shows "cout g' = cout g @ ls \<and> passthrough_mode g' = passthrough_mode g"
  using assms
proof (induction ls arbitrary: g)
  case (Cons l ls)
  then obtain g1 where g1: "group_line l g = Inr g1" "foldM group_line ls g1 = Inr g'"
    by (auto simp: rbind_eq_Inr)
  then have "cout g1 = cout g @ [l] \<and> passthrough_mode g1 = passthrough_mode g"
    using Cons.prems(2) header_line_prints [of l g g1] by (auto simp: group_line_def plain_line_def split: if_splits)
  with Cons g1 show ?case by simp
qed simp

lemma passthrough_lines:
  assumes "passthrough_mode g" "list_all (\<lambda>l. l = [] \<or> hd l \<noteq> CHR ''-'') ls"
  shows "\<exists>g'. foldM group_line ls g = Inr g' \<and> cout g' = cout g @ ls \<and> passthrough_mode g'"
  using assms
proof (induction ls arbitrary: g)
  case (Cons l ls)
  then have "group_line l g = Inr (print_line l g)" by (auto simp: group_line_def)
  with Cons.IH [of "print_line l g"] Cons.prems show ?case by simp
qed simp

lemma group_lines_copies:
  assumes "foldM group_line header new_grouping = Inr g" "list_all plain_line header"
    and "l \<noteq> []" "\<not> plain_line l" "\<not> is_digit (hd l)"
    and "list_all (\<lambda>l. l = [] \<or> hd l \<noteq> CHR ''-'') ls"
  shows "group_lines (header @ l # ls) = Inr (header @ l # ls)"
proof -
  have g: "cout g = header" "\<not> passthrough_mode g"
    using plain_lines_print [OF assms(1,2)] by (simp_all add: new_grouping_def)
  have "group_line l g = Inr (print_line l (g\<lparr>passthrough_mode := True\<rparr>))"
    using assms(3-5) g(2) by (auto simp: group_line_def plain_line_def)
  with passthrough_lines [of "print_line l (g\<lparr>passthrough_mode := True\<rparr>)" ls] assms(1,6) g show ?thesis
    by (auto simp: group_lines_def foldM_append)
qed

section \<open>Instructions by block and warp\<close>

text \<open>Where a line belongs, and what is left of it there.\<close>

definition place :: "u32 option list \<Rightarrow> string \<Rightarrow> (nat \<times> nat \<times> string) option" where
  "place ds line =
     (case parse_position line of
        None \<Rightarrow> None
      | Some (x, y, z, w, rest) \<Rightarrow>
          (case block_number ds (x, y, z) of Inl _ \<Rightarrow> None | Inr b \<Rightarrow> Some (unat b, unat w, rest)))"

definition tb_of :: "string \<Rightarrow> u32 \<times> u32 \<times> u32" where
  "tb_of line = (case parse_position line of None \<Rightarrow> (0, 0, 0) | Some (x, y, z, w, rest) \<Rightarrow> (x, y, z))"

definition is_ldgsts :: "string \<Rightarrow> bool" where
  "is_ldgsts rest = (case opcode_of rest of Inl _ \<Rightarrow> False | Inr opcode \<Rightarrow> str_contains ''LDGSTS'' opcode)"

text \<open>An instruction line of a launch with \<open>n\<close> blocks of \<open>m\<close> warps.\<close>

definition sound_line :: "u32 option list \<Rightarrow> nat \<Rightarrow> nat \<Rightarrow> string \<Rightarrow> bool" where
  "sound_line ds n m line \<longleftrightarrow>
     line \<noteq> [] \<and> is_digit (hd line) \<and>
     (case place ds line of
        None \<Rightarrow> False
      | Some (b, w, rest) \<Rightarrow> b < n \<and> w < m \<and> \<not> isl (opcode_of rest))"

text \<open>The lines of a warp in order, and what is kept of them: of two lines for an \<^verbatim>\<open>LDGSTS\<close> the second.\<close>

definition warp_lines :: "u32 option list \<Rightarrow> nat \<Rightarrow> nat \<Rightarrow> string list \<Rightarrow> string list" where
  "warp_lines ds b w ls =
     concat (map (\<lambda>l. case place ds l of
        None \<Rightarrow> []
      | Some (b', w', rest) \<Rightarrow> if b' = b \<and> w' = w then [rest] else []) ls)"

fun keep_second :: "bool \<Rightarrow> string list \<Rightarrow> string list" where
  "keep_second first [] = []"
| "keep_second first (r # rs) =
     (if is_ldgsts r then (if first then keep_second False rs else r # keep_second True rs)
      else r # keep_second first rs)"

definition flag_after :: "string list \<Rightarrow> bool" where
  "flag_after rs = even (length (filter is_ldgsts rs))"

lemma keep_second_append:
  "keep_second f (rs @ [r]) =
     keep_second f rs @ (if is_ldgsts r \<and> (f = flag_after rs) then [] else [r])"
  by (induction rs arbitrary: f) (auto simp: flag_after_def)

definition block_lines :: "u32 option list \<Rightarrow> nat \<Rightarrow> string list \<Rightarrow> string list" where
  "block_lines ds b ls = filter (\<lambda>l. map_option fst (place ds l) = Some b) ls"

lemma warp_lines_snoc:
  assumes "place ds l = Some (b, w, rest)"
  shows "warp_lines ds b' w' (ls @ [l]) = warp_lines ds b' w' ls @ (if b' = b \<and> w' = w then [rest] else [])"
    "block_lines ds b' (ls @ [l]) = block_lines ds b' ls @ (if b' = b then [l] else [])"
  using assms by (auto simp: warp_lines_def block_lines_def)

lemma flag_after_snoc: "flag_after (rs @ [r]) = (flag_after rs \<noteq> is_ldgsts r)"
  by (auto simp: flag_after_def)

section \<open>The state after some lines\<close>

definition block_ok ::
  "u32 option list \<Rightarrow> nat \<Rightarrow> string list \<Rightarrow> string list \<Rightarrow> nat \<Rightarrow> threadblock_info \<Rightarrow> bool list \<Rightarrow> bool"
where
  "block_ok ds m strings ls b i fs \<longleftrightarrow>
     length (warp_insts_array i) = m \<and> length fs = m \<and>
     tb_initialized i = (block_lines ds b ls \<noteq> []) \<and>
     (tb_initialized i \<longrightarrow> tb_id i = tb_of (hd (block_lines ds b ls))) \<and>
     (\<forall>w < m. fs ! w = flag_after (warp_lines ds b w ls) \<and>
        resolve strings (warp_insts_array i ! w) = Inr (keep_second True (warp_lines ds b w ls)))"

lemma resolve_snoc:
  assumes "resolve strings ps = Inr rs" "p < length strings"
  shows "resolve strings (ps @ [p]) = Inr (rs @ [strings ! p])"
  using assms by (auto simp: resolve_def split: if_splits)

lemma resolve_more: "resolve strings ps = Inr rs \<Longrightarrow> resolve (strings @ xs) ps = Inr rs"
  by (auto simp: resolve_def nth_append list_all_iff split: if_splits)

lemma block_ok_more: "block_ok ds m strings ls b i fs \<Longrightarrow> block_ok ds m (strings @ xs) ls b i fs"
  by (auto simp: block_ok_def resolve_more)

text \<open>What \<open>mark_block\<close> and \<open>store_inst\<close> do to the block they change.\<close>

definition marked :: "u32 \<times> u32 \<times> u32 \<Rightarrow> threadblock_info \<Rightarrow> threadblock_info" where
  "marked xyz i = (if tb_initialized i then i else i\<lparr>tb_id := xyz, tb_initialized := True\<rparr>)"

definition add_to_warp :: "nat \<Rightarrow> nat \<Rightarrow> threadblock_info \<Rightarrow> threadblock_info" where
  "add_to_warp w p i = i\<lparr>warp_insts_array := (warp_insts_array i)[w := warp_insts_array i ! w @ [p]]\<rparr>"

definition kept_inst :: "nat \<Rightarrow> string \<Rightarrow> bool list \<Rightarrow> bool" where
  "kept_inst w opcode fs \<longleftrightarrow> \<not> (str_contains ''LDGSTS'' opcode \<and> fs ! w)"

definition flags_after :: "nat \<Rightarrow> string \<Rightarrow> bool list \<Rightarrow> bool list" where
  "flags_after w opcode fs = (if str_contains ''LDGSTS'' opcode then fs[w := \<not> fs ! w] else fs)"

lemma store_marked:
  assumes "b < length (insts g)" "b < length (ldgsts_flags g)"
    and "w < length (warp_insts_array (insts g ! b))" "w < length (ldgsts_flags g ! b)"
  shows "store_inst b w opcode p ((mark_block b xyz g)\<lparr>warp_inst_lut := lut\<rparr>) =
    g\<lparr>insts := (insts g)[b := (if kept_inst w opcode (ldgsts_flags g ! b) then add_to_warp w p else id)
          (marked xyz (insts g ! b))],
      ldgsts_flags := (ldgsts_flags g)[b := flags_after w opcode (ldgsts_flags g ! b)],
      warp_inst_lut := lut\<rparr>"
  using assms
  by (auto simp: store_inst_def mark_block_def marked_def append_inst_def add_to_warp_def kept_inst_def
      flags_after_def Let_def list_update_id)

lemma block_ok_step:
  assumes ok: "block_ok ds m strings ls b i fs" and at: "place ds l = Some (b, w, rest)"
    and w: "w < m" and opcode: "opcode_of rest = Inr opcode"
    and p: "p < length strings" "strings ! p = rest"
  shows "block_ok ds m strings (ls @ [l]) b
    ((if kept_inst w opcode fs then add_to_warp w p else id) (marked (tb_of l) i)) (flags_after w opcode fs)"
proof -
  have ld: "is_ldgsts rest = str_contains ''LDGSTS'' opcode" by (simp add: is_ldgsts_def opcode)
  have id: "tb_initialized (marked (tb_of l) i)"
    "tb_id (marked (tb_of l) i) = tb_of (hd (block_lines ds b (ls @ [l])))"
    "warp_insts_array (marked (tb_of l) i) = warp_insts_array i"
    using ok by (auto simp: marked_def block_ok_def warp_lines_snoc [OF at])
  have shape: "length (warp_insts_array i) = m" "length fs = m" using ok by (simp_all add: block_ok_def)
  have rows: "fs ! v = flag_after (warp_lines ds b v ls)"
    "resolve strings (warp_insts_array i ! v) = Inr (keep_second True (warp_lines ds b v ls))" if "v < m" for v
    using ok that by (simp_all add: block_ok_def)
  have row: "resolve strings (warp_insts_array i ! w @ [p]) = Inr (keep_second True (warp_lines ds b w ls) @ [rest])"
    using resolve_snoc [OF rows(2) [OF w] p(1)] p(2) by simp
  show ?thesis
    unfolding block_ok_def
    using id shape rows row w
    by (auto simp: add_to_warp_def kept_inst_def flags_after_def warp_lines_snoc [OF at] nth_list_update
        keep_second_append flag_after_snoc ld)
qed

definition grouped :: "u32 option list \<Rightarrow> nat \<Rightarrow> nat \<Rightarrow> string list \<Rightarrow> grouping \<Rightarrow> bool" where
  "grouped ds n m ls g \<longleftrightarrow>
     found_grid_dim g \<and> found_block_dim g \<and> \<not> passthrough_mode g \<and> grid_dim g = ds \<and>
     lut_ok (warp_inst_lut g) \<and> length (insts g) = n \<and> length (ldgsts_flags g) = n \<and>
     (\<forall>b < n. block_ok ds m (unique_strings (warp_inst_lut g)) ls b (insts g ! b) (ldgsts_flags g ! b))"

lemma group_line_step:
  assumes ok: "grouped ds n m ls g" and l: "sound_line ds n m l"
  shows "\<exists>g'. group_line l g = Inr g' \<and> grouped ds n m (ls @ [l]) g' \<and> cout g' = cout g"
proof -
  obtain b w rest where at: "place ds l = Some (b, w, rest)" and bw: "b < n" "w < m"
    and "\<not> isl (opcode_of rest)" and digit: "l \<noteq> []" "is_digit (hd l)"
    using l by (auto simp: sound_line_def split: option.splits)
  then obtain opcode where opcode: "opcode_of rest = Inr opcode" by (cases "opcode_of rest") auto
  obtain x y z w' k where pos: "parse_position l = Some (x, y, z, w', rest)"
    and num: "block_number ds (x, y, z) = Inr k" and k: "b = unat k" "w = unat w'"
    using at by (auto simp: place_def split: option.splits sum.splits)
  have g: "found_grid_dim g" "found_block_dim g" "\<not> passthrough_mode g" "grid_dim g = ds"
    "length (insts g) = n" "length (ldgsts_flags g) = n" "lut_ok (warp_inst_lut g)"
    and blocks: "\<And>b. b < n \<Longrightarrow>
      block_ok ds m (unique_strings (warp_inst_lut g)) ls b (insts g ! b) (ldgsts_flags g ! b)"
    using ok by (simp_all add: grouped_def)
  obtain p lut xs where p: "intern_line rest (warp_inst_lut g) = Inr (p, lut)" "lut_ok lut"
    "unique_strings lut = unique_strings (warp_inst_lut g) @ xs" "p < length (unique_strings lut)"
    "unique_strings lut ! p = rest"
    using intern_line_ok [OF g(7)] by metis
  have b: "block_ok ds m (unique_strings lut) ls b (insts g ! b) (ldgsts_flags g ! b)" if "b < n" for b
    using block_ok_more [OF blocks [OF that]] p(3) by metis
  let ?i = "(if kept_inst w opcode (ldgsts_flags g ! b) then add_to_warp w p else id) (marked (tb_of l) (insts g ! b))"
  let ?g = "g\<lparr>insts := (insts g)[b := ?i],
    ldgsts_flags := (ldgsts_flags g)[b := flags_after w opcode (ldgsts_flags g ! b)], warp_inst_lut := lut\<rparr>"
  have tb: "tb_of l = (x, y, z)" by (simp add: tb_of_def pos)
  have shape: "w < length (warp_insts_array (insts g ! b))" "w < length (ldgsts_flags g ! b)"
    using blocks [OF bw(1)] bw(2) by (simp_all add: block_ok_def)
  have "insts g \<noteq> []" using bw(1) g(5) by auto
  moreover have "warp_inst_lut (mark_block b (x, y, z) g) = warp_inst_lut g" by (simp add: mark_block_def)
  moreover have "hd l \<noteq> CHR ''#''" "hd l \<noteq> CHR ''-''" using digit(2) by (auto simp: is_digit_def)
  ultimately have "group_line l g = Inr (store_inst b w opcode p ((mark_block b (x, y, z) g)\<lparr>warp_inst_lut := lut\<rparr>))"
    using digit g(1-5) pos num k bw(1) opcode p(1)
    by (simp add: group_line_def inst_line_def Let_def)
  also have "\<dots> = Inr ?g" using store_marked [where b = b and g = g and w = w and xyz = "(x, y, z)"] bw(1) g(5,6) shape tb by simp
  finally have run: "group_line l g = Inr ?g" .
  have other: "block_ok ds m strings (ls @ [l]) b' i fs = block_ok ds m strings ls b' i fs" if "b' \<noteq> b" for b' strings i fs
    using that by (simp add: block_ok_def warp_lines_snoc [OF at])
  have "block_ok ds m (unique_strings lut) (ls @ [l]) b' (insts ?g ! b') (ldgsts_flags ?g ! b')" if "b' < n" for b'
    using block_ok_step [OF b [OF bw(1)] at bw(2) opcode p(4,5)] b [OF that] that g(5,6) other
    by (cases "b' = b") simp_all
  with run g p(2) show ?thesis by (intro exI [of _ ?g]) (simp add: grouped_def)
qed

lemma group_lines_step:
  assumes "grouped ds n m done g" "list_all (sound_line ds n m) ls"
  shows "\<exists>g'. foldM group_line ls g = Inr g' \<and> grouped ds n m (done @ ls) g' \<and> cout g' = cout g"
  using assms
proof (induction ls arbitrary: g "done")
  case (Cons l ls)
  then obtain g1 where g1: "group_line l g = Inr g1" "grouped ds n m (done @ [l]) g1" "cout g1 = cout g"
    using group_line_step [of ds n m "done" g l] by auto
  with Cons.IH [OF g1(2)] Cons.prems(2) show ?case by auto
qed simp

section \<open>Headers leave empty arrays of the right size\<close>

definition no_insts :: "threadblock_info \<Rightarrow> bool" where
  "no_insts i \<longleftrightarrow> \<not> tb_initialized i \<and> list_all (\<lambda>ps. ps = []) (warp_insts_array i)"

definition header_ok :: "grouping \<Rightarrow> bool" where
  "header_ok g \<longleftrightarrow>
     list_all no_insts (insts g) \<and> lut_ok (warp_inst_lut g) \<and>
     (found_grid_dim g \<and> found_block_dim g \<longrightarrow>
       (\<exists>n. dims_product (grid_dim g) = Inr n \<and> length (insts g) = unat n \<and>
         (\<forall>t. dims_product (tb_dim g) = Inr t \<longrightarrow>
           list_all (\<lambda>i. length (warp_insts_array i) = warps_of_block t) (insts g) \<and>
           ldgsts_flags g = replicate (unat n) (replicate (warps_of_block t) True))))"

lemma list_all_resize: "list_all P xs \<Longrightarrow> P x \<Longrightarrow> list_all P (resize n x xs)"
  by (auto simp: resize_def list_all_iff dest: in_set_takeD)

lemma length_resize [simp]: "length (resize n x xs) = n"
  by (simp add: resize_def)

lemma no_insts_resize: "no_insts i \<Longrightarrow> no_insts (i\<lparr>warp_insts_array := resize w [] (warp_insts_array i)\<rparr>)"
  by (simp add: no_insts_def list_all_resize)

lemma size_arrays_ok:
  assumes run: "size_arrays g = Inr g'" and ok: "list_all no_insts (insts g)" "lut_ok (warp_inst_lut g)"
  shows "header_ok g'"
proof -
  let ?is = "\<lambda>n. resize (unat n) new_threadblock_info (insts g)"
  obtain n w where n: "dims_product (grid_dim g) = Inr n"
    and w: "(if ?is n = [] then Inr 0 else rbind (dims_product (tb_dim g)) (\<lambda>n. Inr (warps_of_block n))) = Inr w"
    and g': "g' = g\<lparr>insts := map (\<lambda>b. b\<lparr>warp_insts_array := resize w [] (warp_insts_array b)\<rparr>) (?is n),
      ldgsts_flags := map (\<lambda>_. replicate w True) (?is n)\<rparr>"
    using run by (auto simp: size_arrays_def Let_def rbind_eq_Inr)
  have "list_all no_insts (?is n)"
    using ok(1) by (intro list_all_resize) (simp_all add: no_insts_def new_threadblock_info_def)
  then have "list_all no_insts (insts g')"
    using no_insts_resize by (simp add: g' list_all_iff)
  moreover have "w = warps_of_block t \<or> ?is n = []" if "dims_product (tb_dim g) = Inr t" for t
    using w that by (auto split: if_splits)
  moreover have "map (\<lambda>_. c) (?is n) = replicate (unat n) c" for c :: "bool list"
    by (simp add: map_replicate_const)
  ultimately show ?thesis using n ok(2) by (auto simp: header_ok_def g' list_all_iff)
qed

lemma read_key_other [simp]:
  "insts (read_key l g) = insts g" "warp_inst_lut (read_key l g) = warp_inst_lut g"
  by (simp_all add: read_key_def split: option.splits prod.splits)

lemma read_dims_other:
  assumes "read_dims l g = Inr g'"
  shows "insts g' = insts g" "warp_inst_lut g' = warp_inst_lut g"
  using assms by (auto simp: read_dims_def rbind_eq_Inr split: if_splits)

lemma print_line_ok [simp]: "header_ok (print_line l g) = header_ok g"
  by (simp add: header_ok_def print_line_def)

lemma header_line_ok:
  assumes "header_line l g = Inr g'" "header_ok g"
  shows "header_ok g'"
proof -
  obtain g1 g2 where g1: "read_dims l (read_key l g) = Inr g1"
    and g2: "(if found_grid_dim g1 \<and> found_block_dim g1 then size_arrays g1 else Inr g1) = Inr g2"
    and g': "g' = print_line l g2"
    using assms(1) unfolding header_line_def rbind_eq_Inr by blast
  have "list_all no_insts (insts g1)" "lut_ok (warp_inst_lut g1)"
    using assms(2) read_dims_other [OF g1] by (simp_all add: header_ok_def)
  with g2 size_arrays_ok [of g1 g2] have "header_ok g2" by (auto simp: header_ok_def split: if_splits)
  then show ?thesis by (simp add: g')
qed

lemma plain_lines_ok:
  assumes "foldM group_line ls g = Inr g'" "list_all plain_line ls" "header_ok g"
  shows "header_ok g'"
proof (rule foldM_invariant [where P = header_ok, OF _ assms(1,3)])
  fix l g g' assume l: "l \<in> set ls" and ok: "header_ok g" and run: "group_line l g = Inr g'"
  then show "header_ok g'"
    using assms(2) header_line_ok [of l g g']
    by (auto simp: list_all_iff plain_line_def group_line_def split: if_splits)
qed

lemma header_grouped:
  assumes "foldM group_line header new_grouping = Inr g" "list_all plain_line header"
    and "found_grid_dim g" "found_block_dim g"
    and "dims_product (grid_dim g) = Inr n" "dims_product (tb_dim g) = Inr t"
  shows "grouped (grid_dim g) (unat n) (warps_of_block t) [] g"
proof -
  have "header_ok new_grouping" by (simp add: header_ok_def new_grouping_def)
  with assms(1,2) have ok: "header_ok g" by (rule plain_lines_ok)
  have "\<not> passthrough_mode g" using plain_lines_print [OF assms(1,2)] by (simp add: new_grouping_def)
  with ok assms(3-6) show ?thesis
    by (auto simp: header_ok_def grouped_def block_ok_def block_lines_def warp_lines_def flag_after_def
        no_insts_def list_all_length resolve_def)
qed

section \<open>The grouped trace\<close>

definition block_text :: "u32 option list \<Rightarrow> nat \<Rightarrow> string list \<Rightarrow> nat \<Rightarrow> string list" where
  "block_text ds m ls b =
     (if block_lines ds b ls = [] \<or> m = 0 then []
      else ['''', ''#BEGIN_TB'', '''', ''thread block = '' @ tb_name (tb_of (hd (block_lines ds b ls)))] @
        concat (map (\<lambda>w. print_warp w (keep_second True (warp_lines ds b w ls))) [0..<m]) @
        ['''', ''#END_TB''])"

lemma print_warps_text:
  assumes "\<forall>w < length pss. resolve strings (pss ! w) = Inr (f (j + w))"
  shows "print_warps strings j pss = Inr (concat (map (\<lambda>w. print_warp w (f w)) [j..<j + length pss]))"
  using assms
proof (induction pss arbitrary: j)
  case (Cons ps pss)
  have "resolve strings ps = Inr (f j)" using Cons.prems by force
  moreover have "print_warps strings (Suc j) pss =
      Inr (concat (map (\<lambda>w. print_warp w (f w)) [Suc j..<Suc j + length pss]))"
    by (rule Cons.IH) (use Cons.prems in force)
  moreover have "[j..<j + length (ps # pss)] = j # [Suc j..<Suc j + length pss]"
    by (simp add: upt_conv_Cons del: upt_Suc)
  ultimately show ?case by (simp del: upt_Suc)
qed simp

lemma print_block_text:
  assumes "block_ok ds m strings ls b i fs"
  shows "print_block strings i = Inr (block_text ds m ls b)"
proof -
  have m: "length (warp_insts_array i) = m" and rows:
    "\<forall>w < length (warp_insts_array i). resolve strings (warp_insts_array i ! w) = Inr (keep_second True (warp_lines ds b (0 + w) ls))"
    using assms by (simp_all add: block_ok_def)
  from print_warps_text [OF rows] m assms show ?thesis
    by (auto simp: print_block_def block_text_def block_ok_def)
qed

lemma print_blocks_text:
  assumes "\<forall>b < length bs. print_block strings (bs ! b) = Inr (f (j + b))"
  shows "print_blocks strings bs = Inr (concat (map f [j..<j + length bs]))"
  using assms
proof (induction bs arbitrary: j)
  case (Cons b bs)
  have "print_block strings b = Inr (f j)" using Cons.prems by force
  moreover have "print_blocks strings bs = Inr (concat (map f [Suc j..<Suc j + length bs]))"
    by (rule Cons.IH) (use Cons.prems in force)
  moreover have "[j..<j + length (b # bs)] = j # [Suc j..<Suc j + length bs]"
    by (simp add: upt_conv_Cons del: upt_Suc)
  ultimately show ?case by (simp del: upt_Suc)
qed simp

lemma group_lines_text:
  assumes header: "foldM group_line header new_grouping = Inr g" "list_all plain_line header"
    and found: "found_grid_dim g" "found_block_dim g"
    and dims: "dims_product (grid_dim g) = Inr n" "dims_product (tb_dim g) = Inr t"
    and lines: "list_all (sound_line (grid_dim g) (unat n) (warps_of_block t)) ls"
  shows "group_lines (header @ ls @ [[]]) =
    Inr (header @ [[]] @ concat (map (block_text (grid_dim g) (warps_of_block t) ls) [0..<unat n]))"
proof -
  from group_lines_step [OF header_grouped [OF header found dims] lines] obtain g' where
    g': "foldM group_line ls g = Inr g'" "grouped (grid_dim g) (unat n) (warps_of_block t) ls g'" "cout g' = cout g"
    by auto
  have "cout g = header" using plain_lines_print [OF header] by (simp add: new_grouping_def)
  moreover have "print_blocks (unique_strings (warp_inst_lut g')) (insts g') =
      Inr (concat (map (block_text (grid_dim g) (warps_of_block t) ls) [0..<0 + length (insts g')]))"
    by (rule print_blocks_text) (use g'(2) print_block_text in \<open>auto simp: grouped_def\<close>)
  ultimately show ?thesis using g' header(1)
    by (simp add: group_lines_def foldM_append group_line_def grouped_def print_line_def)
qed

lemma eof_lines_text:
  assumes "list_all (\<lambda>l. CHR 0x0A \<notin> set l) ls"
  shows "eof_lines (concat (map (\<lambda>l. l @ [CHR 0x0A]) ls)) = ls @ [[]]"
  using assms
proof (induction ls)
  case (Cons l ls)
  then have "\<And>c. c \<in> set l \<Longrightarrow> c \<noteq> CHR 0x0A" by auto
  with Cons show ?case
    by (subst eof_lines.simps) (simp add: takeWhile_append2 dropWhile_append2 Let_def)
qed (subst eof_lines.simps, simp)

text \<open>C23. Grouping a trace: for a raw trace with header lines that give both dimensions and
  instruction lines of blocks and warps within them, the output repeats the header and then lists
  the blocks that occur, in the order of their numbers, with all their warps in order, and under each
  warp its instructions in their original order, without the first line of every \<^verbatim>\<open>LDGSTS\<close> pair.  No
  other line is lost, duplicated, or moved to another warp.\<close>

theorem group_per_block_regroups:
  assumes "source path = concat (map (\<lambda>l. l @ [CHR 0x0A]) (header @ ls))"
    and "list_all (\<lambda>l. CHR 0x0A \<notin> set l) (header @ ls)" and "output_filepath path = Some out"
    and "foldM group_line header new_grouping = Inr g" "list_all plain_line header"
    and "found_grid_dim g" "found_block_dim g"
    and "dims_product (grid_dim g) = Inr n" "dims_product (tb_dim g) = Inr t"
    and "list_all (sound_line (grid_dim g) (unat n) (warps_of_block t)) ls"
  shows "group_per_block source path =
    Inr (Some (out, header @ [[]] @ concat (map (block_text (grid_dim g) (warps_of_block t) ls) [0..<unat n])))"
  using eof_lines_text [OF assms(2)] group_lines_text [OF assms(4-10)] assms(1,3)
  by (simp add: group_per_block_def)

text \<open>A trace that is grouped already, or in any other format whose first line behind the header
  does not begin with a digit, is copied unchanged, so that processing a trace twice is harmless.\<close>

theorem group_lines_passthrough:
  assumes "foldM group_line header new_grouping = Inr g" "list_all plain_line header"
    and "l \<noteq> []" "\<not> plain_line l" "\<not> is_digit (hd l)"
    and "list_all (\<lambda>l. l = [] \<or> hd l \<noteq> CHR ''-'') ls"
  shows "group_lines (header @ l # ls) = Inr (header @ l # ls)"
  using assms by (rule group_lines_copies)

text \<open>Two blocks of one warp each; the line of the second block comes between those of the first.\<close>

definition sample_header :: "string list" where
  "sample_header = [''-grid dim = (2,1,1)'', ''-block dim = (32,1,1)'']"

definition sample_lines :: "string list" where
  "sample_lines =
     [''0 0 0 0 a0 f 1 R1 MOV'', ''1 0 0 0 a0 f 1 R1 MOV'', ''0 0 0 0 b0 f 0 LDGSTS x'',
      ''0 0 0 0 b0 f 0 LDGSTS y'']"

definition sample_grouped :: "string list" where
  "sample_grouped =
     ['''', ''#BEGIN_TB'', '''', ''thread block = 0,0,0'', '''', ''warp = 0'', ''insts = 2'',
      ''a0 f 1 R1 MOV'', ''b0 f 0 LDGSTS y'', '''', ''#END_TB'',
      '''', ''#BEGIN_TB'', '''', ''thread block = 1,0,0'', '''', ''warp = 0'', ''insts = 1'',
      ''a0 f 1 R1 MOV'', '''', ''#END_TB'']"

lemma warps_of_block_32: "warps_of_block 32 = 1"
  using fl_int [of 32] by (simp add: warps_of_block_def)

lemma sample_header_run:
  "\<exists>g. foldM group_line sample_header new_grouping = Inr g \<and> found_grid_dim g \<and> found_block_dim g \<and>
     grid_dim g = [Some 2, Some 1, Some 1] \<and> dims_product (tb_dim g) = Inr 32"
proof -
  have 1: "read_key ''-grid dim = (2,1,1)'' g = g\<lparr>string1 := ''grid'', string2 := ''dim''\<rparr>"
    "read_key ''-block dim = (32,1,1)'' g = g\<lparr>string1 := ''block'', string2 := ''dim''\<rparr>" for g
    by (simp_all add: read_key_def read_word_def is_space_def)
  have 2: "scan_ints [''-grid dim = ('', '','', '',''] ''-grid dim = (2,1,1)'' = [2, 1, 1]"
    "scan_ints [''-block dim = ('', '','', '',''] ''-block dim = (32,1,1)'' = [32, 1, 1]"
    by code_simp+
  show ?thesis
    by (simp add: sample_header_def group_line_def header_line_def 1 2 read_dims_def assign_dims_def
        new_grouping_def print_line_def size_arrays_def Let_def warps_of_block_32 is_digit_def
        del: scan_ints.simps)
qed

theorem group_per_block_regroups_witness:
  "group_per_block (\<lambda>_. concat (map (\<lambda>l. l @ [CHR 0x0A]) (sample_header @ sample_lines))) ''kernel-1.trace'' =
     Inr (Some (''kernel-1.traceg'', sample_header @ [[]] @ sample_grouped))"
proof -
  obtain g where g: "foldM group_line sample_header new_grouping = Inr g" "found_grid_dim g" "found_block_dim g"
    "grid_dim g = [Some 2, Some 1, Some 1]" "dims_product (tb_dim g) = Inr 32"
    using sample_header_run by blast
  have sound: "list_all (sound_line [Some 2, Some 1, Some 1] 2 1) sample_lines" by code_simp
  have out: "concat (map (block_text [Some 2, Some 1, Some 1] 1 sample_lines) [0..<2]) = sample_grouped"
    by code_simp
  have "group_per_block (\<lambda>_. concat (map (\<lambda>l. l @ [CHR 0x0A]) (sample_header @ sample_lines))) ''kernel-1.trace'' =
    Inr (Some (''kernel-1.traceg'', sample_header @ [[]] @
      concat (map (block_text (grid_dim g) (warps_of_block 32) sample_lines) [0..<unat (2 :: u32)])))"
  proof (rule group_per_block_regroups [OF _ _ _ g(1) _ g(2,3) _ g(5)], rule refl)
    show "list_all (\<lambda>l. CHR 0x0A \<notin> set l) (sample_header @ sample_lines)" by code_simp
    show "output_filepath ''kernel-1.trace'' = Some ''kernel-1.traceg''" by code_simp
    show "list_all plain_line sample_header" by code_simp
    show "dims_product (grid_dim g) = Inr 2" by (simp add: g(4))
    show "list_all (sound_line (grid_dim g) (unat (2 :: u32)) (warps_of_block 32)) sample_lines"
      using sound by (simp add: g(4) warps_of_block_32)
  qed
  then show ?thesis using out by (simp only: g(4) warps_of_block_32 unat_numeral) simp
qed

theorem group_lines_passthrough_witness:
  "group_lines [''-kernel name = k'', '''', ''thread block = 0,0,0'', ''warp = 0''] =
     Inr [''-kernel name = k'', '''', ''thread block = 0,0,0'', ''warp = 0'']"
proof -
  have "\<exists>g. foldM group_line [''-kernel name = k'', ''''] new_grouping = Inr g"
    by (simp add: group_line_def header_line_def read_dims_def read_key_def read_word_def is_space_def
        new_grouping_def print_line_def)
  then obtain g where "foldM group_line [''-kernel name = k'', ''''] new_grouping = Inr g" ..
  from group_lines_passthrough [OF this, of "''thread block = 0,0,0''" "[''warp = 0'']"]
  show ?thesis by (simp add: plain_line_def is_digit_def)
qed

end
