(* ===== verification/Trace_List.thy ===== *)
theory Trace_List
  imports Trace_Grouping
begin

text \<open>
  The list of kernels the post-processor writes (\<open>main\<close> of \<^verbatim>\<open>post-traces-processing.cpp\<close>), as the
  simulator reads it.
\<close>


section \<open>The kernels of a grouped list\<close>

lemma prefix_kernel_append:
  assumes "CHR ''-'' \<notin> set ext"
  shows "prefix ''kernel-'' (w @ ext) = prefix ''kernel-'' w"
proof
  assume "prefix ''kernel-'' (w @ ext)"
  then consider "prefix ''kernel-'' w" | us where "''kernel-'' = w @ us" "prefix us ext"
    by (auto simp: prefix_append)
  then show "prefix ''kernel-'' w"
  proof cases
    case 2
    have "us = []"
    proof (rule ccontr)
      assume "us \<noteq> []"
      then have "last us = CHR ''-''" using arg_cong [OF 2(1), of last] by simp
      then have "CHR ''-'' \<in> set us" using \<open>us \<noteq> []\<close> by (metis last_in_set)
      then show False using 2(2) assms by (auto dest: set_mono_prefix)
    qed
    with 2(1) show ?thesis by simp
  qed
qed (auto simp: prefix_def)

lemma find_kernel_append:
  assumes "CHR ''-'' \<notin> set ext"
  shows "str_find ''kernel-'' (w @ ext) = str_find ''kernel-'' w"
proof (induction w)
  case Nil
  have "\<not> sublist ''kernel-'' ext" using assms by (auto simp: sublist_def)
  then have "str_find ''kernel-'' ext = None" 
    using str_contains_iff [of "''kernel-''" ext] by (simp add: str_contains_def)
  then show ?case by simp
next
  case (Cons c w)
  then show ?case using prefix_kernel_append [OF assms, of "c # w"] by simp
qed

lemma takeWhile_digit_append:
  "ext = [] \<or> \<not> is_digit (hd ext) \<Longrightarrow> takeWhile is_digit (w @ ext) = takeWhile is_digit w"
  by (induction w) (cases ext; auto)+

lemma parse_g_line_append:
  assumes "CHR ''-'' \<notin> set ext" "ext = [] \<or> \<not> is_digit (hd ext)" "w \<noteq> []"
  shows "parse_g_line (w @ ext) ids = parse_g_line w ids"
proof (cases "str_find ''kernel-'' w")
  case None
  then show ?thesis using assms(3) find_kernel_append [OF assms(1), of w] by (simp add: parse_g_line_def)
next
  case (Some i)
  then have "i + 7 \<le> length w" using str_find_prefix [of "''kernel-''" w i] by simp
  then show ?thesis
    using assms(3) Some find_kernel_append [OF assms(1), of w] takeWhile_digit_append [OF assms(2), of "drop (i + 7) w"]
    by (simp add: parse_g_line_def kernel_number_def)
qed

lemma parse_grouped_name:
  assumes "l \<noteq> []"
  shows "parse_g_line (grouped_name l) ids = parse_g_line l ids"
proof (cases "has_suffix ''.xz'' l")
  case True
  let ?u = "take (length l - 3) l"
  have "drop (length l - 3) l = ''.xz''" and u: "?u \<noteq> []"
    using True by (auto simp: has_suffix_def numeral_3_eq_3)
  then have l: "l = ?u @ ''.xz''" by (metis append_take_drop_id)
  then have "parse_g_line (?u @ ''g.xz'') ids = parse_g_line ?u ids"
    "parse_g_line (?u @ ''.xz'') ids = parse_g_line ?u ids"
    using u by (intro parse_g_line_append; simp add: is_digit_def)+
  then show ?thesis using True l by (simp add: grouped_name_def)
next
  case False
  then show ?thesis using parse_g_line_append [of "''g''" l ids] assms
    by (simp add: grouped_name_def is_digit_def)
qed

lemma parse_list_lines:
  assumes "list_lines d ls = Some (out, todo)"
  shows "foldM parse_g_line out ids = foldM parse_g_line ls ids"
  using assms
proof (induction ls arbitrary: out todo ids)
  case (Cons l ls)
  have blank: "parse_g_line [] ids = Inr ids" by (simp add: parse_g_line_def)
  show ?case
  proof (cases "l = []")
    case True
    with Cons blank show ?thesis by simp
  next
    case False
    with Cons.prems obtain x out' todo' where rest: "list_lines d ls = Some (out', todo')" "out = x # out'"
      "x = l \<or> x = grouped_name l"
      by (auto split: if_splits)
    then have "parse_g_line x ids = parse_g_line l ids" using parse_grouped_name [OF False] by auto
    then have "foldM parse_g_line out ids = rbind (parse_g_line l ids) (foldM parse_g_line out')"
      by (simp add: rest(2))
    also have "\<dots> = rbind (parse_g_line l ids) (foldM parse_g_line ls)"
      using Cons.IH [OF rest(1)] by (simp add: fun_eq_iff cong: rbind_cong)
    finally show ?thesis by simp
  qed
qed simp

text \<open>The two ways of reading the lines of a file differ at most by a blank line at the end.\<close>

lemma eof_lines_file_lines: "eof_lines s = file_lines s \<or> eof_lines s = file_lines s @ [[]]"
proof (induction s rule: eof_lines.induct)
  case (1 s)
  let ?rest = "dropWhile (\<lambda>c. c \<noteq> CHR 0x0A) s"
  have e: "eof_lines s = takeWhile (\<lambda>c. c \<noteq> CHR 0x0A) s # (if ?rest = [] then [] else eof_lines (tl ?rest))"
    by (subst eof_lines.simps) (simp only: Let_def)
  have f: "file_lines s = takeWhile (\<lambda>c. c \<noteq> CHR 0x0A) s # file_lines (tl ?rest)" if "s \<noteq> []"
    using that by (subst file_lines.simps) (simp only: if_False)
  have nil: "file_lines [] = []" by (simp add: file_lines.simps)
  show ?case
  proof (cases "?rest = []")
    case True
    then show ?thesis using e f nil by (cases "s = []") (simp_all only: if_True takeWhile.simps append.simps list.sel simp_thms)
  next
    case False
    then have "s \<noteq> []" by auto
    from 1 [OF refl False] e f [OF this] False show ?thesis by (auto simp only: if_False append.simps)
  qed
qed

lemma parse_eof_lines: "foldM parse_g_line (eof_lines s) ids = foldM parse_g_line (file_lines s) ids"
proof -
  have "foldM parse_g_line (ls @ [[]]) ids = foldM parse_g_line ls ids" for ls
    by (induction ls arbitrary: ids) (simp_all add: parse_g_line_def cong: rbind_cong)
  then show ?thesis using eof_lines_file_lines [of s] by auto
qed

lemma file_lines_unlines:
  assumes "list_all (\<lambda>l. CHR 0x0A \<notin> set l) ls"
  shows "file_lines (concat (map (\<lambda>l. l @ [CHR 0x0A]) ls)) = ls"
  using assms
proof (induction ls)
  case (Cons l ls)
  then show ?case using file_lines_line [of l] by simp
qed (simp add: file_lines.simps)

lemma eof_lines_no_newline: "list_all (\<lambda>l. CHR 0x0A \<notin> set l) (eof_lines s)"
proof (induction s rule: eof_lines.induct)
  case (1 s)
  then show ?case by (subst eof_lines.simps) (auto simp: Let_def dest: set_takeWhileD)
qed

lemma list_lines_no_newline:
  assumes "list_lines d ls = Some (out, todo)" "list_all (\<lambda>l. CHR 0x0A \<notin> set l) ls"
  shows "list_all (\<lambda>l. CHR 0x0A \<notin> set l) out"
  using assms
proof (induction ls arbitrary: out todo)
  case (Cons l ls)
  then show ?case
    by (auto simp: grouped_name_def dest: in_set_takeD split: if_splits)
qed simp

text \<open>C24. The list of the grouped traces names the same kernels in the same order as the tracer's list:
  the simulator started with \<^verbatim>\<open>--g\<close> on either simulates the same kernels.\<close>

theorem grouped_list_same_kernels:
  assumes "list_lines directory (eof_lines content) = Some (out, todo)"
  shows "parse_g_kernel_ids (Some (concat (map (\<lambda>l. l @ [CHR 0x0A]) out))) = parse_g_kernel_ids (Some content)"
  using parse_list_lines [OF assms, of "[]"] parse_eof_lines [of content "[]"]
    file_lines_unlines [OF list_lines_no_newline [OF assms eof_lines_no_newline]]
  by (simp add: parse_g_kernel_ids_def)

theorem grouped_list_same_kernels_witness:
  "parse_g_kernel_ids
     (Some (concat (map (\<lambda>l. l @ [CHR 0x0A]) [''MemcpyHtoD'', ''kernel-2.traceg.xz'', ''kernel-7.traceg'']))) =
   parse_g_kernel_ids (Some (''MemcpyHtoD'' @ [CHR 0x0A] @ ''kernel-2.trace.xz'' @ [CHR 0x0A] @ ''kernel-7.trace''))"
proof -
  have "list_lines ''traces''
      (eof_lines (''MemcpyHtoD'' @ [CHR 0x0A] @ ''kernel-2.trace.xz'' @ [CHR 0x0A] @ ''kernel-7.trace'')) =
    Some ([''MemcpyHtoD'', ''kernel-2.traceg.xz'', ''kernel-7.traceg''],
      [''traces/kernel-2.trace.xz'', ''traces/kernel-7.trace''])"
    by code_simp
  then show ?thesis by (rule grouped_list_same_kernels)
qed

end
