(* ===== verification/Address_Compression.thy ===== *)
theory Address_Compression
  imports Command_Line
begin

text \<open>
  How the tracer (\<^verbatim>\<open>tracer_tool.cu\<close>) compresses the 32 addresses of a warp's memory instruction:
  \<open>base_stride_compress\<close>, \<open>base_delta_compress\<close>, and the choice between them in
  \<open>format_inst_line\<close>; and the width of an access by the parts of its opcode.
\<close>

section \<open>The parts of an opcode\<close>

definition is_number :: "string \<Rightarrow> bool" where
  "is_number s \<longleftrightarrow> s \<noteq> [] \<and> list_all is_digit s"

text \<open>A part that is a number, or \<open>U\<close> and a number, is a width in bits; \<open>opcode[i][0]\<close> is the
  terminating zero of an empty part.  \<open>sscanf\<close> is given digits only; it is undefined on a number too
  big for \<open>unsigned\<close>.\<close>

fun get_datawidth_from_opcode :: "string list \<Rightarrow> u32 res" where
  "get_datawidth_from_opcode [] = Inr 4"
| "get_datawidth_from_opcode (p # ps) =
     (if is_number p then rbind (stoi p) (\<lambda>n. Inr (word_of_int (n div 8)))
      else if p \<noteq> [] \<and> hd p = CHR ''U'' \<and> is_number (tl p) then
        guard (decimal (tl p) < 2 ^ 32) Undefined_Behaviour (Inr (word_of_int (decimal (tl p)) div 8))
      else get_datawidth_from_opcode ps)"

definition check_opcode_contain :: "string list \<Rightarrow> string \<Rightarrow> bool" where
  "check_opcode_contain opcode param \<longleftrightarrow> list_ex (\<lambda>p. p = param) opcode"

section \<open>Constant stride\<close>

text \<open>The variables of the loop of \<open>base_stride_compress\<close>; \<open>s_break\<close> tells that it was left.  The
  difference of two addresses is stored in an \<open>int\<close>, its low 32 bits.\<close>

record stride_state =
  s_base :: u64
  s_stride :: u32
  s_const :: bool
  s_first :: bool
  s_last :: bool
  s_break :: bool

definition stride_step :: "u64 list \<Rightarrow> u32 \<Rightarrow> nat \<Rightarrow> stride_state \<Rightarrow> stride_state" where
  "stride_step addrs msk s st =
     (if s_break st then st
      else if bit msk s \<and> \<not> s_first st then
        (let st = st\<lparr>s_first := True, s_base := addrs ! s\<rparr> in
         if s < 31 \<and> bit msk (s + 1) then st\<lparr>s_stride := ucast (addrs ! (s + 1) - addrs ! s)\<rparr>
         else st\<lparr>s_const := False, s_break := True\<rparr>)
      else if s_first st \<and> \<not> s_last st then
        (if bit msk s then
           (if s_stride st \<noteq> ucast (addrs ! s - addrs ! (s - 1)) then st\<lparr>s_const := False, s_break := True\<rparr>
            else st)
         else st\<lparr>s_last := True\<rparr>)
      else if s_last st then
        (if bit msk s then st\<lparr>s_const := False, s_break := True\<rparr> else st)
      else st)"

definition base_stride_compress :: "u64 list \<Rightarrow> u32 \<Rightarrow> bool \<times> u64 \<times> u32" where
  "base_stride_compress addrs msk =
     (let st = fold (stride_step addrs msk) [0..<32]
        \<lparr>s_base = 0, s_stride = 0, s_const = True, s_first = False, s_last = False, s_break = False\<rparr>
      in (s_const st, s_base st, s_stride st))"

section \<open>Differences\<close>

text \<open>A difference is a \<open>long long\<close>: the same 64 bits.\<close>

definition delta_step :: "u64 list \<Rightarrow> u32 \<Rightarrow> nat \<Rightarrow> (u64 \<times> u64) option \<times> u64 list \<Rightarrow> (u64 \<times> u64) option \<times> u64 list" where
  "delta_step addrs msk s = (\<lambda>(found, deltas).
     if \<not> bit msk s then (found, deltas)
     else case found of
       None \<Rightarrow> (Some (addrs ! s, addrs ! s), deltas)
     | Some (base, final) \<Rightarrow> (Some (base, addrs ! s), deltas @ [addrs ! s - final]))"

definition base_delta_compress :: "u64 list \<Rightarrow> u32 \<Rightarrow> u64 \<times> u64 list" where
  "base_delta_compress addrs msk =
     (case fold (delta_step addrs msk) [0..<32] (None, []) of
        (None, deltas) \<Rightarrow> (0, deltas)
      | (Some (base, _), deltas) \<Rightarrow> (base, deltas))"

text \<open>What \<open>format_inst_line\<close> writes for the addresses, by the value of \<open>enable_compress\<close>.\<close>

datatype addresses = List_All "u64 list" | Base_Stride u64 u32 | Base_Delta u64 "u64 list"

definition active_addresses :: "u64 list \<Rightarrow> u32 \<Rightarrow> u64 list" where
  "active_addresses addrs msk = map (\<lambda>s. addrs ! s) (filter (\<lambda>s. bit msk s) [0..<32])"

definition compress_addresses :: "bool \<Rightarrow> u64 list \<Rightarrow> u32 \<Rightarrow> addresses" where
  "compress_addresses enable_compress addrs msk =
     (if \<not> enable_compress then List_All (active_addresses addrs msk)
      else
        (case base_stride_compress addrs msk of
           (True, base, stride) \<Rightarrow> Base_Stride base stride
         | _ \<Rightarrow> (case base_delta_compress addrs msk of (base, deltas) \<Rightarrow> Base_Delta base deltas)))"

section \<open>Decompression\<close>

text \<open>The meaning of the three formats: the addresses of the active lanes in order.\<close>

fun partial_sums :: "u64 \<Rightarrow> u64 list \<Rightarrow> u64 list" where
  "partial_sums a [] = [a]"
| "partial_sums a (d # ds) = a # partial_sums (a + d) ds"

fun decompress :: "nat \<Rightarrow> addresses \<Rightarrow> u64 list" where
  "decompress n (List_All as) = as"
| "decompress n (Base_Stride base stride) = map (\<lambda>i. base + of_nat i * scast stride) [0..<n]"
| "decompress n (Base_Delta base deltas) = (if n = 0 then [] else partial_sums base deltas)"

text \<open>A stride survives its conversion to \<open>int\<close>.\<close>

definition fits_int :: "u64 \<Rightarrow> bool" where
  "fits_int d \<longleftrightarrow> scast (ucast d :: u32) = d"

subsection \<open>Runs of lanes\<close>

lemma fold_upt_Suc: "fold f [0..<Suc n] st = f n (fold f [0..<n] st)"
  by simp

text \<open>After \<open>n\<close> lanes: no active lane yet; or a run of active lanes from \<open>f\<close> to the end or to an
  inactive lane, with the same difference throughout; or the loop was left.\<close>

definition stride_run :: "u64 list \<Rightarrow> u32 \<Rightarrow> nat \<Rightarrow> stride_state \<Rightarrow> nat \<Rightarrow> nat \<Rightarrow> bool" where
  "stride_run addrs msk n st f l \<longleftrightarrow>
     f < l \<and> l \<le> n \<and> (if s_last st then l < n else l = n) \<and> bit msk (f + 1) \<and> f + 1 < 32 \<and>
     (\<forall>s < n. bit msk s \<longleftrightarrow> f \<le> s \<and> s < l) \<and> s_base st = addrs ! f \<and>
     s_stride st = ucast (addrs ! (f + 1) - addrs ! f) \<and>
     (\<forall>s. f < s \<and> s < l \<longrightarrow> ucast (addrs ! s - addrs ! (s - 1)) = s_stride st)"

definition stride_inv :: "u64 list \<Rightarrow> u32 \<Rightarrow> nat \<Rightarrow> stride_state \<Rightarrow> bool" where
  "stride_inv addrs msk n st \<longleftrightarrow>
     s_const st = (\<not> s_break st) \<and>
     (\<not> s_break st \<longrightarrow>
       (if s_first st then \<exists>f l. stride_run addrs msk n st f l
        else \<not> s_last st \<and> (\<forall>s < n. \<not> bit msk s) \<and> s_base st = 0 \<and> s_stride st = 0))"

lemma stride_inv_runI:
  "stride_run addrs msk n st f l \<Longrightarrow> s_first st \<Longrightarrow> s_const st = (\<not> s_break st) \<Longrightarrow> stride_inv addrs msk n st"
  by (auto simp: stride_inv_def)

lemma stride_inv_break: "s_break st \<Longrightarrow> \<not> s_const st \<Longrightarrow> stride_inv addrs msk n st"
  by (simp add: stride_inv_def)

lemma stride_run_step:
  assumes run: "stride_run addrs msk n st f l" and st: "s_first st" "\<not> s_break st" "s_const st"
  shows "stride_inv addrs msk (Suc n) (stride_step addrs msk n st)"
proof (cases "s_last st")
  case True
  show ?thesis
  proof (cases "bit msk n")
    case False
    have "stride_run addrs msk (Suc n) (stride_step addrs msk n st) f l"
      using run True st False by (auto simp: stride_run_def stride_step_def less_Suc_eq)
    then show ?thesis by (rule stride_inv_runI) (use True st False in \<open>simp_all add: stride_step_def\<close>)
  qed (use True st in \<open>auto intro!: stride_inv_break simp: stride_step_def\<close>)
next
  case False
  then have l: "l = n" using run by (simp add: stride_run_def)
  show ?thesis
  proof (cases "bit msk n")
    case b: True
    show ?thesis
    proof (cases "s_stride st = ucast (addrs ! n - addrs ! (n - 1))")
      case True
      have "stride_run addrs msk (Suc n) (stride_step addrs msk n st) f (Suc n)"
        using run False st b True l by (auto simp: stride_run_def stride_step_def less_Suc_eq)
      then show ?thesis by (rule stride_inv_runI) (use False st b True in \<open>simp_all add: stride_step_def\<close>)
    qed (use False st b in \<open>auto intro!: stride_inv_break simp: stride_step_def\<close>)
  next
    case b: False
    have "stride_run addrs msk (Suc n) (stride_step addrs msk n st) f n"
      using run False st b l by (auto simp: stride_run_def stride_step_def less_Suc_eq)
    then show ?thesis by (rule stride_inv_runI) (use False st b in \<open>simp_all add: stride_step_def\<close>)
  qed
qed

lemma stride_inv_step:
  assumes "stride_inv addrs msk n st" "n < 32"
  shows "stride_inv addrs msk (Suc n) (stride_step addrs msk n st)"
proof (cases "s_break st")
  case True
  then show ?thesis using assms(1) by (simp add: stride_inv_def stride_step_def)
next
  case nb: False
  show ?thesis
  proof (cases "s_first st")
    case True
    then show ?thesis using assms(1) nb stride_run_step by (auto simp: stride_inv_def)
  next
    case False
    then have none: "\<not> s_last st" "\<forall>s < n. \<not> bit msk s" "s_base st = 0" "s_stride st = 0" "s_const st"
      using assms(1) nb by (auto simp: stride_inv_def)
    show ?thesis
    proof (cases "bit msk n")
      case b: True
      show ?thesis
      proof (cases "n < 31 \<and> bit msk (n + 1)")
        case True
        have "stride_run addrs msk (Suc n) (stride_step addrs msk n st) n (Suc n)"
          using none nb False b True by (auto simp: stride_run_def stride_step_def Let_def less_Suc_eq)
        then show ?thesis
          by (rule stride_inv_runI) (use none nb False b True in \<open>simp_all add: stride_step_def Let_def\<close>)
      qed (use none nb False b in \<open>auto intro!: stride_inv_break simp: stride_step_def Let_def\<close>)
    next
      case b: False
      then show ?thesis using none nb False by (auto simp: stride_inv_def stride_step_def less_Suc_eq)
    qed
  qed
qed

lemma stride_inv_fold:
  "n \<le> 32 \<Longrightarrow> stride_inv addrs msk n (fold (stride_step addrs msk) [0..<n]
     \<lparr>s_base = 0, s_stride = 0, s_const = True, s_first = False, s_last = False, s_break = False\<rparr>)"
proof (induction n)
  case 0
  then show ?case by (simp add: stride_inv_def)
next
  case (Suc n)
  then show ?case unfolding fold_upt_Suc by (intro stride_inv_step) simp_all
qed

definition active_run :: "u32 \<Rightarrow> nat \<Rightarrow> nat \<Rightarrow> bool" where
  "active_run msk f l \<longleftrightarrow> f < l \<and> l \<le> 32 \<and> (\<forall>s < 32. bit msk s \<longleftrightarrow> f \<le> s \<and> s < l)"

lemma base_stride_run:
  assumes "base_stride_compress addrs msk = (True, base, stride)" "msk \<noteq> 0"
  obtains f l where "active_run msk f l" "f + 2 \<le> l" "base = addrs ! f"
    "\<forall>s. f < s \<and> s < l \<longrightarrow> ucast (addrs ! s - addrs ! (s - 1)) = stride"
proof -
  let ?st = "fold (stride_step addrs msk) [0..<32]
     \<lparr>s_base = 0, s_stride = 0, s_const = True, s_first = False, s_last = False, s_break = False\<rparr>"
  have inv: "stride_inv addrs msk 32 ?st" by (rule stride_inv_fold) simp
  have st: "s_const ?st" "s_base ?st = base" "s_stride ?st = stride"
    using assms(1) by (simp_all only: base_stride_compress_def Let_def prod.inject)
  obtain s where s: "bit msk s" "s < 32"
    using assms(2) bit_eqI [of msk 0] bit_imp_le_length [of msk] by auto
  have "s_first ?st"
  proof (rule ccontr)
    assume "\<not> s_first ?st"
    with inv st(1) have "\<forall>s < 32. \<not> bit msk s" unfolding stride_inv_def by presburger
    with s show False by blast
  qed
  with inv st(1) obtain f l where run: "stride_run addrs msk 32 ?st f l" unfolding stride_inv_def by presburger
  then have "active_run msk f l" "f + 1 < l"
    by (auto simp: stride_run_def active_run_def)
  then show ?thesis using run st by (intro that) (auto simp: stride_run_def)
qed

text \<open>The active lanes of a run, in order.\<close>

lemma active_addresses_run:
  assumes "active_run msk f l"
  shows "active_addresses addrs msk = map (\<lambda>s. addrs ! s) [f..<l]"
proof -
  have l: "f < l" "l \<le> 32" and b: "\<And>s. s < 32 \<Longrightarrow> bit msk s \<longleftrightarrow> f \<le> s \<and> s < l"
    using assms by (auto simp: active_run_def)
  have "[0..<32] = [0..<f] @ [f..<l] @ [l..<32]"
    using l by (metis le_trans less_imp_le upt_add_eq_append le_add_diff_inverse zero_le)
  then have "filter (bit msk) [0..<32] = filter (bit msk) [0..<f] @ filter (bit msk) [f..<l] @ filter (bit msk) [l..<32]"
    by (simp only: filter_append)
  moreover have "filter (bit msk) [0..<f] = []" "filter (bit msk) [l..<32] = []"
    using l b by (auto simp: filter_empty_conv)
  moreover have "filter (bit msk) [f..<l] = [f..<l]" using l b by (auto simp: filter_id_conv)
  ultimately show ?thesis by (simp add: active_addresses_def)
qed

lemma active_addresses_none: "active_addresses addrs 0 = []"
  by (simp add: active_addresses_def)

lemma active_addresses_length_pos: "msk \<noteq> 0 \<Longrightarrow> 0 < length (active_addresses addrs msk)"
  using bit_eqI [of msk 0] bit_imp_le_length [of msk] by (fastforce simp: active_addresses_def filter_empty_conv)

lemma stride_decompress:
  assumes "base_stride_compress addrs msk = (True, base, stride)" "msk \<noteq> 0"
    and fits: "\<forall>s < 31. bit msk s \<and> bit msk (s + 1) \<longrightarrow> fits_int (addrs ! (s + 1) - addrs ! s)"
  shows "decompress (length (active_addresses addrs msk)) (Base_Stride base stride) = active_addresses addrs msk"
proof -
  obtain f l where run: "active_run msk f l" "f + 2 \<le> l" "base = addrs ! f"
    and stride: "\<forall>s. f < s \<and> s < l \<longrightarrow> ucast (addrs ! s - addrs ! (s - 1)) = stride"
    using base_stride_run [OF assms(1,2)] .
  have step: "addrs ! (s + 1) = addrs ! s + scast stride" if "f \<le> s" "s + 1 < l" for s
  proof -
    have "bit msk s" "bit msk (s + 1)" "s < 31" using run(1) that by (auto simp: active_run_def)
    then have "scast (ucast (addrs ! (s + 1) - addrs ! s) :: u32) = addrs ! (s + 1) - addrs ! s"
      using fits by (simp add: fits_int_def)
    moreover have "ucast (addrs ! (s + 1) - addrs ! s) = stride" using stride [THEN spec, of "s + 1"] that by simp
    ultimately show ?thesis by (simp add: algebra_simps)
  qed
  have "addrs ! (f + i) = base + of_nat i * scast stride" if "f + i < l" for i
    using that
  proof (induction i)
    case (Suc i)
    then show ?case using step [of "f + i"] by (simp add: algebra_simps)
  qed (simp add: run(3))
  then show ?thesis using run(2) active_addresses_run [OF run(1), of addrs]
    by (intro nth_equalityI) simp_all
qed

subsection \<open>Differences add up again\<close>

lemma partial_sums_snoc: "partial_sums a (ds @ [d]) = partial_sums a ds @ [a + sum_list ds + d]"
  by (induction ds arbitrary: a) (simp_all add: add.assoc)

definition delta_inv :: "u64 list \<Rightarrow> u32 \<Rightarrow> nat \<Rightarrow> (u64 \<times> u64) option \<times> u64 list \<Rightarrow> bool" where
  "delta_inv addrs msk n = (\<lambda>(found, deltas).
     let as = map (\<lambda>s. addrs ! s) (filter (bit msk) [0..<n]) in
     case found of
       None \<Rightarrow> as = [] \<and> deltas = []
     | Some (base, final) \<Rightarrow> as = partial_sums base deltas \<and> final = base + sum_list deltas)"

lemma delta_inv_fold: "delta_inv addrs msk n (fold (delta_step addrs msk) [0..<n] (None, []))"
proof (induction n)
  case 0
  then show ?case by (simp add: delta_inv_def)
next
  case (Suc n)
  then show ?case
    by (auto simp: delta_inv_def delta_step_def Let_def partial_sums_snoc split: option.splits prod.splits)
qed

lemma delta_decompress:
  assumes "base_delta_compress addrs msk = (base, deltas)" "msk \<noteq> 0"
  shows "partial_sums base deltas = active_addresses addrs msk"
proof -
  let ?r = "fold (delta_step addrs msk) [0..<32] (None, [])"
  have "delta_inv addrs msk 32 ?r" by (rule delta_inv_fold)
  moreover have "map (\<lambda>s. addrs ! s) (filter (bit msk) [0..<32]) \<noteq> []"
    using active_addresses_length_pos [OF assms(2), of addrs] by (simp add: active_addresses_def)
  moreover have "(case ?r of (None, deltas) \<Rightarrow> (0, deltas) | (Some (base, _), deltas) \<Rightarrow> (base, deltas)) = (base, deltas)"
    using assms(1) by (simp only: base_delta_compress_def)
  ultimately show ?thesis
    unfolding delta_inv_def active_addresses_def by (cases ?r) (auto simp only: Let_def split: option.splits prod.splits)
qed

text \<open>C25. What the tracer writes for the addresses of an instruction determines them: with or without
  compression, decompression yields exactly the addresses of the active lanes in order, provided the
  differences between neighbouring active lanes fit the \<open>int\<close> in which the stride is kept.\<close>

theorem compress_addresses_roundtrip:
  assumes "\<forall>s < 31. bit msk s \<and> bit msk (s + 1) \<longrightarrow> fits_int (addrs ! (s + 1) - addrs ! s)"
  shows "decompress (length (active_addresses addrs msk)) (compress_addresses enable_compress addrs msk) =
    active_addresses addrs msk"
proof (cases "msk = 0")
  case True
  then show ?thesis
    by (auto simp: compress_addresses_def active_addresses_none split: prod.splits bool.splits)
next
  case False
  then have "0 < length (active_addresses addrs msk)" by (rule active_addresses_length_pos)
  then show ?thesis using stride_decompress [OF _ False assms] delta_decompress [OF _ False]
    by (auto simp: compress_addresses_def split: prod.splits bool.splits)
qed

theorem compress_addresses_roundtrip_witness:
  "decompress 3 (compress_addresses True (map (\<lambda>i. 4096 + 8 * of_nat i) [0..<32]) 14) = [4104, 4112, 4120]"
proof -
  let ?a = "map (\<lambda>i. 4096 + 8 * of_nat i) [0..<32] :: u64 list"
  have nth: "?a ! i = 4096 + 8 * of_nat i" if "i < 32" for i
    using that nth_map_upt [of i 32 0 "\<lambda>i. 4096 + 8 * of_nat i :: u64"] by (simp only: diff_zero add_0)
  have "?a ! (s + 1) - ?a ! s = 8" if "s < 31" for s
  proof -
    have "s < 32" "s + 1 < 32" using that by simp_all
    then show ?thesis by (simp only: nth of_nat_add of_nat_1 distrib_left) simp
  qed
  moreover have "fits_int 8" by code_simp
  ultimately have "fits_int (?a ! (s + 1) - ?a ! s)" if "s < 31" for s
    using that by (simp only:)
  then have "decompress (length (active_addresses ?a 14)) (compress_addresses True ?a 14) = active_addresses ?a 14"
    by (intro compress_addresses_roundtrip) blast
  moreover have "active_addresses ?a 14 = [4104, 4112, 4120]" by code_simp
  ultimately show ?thesis by (simp add: numeral_3_eq_3)
qed

text \<open>The stride is an \<open>int\<close>: two lanes whose addresses differ by \<open>2 ^ 32 + 4\<close> are taken for
  neighbours four bytes apart, and the trace holds an address that was never accessed.\<close>

theorem base_stride_truncates:
  "compress_addresses True ([4096, 4294971396] @ replicate 30 0) 3 = Base_Stride 4096 4 \<and>
   decompress 2 (Base_Stride 4096 4) = [4096, 4100] \<and>
   active_addresses ([4096, 4294971396] @ replicate 30 0) 3 = [4096, 4294971396]"
proof (intro conjI)
  show "compress_addresses True ([4096, 4294971396] @ replicate 30 0) 3 = Base_Stride 4096 4" by code_simp
  show "decompress 2 (Base_Stride 4096 4) = [4096, 4100]" by code_simp
  show "active_addresses ([4096, 4294971396] @ replicate 30 0) 3 = [4096, 4294971396]" by code_simp
qed

end
