(* ===== verification/Inst_Format.thy ===== *)
theory Inst_Format
  imports Address_Compression Trace_Grouping
begin

text \<open>
  The record the instrumentation sends for every executed warp instruction (\<^verbatim>\<open>common.h\<close>,
  \<^verbatim>\<open>inject_funcs.cu\<close>) and its line in the trace (\<open>format_inst_line\<close>, \<^verbatim>\<open>tracer_tool.cu\<close>).  Fields of
  type \<open>int\<close> are 32-bit words read with \<open>sint\<close>.
\<close>

section \<open>The record\<close>

record inst_trace_t =
  cta_id_x :: u32
  cta_id_y :: u32
  cta_id_z :: u32
  warpid_tb :: u32
  warpid_sm :: u32
  sm_id :: u32
  opcode_id :: u32
  addrs :: "u64 list"
  line_num :: u32
  instr_idx :: u32
  vpc :: u32
  is_mem :: bool
  GPRDst :: u32
  GPRSrcs :: "u32 list"
  numSrcs :: u32
  width :: u32
  active_mask :: u32
  predicate_mask :: u32
  imm :: u64

text \<open>What a warp is at the call of \<open>instrument_inst\<close>: its active lanes, their predicates and
  addresses, where it runs, and the indices of the first active lane's thread.\<close>

record warp_state =
  lanes_active :: u32
  lane_pred :: "nat \<Rightarrow> bool"
  lane_addr :: "nat \<Rightarrow> u64"
  block_idx :: "u32 \<times> u32 \<times> u32"
  thread_idx :: "u32 \<times> u32 \<times> u32"
  block_dim :: "u32 \<times> u32 \<times> u32"
  hw_warp :: u32
  hw_sm :: u32

text \<open>The arguments \<open>instrument_function_if_needed\<close> compiled into the call.\<close>

record call_args =
  arg_opcode_id :: u32
  arg_vpc :: u32
  arg_is_mem :: bool
  arg_width :: u32
  arg_desReg :: u32
  arg_srcRegs :: "u32 list"
  arg_srcNum :: u32
  arg_imm :: u64
  arg_line_num :: u32
  arg_instr_idx :: u32

definition predicate_ballot :: "warp_state \<Rightarrow> u32" where
  "predicate_ballot w = fold (\<lambda>i m. if bit (lanes_active w) i \<and> lane_pred w i then set_bit i m else m) [0..<32] 0"

definition unique_thread_id :: "warp_state \<Rightarrow> u32" where
  "unique_thread_id w =
     (case (thread_idx w, block_dim w) of ((x, y, z), (dx, dy, dz)) \<Rightarrow> z * dy * dx + y * dx + x)"

text \<open>
  The warp as a whole: the record its first active lane pushes, if reporting is on, and what it adds
  to the counters of all and of reported instructions.  \<open>ma\<close> is the stack before the call: the
  addresses and the width are not written for other than memory instructions.  While reporting is
  off only the first active lane returns; the others push nothing either.
\<close>

definition instrument_inst ::
  "bool \<Rightarrow> call_args \<Rightarrow> warp_state \<Rightarrow> inst_trace_t \<Rightarrow> inst_trace_t option \<times> nat \<times> nat"
where
  "instrument_inst stop_report a w ma =
     (if stop_report then (None, 1, 0)
      else
        (let ma = (if arg_is_mem a
                   then ma\<lparr>addrs := map (lane_addr w) [0..<32], width := arg_width a, is_mem := True\<rparr>
                   else ma\<lparr>is_mem := False\<rparr>);
             (x, y, z) = block_idx w in
         (Some (ma\<lparr>line_num := arg_line_num a, instr_idx := arg_instr_idx a,
            warpid_tb := word_of_int (sint (unique_thread_id w) sdiv 32),
            cta_id_x := x, cta_id_y := y, cta_id_z := z, warpid_sm := hw_warp w,
            opcode_id := arg_opcode_id a, vpc := arg_vpc a, GPRDst := arg_desReg a,
            GPRSrcs := arg_srcRegs a, numSrcs := arg_srcNum a, imm := arg_imm a,
            active_mask := lanes_active w, predicate_mask := predicate_ballot w, sm_id := hw_sm w\<rparr>), 1, 1)))"

section \<open>The operands of an instruction\<close>

text \<open>NVBit's description of an operand, as far as the tool looks at it.\<close>

datatype operand = MREF (mref_ra_num: int) | REG (reg_num: int) | IMM_UINT64 (imm_value: u64) | Other_Operand

record operands =
  src_oprd :: "int list"
  dst_oprd :: int
  mem_oper_idx :: int
  num_mref :: nat
  oprd_imm :: u64

definition MAX_SRC :: nat where
  "MAX_SRC = 5"

definition add_src :: "int \<Rightarrow> operands \<Rightarrow> operands res" where
  "add_src r o' = guard (length (src_oprd o') < MAX_SRC) Assertion_Failed (Inr (o'\<lparr>src_oprd := src_oprd o' @ [r]\<rparr>))"

definition add_operand :: "nat \<times> operand \<Rightarrow> operands \<Rightarrow> operands res" where
  "add_operand = (\<lambda>(i, op) o'.
     case op of
       MREF ra \<Rightarrow>
         rbind (add_src ra o') (\<lambda>o'. Inr (o'\<lparr>mem_oper_idx := mem_oper_idx o' + 1, num_mref := num_mref o' + 1\<rparr>))
     | REG r \<Rightarrow> if i = 0 then Inr (o'\<lparr>dst_oprd := r\<rparr>) else add_src r o'
     | IMM_UINT64 v \<Rightarrow> Inr (o'\<lparr>oprd_imm := v\<rparr>)
     | Other_Operand \<Rightarrow> Inr o')"

definition collect_operands :: "operand list \<Rightarrow> operands res" where
  "collect_operands ops =
     foldM add_operand (List.enumerate 0 ops)
       \<lparr>src_oprd = [], dst_oprd = -1, mem_oper_idx = -1, num_mref = 0, oprd_imm = 0\<rparr>"

text \<open>The calls inserted before an instruction, one per memory reference and at least one: the
  index of the reference whose address a call sends (\<open>None\<close> for other than memory instructions).\<close>

definition inserted_calls :: "operands \<Rightarrow> int option list res" where
  "inserted_calls o' =
     (if mem_oper_idx o' < 0 then Inr [None]
      else
        guard (num_mref o' \<le> 2) Assertion_Failed
          (Inr (map (\<lambda>i. Some (if num_mref o' = 2 then 1 - i else i)) (rev (map int [0..<nat (mem_oper_idx o' + 1)])))))"

section \<open>A line of the trace\<close>

definition hex_digit :: "nat \<Rightarrow> char" where
  "hex_digit d = (if d < 10 then char_of (48 + d) else char_of (87 + d))"

fun hex_of :: "nat \<Rightarrow> string" where
  "hex_of n = (if n < 16 then [hex_digit n] else hex_of (n div 16) @ [hex_digit (n mod 16)])"

declare hex_of.simps [simp del]

definition pad0 :: "nat \<Rightarrow> string \<Rightarrow> string" where
  "pad0 w s = replicate (w - length s) (CHR ''0'') @ s"

text \<open>\<open>std::getline(iss, token, c)\<close> until it fails; \<open>tokens_of\<close> drops the empty parts.\<close>

function split_at :: "char \<Rightarrow> string \<Rightarrow> string list" where
  "split_at c s =
     (if s = [] then []
      else takeWhile (\<lambda>x. x \<noteq> c) s # split_at c (tl (dropWhile (\<lambda>x. x \<noteq> c) s)))"
  by pat_completeness auto
termination
proof (relation "measure (\<lambda>(c, s). length s)")
  fix c and s :: string
  assume "s \<noteq> []"
  then have "length (tl (dropWhile (\<lambda>x. x \<noteq> c) s)) < length s"
    using length_dropWhile_le [of "\<lambda>x. x \<noteq> c" s] by (cases s) (auto simp: le_imp_less_Suc)
  then show "((c, tl (dropWhile (\<lambda>x. x \<noteq> c) s)), c, s) \<in> measure (\<lambda>(c, s). length s)" by simp
qed simp

declare split_at.simps [simp del]

definition tokens_of :: "string \<Rightarrow> string list" where
  "tokens_of opcode = filter (\<lambda>t. t \<noteq> []) (split_at (CHR ''.'') opcode)"

record tracer_options =
  lineinfo :: bool
  enable_compress :: bool
  enable_spinlock_fast_forward :: bool
  spinlock_iter_to_keep :: int
  active_from_start :: bool
  terminate_upon_limit :: bool
  xz_compress_trace :: bool

definition TRACE_MAX_SRC :: nat where
  "TRACE_MAX_SRC = 4"

abbreviation spaced :: "string \<Rightarrow> string" where
  "spaced s \<equiv> s @ '' ''"

definition format_addresses :: "addresses \<Rightarrow> string" where
  "format_addresses a =
     (case a of
        Base_Stride base stride \<Rightarrow>
          spaced ''1'' @ spaced (''0x'' @ hex_of (unat base)) @ spaced (to_string (sint stride))
      | Base_Delta base deltas \<Rightarrow>
          spaced ''2'' @ spaced (''0x'' @ hex_of (unat base)) @ concat (map (\<lambda>d. spaced (to_string (sint d))) deltas)
      | List_All as \<Rightarrow> spaced ''0'' @ concat (map (\<lambda>a. spaced (''0x'' @ hex_of (unat a))) as))"

text \<open>The name of an opcode; \<open>id_to_opcode_map[id]\<close> of an unknown number is the empty string.\<close>

definition opcode_name :: "(int, string) std_map \<Rightarrow> inst_trace_t \<Rightarrow> string" where
  "opcode_name id_to_opcode ma = (case map_of id_to_opcode (sint (opcode_id ma)) of None \<Rightarrow> '''' | Some n \<Rightarrow> n)"

definition lane_mask :: "inst_trace_t \<Rightarrow> u32" where
  "lane_mask ma = active_mask ma AND predicate_mask ma"

definition format_mem :: "tracer_options \<Rightarrow> string \<Rightarrow> inst_trace_t \<Rightarrow> string res" where
  "format_mem opt opcode ma =
     (if \<not> is_mem ma then Inr (spaced ''0'')
      else
        rbind (get_datawidth_from_opcode (tokens_of opcode)) (\<lambda>w.
          Inr (spaced (to_string (uint w)) @
               format_addresses (compress_addresses (enable_compress opt) (addrs ma) (lane_mask ma)))))"

definition printed_srcs :: "inst_trace_t \<Rightarrow> u32 list" where
  "printed_srcs ma = take TRACE_MAX_SRC (filter (\<lambda>r. 0 \<le> sint r) (GPRSrcs ma))"

definition reg_name :: "u32 \<Rightarrow> string" where
  "reg_name r = ''R'' @ to_string (sint r)"

definition format_inst_line :: "tracer_options \<Rightarrow> (int, string) std_map \<Rightarrow> inst_trace_t \<Rightarrow> string res" where
  "format_inst_line opt id_to_opcode ma =
     rbind (format_mem opt (opcode_name id_to_opcode ma) ma) (\<lambda>mem.
       Inr ((if lineinfo opt then spaced (to_string (uint (line_num ma))) else []) @
            spaced (pad0 4 (hex_of (unat (vpc ma)))) @
            spaced (pad0 8 (hex_of (unat (lane_mask ma)))) @
            (if 0 \<le> sint (GPRDst ma) then spaced ''1'' @ spaced (reg_name (GPRDst ma)) else spaced ''0'') @
            spaced (opcode_name id_to_opcode ma) @
            spaced (to_string (int (length (printed_srcs ma)))) @
            concat (map (\<lambda>r. spaced (reg_name r)) (printed_srcs ma)) @
            mem @ to_string (uint (imm ma))))"


section \<open>Reading a line back\<close>

lemma no_space_hex_digit:
  assumes "d < 16"
  shows "\<not> is_space (hex_digit d)"
proof -
  have "(of_char (hex_digit d) :: nat) = (if d < 10 then 48 + d else 87 + d)"
    using assms by (simp add: hex_digit_def)
  then show ?thesis by (simp add: is_space_def)
qed

lemma no_space_hex_of [simp]: "no_space (hex_of n) \<and> hex_of n \<noteq> []"
proof (induction n rule: hex_of.induct)
  case (1 n)
  then show ?case by (subst (1 2) hex_of.simps) (auto simp: no_space_hex_digit)
qed

lemma no_space_pad0 [simp]: "no_space s \<Longrightarrow> no_space (pad0 w s)"
  by (auto simp: pad0_def list_all_iff)

lemma pad0_nonempty [simp]: "s \<noteq> [] \<Longrightarrow> pad0 w s \<noteq> []"
  by (simp add: pad0_def)

text \<open>A word or a number, behind a blank or not, and in front of a blank.\<close>

lemma read_word_spaced:
  assumes "no_space w" "w \<noteq> []"
  shows "read_word (w @ CHR '' '' # s) = Some (w, CHR '' '' # s)"
    "read_word (CHR '' '' # w @ CHR '' '' # s) = Some (w, CHR '' '' # s)"
proof -
  have w: "takeWhile (\<lambda>c. \<not> is_space c) (w @ CHR '' '' # s) = w"
    "dropWhile (\<lambda>c. \<not> is_space c) (w @ CHR '' '' # s) = CHR '' '' # s"
    using assms(1) by (simp_all add: takeWhile_append2 dropWhile_append2 list_all_iff space_is_space)
  then show "read_word (w @ CHR '' '' # s) = Some (w, CHR '' '' # s)"
    "read_word (CHR '' '' # w @ CHR '' '' # s) = Some (w, CHR '' '' # s)"
    using dropWhile_space_word [OF assms, of "CHR '' '' # s"] assms(2)
    by (simp_all add: read_word_def Let_def space_is_space)
qed

lemma read_digit_spaced:
  "read_unsigned (CHR '' '' # CHR ''1'' # CHR '' '' # s) = Number 1 (CHR '' '' # s)"
  "read_unsigned (CHR '' '' # CHR ''0'' # CHR '' '' # s) = Number 0 (CHR '' '' # s)"
  by (simp_all add: read_unsigned_def is_space_def strip_sign_def is_digit_def decimal_def digit_val_def)

lemma reg_name_word [simp]: "no_space (reg_name r)" "reg_name r \<noteq> []"
  by (simp_all add: reg_name_def)

lemma opcode_of_words:
  assumes "no_space a" "a \<noteq> []" "no_space b" "b \<noteq> []" "no_space w" "w \<noteq> []"
  shows "opcode_of (a @ CHR '' '' # b @ CHR '' '' # CHR ''0'' # CHR '' '' # w @ CHR '' '' # s) = Inr w"
    "no_space r \<Longrightarrow> r \<noteq> [] \<Longrightarrow>
     opcode_of (a @ CHR '' '' # b @ CHR '' '' # CHR ''1'' # CHR '' '' # r @ CHR '' '' # w @ CHR '' '' # s) = Inr w"
  using assms
  by (simp_all add: opcode_of_def numeral_2_eq_2 read_word_spaced read_digit_spaced)

text \<open>The post-processor finds in a line of the tracer the opcode the tracer has put there, with or
  without a destination register, when line numbers are not traced.\<close>

lemma opcode_of_line:
  assumes "format_inst_line opt m ma = Inr line" "\<not> lineinfo opt"
    and "no_space (opcode_name m ma)" "opcode_name m ma \<noteq> []"
  shows "opcode_of line = Inr (opcode_name m ma)"
  using assms
  by (auto simp: format_inst_line_def rbind_eq_Inr opcode_of_words split: if_splits)

definition sample_inst :: inst_trace_t where
  "sample_inst =
     \<lparr>cta_id_x = 0, cta_id_y = 0, cta_id_z = 0, warpid_tb = 0, warpid_sm = 0, sm_id = 0, opcode_id = 7,
      addrs = replicate 32 4096, line_num = 12, instr_idx = 3, vpc = 160,
      is_mem = True, GPRDst = 2, GPRSrcs = [4, -1, -1, -1, -1], numSrcs = 1, width = 8,
      active_mask = 4294967295, predicate_mask = 1, imm = 0\<rparr>"

definition sample_options :: tracer_options where
  "sample_options =
     \<lparr>lineinfo = False, enable_compress = False, enable_spinlock_fast_forward = False,
      spinlock_iter_to_keep = 1, active_from_start = True, terminate_upon_limit = False,
      xz_compress_trace = False\<rparr>"

lemma sample_parts:
  "pad0 4 (hex_of 160) = ''00a0''" "pad0 8 (hex_of (Suc 0)) = ''00000001''"
  "to_string 12 = ''12''" "to_string 0 = ''0''" "to_string 1 = ''1''"
  "reg_name 2 = ''R2''" "printed_srcs sample_inst = [4]" "reg_name 4 = ''R4''"
  by code_simp+

lemma sample_mem: "format_mem sample_options ''LDGSTS.E.64'' sample_inst = Inr ''8 0 0x1000 ''"
  "format_mem (sample_options\<lparr>lineinfo := True\<rparr>) ''LDGSTS.E.64'' sample_inst = Inr ''8 0 0x1000 ''"
proof -
  have "get_datawidth_from_opcode (tokens_of ''LDGSTS.E.64'') = Inr 8" by code_simp
  moreover have "active_addresses (replicate 32 4096) 1 = [4096]" by code_simp
  moreover have "to_string (uint (8 :: u32)) = ''8''" "hex_of (unat (4096 :: u64)) = ''1000''" by code_simp+
  ultimately show "format_mem sample_options ''LDGSTS.E.64'' sample_inst = Inr ''8 0 0x1000 ''"
    "format_mem (sample_options\<lparr>lineinfo := True\<rparr>) ''LDGSTS.E.64'' sample_inst = Inr ''8 0 0x1000 ''"
    by (simp_all add: format_mem_def sample_inst_def sample_options_def lane_mask_def compress_addresses_def
        format_addresses_def)
qed

lemma sample_line:
  "format_inst_line sample_options [(7, ''LDGSTS.E.64'')] sample_inst =
     Inr ''00a0 00000001 1 R2 LDGSTS.E.64 1 R4 8 0 0x1000 0''"
  "format_inst_line (sample_options\<lparr>lineinfo := True\<rparr>) [(7, ''LDGSTS.E.64'')] sample_inst =
     Inr ''12 00a0 00000001 1 R2 LDGSTS.E.64 1 R4 8 0 0x1000 0''"
proof -
  have "opcode_name [(7, ''LDGSTS.E.64'')] sample_inst = ''LDGSTS.E.64''"
    by (simp add: opcode_name_def sample_inst_def)
  moreover have "vpc sample_inst = 160" "lane_mask sample_inst = 1" "GPRDst sample_inst = 2" "line_num sample_inst = 12"
    "imm sample_inst = 0"
    by (simp_all add: sample_inst_def lane_mask_def)
  ultimately show "format_inst_line sample_options [(7, ''LDGSTS.E.64'')] sample_inst =
     Inr ''00a0 00000001 1 R2 LDGSTS.E.64 1 R4 8 0 0x1000 0''"
    "format_inst_line (sample_options\<lparr>lineinfo := True\<rparr>) [(7, ''LDGSTS.E.64'')] sample_inst =
     Inr ''12 00a0 00000001 1 R2 LDGSTS.E.64 1 R4 8 0 0x1000 0''"
    by (simp_all add: format_inst_line_def sample_mem sample_parts sample_options_def [THEN arg_cong, of lineinfo])
qed

text \<open>With line numbers in the trace the post-processor is off by one word: it reads the mask as the
  number of destination registers and takes another word for the opcode, so that both lines of an \<^verbatim>\<open>LDGSTS\<close> stay in the
  grouped trace.\<close>

theorem lineinfo_hides_opcode:
  "\<exists>line. format_inst_line (sample_options\<lparr>lineinfo := True\<rparr>) [(7, ''LDGSTS.E.64'')] sample_inst = Inr line \<and>
     opcode_of line = Inr ''R2'' \<and> keep_second True [line, line] = [line, line]"
proof (intro exI conjI)
  show "opcode_of ''12 00a0 00000001 1 R2 LDGSTS.E.64 1 R4 8 0 0x1000 0'' = Inr ''R2''" by code_simp
  then show "keep_second True [''12 00a0 00000001 1 R2 LDGSTS.E.64 1 R4 8 0 0x1000 0'',
        ''12 00a0 00000001 1 R2 LDGSTS.E.64 1 R4 8 0 0x1000 0''] =
      [''12 00a0 00000001 1 R2 LDGSTS.E.64 1 R4 8 0 0x1000 0'',
        ''12 00a0 00000001 1 R2 LDGSTS.E.64 1 R4 8 0 0x1000 0'']"
    by (simp add: is_ldgsts_def str_contains_def)
qed (rule sample_line(2))

end
