(* ===== verification/Trace_Channel.thy ===== *)
theory Trace_Channel
  imports Inst_Format "HOL-Library.Product_Lexorder"
begin

text \<open>
  The receiving thread of the tracer (\<open>recv_thread_fun\<close>, \<^verbatim>\<open>tracer_tool.cu\<close>): it buffers the lines of
  the records it receives by thread block and warp, drops the iterations of spin loops beyond a limit
  when it is told to, and writes the buffers when the marker of the kernel's end arrives.  The hash
  maps of the buffers are sorted before they are written and are modelled as sorted maps.
\<close>

section \<open>Keys\<close>

datatype tb_key = TBKey (key_x: int) (key_y: int) (key_z: int)

text \<open>The comparison that the call of \<open>std::sort\<close> passes; it is a linear order.\<close>

definition tb_key_before :: "tb_key \<Rightarrow> tb_key \<Rightarrow> bool" where
  "tb_key_before a b \<longleftrightarrow>
     (if key_x a \<noteq> key_x b then key_x a < key_x b
      else if key_y a \<noteq> key_y b then key_y a < key_y b
      else key_z a < key_z b)"

lemma tb_key_before_irrefl [simp]: "\<not> tb_key_before a a"
  by (simp add: tb_key_before_def)

lemma tb_key_before_trans: "tb_key_before a b \<Longrightarrow> tb_key_before b c \<Longrightarrow> tb_key_before a c"
  by (auto simp: tb_key_before_def split: if_splits)

lemma tb_key_before_linear: "tb_key_before a b \<or> a = b \<or> tb_key_before b a"
  by (cases a; cases b) (auto simp: tb_key_before_def)

instantiation tb_key :: linorder
begin

definition less_tb_key :: "tb_key \<Rightarrow> tb_key \<Rightarrow> bool" where
  "less_tb_key a b \<longleftrightarrow> tb_key_before a b"

definition less_eq_tb_key :: "tb_key \<Rightarrow> tb_key \<Rightarrow> bool" where
  "less_eq_tb_key a b \<longleftrightarrow> tb_key_before a b \<or> a = b"

instance
proof
  fix a b c :: tb_key
  show "a < b \<longleftrightarrow> a \<le> b \<and> \<not> b \<le> a"
    using tb_key_before_trans [of a b a] by (auto simp: less_tb_key_def less_eq_tb_key_def)
  show "a \<le> a" by (simp add: less_eq_tb_key_def)
  show "a \<le> b \<Longrightarrow> b \<le> c \<Longrightarrow> a \<le> c"
    by (auto simp: less_eq_tb_key_def intro: tb_key_before_trans)
  show "a \<le> b \<Longrightarrow> b \<le> a \<Longrightarrow> a = b"
    using tb_key_before_trans [of a b a] by (auto simp: less_eq_tb_key_def)
  show "a \<le> b \<or> b \<le> a" using tb_key_before_linear [of a b] by (auto simp: less_eq_tb_key_def)
qed

end

definition tb_key_of :: "inst_trace_t \<Rightarrow> tb_key" where
  "tb_key_of ma = TBKey (sint (cta_id_x ma)) (sint (cta_id_y ma)) (sint (cta_id_z ma))"

definition warp_of :: "inst_trace_t \<Rightarrow> int" where
  "warp_of ma = sint (warpid_tb ma)"

type_synonym warp_key_t = "u32 \<times> u32 \<times> u32 \<times> u32"

definition warp_key_of :: "inst_trace_t \<Rightarrow> warp_key_t" where
  "warp_key_of ma = (cta_id_x ma, cta_id_y ma, cta_id_z ma, warpid_tb ma)"

section \<open>Spin loops\<close>

type_synonym counter_t = "(u32, nat) std_map"

definition create_counter :: "u32 list \<Rightarrow> counter_t" where
  "create_counter indices = fold (\<lambda>i c. map_put i 0 c) indices []"

text \<open>A line of the file of spin loops, \<^verbatim>\<open><kernel_id>, <kernel_name>: <indices>\<close>.  Positions that are not
  found are \<open>npos = 2 ^ 64 - 1\<close>, in 64-bit arithmetic.\<close>

definition trim_string :: "string \<Rightarrow> string" where
  "trim_string s = rev (dropWhile (\<lambda>c. c = CHR '' '') (rev (dropWhile (\<lambda>c. c = CHR '' '') s)))"

definition pos64 :: "nat option \<Rightarrow> nat" where
  "pos64 p = (case p of None \<Rightarrow> 2 ^ 64 - 1 | Some i \<Rightarrow> i)"

definition parse_spinlock_instructions :: "string \<Rightarrow> (string \<times> u32 list) res" where
  "parse_spinlock_instructions line =
     (let colon = pos64 (find_first_of '':'' line); comma = pos64 (find_first_of '','' line);
          name_length = nat ((int colon - int comma - 2) mod 2 ^ 64) in
      rbind (substr ((comma + 2) mod 2 ^ 64) name_length line) (\<lambda>name.
      rbind (substr ((colon + 1) mod 2 ^ 64) (length line) line) (\<lambda>rest.
      rbind (foldM (\<lambda>w is. rbind (stoi w) (\<lambda>n. Inr (is @ [word_of_int n]))) (split_at (CHR '' '') (trim_string rest)) [])
        (\<lambda>is. Inr (name, is)))))"

text \<open>One record of a warp: is it dropped, and the warp's counters afterwards.  The limit is
  converted to \<open>size_t\<close>.\<close>

definition spin_step :: "int \<Rightarrow> counter_t \<Rightarrow> u32 \<Rightarrow> bool \<times> counter_t" where
  "spin_step keep counter i =
     (case map_of counter i of
        Some n \<Rightarrow> (n + 1 > nat (keep mod 2 ^ 64), map_put i (n + 1) counter)
      | None \<Rightarrow> (False, map (\<lambda>(j, _). (j, 0)) counter))"

text \<open>The indices of a kernel without an entry are read through a null pointer.\<close>

definition fast_forward ::
  "int \<Rightarrow> u32 list option \<Rightarrow> inst_trace_t \<Rightarrow> (warp_key_t, counter_t) std_map \<Rightarrow>
   (bool \<times> (warp_key_t, counter_t) std_map) res"
where
  "fast_forward keep indices ma counters =
     (let key = warp_key_of ma in
      rbind (case map_of counters key of
               Some c \<Rightarrow> Inr c
             | None \<Rightarrow> rbind (deref indices) (\<lambda>is. Inr (create_counter is))) (\<lambda>counter.
        case spin_step keep counter (instr_idx ma) of
          (dropped, counter) \<Rightarrow> Inr (dropped, map_put key counter counters)))"

section \<open>Buffers\<close>

record tb_buf =
  tb_warps :: "(int, string list) std_map"
  has_any :: bool

definition empty_tb_buf :: tb_buf where
  "empty_tb_buf = \<lparr>tb_warps = [], has_any = False\<rparr>"

definition push_line :: "tb_key \<Rightarrow> int \<Rightarrow> string \<Rightarrow> (tb_key, tb_buf) std_map \<Rightarrow> (tb_key, tb_buf) std_map" where
  "push_line k w line bufs =
     (let tb = (case map_of bufs k of None \<Rightarrow> empty_tb_buf | Some tb \<Rightarrow> tb);
          lines = (case map_of (tb_warps tb) w of None \<Rightarrow> [] | Some ls \<Rightarrow> ls) in
      map_put k \<lparr>tb_warps = map_put w (lines @ [line]) (tb_warps tb), has_any = True\<rparr> bufs)"

definition emit_warp :: "(int, string list) std_map \<Rightarrow> int \<Rightarrow> string list" where
  "emit_warp ws w =
     (let ls = (case map_of ws w of None \<Rightarrow> [] | Some ls \<Rightarrow> ls) in
      [''warp = '' @ to_string w, ''insts = '' @ to_string (sint (of_nat (length ls) :: u32))] @ ls)"

definition tb_header :: "tb_key \<Rightarrow> string list" where
  "tb_header k =
     [''#BEGIN_TB'',
      ''thread block = '' @ to_string (key_x k) @ '','' @ to_string (key_y k) @ '','' @ to_string (key_z k)]"

definition emit_tb :: "tb_key \<Rightarrow> tb_buf \<Rightarrow> string list" where
  "emit_tb k tb =
     tb_header k @ concat (map (emit_warp (tb_warps tb)) (sort (map fst (tb_warps tb)))) @ [''#END_TB'']"

definition emit_tbs :: "(tb_key, tb_buf) std_map \<Rightarrow> string list" where
  "emit_tbs bufs =
     concat (map (\<lambda>k. case map_of bufs k of None \<Rightarrow> [] | Some tb \<Rightarrow> if has_any tb then emit_tb k tb else [])
       (sort (map fst (filter (\<lambda>e. has_any (snd e)) bufs))))"

section \<open>The receiving thread\<close>

record channel_state =
  tb_bufs :: "(tb_key, tb_buf) std_map"
  warp_counter_map :: "(warp_key_t, counter_t) std_map"
  recv_thread_receiving :: bool
  results_file :: "string list"

definition idle_channel :: channel_state where
  "idle_channel =
     \<lparr>tb_bufs = [], warp_counter_map = [], recv_thread_receiving = True, results_file = []\<rparr>"

definition end_marker :: "inst_trace_t \<Rightarrow> bool" where
  "end_marker ma \<longleftrightarrow> cta_id_x ma = - 1"

definition buffer_record ::
  "tracer_options \<Rightarrow> (int, string) std_map \<Rightarrow> inst_trace_t \<Rightarrow> channel_state \<Rightarrow> channel_state res"
where
  "buffer_record opt opcodes ma st =
     rbind (format_inst_line opt opcodes ma) (\<lambda>line.
       Inr (st\<lparr>tb_bufs := push_line (tb_key_of ma) (warp_of ma) line (tb_bufs st)\<rparr>))"

definition receive_record ::
  "tracer_options \<Rightarrow> (int, string) std_map \<Rightarrow> u32 list option \<Rightarrow> bool \<Rightarrow> inst_trace_t \<Rightarrow> channel_state \<Rightarrow>
   channel_state res"
where
  "receive_record opt opcodes indices stop_report ma st =
     (if stop_report then Inr st
      else if enable_spinlock_fast_forward opt then
        rbind (fast_forward (spinlock_iter_to_keep opt) indices ma (warp_counter_map st)) (\<lambda>(dropped, counters).
          let st = st\<lparr>warp_counter_map := counters\<rparr> in
          if dropped then Inr st else buffer_record opt opcodes ma st)
      else buffer_record opt opcodes ma st)"

definition finish_kernel :: "tracer_options \<Rightarrow> bool \<Rightarrow> channel_state \<Rightarrow> channel_state" where
  "finish_kernel opt stop_report st =
     \<lparr>tb_bufs = [],
      warp_counter_map = (if enable_spinlock_fast_forward opt then [] else warp_counter_map st),
      recv_thread_receiving = False,
      results_file = results_file st @ (if stop_report then [] else emit_tbs (tb_bufs st))\<rparr>"

text \<open>The records of one buffer of the channel; the marker ends the loop.\<close>

fun receive_buffer ::
  "tracer_options \<Rightarrow> (int, string) std_map \<Rightarrow> u32 list option \<Rightarrow> bool \<Rightarrow> inst_trace_t list \<Rightarrow> channel_state \<Rightarrow>
   channel_state res"
where
  "receive_buffer opt opcodes indices stop_report [] st = Inr st"
| "receive_buffer opt opcodes indices stop_report (ma # mas) st =
     (if end_marker ma then Inr (finish_kernel opt stop_report st)
      else
        rbind (receive_record opt opcodes indices stop_report ma st)
          (receive_buffer opt opcodes indices stop_report mas))"

section \<open>Line buffers\<close>

text \<open>What the receiving thread relies on: adding a line appends it to the lines of its place and
  changes no other place.\<close>

locale line_buffer =
  fixes put_line :: "'k \<Rightarrow> 'w \<Rightarrow> 'l \<Rightarrow> 'b \<Rightarrow> 'b"
    and lines_at :: "'b \<Rightarrow> 'k \<Rightarrow> 'w \<Rightarrow> 'l list"
    and binv :: "'b \<Rightarrow> bool"
  assumes put_inv: "binv b \<Longrightarrow> binv (put_line k w l b)"
    and lines_put: "binv b \<Longrightarrow>
      lines_at (put_line k w l b) k' w' = lines_at b k' w' @ (if k' = k \<and> w' = w then [l] else [])"
begin

lemma put_all_inv: "binv b \<Longrightarrow> binv (fold (\<lambda>(k, w, l). put_line k w l) ps b)"
  by (induction ps arbitrary: b) (auto simp: put_inv)

lemma lines_put_all:
  "binv b \<Longrightarrow>
   lines_at (fold (\<lambda>(k, w, l). put_line k w l) ps b) k w =
     lines_at b k w @ map (snd \<circ> snd) (filter (\<lambda>(k', w', l). k' = k \<and> w' = w) ps)"
  by (induction ps arbitrary: b) (auto simp: put_inv lines_put split: if_splits)

end

definition buffered :: "(tb_key, tb_buf) std_map \<Rightarrow> tb_key \<Rightarrow> int \<Rightarrow> string list" where
  "buffered bufs k w =
     (case map_of bufs k of
        None \<Rightarrow> []
      | Some tb \<Rightarrow> (case map_of (tb_warps tb) w of None \<Rightarrow> [] | Some ls \<Rightarrow> ls))"

text \<open>Blocks and warps are in the buffer once they have a line.\<close>

definition buffer_ok :: "(tb_key, tb_buf) std_map \<Rightarrow> bool" where
  "buffer_ok bufs \<longleftrightarrow>
     wf_map bufs \<and>
     (\<forall>k tb. map_of bufs k = Some tb \<longrightarrow>
        has_any tb \<and> wf_map (tb_warps tb) \<and> tb_warps tb \<noteq> [] \<and> (\<forall>w. map_of (tb_warps tb) w \<noteq> Some []))"

lemma map_put_nonempty [simp]: "map_put k v m \<noteq> []"
  by (cases m) (auto split: if_splits)

lemma push_line_ok: "buffer_ok bufs \<Longrightarrow> buffer_ok (push_line k w l bufs)"
  by (auto simp: buffer_ok_def push_line_def Let_def map_of_put wf_map_put empty_tb_buf_def
      split: option.splits if_splits)

lemma buffered_push_line:
  "buffer_ok bufs \<Longrightarrow>
   buffered (push_line k w l bufs) k' w' = buffered bufs k' w' @ (if k' = k \<and> w' = w then [l] else [])"
  by (auto simp: buffer_ok_def buffered_def push_line_def Let_def map_of_put empty_tb_buf_def
      split: option.splits)

interpretation tb: line_buffer push_line buffered buffer_ok
  by unfold_locales (simp_all add: push_line_ok buffered_push_line)


section \<open>What is written for a kernel\<close>

text \<open>Lines with their places, grouped: the blocks in order, in each the warps in order, in each the
  lines as they came.\<close>

type_synonym placed_line = "tb_key \<times> int \<times> string"

definition lines_of_warp :: "placed_line list \<Rightarrow> tb_key \<Rightarrow> int \<Rightarrow> string list" where
  "lines_of_warp ps k w = map (snd \<circ> snd) (filter (\<lambda>(k', w', l). k' = k \<and> w' = w) ps)"

definition warps_of_tb :: "placed_line list \<Rightarrow> tb_key \<Rightarrow> int list" where
  "warps_of_tb ps k = sort (remdups (map (fst \<circ> snd) (filter (\<lambda>p. fst p = k) ps)))"

definition warp_text :: "int \<Rightarrow> string list \<Rightarrow> string list" where
  "warp_text w ls = [''warp = '' @ to_string w, ''insts = '' @ to_string (sint (of_nat (length ls) :: u32))] @ ls"

definition grouped_text :: "placed_line list \<Rightarrow> string list" where
  "grouped_text ps =
     concat (map (\<lambda>k. tb_header k @ concat (map (\<lambda>w. warp_text w (lines_of_warp ps k w)) (warps_of_tb ps k)) @
       [''#END_TB'']) (sort (remdups (map fst ps))))"

abbreviation push_all :: "placed_line list \<Rightarrow> (tb_key, tb_buf) std_map" where
  "push_all ps \<equiv> fold (\<lambda>(k, w, l). push_line k w l) ps []"

lemma empty_buffer_ok [simp]: "buffer_ok []"
  by (simp add: buffer_ok_def)

lemma buffered_push_all: "buffered (push_all ps) k w = lines_of_warp ps k w"
  using tb.lines_put_all [OF empty_buffer_ok, of ps k w] by (simp add: buffered_def lines_of_warp_def)

lemma push_all_ok: "buffer_ok (push_all ps)"
  by (rule tb.put_all_inv) simp

lemma sort_keys:
  fixes m :: "('k::linorder, 'v) std_map"
  assumes "wf_map m" "fst ` set m = set ks"
  shows "sort (map fst m) = sort (remdups ks)"
proof (rule sorted_distinct_set_unique)
  show "distinct (sort (map fst m))" using assms(1) by (simp add: wf_map_distinct)
  show "set (sort (map fst m)) = set (sort (remdups ks))" using assms(2) by simp
qed simp_all

lemma buffered_keys:
  assumes "buffer_ok bufs" "map_of bufs k = Some tb"
  shows "w \<in> fst ` set (tb_warps tb) \<longleftrightarrow> buffered bufs k w \<noteq> []"
proof -
  have "map_of (tb_warps tb) w \<noteq> Some []" using assms by (auto simp: buffer_ok_def)
  then show ?thesis using assms(2) map_of_eq_None_iff [of "tb_warps tb" w]
    by (auto simp: buffered_def split: option.splits)
qed

lemma buffered_blocks:
  assumes "buffer_ok bufs"
  shows "k \<in> fst ` set bufs \<longleftrightarrow> (\<exists>w. buffered bufs k w \<noteq> [])"
proof (cases "map_of bufs k")
  case None
  then show ?thesis using map_of_eq_None_iff [of bufs k] by (simp add: buffered_def)
next
  case (Some tb)
  then have "tb_warps tb \<noteq> []" using assms by (auto simp: buffer_ok_def)
  then obtain w where "w \<in> fst ` set (tb_warps tb)" by (cases "tb_warps tb") auto
  then show ?thesis using buffered_keys [OF assms Some] Some map_of_eq_None_iff [of bufs k] by auto
qed

lemma emit_tbs_text: "emit_tbs (push_all ps) = grouped_text ps"
proof -
  let ?b = "push_all ps"
  note ok = push_all_ok [of ps]
  have any: "filter (\<lambda>e. has_any (snd e)) ?b = ?b"
    using ok by (auto simp: buffer_ok_def wf_map_distinct intro!: filter_True)
  have "fst ` set ?b = set (map fst ps)"
    unfolding set_eq_iff buffered_blocks [OF ok] buffered_push_all
    by (force simp: lines_of_warp_def filter_empty_conv)
  then have keys: "sort (map fst ?b) = sort (remdups (map fst ps))"
    using ok by (intro sort_keys) (simp_all add: buffer_ok_def)
  have block: "(case map_of ?b k of None \<Rightarrow> [] | Some tb \<Rightarrow> if has_any tb then emit_tb k tb else []) =
      tb_header k @ concat (map (\<lambda>w. warp_text w (lines_of_warp ps k w)) (warps_of_tb ps k)) @ [''#END_TB'']"
    if "k \<in> set (map fst ps)" for k
  proof -
    have "k \<in> fst ` set ?b" using \<open>fst ` set ?b = set (map fst ps)\<close> that by simp
    then obtain tb where tb: "map_of ?b k = Some tb" by (metis map_of_eq_None_iff not_None_eq)
    then have t: "has_any tb" "wf_map (tb_warps tb)" using ok by (auto simp: buffer_ok_def)
    have "fst ` set (tb_warps tb) = set (map (fst \<circ> snd) (filter (\<lambda>p. fst p = k) ps))"
      unfolding set_eq_iff buffered_keys [OF ok tb] buffered_push_all
      by (force simp: lines_of_warp_def filter_empty_conv)
    then have "sort (map fst (tb_warps tb)) = warps_of_tb ps k"
      unfolding warps_of_tb_def by (intro sort_keys t)
    moreover have "emit_warp (tb_warps tb) w = warp_text w (lines_of_warp ps k w)" for w
      using buffered_push_all [of ps k w] tb
      by (simp add: emit_warp_def warp_text_def buffered_def Let_def split: option.splits)
    ultimately show ?thesis using tb t(1) by (simp add: emit_tb_def cong: map_cong)
  qed
  show ?thesis unfolding emit_tbs_def grouped_text_def any keys
    by (intro arg_cong [where f = concat] map_cong refl block) simp
qed

section \<open>Dropped records\<close>

text \<open>The counters of a warp depend on the records of that warp alone.\<close>

definition warp_counter :: "int \<Rightarrow> u32 list \<Rightarrow> warp_key_t \<Rightarrow> inst_trace_t list \<Rightarrow> counter_t" where
  "warp_counter keep idx key rs =
     fold (\<lambda>r c. snd (spin_step keep c (instr_idx r))) (filter (\<lambda>r. warp_key_of r = key) rs) (create_counter idx)"

fun kept_from :: "int \<Rightarrow> u32 list \<Rightarrow> inst_trace_t list \<Rightarrow> inst_trace_t list \<Rightarrow> inst_trace_t list" where
  "kept_from keep idx hist [] = []"
| "kept_from keep idx hist (r # rs) =
     (if fst (spin_step keep (warp_counter keep idx (warp_key_of r) hist) (instr_idx r)) then [] else [r]) @
     kept_from keep idx (hist @ [r]) rs"

definition kept_records :: "tracer_options \<Rightarrow> u32 list option \<Rightarrow> inst_trace_t list \<Rightarrow> inst_trace_t list" where
  "kept_records opt indices rs =
     (if enable_spinlock_fast_forward opt
      then kept_from (spinlock_iter_to_keep opt) (case indices of None \<Rightarrow> [] | Some idx \<Rightarrow> idx) [] rs
      else rs)"

definition counters_ok ::
  "int \<Rightarrow> u32 list \<Rightarrow> inst_trace_t list \<Rightarrow> (warp_key_t, counter_t) std_map \<Rightarrow> bool"
where
  "counters_ok keep idx hist m \<longleftrightarrow>
     wf_map m \<and>
     (\<forall>key. map_of m key =
        (if \<exists>r \<in> set hist. warp_key_of r = key then Some (warp_counter keep idx key hist) else None))"

lemma warp_counter_snoc:
  "warp_counter keep idx key (hist @ [r]) =
     (if warp_key_of r = key then snd (spin_step keep (warp_counter keep idx key hist) (instr_idx r))
      else warp_counter keep idx key hist)"
  by (simp add: warp_counter_def)

lemma warp_counter_fresh:
  "\<not> (\<exists>r \<in> set hist. warp_key_of r = key) \<Longrightarrow> warp_counter keep idx key hist = create_counter idx"
  by (auto simp: warp_counter_def filter_empty_conv)

lemma fast_forward_ok:
  assumes "counters_ok keep idx hist m"
  shows "\<exists>m'. fast_forward keep (Some idx) r m =
      Inr (fst (spin_step keep (warp_counter keep idx (warp_key_of r) hist) (instr_idx r)), m') \<and>
    counters_ok keep idx (hist @ [r]) m'"
proof -
  let ?key = "warp_key_of r"
  let ?c = "warp_counter keep idx ?key hist"
  have "(case map_of m ?key of Some c \<Rightarrow> Inr c | None \<Rightarrow> rbind (deref (Some idx)) (\<lambda>idx. Inr (create_counter idx))) = Inr ?c"
  proof (cases "\<exists>r' \<in> set hist. warp_key_of r' = ?key")
    case True
    then have "map_of m ?key = Some ?c" using assms unfolding counters_ok_def by presburger
    then show ?thesis by simp
  next
    case False
    then have "map_of m ?key = None" using assms unfolding counters_ok_def by presburger
    then show ?thesis using warp_counter_fresh [OF False, of keep idx] by simp
  qed
  then have "fast_forward keep (Some idx) r m =
      Inr (fst (spin_step keep ?c (instr_idx r)), map_put ?key (snd (spin_step keep ?c (instr_idx r))) m)"
    by (simp add: fast_forward_def Let_def split_beta)
  moreover have "counters_ok keep idx (hist @ [r]) (map_put ?key (snd (spin_step keep ?c (instr_idx r))) m)"
    using assms by (auto simp: counters_ok_def map_of_put wf_map_put warp_counter_snoc)
  ultimately show ?thesis by blast
qed

lemma kept_from_subset: "set (kept_from keep idx hist rs) \<subseteq> set rs"
  by (induction keep idx hist rs rule: kept_from.induct) auto

lemma kept_records_subset: "set (kept_records opt indices rs) \<subseteq> set rs"
  using kept_from_subset by (auto simp: kept_records_def)

section \<open>A whole kernel\<close>

definition placed :: "tracer_options \<Rightarrow> (int, string) std_map \<Rightarrow> inst_trace_t \<Rightarrow> placed_line" where
  "placed opt opcodes r =
     (tb_key_of r, warp_of r, case format_inst_line opt opcodes r of Inl _ \<Rightarrow> [] | Inr line \<Rightarrow> line)"

lemma buffer_record_placed:
  assumes "\<not> isl (format_inst_line opt opcodes r)"
  shows "buffer_record opt opcodes r st =
    Inr (st\<lparr>tb_bufs := (case placed opt opcodes r of (k, w, l) \<Rightarrow> push_line k w l (tb_bufs st))\<rparr>)"
  using assms by (cases "format_inst_line opt opcodes r") (simp_all add: buffer_record_def placed_def)

lemma receive_records:
  assumes "\<forall>r \<in> set rs. \<not> end_marker r \<and> \<not> isl (format_inst_line opt opcodes r)"
    and "enable_spinlock_fast_forward opt \<Longrightarrow>
      indices = Some idx \<and> counters_ok (spinlock_iter_to_keep opt) idx hist (warp_counter_map st)"
    and "\<not> enable_spinlock_fast_forward opt \<Longrightarrow> warp_counter_map st = []"
  shows "\<exists>m. receive_buffer opt opcodes indices False (rs @ tail) st =
      receive_buffer opt opcodes indices False tail
        (st\<lparr>tb_bufs := fold (\<lambda>(k, w, l). push_line k w l)
              (map (placed opt opcodes)
                (if enable_spinlock_fast_forward opt then kept_from (spinlock_iter_to_keep opt) idx hist rs else rs))
              (tb_bufs st),
            warp_counter_map := m\<rparr>) \<and>
    (enable_spinlock_fast_forward opt \<or> m = [])"
  using assms
proof (induction rs arbitrary: st hist)
  case Nil
  then show ?case by (intro exI [of _ "warp_counter_map st"]) auto
next
  case (Cons r rs)
  have r: "\<not> end_marker r" "\<not> isl (format_inst_line opt opcodes r)" using Cons.prems(1) by simp_all
  obtain k w l where p: "placed opt opcodes r = (k, w, l)" by (cases "placed opt opcodes r")
  show ?case
  proof (cases "enable_spinlock_fast_forward opt")
    case False
    let ?st = "st\<lparr>tb_bufs := (case placed opt opcodes r of (k, w, l) \<Rightarrow> push_line k w l (tb_bufs st))\<rparr>"
    have "receive_record opt opcodes indices False r st = Inr ?st"
      using False r(2) by (simp add: receive_record_def buffer_record_placed)
    moreover obtain m where "receive_buffer opt opcodes indices False (rs @ tail) ?st =
        receive_buffer opt opcodes indices False tail
          (?st\<lparr>tb_bufs := fold (\<lambda>(k, w, l). push_line k w l) (map (placed opt opcodes) rs) (tb_bufs ?st),
              warp_counter_map := m\<rparr>)" "m = []"
      using Cons.IH [of hist ?st] Cons.prems False by auto
    ultimately show ?thesis using r(1) False by (intro exI [of _ m]) (simp add: p)
  next
    case True
    let ?keep = "spinlock_iter_to_keep opt"
    let ?d = "fst (spin_step ?keep (warp_counter ?keep idx (warp_key_of r) hist) (instr_idx r))"
    from fast_forward_ok [of ?keep idx hist "warp_counter_map st" r] Cons.prems(2) True obtain m' where
      ff: "fast_forward ?keep indices r (warp_counter_map st) = Inr (?d, m')" "counters_ok ?keep idx (hist @ [r]) m'"
      by auto
    let ?st = "(if ?d then st
      else st\<lparr>tb_bufs := (case placed opt opcodes r of (k, w, l) \<Rightarrow> push_line k w l (tb_bufs st))\<rparr>)\<lparr>warp_counter_map := m'\<rparr>"
    have run: "receive_record opt opcodes indices False r st = Inr ?st"
      using True ff(1) buffer_record_placed [OF r(2)] by (simp add: receive_record_def)
    have "\<exists>m. receive_buffer opt opcodes indices False (rs @ tail) ?st =
        receive_buffer opt opcodes indices False tail
          (?st\<lparr>tb_bufs := fold (\<lambda>(k, w, l). push_line k w l)
              (map (placed opt opcodes)
                (if enable_spinlock_fast_forward opt then kept_from ?keep idx (hist @ [r]) rs else rs)) (tb_bufs ?st),
            warp_counter_map := m\<rparr>) \<and> (enable_spinlock_fast_forward opt \<or> m = [])"
      by (rule Cons.IH) (use Cons.prems ff(2) True in auto)
    then obtain m where "receive_buffer opt opcodes indices False (rs @ tail) ?st =
        receive_buffer opt opcodes indices False tail
          (?st\<lparr>tb_bufs := fold (\<lambda>(k, w, l). push_line k w l)
              (map (placed opt opcodes) (kept_from ?keep idx (hist @ [r]) rs)) (tb_bufs ?st), warp_counter_map := m\<rparr>)"
      using True by auto
    then show ?thesis using run r(1) True by (intro exI [of _ m]) (simp add: p)
  qed
qed

lemma received_kernel:
  assumes "\<forall>r \<in> set rs. \<not> end_marker r \<and> \<not> isl (format_inst_line opt opcodes r)" "end_marker m"
    and "enable_spinlock_fast_forward opt \<longrightarrow> indices \<noteq> None"
  shows "receive_buffer opt opcodes indices False (rs @ m # rest) idle_channel =
    Inr \<lparr>tb_bufs = [], warp_counter_map = [], recv_thread_receiving = False,
         results_file = grouped_text (map (placed opt opcodes) (kept_records opt indices rs))\<rparr>"
proof -
  define idx where "idx = (case indices of None \<Rightarrow> [] | Some is \<Rightarrow> is)"
  have "enable_spinlock_fast_forward opt \<Longrightarrow> indices = Some idx" using assms(3) by (auto simp: idx_def)
  moreover have "counters_ok (spinlock_iter_to_keep opt) idx [] (warp_counter_map idle_channel)"
    by (simp add: counters_ok_def idle_channel_def)
  ultimately obtain c where run: "receive_buffer opt opcodes indices False (rs @ m # rest) idle_channel =
      receive_buffer opt opcodes indices False (m # rest)
        (idle_channel\<lparr>tb_bufs := push_all (map (placed opt opcodes)
            (if enable_spinlock_fast_forward opt then kept_from (spinlock_iter_to_keep opt) idx [] rs else rs)),
          warp_counter_map := c\<rparr>)" "enable_spinlock_fast_forward opt \<or> c = []"
    using receive_records [OF assms(1), of indices idx "[]" idle_channel "m # rest"]
    by (auto simp: idle_channel_def)
  show ?thesis unfolding run(1)
    using assms(2) run(2) by (auto simp: finish_kernel_def emit_tbs_text idle_channel_def kept_records_def idx_def)
qed

text \<open>C26. The trace of a kernel: from a free channel, the records before the marker are written, when the
  marker arrives, as blocks in increasing order, warps in increasing order, and the lines of a warp
  in the order in which they were received; with fast-forwarding exactly the records are left out that
  the counters of their own warp drop.  The buffers are empty afterwards, what follows the marker in
  the channel's buffer is not looked at, and the thread stops receiving.\<close>

theorem receive_kernel_trace:
  assumes "\<forall>r \<in> set rs. \<not> end_marker r \<and> \<not> isl (format_inst_line opt opcodes r)" "end_marker m"
    and "enable_spinlock_fast_forward opt \<longrightarrow> indices \<noteq> None"
  shows "receive_buffer opt opcodes indices False (rs @ m # rest) idle_channel =
    Inr \<lparr>tb_bufs = [], warp_counter_map = [], recv_thread_receiving = False,
         results_file = grouped_text (map (placed opt opcodes) (kept_records opt indices rs))\<rparr>"
  using assms by (rule received_kernel)

lemma create_counter_map: "wf_map (create_counter idx) \<and> (\<forall>i. map_of (create_counter idx) i = (if i \<in> set idx then Some 0 else None))"
proof -
  have "wf_map (fold (\<lambda>i c. map_put i 0 c) idx c) \<and>
    (\<forall>i. map_of (fold (\<lambda>i c. map_put i 0 c) idx c) i = (if i \<in> set idx then Some 0 else map_of c i))"
    if "wf_map c" for c :: counter_t
    using that by (induction idx arbitrary: c) (auto simp: wf_map_put map_of_put)
  from this [of "[]"] show ?thesis by (simp add: create_counter_def)
qed

text \<open>The counters of a warp that has only executed instructions of the loop.\<close>

lemma spinning_counter:
  assumes "\<forall>r \<in> set hist. warp_key_of r = key \<and> instr_idx r \<in> set idx"
  shows "wf_map (warp_counter keep idx key hist) \<and>
    (\<forall>i. map_of (warp_counter keep idx key hist) i =
       (if i \<in> set idx then Some (length (filter (\<lambda>r. instr_idx r = i) hist)) else None))"
  using assms
proof (induction hist rule: rev_induct)
  case Nil
  then show ?case using create_counter_map [of idx] by (simp add: warp_counter_def)
next
  case (snoc r hist)
  then show ?case by (auto simp: warp_counter_snoc spin_step_def wf_map_put map_of_put)
qed

lemma spinning_kept:
  assumes "\<forall>r \<in> set (hist @ rs). warp_key_of r = key \<and> instr_idx r \<in> set idx" "0 \<le> keep" "keep < 2 ^ 31"
  shows "length (filter (\<lambda>r. instr_idx r = i) (kept_from keep idx hist rs)) =
    min (nat keep) (length (filter (\<lambda>r. instr_idx r = i) (hist @ rs))) -
    min (nat keep) (length (filter (\<lambda>r. instr_idx r = i) hist))"
  using assms(1)
proof (induction rs arbitrary: hist)
  case (Cons r rs)
  have key: "warp_key_of r = key" "instr_idx r \<in> set idx" using Cons.prems by simp_all
  have k: "keep mod 2 ^ 64 = keep" using assms(2,3) by simp
  have "map_of (warp_counter keep idx key hist) (instr_idx r) =
      Some (length (filter (\<lambda>q. instr_idx q = instr_idx r) hist))"
    using spinning_counter [of hist key idx keep] Cons.prems key(2) by simp
  then have d: "fst (spin_step keep (warp_counter keep idx key hist) (instr_idx r)) =
      (nat keep < length (filter (\<lambda>q. instr_idx q = instr_idx r) hist) + 1)"
    using k by (simp add: spin_step_def)
  have "length (filter (\<lambda>r. instr_idx r = i) (kept_from keep idx (hist @ [r]) rs)) =
      min (nat keep) (length (filter (\<lambda>r. instr_idx r = i) ((hist @ [r]) @ rs))) -
      min (nat keep) (length (filter (\<lambda>r. instr_idx r = i) (hist @ [r])))"
    by (rule Cons.IH) (use Cons.prems in auto)
  then show ?case using d key(1) by (auto simp: min_def)
qed simp

text \<open>C27. Fast-forwarding keeps of a warp that does nothing but spin the first \<open>keep\<close> executions of every
  instruction of the loop and drops the others.\<close>

theorem spinlock_iterations_kept:
  assumes "\<forall>r \<in> set rs. warp_key_of r = key \<and> instr_idx r \<in> set idx"
    and "enable_spinlock_fast_forward opt" "0 \<le> spinlock_iter_to_keep opt" "spinlock_iter_to_keep opt < 2 ^ 31"
  shows "length (filter (\<lambda>r. instr_idx r = i) (kept_records opt (Some idx) rs)) =
    min (nat (spinlock_iter_to_keep opt)) (length (filter (\<lambda>r. instr_idx r = i) rs))"
  using spinning_kept [of "[]" rs key idx "spinlock_iter_to_keep opt" i] assms by (simp add: kept_records_def)

definition spin_options :: tracer_options where
  "spin_options = sample_options\<lparr>enable_spinlock_fast_forward := True, spinlock_iter_to_keep := 2\<rparr>"

theorem spinlock_iterations_kept_witness:
  "length (filter (\<lambda>r. instr_idx r = 3) (kept_records spin_options (Some [3]) (replicate 5 sample_inst))) = 2"
proof -
  have "length (filter (\<lambda>r. instr_idx r = 3) (kept_records spin_options (Some [3]) (replicate 5 sample_inst))) =
    min (nat (spinlock_iter_to_keep spin_options)) (length (filter (\<lambda>r. instr_idx r = 3) (replicate 5 sample_inst)))"
    by (rule spinlock_iterations_kept [where key = "warp_key_of sample_inst"])
      (auto simp: sample_inst_def spin_options_def)
  then show ?thesis by (simp add: spin_options_def sample_inst_def)
qed

text \<open>Two records of two blocks; the block that comes second is written first.\<close>

theorem receive_kernel_trace_witness:
  "receive_buffer sample_options [(7, ''LDGSTS.E.64'')] None False
     [sample_inst\<lparr>cta_id_x := 1\<rparr>, sample_inst, sample_inst\<lparr>cta_id_x := -1\<rparr>] idle_channel =
   Inr \<lparr>tb_bufs = [], warp_counter_map = [], recv_thread_receiving = False,
        results_file =
          [''#BEGIN_TB'', ''thread block = 0,0,0'', ''warp = 0'', ''insts = 1'',
           ''00a0 00000001 1 R2 LDGSTS.E.64 1 R4 8 0 0x1000 0'', ''#END_TB'',
           ''#BEGIN_TB'', ''thread block = 1,0,0'', ''warp = 0'', ''insts = 1'',
           ''00a0 00000001 1 R2 LDGSTS.E.64 1 R4 8 0 0x1000 0'', ''#END_TB'']\<rparr>"
proof -
  let ?m = "[(7, ''LDGSTS.E.64'')]" and ?r = "sample_inst\<lparr>cta_id_x := 1\<rparr>"
  let ?l = "''00a0 00000001 1 R2 LDGSTS.E.64 1 R4 8 0 0x1000 0''"
  have "format_inst_line sample_options ?m ?r = format_inst_line sample_options ?m sample_inst"
    by (simp add: format_inst_line_def format_mem_def opcode_name_def printed_srcs_def lane_mask_def)
  then have line: "format_inst_line sample_options ?m ?r = Inr ?l" "format_inst_line sample_options ?m sample_inst = Inr ?l"
    by (simp_all only: sample_line)
  have "placed sample_options ?m ?r = (TBKey 1 0 0, 0, ?l)" "placed sample_options ?m sample_inst = (TBKey 0 0 0, 0, ?l)"
    by (simp_all only: placed_def line) (simp_all add: tb_key_of_def warp_of_def sample_inst_def)
  then have ps: "map (placed sample_options ?m) (kept_records sample_options None [?r, sample_inst]) =
      [(TBKey 1 0 0, 0, ?l), (TBKey 0 0 0, 0, ?l)]"
    by (simp add: kept_records_def sample_options_def)
  have out: "grouped_text [(TBKey 1 0 0, 0, ?l), (TBKey 0 0 0, 0, ?l)] =
      [''#BEGIN_TB'', ''thread block = 0,0,0'', ''warp = 0'', ''insts = 1'', ?l, ''#END_TB'',
       ''#BEGIN_TB'', ''thread block = 1,0,0'', ''warp = 0'', ''insts = 1'', ?l, ''#END_TB'']"
    by code_simp
  have "receive_buffer sample_options ?m None False ([?r, sample_inst] @ sample_inst\<lparr>cta_id_x := -1\<rparr> # []) idle_channel =
    Inr \<lparr>tb_bufs = [], warp_counter_map = [], recv_thread_receiving = False,
      results_file = grouped_text (map (placed sample_options ?m) (kept_records sample_options None [?r, sample_inst]))\<rparr>"
    by (rule receive_kernel_trace) (use line in \<open>auto simp: end_marker_def sample_inst_def sample_options_def\<close>)
  then show ?thesis by (simp only: ps out append.simps)
qed

end
