(* ===== verification/Kernel_Selection.thy ===== *)
theory Kernel_Selection
  imports Inst_Format
begin

text \<open>
  Which kernels the tracer traces, and what it writes around a launch (\<^verbatim>\<open>tracer_tool.cu\<close>): the ranges of
  \<^verbatim>\<open>DYNAMIC_KERNEL_RANGE\<close>, \<open>enter_kernel_launch\<close>, \<open>leave_kernel_launch\<close> and the dispatch of the CUDA
  events.  The regular expressions of the standard library are arguments: \<open>compile\<close> gives \<open>None\<close> for a
  \<open>std::regex_error\<close>, \<open>matches\<close> is \<open>std::regex_match\<close>.  What the CUDA driver and NVBit tell about a
  launch is a record.  Synchronisation with the GPU and the measurement of time are not modelled.
\<close>

section \<open>Ranges\<close>

definition stoull :: "string \<Rightarrow> u64 res" where
  "stoull s =
     (let (neg, t) = strip_sign (dropWhile is_space s); ds = takeWhile is_digit t; v = decimal ds in
      if ds = [] then Inl Invalid_Argument
      else if 2 ^ 64 \<le> v then Inl Out_Of_Range
      else Inr (word_of_int (if neg then - v else v)))"

record 'r kernel_range =
  range_start :: u64
  range_end :: u64
  kernel_name_regexes :: "'r list"

definition parse_range_part :: "string \<Rightarrow> (u64 \<times> u64) res" where
  "parse_range_part part =
     (if part = [] then Inr (0, 0)
      else case find_index (\<lambda>c. c = CHR ''-'') part of
        Some i \<Rightarrow>
          rbind (stoull (take i part)) (\<lambda>first.
          rbind (if drop (Suc i) part = [] then Inr 0 else stoull (drop (Suc i) part)) (\<lambda>final.
            Inr (first, final)))
      | None \<Rightarrow> rbind (stoull part) (\<lambda>n. Inr (n, n)))"

text \<open>An invalid expression is reported and left out; without any, all names match.\<close>

definition parse_regexes :: "(string \<Rightarrow> 'r option) \<Rightarrow> string \<Rightarrow> 'r list res" where
  "parse_regexes compile part =
     (if part = [] then (case compile ''.*'' of None \<Rightarrow> Inl Aborted | Some r \<Rightarrow> Inr [r])
      else Inr (List.map_filter compile (split_at (CHR '','') part)))"

definition parse_token ::
  "(string \<Rightarrow> 'r option) \<Rightarrow> string \<Rightarrow> 'r kernel_range list \<times> u64 \<Rightarrow> ('r kernel_range list \<times> u64) res"
where
  "parse_token compile token = (\<lambda>(ranges, max_id).
     let (range_part, regex_part) =
       (case find_index (\<lambda>c. c = CHR ''@'') token of
          Some i \<Rightarrow> (take i token, drop (Suc i) token)
        | None \<Rightarrow> (token, [])) in
     rbind (parse_range_part range_part) (\<lambda>(first, final).
     rbind (parse_regexes compile regex_part) (\<lambda>rs.
       Inr (ranges @ [\<lparr>range_start = first, range_end = final, kernel_name_regexes = rs\<rparr>], max max_id final))))"

definition parse_kernel_ranges_from_env ::
  "(string \<Rightarrow> 'r option) \<Rightarrow> string option \<Rightarrow> ('r kernel_range list \<times> u64) res"
where
  "parse_kernel_ranges_from_env compile env =
     (if env = None \<or> env = Some [] then
        rbind (parse_regexes compile []) (\<lambda>rs.
          Inr ([\<lparr>range_start = 0, range_end = 0, kernel_name_regexes = rs\<rparr>], 0))
      else foldM (parse_token compile) (words (the env)) ([], 0))"

definition in_range :: "'r kernel_range \<Rightarrow> u64 \<Rightarrow> bool" where
  "in_range r kernel_id \<longleftrightarrow>
     (if range_end r = 0 then range_start r \<le> kernel_id
      else range_start r \<le> kernel_id \<and> kernel_id \<le> range_end r)"

definition should_trace_kernel ::
  "(string \<Rightarrow> 'r \<Rightarrow> bool) \<Rightarrow> 'r kernel_range list \<Rightarrow> u64 \<Rightarrow> string \<Rightarrow> bool"
where
  "should_trace_kernel matches ranges kernel_id name \<longleftrightarrow>
     list_ex (\<lambda>r. in_range r kernel_id \<and> list_ex (matches name) (kernel_name_regexes r)) ranges"

section \<open>A launch\<close>

record launch =
  func_name :: string
  gridDim :: "u32 \<times> u32 \<times> u32"
  blockDim :: "u32 \<times> u32 \<times> u32"
  sharedMemBytes :: u32
  shmem_static_nbytes :: u32
  nregs :: u32
  binary_version :: u32
  stream_id :: u64
  shmem_base_addr :: u64
  local_mem_base_addr :: u64

text \<open>The state of the tool: a function of the context where the code has a map keyed by it.  The
  files are the lines written to them; a trace is opened under its name.\<close>

record tracer =
  ctx_kernelid :: "u64 \<Rightarrow> int"
  ctx_current_kernel_name :: "u64 \<Rightarrow> string"
  active_region :: bool
  stop_report :: bool
  skip_flag :: bool
  first_call :: bool
  receiving :: bool
  kernelslist :: "u64 \<Rightarrow> string list"
  stats_file :: "u64 \<Rightarrow> string"
  open_trace :: "u64 \<Rightarrow> (string \<times> string list) option"
  closed_traces :: "(string \<times> string list) list"

record 'r tool_config =
  options :: tracer_options
  ranges :: "'r kernel_range list"
  max_kernel_id :: u64
  user_folder :: string
  nvbit_version :: string

definition TRACER_VERSION :: string where
  "TRACER_VERSION = ''5''"

text \<open>\<open>%d\<close> of an \<open>unsigned\<close> or \<open>int\<close>, \<open>%lx\<close> and \<open>0x%016lx\<close>.\<close>

definition fmt_d :: "u32 \<Rightarrow> string" where
  "fmt_d n = to_string (sint n)"

definition fmt_dims :: "u32 \<times> u32 \<times> u32 \<Rightarrow> string" where
  "fmt_dims = (\<lambda>(x, y, z). fmt_d x @ '','' @ fmt_d y @ '','' @ fmt_d z @ '')'')"

definition fmt_addr :: "u64 \<Rightarrow> string" where
  "fmt_addr a = ''0x'' @ pad0 16 (hex_of (unat a))"

definition trace_header :: "'r tool_config \<Rightarrow> int \<Rightarrow> launch \<Rightarrow> string list" where
  "trace_header cfg kernel_id l =
     [''-kernel name = '' @ func_name l,
      ''-kernel id = '' @ to_string kernel_id,
      ''-grid dim = ('' @ fmt_dims (gridDim l),
      ''-block dim = ('' @ fmt_dims (blockDim l),
      ''-shmem = '' @ fmt_d (shmem_static_nbytes l + sharedMemBytes l),
      ''-nregs = '' @ fmt_d (nregs l),
      ''-binary version = '' @ fmt_d (binary_version l),
      ''-cuda stream id = '' @ to_string (uint (stream_id l)),
      ''-shmem base_addr = '' @ fmt_addr (shmem_base_addr l),
      ''-local mem base_addr = '' @ fmt_addr (local_mem_base_addr l),
      ''-nvbit version = '' @ nvbit_version cfg,
      ''-accelsim tracer version = '' @ TRACER_VERSION,
      ''-enable lineinfo = '' @ (if lineinfo (options cfg) then ''1'' else ''0''),
      '''',
      ''#traces format = [line_num] PC mask dest_num [reg_dests] opcode src_num [reg_srcs] '' @
        ''mem_width [adrrescompress?] [mem_addresses] immediate'',
      '''']"

definition trace_name :: "'r tool_config \<Rightarrow> u64 \<Rightarrow> int \<Rightarrow> string" where
  "trace_name cfg ctx kernel_id =
     ''kernel-'' @ to_string kernel_id @ ''-ctx_0x'' @ hex_of (unat ctx) @ ''.trace'' @
     (if xz_compress_trace (options cfg) then ''.xz'' else [])"

definition dims_size :: "u32 \<times> u32 \<times> u32 \<Rightarrow> u32" where
  "dims_size = (\<lambda>(x, y, z). x * y * z)"

definition comma_separated :: "string list \<Rightarrow> string" where
  "comma_separated fs = concat (map (\<lambda>f. f @ '', '') fs)"

definition stats_entry :: "string \<Rightarrow> launch \<Rightarrow> string" where
  "stats_entry name l =
     (case (gridDim l, blockDim l) of ((gx, gy, gz), (bx, by', bz)) \<Rightarrow>
        comma_separated ([name, func_name l] @
          map fmt_d [gx, gy, gz, dims_size (gridDim l), bx, by', bz, dims_size (blockDim l)]))"

text \<open>\<open>exit(0)\<close> behind the last kernel of interest is \<open>Exit_Called\<close>.\<close>

definition enter_kernel_launch ::
  "(string \<Rightarrow> 'r \<Rightarrow> bool) \<Rightarrow> 'r tool_config \<Rightarrow> u64 \<Rightarrow> launch \<Rightarrow> tracer \<Rightarrow> tracer res"
where
  "enter_kernel_launch matches cfg ctx l t =
     (let id = ctx_kernelid t ctx; id64 = word_of_int id :: u64;
          active = active_region t \<or>
            (active_from_start (options cfg) \<and> should_trace_kernel matches (ranges cfg) id64 (func_name l)) in
      guard (\<not> (terminate_upon_limit (options cfg) \<and> max_kernel_id cfg \<noteq> 0 \<and> id64 > max_kernel_id cfg)) Exit_Called
        (let name = trace_name cfg ctx id in
         Inr (t\<lparr>active_region := active, stop_report := \<not> active,
           open_trace := (if active then (open_trace t)(ctx \<mapsto> (name, trace_header cfg id l)) else open_trace t),
           kernelslist := (if active then (kernelslist t)(ctx := kernelslist t ctx @ [name]) else kernelslist t),
           stats_file := (stats_file t)(ctx := stats_file t ctx @ stats_entry name l),
           ctx_kernelid := (ctx_kernelid t)(ctx := id + 1),
           ctx_current_kernel_name := (ctx_current_kernel_name t)(ctx := func_name l),
           receiving := True\<rparr>)))"

text \<open>The counters of the kernel and its time are given as text; \<open>body\<close> are the lines the receiving
  thread wrote.\<close>

definition leave_kernel_launch ::
  "(string \<Rightarrow> 'r \<Rightarrow> bool) \<Rightarrow> 'r tool_config \<Rightarrow> u64 \<Rightarrow> string \<Rightarrow> string list \<Rightarrow> string \<Rightarrow> tracer \<Rightarrow> tracer"
where
  "leave_kernel_launch matches cfg ctx name body counters t =
     (let t = t\<lparr>receiving := (if stop_report t then receiving t else False),
                stats_file := (stats_file t)(ctx := stats_file t ctx @ counters @ [CHR 0x0A])\<rparr>;
          t = (if stop_report t then t
               else t\<lparr>closed_traces := closed_traces t @
                        (case open_trace t ctx of None \<Rightarrow> [] | Some (n, ls) \<Rightarrow> [(n, ls @ body)]),
                      open_trace := (open_trace t)(ctx := None)\<rparr>) in
      if active_from_start (options cfg) \<and>
         \<not> should_trace_kernel matches (ranges cfg) (word_of_int (ctx_kernelid t ctx)) name
      then t\<lparr>active_region := False\<rparr> else t)"

section \<open>Events\<close>

text \<open>The events of the driver the tool looks at, with what it reads from their parameters: a launch
  by one of the old calls, with the name of its function; a launch with a stream, captured or not; a
  node added to a graph; a copy.\<close>

datatype cuda_event =
    Launch_Plain string
  | Launch_Grid_Async string bool
  | Launch_Stream launch bool
  | Graph_Add_Kernel_Node launch
  | Graph_Launch
  | Memcpy_HtoD u64 u64
  | Profiler_Start
  | Profiler_Stop
  | Other_Event

definition stats_title :: string where
  "stats_title =
     ''kernel id, kernel mangled name, grid_dimX, grid_dimY, grid_dimZ, #blocks, block_dimX, block_dimY, '' @
     ''block_dimZ, #threads, total_insts, total_reported_insts, latency'' @ [CHR 0x0A]"

definition memcpy_line :: "u64 \<Rightarrow> u64 \<Rightarrow> string" where
  "memcpy_line dst bytes = ''MemcpyHtoD,'' @ fmt_addr dst @ '','' @ to_string (uint bytes)"

text \<open>The parameters of \<open>cuLaunch\<close>, \<open>cuLaunchGrid\<close> and \<open>cuLaunchGridAsync\<close> are read as those of
  \<open>cuLaunchKernel\<close>, beyond their end, when such a launch is entered.\<close>

definition handle_event ::
  "(string \<Rightarrow> 'r \<Rightarrow> bool) \<Rightarrow> 'r tool_config \<Rightarrow> u64 \<Rightarrow> bool \<Rightarrow> string list \<Rightarrow> string \<Rightarrow> cuda_event \<Rightarrow> tracer \<Rightarrow>
   tracer res"
where
  "handle_event matches cfg ctx is_exit body counters ev t =
     (case ev of
        Launch_Plain name \<Rightarrow>
          if is_exit then Inr (leave_kernel_launch matches cfg ctx name body counters t)
          else Inl Undefined_Behaviour
      | Launch_Grid_Async name captured \<Rightarrow>
          if \<not> is_exit then Inl Undefined_Behaviour
          else if captured then Inr t
          else Inr (leave_kernel_launch matches cfg ctx name body counters t)
      | Launch_Stream l captured \<Rightarrow>
          if \<not> is_exit then enter_kernel_launch matches cfg ctx l t
          else if captured then Inr t
          else Inr (leave_kernel_launch matches cfg ctx (func_name l) body counters t)
      | Graph_Add_Kernel_Node l \<Rightarrow> if is_exit then Inr t else enter_kernel_launch matches cfg ctx l t
      | Memcpy_HtoD dst bytes \<Rightarrow>
          Inr (if is_exit then t
               else t\<lparr>kernelslist := (kernelslist t)(ctx := kernelslist t ctx @ [memcpy_line dst bytes])\<rparr>)
      | Profiler_Start \<Rightarrow>
          Inr (if is_exit \<and> \<not> active_from_start (options cfg) then t\<lparr>active_region := True\<rparr> else t)
      | Profiler_Stop \<Rightarrow>
          Inr (if is_exit \<and> \<not> active_from_start (options cfg) then t\<lparr>active_region := False\<rparr> else t)
      | _ \<Rightarrow> Inr t)"

text \<open>The first event of all creates the folder and empties the files of its context; when the folder
  cannot be made the event is ignored.\<close>

definition nvbit_at_cuda_event ::
  "(string \<Rightarrow> 'r \<Rightarrow> bool) \<Rightarrow> 'r tool_config \<Rightarrow> bool \<Rightarrow> u64 \<Rightarrow> bool \<Rightarrow> string list \<Rightarrow> string \<Rightarrow> cuda_event \<Rightarrow>
   tracer \<Rightarrow> tracer res"
where
  "nvbit_at_cuda_event matches cfg mkdir_ok ctx is_exit body counters ev t =
     (if skip_flag t then Inr t
      else if first_call t \<and> \<not> mkdir_ok then Inr (t\<lparr>first_call := False\<rparr>)
      else
        handle_event matches cfg ctx is_exit body counters ev
          (if first_call t
           then t\<lparr>first_call := False, kernelslist := (kernelslist t)(ctx := []),
                  stats_file := (stats_file t)(ctx := stats_title)\<rparr>
           else t))"

definition nvbit_at_ctx_init :: "u64 \<Rightarrow> tracer \<Rightarrow> tracer" where
  "nvbit_at_ctx_init ctx t = t\<lparr>ctx_kernelid := (ctx_kernelid t)(ctx := 1)\<rparr>"

definition new_tracer :: tracer where
  "new_tracer =
     \<lparr>ctx_kernelid = \<lambda>_. 0, ctx_current_kernel_name = \<lambda>_. [], active_region = False, stop_report = False,
      skip_flag = False, first_call = True, receiving = False, kernelslist = \<lambda>_. [], stats_file = \<lambda>_. [],
      open_trace = \<lambda>_. None, closed_traces = []\<rparr>"


section \<open>The ranges a user writes\<close>

datatype range_spec = Only nat | From_To nat nat | From nat

fun show_range :: "range_spec \<Rightarrow> string" where
  "show_range (Only n) = digits_of n"
| "show_range (From_To a b) = digits_of a @ ''-'' @ digits_of b"
| "show_range (From a) = digits_of a @ ''-''"

fun wanted :: "range_spec \<Rightarrow> nat \<Rightarrow> bool" where
  "wanted (Only n) k \<longleftrightarrow> k = n"
| "wanted (From_To a b) k \<longleftrightarrow> a \<le> k \<and> k \<le> b"
| "wanted (From a) k \<longleftrightarrow> a \<le> k"

fun valid_range :: "range_spec \<Rightarrow> bool" where
  "valid_range (Only n) \<longleftrightarrow> 0 < n \<and> n < 2 ^ 64"
| "valid_range (From_To a b) \<longleftrightarrow> a < 2 ^ 64 \<and> 0 < b \<and> b < 2 ^ 64"
| "valid_range (From a) \<longleftrightarrow> a < 2 ^ 64"

lemma stoull_digits_of:
  assumes "n < 2 ^ 64"
  shows "stoull (digits_of n) = Inr (of_nat n)"
proof -
  obtain c t where ct: "digits_of n = c # t" "is_digit c"
    using digits_of_digits [of n] by (cases "digits_of n") auto
  moreover have "c \<noteq> CHR ''-''" "c \<noteq> CHR ''+''" using ct(2) by auto
  ultimately have "strip_sign (dropWhile is_space (digits_of n)) = (False, digits_of n)"
    by (simp add: strip_sign_def digit_no_space)
  then show ?thesis
    using takeWhile_digits_of(1) [of "[]" n] assms decimal_digits_of [of n] ct(1)
    by (simp add: stoull_def Let_def)
qed

lemma find_dash_digits:
  "find_index (\<lambda>c. c = CHR ''-'') (digits_of n) = None"
  "find_index (\<lambda>c. c = CHR ''-'') (digits_of n @ CHR ''-'' # s) = Some (length (digits_of n))"
proof -
  have "\<forall>c \<in> set (digits_of n). c \<noteq> CHR ''-''" using digits_of_digits [of n] by (auto simp: list_all_iff)
  moreover have "find_index (\<lambda>c. c = CHR ''-'') (u @ CHR ''-'' # s) = Some (length u)"
    if "\<forall>c \<in> set u. c \<noteq> CHR ''-''" for u
    using that by (induction u) auto
  ultimately show "find_index (\<lambda>c. c = CHR ''-'') (digits_of n) = None"
    "find_index (\<lambda>c. c = CHR ''-'') (digits_of n @ CHR ''-'' # s) = Some (length (digits_of n))"
    by (auto simp: find_index_None)
qed

definition bounds_of :: "range_spec \<Rightarrow> u64 \<times> u64" where
  "bounds_of r = (case r of Only n \<Rightarrow> (of_nat n, of_nat n) | From_To a b \<Rightarrow> (of_nat a, of_nat b) | From a \<Rightarrow> (of_nat a, 0))"

lemma parse_show_range: "valid_range r \<Longrightarrow> parse_range_part (show_range r) = Inr (bounds_of r)"
  using digits_of_digits
  by (cases r) (auto simp: parse_range_part_def find_dash_digits stoull_digits_of bounds_of_def)

lemma in_range_wanted:
  assumes "valid_range r" "bounds_of r = (first, final)"
  shows "in_range \<lparr>range_start = first, range_end = final, kernel_name_regexes = rs\<rparr> kid = wanted r (unat kid)"
proof -
  have unat: "unat (of_nat n :: u64) = n" if "n < 2 ^ 64" for n
    using that by (simp add: unat_of_nat)
  have pos: "(of_nat n :: u64) \<noteq> 0" if "0 < n" "n < 2 ^ 64" for n
    using unat [OF that(2)] that(1) by (metis unat_0 less_not_refl)
  have le: "(of_nat n :: u64) \<le> kid \<longleftrightarrow> n \<le> unat kid" "kid \<le> (of_nat n :: u64) \<longleftrightarrow> unat kid \<le> n" if "n < 2 ^ 64" for n
    using that by (simp_all add: word_le_nat_alt unat)
  show ?thesis
    using assms pos le by (cases r) (auto simp: in_range_def bounds_of_def)
qed

lemma show_range_word: "no_space (show_range r) \<and> show_range r \<noteq> [] \<and> CHR ''@'' \<notin> set (show_range r)"
proof -
  have "CHR ''@'' \<notin> set (digits_of n)" "digits_of n \<noteq> []" for n
    using digits_of_digits [of n] by (auto simp: list_all_iff is_digit_def)
  then show ?thesis by (cases r) auto
qed

definition range_of :: "'r \<Rightarrow> range_spec \<Rightarrow> 'r kernel_range" where
  "range_of any r = \<lparr>range_start = fst (bounds_of r), range_end = snd (bounds_of r), kernel_name_regexes = [any]\<rparr>"

lemma parse_show_token:
  assumes "valid_range r" "compile ''.*'' = Some any"
  shows "\<exists>m. parse_token compile (show_range r) (rs, m0) = Inr (rs @ [range_of any r], m)"
proof -
  have "find_index (\<lambda>c. c = CHR ''@'') (show_range r) = None"
    using show_range_word [of r] by (auto simp: find_index_None)
  then show ?thesis using parse_show_range [OF assms(1)] assms(2)
    by (cases "bounds_of r") (simp add: parse_token_def parse_regexes_def range_of_def)
qed

lemma parse_show_tokens:
  assumes "list_all valid_range specs" "compile ''.*'' = Some any"
  shows "\<exists>m. foldM (parse_token compile) (map show_range specs) (rs, m0) = Inr (rs @ map (range_of any) specs, m)"
  using assms(1)
proof (induction specs arbitrary: rs m0)
  case (Cons r specs)
  then obtain m where "parse_token compile (show_range r) (rs, m0) = Inr (rs @ [range_of any r], m)"
    using parse_show_token [of r compile any rs m0] assms(2) by auto
  with Cons.IH [of "rs @ [range_of any r]" m] Cons.prems show ?case by simp
qed simp

text \<open>C28. The list of kernels and ranges means what the documentation says: parsed from the text of any
  number of single numbers, closed and open ranges (numbers of 64 bits, upper ends not 0), a kernel is
  traced exactly if its number is one of the numbers or in one of the ranges.\<close>

theorem kernel_ranges_select:
  assumes "specs \<noteq> []" "list_all valid_range specs"
    and "compile ''.*'' = Some any" "\<And>name. matches name any"
  shows "\<exists>rs m. parse_kernel_ranges_from_env compile (Some (unwords (map show_range specs))) = Inr (rs, m) \<and>
    (\<forall>kid name. should_trace_kernel matches rs kid name \<longleftrightarrow> (\<exists>r \<in> set specs. wanted r (unat kid)))"
proof -
  obtain m where run: "foldM (parse_token compile) (map show_range specs) ([], 0) = Inr (map (range_of any) specs, m)"
    using parse_show_tokens [of specs compile any "[]" 0, OF assms(2,3)] by auto
  have words: "words (unwords (map show_range specs)) = map show_range specs"
    using show_range_word by (intro words_unwords) (auto simp: list_all_iff)
  moreover have "unwords (map show_range specs) \<noteq> []"
  proof
    assume "unwords (map show_range specs) = []"
    then have "words [] = map show_range specs" using words by simp
    then show False using assms(1) by (simp add: words_done)
  qed
  ultimately have "parse_kernel_ranges_from_env compile (Some (unwords (map show_range specs))) =
      Inr (map (range_of any) specs, m)"
    using run by (simp add: parse_kernel_ranges_from_env_def)
  moreover have "should_trace_kernel matches (map (range_of any) specs) kid name \<longleftrightarrow>
      (\<exists>r \<in> set specs. wanted r (unat kid))" for kid name
  proof -
    have "in_range (range_of any r) kid = wanted r (unat kid)" if "r \<in> set specs" for r
      using in_range_wanted [of r "fst (bounds_of r)" "snd (bounds_of r)" "[any]" kid] assms(2) that
      by (auto simp: range_of_def list_all_iff)
    then show ?thesis using assms(4)
      by (auto simp: should_trace_kernel_def list_ex_iff range_of_def)
  qed
  ultimately show ?thesis by blast
qed

text \<open>A stand-in for regular expressions: literal names, and \<^verbatim>\<open>.*\<close>.\<close>

definition literal_match :: "string \<Rightarrow> string \<Rightarrow> bool" where
  "literal_match name r \<longleftrightarrow> r = ''.*'' \<or> name = r"

theorem kernel_ranges_select_witness:
  "\<exists>rs m. parse_kernel_ranges_from_env Some (Some ''2 5-8 10-'') = Inr (rs, m) \<and>
     (\<forall>kid name. should_trace_kernel literal_match rs kid name \<longleftrightarrow>
        unat kid = 2 \<or> 5 \<le> unat kid \<and> unat kid \<le> 8 \<or> 10 \<le> unat kid)"
proof -
  have w: "unwords (map show_range [Only 2, From_To 5 8, From 10]) = ''2 5-8 10-''" by code_simp
  have "\<exists>rs m. parse_kernel_ranges_from_env Some (Some (unwords (map show_range [Only 2, From_To 5 8, From 10]))) =
      Inr (rs, m) \<and>
    (\<forall>kid name. should_trace_kernel literal_match rs kid name \<longleftrightarrow>
       (\<exists>r \<in> set [Only 2, From_To 5 8, From 10]. wanted r (unat kid)))"
    by (rule kernel_ranges_select [where any = "''.*''"]) (simp_all add: literal_match_def)
  then show ?thesis unfolding w by simp
qed

section \<open>A sequence of launches\<close>

text \<open>The launches of one context, each entered and left: was the kernel traced?\<close>

fun trace_launches ::
  "(string \<Rightarrow> 'r \<Rightarrow> bool) \<Rightarrow> 'r tool_config \<Rightarrow> u64 \<Rightarrow> launch list \<Rightarrow> tracer \<Rightarrow> (bool list \<times> tracer) res"
where
  "trace_launches matches cfg ctx [] t = Inr ([], t)"
| "trace_launches matches cfg ctx (l # ls) t =
     rbind (handle_event matches cfg ctx False [] [] (Launch_Stream l False) t) (\<lambda>t1.
     rbind (handle_event matches cfg ctx True [] [] (Launch_Stream l False) t1) (\<lambda>t2.
     rbind (trace_launches matches cfg ctx ls t2) (\<lambda>(flags, t3).
       Inr ((\<not> stop_report t1) # flags, t3))))"

definition kernel_wanted :: "(string \<Rightarrow> 'r \<Rightarrow> bool) \<Rightarrow> 'r tool_config \<Rightarrow> int \<Rightarrow> string \<Rightarrow> bool" where
  "kernel_wanted matches cfg k name = should_trace_kernel matches (ranges cfg) (word_of_int k) name"

lemma one_launch:
  assumes "active_from_start (options cfg)" "\<not> terminate_upon_limit (options cfg)"
  shows "\<exists>t1 t2. handle_event matches cfg ctx False [] [] (Launch_Stream l False) t = Inr t1 \<and>
    handle_event matches cfg ctx True [] [] (Launch_Stream l False) t1 = Inr t2 \<and>
    (let k = ctx_kernelid t ctx; on = active_region t \<or> kernel_wanted matches cfg k (func_name l) in
     stop_report t1 = (\<not> on) \<and> ctx_kernelid t2 ctx = k + 1 \<and>
     active_region t2 = (on \<and> kernel_wanted matches cfg (k + 1) (func_name l)) \<and>
     kernelslist t2 ctx = kernelslist t ctx @ (if on then [trace_name cfg ctx k] else []))"
  using assms
  by (simp add: handle_event_def enter_kernel_launch_def leave_kernel_launch_def kernel_wanted_def Let_def)

text \<open>The numbers of the kernels whose flag is set.\<close>

definition traced_ids :: "int \<Rightarrow> bool list \<Rightarrow> int list" where
  "traced_ids k flags = map (\<lambda>i. k + int i) (filter (\<lambda>i. flags ! i) [0..<length flags])"

lemma traced_ids_Cons: "traced_ids k (b # flags) = (if b then [k] else []) @ traced_ids (k + 1) flags"
proof -
  have "[0..<length (b # flags)] = 0 # map Suc [0..<length flags]" by (simp add: map_Suc_upt upt_conv_Cons del: upt_Suc)
  then show ?thesis by (simp add: traced_ids_def filter_map comp_def algebra_simps)
qed

text \<open>A launch is traced when tracing was on or its number and name are wanted; it stays on when the next
  number is wanted with the same name.\<close>

fun launch_flags :: "(int \<Rightarrow> string \<Rightarrow> bool) \<Rightarrow> int \<Rightarrow> bool \<Rightarrow> string list \<Rightarrow> bool list" where
  "launch_flags sel k on [] = []"
| "launch_flags sel k on (n # ns) =
     (on \<or> sel k n) # launch_flags sel (k + 1) ((on \<or> sel k n) \<and> sel (k + 1) n) ns"

lemma trace_launches_flags:
  assumes cfg: "active_from_start (options cfg)" "\<not> terminate_upon_limit (options cfg)"
  shows "\<exists>t'. trace_launches matches cfg ctx ls t =
      Inr (launch_flags (kernel_wanted matches cfg) (ctx_kernelid t ctx) (active_region t) (map func_name ls), t') \<and>
    kernelslist t' ctx = kernelslist t ctx @ map (trace_name cfg ctx) (traced_ids (ctx_kernelid t ctx)
      (launch_flags (kernel_wanted matches cfg) (ctx_kernelid t ctx) (active_region t) (map func_name ls)))"
proof (induction ls arbitrary: t)
  case Nil
  then show ?case by (simp add: traced_ids_def)
next
  case (Cons l ls)
  obtain t1 t2 where t: "handle_event matches cfg ctx False [] [] (Launch_Stream l False) t = Inr t1"
    "handle_event matches cfg ctx True [] [] (Launch_Stream l False) t1 = Inr t2"
    "let k = ctx_kernelid t ctx; on = active_region t \<or> kernel_wanted matches cfg k (func_name l) in
     stop_report t1 = (\<not> on) \<and> ctx_kernelid t2 ctx = k + 1 \<and>
     active_region t2 = (on \<and> kernel_wanted matches cfg (k + 1) (func_name l)) \<and>
     kernelslist t2 ctx = kernelslist t ctx @ (if on then [trace_name cfg ctx k] else [])"
    using one_launch [OF cfg, of matches ctx l t] by blast
  show ?case using Cons.IH [of t2] t(3)
    by (auto simp: t(1,2) Let_def traced_ids_Cons simp del: fun_upd_apply)
qed

lemma launch_flags_by_number:
  assumes "\<And>k n n'. sel k n = sel k n'" "on \<longrightarrow> sel k []"
  shows "launch_flags sel k on ns = map (\<lambda>i. sel (k + int i) []) [0..<length ns]"
  using assms(2)
proof (induction ns arbitrary: k on)
  case Nil
  then show ?case by simp
next
  case (Cons n ns)
  have "(on \<or> sel k n) = sel k []" using Cons.prems assms(1) [of k n "[]"] by auto
  moreover have "(on \<or> sel k n) \<and> sel (k + 1) n \<longrightarrow> sel (k + 1) []" using assms(1) [of "k + 1" n "[]"] by simp
  from Cons.IH [OF this] have "launch_flags sel (k + 1) ((on \<or> sel k n) \<and> sel (k + 1) n) ns =
      map (\<lambda>i. sel (k + 1 + int i) []) [0..<length ns]" .
  moreover have "[0..<length (n # ns)] = 0 # map Suc [0..<length ns]" by (simp add: map_Suc_upt upt_conv_Cons del: upt_Suc)
  ultimately show ?case by (simp add: comp_def algebra_simps)
qed

lemma launches_by_number:
  assumes cfg: "active_from_start (options cfg)" "\<not> terminate_upon_limit (options cfg)"
    and numbers: "\<And>k n n'. kernel_wanted matches cfg k n = kernel_wanted matches cfg k n'"
    and region: "\<not> active_region t"
  shows "\<exists>flags t'. trace_launches matches cfg ctx ls t = Inr (flags, t') \<and>
    flags = map (\<lambda>i. kernel_wanted matches cfg (ctx_kernelid t ctx + int i) []) [0..<length ls] \<and>
    kernelslist t' ctx = kernelslist t ctx @ map (trace_name cfg ctx) (traced_ids (ctx_kernelid t ctx) flags)"
proof -
  have "launch_flags (kernel_wanted matches cfg) (ctx_kernelid t ctx) (active_region t) (map func_name ls) =
      map (\<lambda>i. kernel_wanted matches cfg (ctx_kernelid t ctx + int i) []) [0..<length ls]"
    using launch_flags_by_number [of "kernel_wanted matches cfg", OF numbers] region by simp
  then show ?thesis using trace_launches_flags [OF cfg, of matches ctx ls t] by auto
qed

text \<open>C29. Selection by number works: when the ranges do not look at the names, the kernels launched one
  after the other in a context are traced exactly if their numbers are in the ranges, and the list the
  tracer writes, read by the simulator, names exactly the traced kernels in order.\<close>

theorem launches_traced_by_number:
  assumes "active_from_start (options cfg)" "\<not> terminate_upon_limit (options cfg)"
    and "\<And>k n n'. kernel_wanted matches cfg k n = kernel_wanted matches cfg k n'"
    and "\<not> active_region t" "kernelslist t ctx = []" "0 \<le> ctx_kernelid t ctx"
    and "ctx_kernelid t ctx + int (length ls) < 2 ^ 31"
  shows "\<exists>flags t'. trace_launches matches cfg ctx ls t = Inr (flags, t') \<and>
    flags = map (\<lambda>i. kernel_wanted matches cfg (ctx_kernelid t ctx + int i) []) [0..<length ls] \<and>
    foldM parse_g_line (kernelslist t' ctx) [] = Inr (traced_ids (ctx_kernelid t ctx) flags)"
proof -
  obtain flags t' where run: "trace_launches matches cfg ctx ls t = Inr (flags, t')"
    "flags = map (\<lambda>i. kernel_wanted matches cfg (ctx_kernelid t ctx + int i) []) [0..<length ls]"
    "kernelslist t' ctx = map (trace_name cfg ctx) (traced_ids (ctx_kernelid t ctx) flags)"
    using launches_by_number [OF assms(1-3), of t ctx ls] assms(4,5) by auto
  define ext where
    "ext = ''-ctx_0x'' @ hex_of (unat ctx) @ ''.trace'' @ (if xz_compress_trace (options cfg) then ''.xz'' else [])"
  have "trace_name cfg ctx = kernel_line ext"
    by (simp add: fun_eq_iff trace_name_def kernel_line_def ext_def)
  moreover have "\<forall>n \<in> set (traced_ids (ctx_kernelid t ctx) flags). 0 \<le> n \<and> n < 2 ^ 31"
    using assms(6,7) by (auto simp: traced_ids_def run(2))
  moreover have "ext = [] \<or> \<not> is_digit (hd ext)" by (simp add: ext_def)
  ultimately have "foldM parse_g_line (kernelslist t' ctx) [] = Inr (traced_ids (ctx_kernelid t ctx) flags)"
    using parse_kernel_lines [of "traced_ids (ctx_kernelid t ctx) flags" ext "[]"] run(3) by simp
  then show ?thesis using run(1,2) by blast
qed

definition sample_launch :: "string \<Rightarrow> launch" where
  "sample_launch name =
     \<lparr>func_name = name, gridDim = (1, 1, 1), blockDim = (32, 1, 1), sharedMemBytes = 0,
      shmem_static_nbytes = 0, nregs = 16, binary_version = 86, stream_id = 0, shmem_base_addr = 0,
      local_mem_base_addr = 0\<rparr>"

definition sample_config :: "string kernel_range list \<Rightarrow> u64 \<Rightarrow> string tool_config" where
  "sample_config rs m =
     \<lparr>options = sample_options, ranges = rs, max_kernel_id = m, user_folder = ''.'', nvbit_version = ''1.7''\<rparr>"

definition started_tracer :: tracer where
  "started_tracer = nvbit_at_ctx_init 7 (new_tracer\<lparr>first_call := False\<rparr>)"

definition second_only :: "string tool_config" where
  "second_only = sample_config [\<lparr>range_start = 2, range_end = 2, kernel_name_regexes = [''.*'']\<rparr>] 2"

theorem launches_traced_by_number_witness:
  "\<exists>t'. trace_launches literal_match second_only 7 (map sample_launch [''a'', ''b'', ''c'']) started_tracer =
       Inr ([False, True, False], t') \<and>
     foldM parse_g_line (kernelslist t' 7) [] = Inr [2]"
proof -
  have w: "kernel_wanted literal_match second_only k n = ((word_of_int k :: u64) = 2)" for k n
    by (auto simp: kernel_wanted_def second_only_def sample_config_def should_trace_kernel_def in_range_def
        literal_match_def)
  have t: "ctx_kernelid started_tracer 7 = 1" "\<not> active_region started_tracer" "kernelslist started_tracer 7 = []"
    by (simp_all add: started_tracer_def nvbit_at_ctx_init_def new_tracer_def)
  have w': "kernel_wanted literal_match second_only k n = kernel_wanted literal_match second_only k n'" for k n n'
    by (simp only: w)
  have c: "active_from_start (options second_only)" "\<not> terminate_upon_limit (options second_only)"
    by (simp_all add: second_only_def sample_config_def sample_options_def)
  define ls where "ls = map sample_launch [''a'', ''b'', ''c'']"
  have len: "length ls = 3" by (simp add: ls_def)
  obtain flags t' where run: "trace_launches literal_match second_only 7 ls started_tracer = Inr (flags, t')"
    "flags = map (\<lambda>i. kernel_wanted literal_match second_only (1 + int i) []) [0..<3]"
    "foldM parse_g_line (kernelslist t' 7) [] = Inr (traced_ids 1 flags)"
    using launches_traced_by_number [of second_only literal_match started_tracer 7 ls, OF c w' t(2,3)]
    unfolding t(1) len by auto
  have flags: "flags = [False, True, False]" by (simp add: run(2) w upt_conv_Cons)
  have "traced_ids 1 [False, True, False] = [2]" by code_simp
  then show ?thesis using run(1,3) unfolding flags ls_def by simp
qed

definition gemm_only :: "string tool_config" where
  "gemm_only = sample_config [\<lparr>range_start = 1, range_end = 3, kernel_name_regexes = [''gemm'']\<rparr>] 3"

text \<open>Selection by name leaks: whether tracing goes on is decided when a kernel is left, with the
  number of the next kernel but the name of the one that ends.  With \<^verbatim>\<open>1-3@gemm\<close> the kernel \<^verbatim>\<open>copy\<close>
  launched behind a kernel \<^verbatim>\<open>gemm\<close> is traced although its name does not match.\<close>

theorem name_selection_leaks:
  "parse_kernel_ranges_from_env Some (Some ''1-3@gemm'') = Inr (ranges gemm_only, max_kernel_id gemm_only) \<and>
   (\<exists>t'. trace_launches literal_match gemm_only 7 (map sample_launch [''copy'', ''gemm'', ''copy'']) started_tracer =
      Inr ([False, True, True], t')) \<and>
   \<not> kernel_wanted literal_match gemm_only 3 ''copy''"
proof (intro conjI)
  show "parse_kernel_ranges_from_env Some (Some ''1-3@gemm'') = Inr (ranges gemm_only, max_kernel_id gemm_only)"
    by code_simp
  have w: "kernel_wanted literal_match gemm_only k n \<longleftrightarrow>
      1 \<le> (word_of_int k :: u64) \<and> (word_of_int k :: u64) \<le> 3 \<and> n = ''gemm''" for k n
    by (auto simp: kernel_wanted_def gemm_only_def sample_config_def should_trace_kernel_def in_range_def
        literal_match_def)
  then show "\<not> kernel_wanted literal_match gemm_only 3 ''copy''" by simp
  have "kernel_wanted literal_match gemm_only = (\<lambda>k n.
      1 \<le> (word_of_int k :: u64) \<and> (word_of_int k :: u64) \<le> 3 \<and> n = ''gemm'')" using w by (simp add: fun_eq_iff)
  moreover have "launch_flags (\<lambda>k n. 1 \<le> (word_of_int k :: u64) \<and> (word_of_int k :: u64) \<le> 3 \<and> n = ''gemm'')
      1 False [''copy'', ''gemm'', ''copy''] = [False, True, True]" by code_simp
  ultimately have f: "launch_flags (kernel_wanted literal_match gemm_only) (ctx_kernelid started_tracer 7)
      (active_region started_tracer) (map func_name (map sample_launch [''copy'', ''gemm'', ''copy''])) = [False, True, True]"
    by (simp add: started_tracer_def nvbit_at_ctx_init_def new_tracer_def sample_launch_def del: launch_flags.simps)
  have c: "active_from_start (options gemm_only)" "\<not> terminate_upon_limit (options gemm_only)"
    by (simp_all add: gemm_only_def sample_config_def sample_options_def)
  show "\<exists>t'. trace_launches literal_match gemm_only 7 (map sample_launch [''copy'', ''gemm'', ''copy'']) started_tracer =
      Inr ([False, True, True], t')"
    using trace_launches_flags [of gemm_only literal_match 7 "map sample_launch [''copy'', ''gemm'', ''copy'']" started_tracer]
    by (simp only: f c not_False_eq_True simp_thms) blast
qed

text \<open>The limit ignores open ranges: told to stop after the last kernel and to trace kernel 2 and all
  from 10 on, the tool leaves the process when kernel 3 is launched.\<close>

theorem limit_ignores_open_ranges:
  "\<exists>rs. parse_kernel_ranges_from_env Some (Some ''2 10-'') = Inr (rs, 2) \<and>
     should_trace_kernel literal_match rs 10 name \<and>
     enter_kernel_launch literal_match ((sample_config rs 2)\<lparr>options := sample_options\<lparr>terminate_upon_limit := True\<rparr>\<rparr>)
       7 l (started_tracer\<lparr>ctx_kernelid := \<lambda>_. 3\<rparr>) = Inl Exit_Called"
proof (intro exI conjI)
  let ?rs = "[\<lparr>range_start = 2, range_end = 2, kernel_name_regexes = [''.*'']\<rparr>,
    \<lparr>range_start = 10, range_end = 0, kernel_name_regexes = [''.*'']\<rparr>]"
  show "parse_kernel_ranges_from_env Some (Some ''2 10-'') = Inr (?rs, 2)" by code_simp
  show "should_trace_kernel literal_match ?rs 10 name"
    by (simp add: should_trace_kernel_def in_range_def literal_match_def)
  show "enter_kernel_launch literal_match ((sample_config ?rs 2)\<lparr>options := sample_options\<lparr>terminate_upon_limit := True\<rparr>\<rparr>)
      7 l (started_tracer\<lparr>ctx_kernelid := \<lambda>_. 3\<rparr>) = Inl Exit_Called"
    by (simp add: enter_kernel_launch_def sample_config_def)
qed

end
