(* ===== verification/Instrumentation.thy ===== *)
theory Instrumentation
  imports Inst_Format "HOL-Library.List_Lexorder" "HOL-Library.Char_ord"
begin

text \<open>
  The instrumentation of a kernel (\<open>instrument_function_if_needed\<close>, \<^verbatim>\<open>tracer_tool.cu\<close>): which
  instructions get a call of \<open>instrument_inst\<close>, with which arguments, and the numbering of the
  opcodes.  What NVBit tells about a function (its instructions, the functions it may call, its
  source lines) is an argument; the calls are recorded in the order in which they are inserted.
\<close>

section \<open>Opcodes\<close>

record opcode_maps =
  opcode_to_id_map :: "(string, int) std_map"
  id_to_opcode_map :: "(int, string) std_map"

definition intern_opcode :: "string \<Rightarrow> opcode_maps \<Rightarrow> int \<times> opcode_maps" where
  "intern_opcode opcode m =
     (case map_of (opcode_to_id_map m) opcode of
        Some i \<Rightarrow> (i, m)
      | None \<Rightarrow>
          (let i = int (length (opcode_to_id_map m)) in
           (i, \<lparr>opcode_to_id_map = map_put opcode i (opcode_to_id_map m),
                id_to_opcode_map = map_put i opcode (id_to_opcode_map m)\<rparr>)))"

section \<open>Calls\<close>

text \<open>An instruction as NVBit describes it.\<close>

record instr =
  getOpcode :: string
  getOperands :: "operand list"
  getOffset :: u32
  getIdx :: u32
  getSize :: u32

text \<open>The arguments of a call; without a memory reference the address and the width are \<open>-1\<close>.\<close>

definition call_of :: "int \<Rightarrow> instr \<Rightarrow> u32 \<Rightarrow> operands \<Rightarrow> int option \<Rightarrow> call_args" where
  "call_of opcode i line os mref =
     \<lparr>arg_opcode_id = word_of_int opcode, arg_vpc = getOffset i, arg_is_mem = (mref \<noteq> None),
      arg_width = (if mref \<noteq> None then getSize i else - 1), arg_desReg = word_of_int (dst_oprd os),
      arg_srcRegs = map word_of_int (src_oprd os) @ replicate (MAX_SRC - length (src_oprd os)) (- 1),
      arg_srcNum = of_nat (length (src_oprd os)), arg_imm = oprd_imm os, arg_line_num = line,
      arg_instr_idx = getIdx i\<rparr>"

type_synonym 'f inserted_call = "'f \<times> instr \<times> int option \<times> call_args"

record 'f instrumentation =
  opcodes :: opcode_maps
  already_instrumented :: "'f list"
  inserted :: "'f inserted_call list"

record instr_interval =
  instr_begin_interval :: u32
  instr_end_interval :: u32

definition CALL_REL_NOINC :: string where
  "CALL_REL_NOINC = ''CALL.REL.NOINC''"

definition instrument_instr ::
  "instr_interval \<Rightarrow> (u32 \<Rightarrow> u32) \<Rightarrow> 'f \<Rightarrow> instr \<Rightarrow> u32 \<times> 'f instrumentation \<Rightarrow> (u32 \<times> 'f instrumentation) res"
where
  "instrument_instr ivl line_of f i = (\<lambda>(cnt, st).
     if getOpcode i = CALL_REL_NOINC then Inr (cnt, st)
     else if cnt < instr_begin_interval ivl \<or> cnt \<ge> instr_end_interval ivl then Inr (cnt + 1, st)
     else
       (case intern_opcode (getOpcode i) (opcodes st) of
          (opcode, m) \<Rightarrow>
            rbind (collect_operands (getOperands i)) (\<lambda>os.
            rbind (inserted_calls os) (\<lambda>mrefs.
              Inr (cnt + 1,
                st\<lparr>opcodes := m,
                   inserted := inserted st @
                     map (\<lambda>r. (f, i, r, call_of opcode i (line_of (getOffset i)) os r)) mrefs\<rparr>)))))"

text \<open>A function that has been instrumented before is left as it is.\<close>

definition instrument_function ::
  "instr_interval \<Rightarrow> (u32 \<Rightarrow> u32) \<Rightarrow> ('f \<Rightarrow> instr list) \<Rightarrow> 'f \<Rightarrow> 'f instrumentation \<Rightarrow> 'f instrumentation res"
where
  "instrument_function ivl line_of instrs_of f st =
     (if f \<in> set (already_instrumented st) then Inr st
      else
        rbind (foldM (instrument_instr ivl line_of f) (instrs_of f)
            (0, st\<lparr>already_instrumented := already_instrumented st @ [f]\<rparr>))
          (\<lambda>(cnt, st). Inr st))"

text \<open>Source lines are looked up for the kernel, also for the instructions of the functions it calls.\<close>

definition instrument_function_if_needed ::
  "tracer_options \<Rightarrow> instr_interval \<Rightarrow> ('f \<Rightarrow> u32 \<Rightarrow> u32) \<Rightarrow> ('f \<Rightarrow> instr list) \<Rightarrow> ('f \<Rightarrow> 'f list) \<Rightarrow> 'f \<Rightarrow>
   'f instrumentation \<Rightarrow> 'f instrumentation res"
where
  "instrument_function_if_needed opt ivl line_info instrs_of related func =
     foldM (instrument_function ivl (\<lambda>offset. if lineinfo opt then line_info func offset else 0) instrs_of)
       (related func @ [func])"


section \<open>The numbering of the opcodes\<close>

definition opcodes_ok :: "opcode_maps \<Rightarrow> bool" where
  "opcodes_ok m \<longleftrightarrow>
     wf_map (opcode_to_id_map m) \<and> wf_map (id_to_opcode_map m) \<and>
     (\<forall>opcode i. map_of (opcode_to_id_map m) opcode = Some i \<longleftrightarrow> map_of (id_to_opcode_map m) i = Some opcode) \<and>
     (\<forall>i. map_of (id_to_opcode_map m) i \<noteq> None \<longleftrightarrow> 0 \<le> i \<and> i < int (length (opcode_to_id_map m)))"

text \<open>Numbers are never taken back.\<close>

definition opcodes_extend :: "opcode_maps \<Rightarrow> opcode_maps \<Rightarrow> bool" where
  "opcodes_extend m m' \<longleftrightarrow> map_of (id_to_opcode_map m) \<subseteq>\<^sub>m map_of (id_to_opcode_map m')"

lemma opcodes_extend_refl [simp]: "opcodes_extend m m"
  by (simp add: opcodes_extend_def)

lemma opcodes_extend_trans: "opcodes_extend m m' \<Longrightarrow> opcodes_extend m' m'' \<Longrightarrow> opcodes_extend m m''"
  unfolding opcodes_extend_def by (rule map_le_trans)

lemma intern_opcode_ok:
  assumes "opcodes_ok m" "intern_opcode opcode m = (i, m')"
  shows "opcodes_ok m'" "opcodes_extend m m'" "map_of (id_to_opcode_map m') i = Some opcode"
proof -
  have new: "map_of (id_to_opcode_map m) (int (length (opcode_to_id_map m))) = None"
    using assms(1) by (auto simp: opcodes_ok_def)
  show "opcodes_ok m'" "opcodes_extend m m'" "map_of (id_to_opcode_map m') i = Some opcode"
  proof -
    show "map_of (id_to_opcode_map m') i = Some opcode"
      using assms by (auto simp: intern_opcode_def opcodes_ok_def Let_def split: option.splits)
    show "opcodes_extend m m'"
      using assms new
      by (auto simp: intern_opcode_def opcodes_extend_def opcodes_ok_def Let_def map_le_def map_of_put split: option.splits)
    show "opcodes_ok m'"
    proof (cases "map_of (opcode_to_id_map m) opcode")
      case (Some j)
      then show ?thesis using assms by (simp add: intern_opcode_def)
    next
      case None
      then have "m' = \<lparr>opcode_to_id_map = map_put opcode (int (length (opcode_to_id_map m))) (opcode_to_id_map m),
          id_to_opcode_map = map_put (int (length (opcode_to_id_map m))) opcode (id_to_opcode_map m)\<rparr>"
        using assms(2) by (auto simp: intern_opcode_def Let_def)
      moreover have "map_of (id_to_opcode_map m) i \<noteq> Some opcode" for i
        using None assms(1) by (metis opcodes_ok_def option.distinct(1))
      ultimately show ?thesis using assms(1) None new
        by (auto simp: opcodes_ok_def wf_map_put map_of_put length_map_put)
    qed
  qed
qed


section \<open>The calls of an instruction\<close>

definition is_mref :: "operand \<Rightarrow> bool" where
  "is_mref op = (case op of MREF _ \<Rightarrow> True | _ \<Rightarrow> False)"

text \<open>One call without an address, or one for every memory reference, in the order of the operands.\<close>

definition mrefs_of :: "instr \<Rightarrow> int option list" where
  "mrefs_of i =
     (let n = length (filter is_mref (getOperands i)) in
      if n = 0 then [None] else map (\<lambda>k. Some (int k)) [0..<n])"

lemma add_operand_counts:
  assumes "add_operand iop os = Inr os'"
  shows "num_mref os' = num_mref os + (if is_mref (snd iop) then 1 else 0) \<and>
    mem_oper_idx os' - int (num_mref os') = mem_oper_idx os - int (num_mref os) \<and>
    (length (src_oprd os) \<le> MAX_SRC \<longrightarrow> length (src_oprd os') \<le> MAX_SRC)"
  using assms
  by (cases iop)
    (auto simp: add_operand_def add_src_def is_mref_def res_simps split: operand.splits if_splits)

lemma collect_operands_counts:
  assumes "collect_operands ops = Inr os"
  shows "num_mref os = length (filter is_mref ops) \<and> mem_oper_idx os = int (num_mref os) - 1 \<and>
    length (src_oprd os) \<le> MAX_SRC"
proof -
  have "num_mref os' = num_mref os + length (filter is_mref ops) \<and>
      mem_oper_idx os' - int (num_mref os') = mem_oper_idx os - int (num_mref os) \<and>
      (length (src_oprd os) \<le> MAX_SRC \<longrightarrow> length (src_oprd os') \<le> MAX_SRC)"
    if "foldM add_operand (List.enumerate n ops) os = Inr os'" for n os os'
    using that
  proof (induction ops arbitrary: n os)
    case (Cons op ops)
    then obtain o2 where o2: "add_operand (n, op) os = Inr o2" "foldM add_operand (List.enumerate (Suc n) ops) o2 = Inr os'"
      by (auto simp: rbind_eq_Inr)
    show ?case using Cons.IH [OF o2(2)] add_operand_counts [OF o2(1)] by auto
  qed simp
  from this [OF assms [unfolded collect_operands_def]] show ?thesis by simp
qed

lemma inserted_calls_mrefs:
  assumes "collect_operands (getOperands i) = Inr os" "inserted_calls os = Inr rs"
  shows "rs = mrefs_of i"
proof -
  define n where "n = length (filter is_mref (getOperands i))"
  have c: "num_mref os = n" "mem_oper_idx os = int n - 1"
    using collect_operands_counts [OF assms(1)] by (simp_all add: n_def)
  have "n \<le> 2" using assms(2) c by (cases n) (auto simp: inserted_calls_def res_simps)
  then consider "n = 0" | "n = 1" | "n = 2" by linarith
  then have "rs = (if n = 0 then [None] else map (\<lambda>k. Some (int k)) [0..<n])"
    by cases (use assms(2) c in \<open>auto simp: inserted_calls_def res_simps numeral_2_eq_2\<close>)
  then show ?thesis by (simp add: mrefs_of_def n_def)
qed


section \<open>The calls of a function\<close>

text \<open>The instructions that get calls: those of the interval, counted without the skipped ones.\<close>

definition selected_from :: "instr_interval \<Rightarrow> nat \<Rightarrow> instr list \<Rightarrow> instr list" where
  "selected_from ivl n is =
     map snd (filter (\<lambda>(k, i). unat (instr_begin_interval ivl) \<le> k \<and> k < unat (instr_end_interval ivl))
       (List.enumerate n (filter (\<lambda>i. getOpcode i \<noteq> CALL_REL_NOINC) is)))"

definition placed_calls :: "'f \<Rightarrow> instr list \<Rightarrow> ('f \<times> instr \<times> int option) list" where
  "placed_calls f is = concat (map (\<lambda>i. map (\<lambda>r. (f, i, r)) (mrefs_of i)) is)"

abbreviation place_of_call :: "'f inserted_call \<Rightarrow> 'f \<times> instr \<times> int option" where
  "place_of_call c \<equiv> (fst c, fst (snd c), fst (snd (snd c)))"

text \<open>What the arguments of a call say.\<close>

definition carries :: "opcode_maps \<Rightarrow> 'f inserted_call \<Rightarrow> bool" where
  "carries m = (\<lambda>(f, i, r, a).
     (\<exists>k. map_of (id_to_opcode_map m) k = Some (getOpcode i) \<and> arg_opcode_id a = word_of_int k) \<and>
     arg_vpc a = getOffset i \<and> arg_is_mem a = (r \<noteq> None) \<and> arg_instr_idx a = getIdx i \<and>
     length (arg_srcRegs a) = MAX_SRC)"

lemma carries_extend: "carries m c \<Longrightarrow> opcodes_extend m m' \<Longrightarrow> carries m' c"
  by (force simp: carries_def opcodes_extend_def map_le_def dom_def split: prod.splits)

definition instrumented_ok :: "'f instrumentation \<Rightarrow> bool" where
  "instrumented_ok st \<longleftrightarrow>
     opcodes_ok (opcodes st) \<and> distinct (already_instrumented st) \<and> (\<forall>c \<in> set (inserted st). carries (opcodes st) c)"

lemma instrument_instr_skip:
  "getOpcode i = CALL_REL_NOINC \<Longrightarrow> instrument_instr ivl line_of f i (cnt, st) = Inr (cnt, st)"
  "getOpcode i \<noteq> CALL_REL_NOINC \<Longrightarrow> cnt < instr_begin_interval ivl \<or> cnt \<ge> instr_end_interval ivl \<Longrightarrow>
   instrument_instr ivl line_of f i (cnt, st) = Inr (cnt + 1, st)"
  by (simp_all add: instrument_instr_def)

lemma instrument_instr_calls:
  assumes "getOpcode i \<noteq> CALL_REL_NOINC" "\<not> (cnt < instr_begin_interval ivl \<or> cnt \<ge> instr_end_interval ivl)"
    and "intern_opcode (getOpcode i) (opcodes st) = (k, m)"
    and "foldM (instrument_instr ivl line_of f) (i # is) (cnt, st) = Inr s'"
  obtains os rs where "collect_operands (getOperands i) = Inr os" "inserted_calls os = Inr rs"
    "foldM (instrument_instr ivl line_of f) is (cnt + 1, st\<lparr>opcodes := m, inserted := inserted st @
       map (\<lambda>r. (f, i, r, call_of k i (line_of (getOffset i)) os r)) rs\<rparr>) = Inr s'"
proof -
  obtain s1 where s1: "instrument_instr ivl line_of f i (cnt, st) = Inr s1"
    "foldM (instrument_instr ivl line_of f) is s1 = Inr s'"
    using assms(4) by (auto simp: rbind_eq_Inr)
  then show ?thesis using that assms(1-3) by (auto simp: instrument_instr_def [of ivl line_of f i] rbind_eq_Inr)
qed

lemma instrument_instr_run:
  assumes "foldM (instrument_instr ivl line_of f) is (cnt, st) = Inr (cnt', st')"
    and "opcodes_ok (opcodes st)" "unat cnt + length is < 2 ^ 32"
  shows "already_instrumented st' = already_instrumented st \<and>
    opcodes_ok (opcodes st') \<and> opcodes_extend (opcodes st) (opcodes st') \<and>
    (\<exists>new. inserted st' = inserted st @ new \<and>
      map place_of_call new = placed_calls f (selected_from ivl (unat cnt) is) \<and>
      (\<forall>c \<in> set new. carries (opcodes st') c))"
  using assms
proof (induction "is" arbitrary: cnt st)
  case Nil
  then show ?case by (simp add: selected_from_def placed_calls_def)
next
  case (Cons i "is")
  have cnt: "unat (cnt + 1) = unat cnt + 1" using Cons.prems(3) by (simp add: unat_plus_if' )
  show ?case
  proof (cases "getOpcode i = CALL_REL_NOINC")
    case True
    with Cons.prems have "foldM (instrument_instr ivl line_of f) is (cnt, st) = Inr (cnt', st')"
      by (simp add: instrument_instr_skip)
    from Cons.IH [OF this] Cons.prems(2,3) True show ?thesis
      by (simp add: selected_from_def)
  next
    case other: False
    show ?thesis
    proof (cases "cnt < instr_begin_interval ivl \<or> cnt \<ge> instr_end_interval ivl")
      case True
      with other Cons.prems have "foldM (instrument_instr ivl line_of f) is (cnt + 1, st) = Inr (cnt', st')"
        by (simp add: instrument_instr_skip)
      from Cons.IH [OF this] Cons.prems(2,3) True other cnt show ?thesis
        by (auto simp: selected_from_def word_less_nat_alt word_le_nat_alt)
    next
      case False
      obtain k m where m: "intern_opcode (getOpcode i) (opcodes st) = (k, m)" by force
      obtain os rs where ops: "collect_operands (getOperands i) = Inr os" "inserted_calls os = Inr rs"
        and run: "foldM (instrument_instr ivl line_of f) is (cnt + 1, st\<lparr>opcodes := m, inserted := inserted st @
          map (\<lambda>r. (f, i, r, call_of k i (line_of (getOffset i)) os r)) rs\<rparr>) = Inr (cnt', st')"
        using instrument_instr_calls [OF other False m Cons.prems(1)] .
      let ?new = "map (\<lambda>r. (f, i, r, call_of k i (line_of (getOffset i)) os r)) rs"
      note ok = intern_opcode_ok [OF Cons.prems(2) m]
      obtain new where new: "inserted st' = inserted st @ ?new @ new"
        "map place_of_call new = placed_calls f (selected_from ivl (unat (cnt + 1)) is)"
        "\<forall>c \<in> set new. carries (opcodes st') c" "opcodes_ok (opcodes st')" "opcodes_extend m (opcodes st')"
        "already_instrumented st' = already_instrumented st"
        using Cons.IH [OF run] ok(1) cnt Cons.prems(3) by auto
      have "length (src_oprd os) \<le> MAX_SRC" using collect_operands_counts [OF ops(1)] by simp
      then have "\<forall>c \<in> set ?new. carries m c" using ok(3) by (auto simp: carries_def call_of_def)
      then have c: "\<forall>c \<in> set (?new @ new). carries (opcodes st') c" using new(3,5) carries_extend by fastforce
      have "selected_from ivl (unat cnt) (i # is) = i # selected_from ivl (unat (cnt + 1)) is"
        using False other cnt by (simp add: selected_from_def word_less_nat_alt word_le_nat_alt)
      then have "map place_of_call (?new @ new) = placed_calls f (selected_from ivl (unat cnt) (i # is))"
        using new(2) inserted_calls_mrefs [OF ops] by (simp add: placed_calls_def comp_def)
      with new(1,4,6) c ok(2) opcodes_extend_trans [OF ok(2) new(5)] show ?thesis
        by (intro conjI exI [of _ "?new @ new"]) simp_all
    qed
  qed
qed

section \<open>A launch\<close>

text \<open>The functions that have not been instrumented yet, each once, in the order of the list.\<close>

fun newly :: "'f list \<Rightarrow> 'f list \<Rightarrow> 'f list" where
  "newly seen [] = []"
| "newly seen (f # fs) = (if f \<in> set seen then newly seen fs else f # newly (seen @ [f]) fs)"

lemma set_newly: "set (newly seen fs) = set fs - set seen"
  by (induction seen fs rule: newly.induct) auto

lemma instrument_functions_run:
  assumes "foldM (instrument_function ivl line_of instrs_of) fs st = Inr st'"
    and "instrumented_ok st" "\<forall>f \<in> set fs. length (instrs_of f) < 2 ^ 32"
  shows "instrumented_ok st' \<and> already_instrumented st' = already_instrumented st @ newly (already_instrumented st) fs \<and>
    opcodes_extend (opcodes st) (opcodes st') \<and>
    (\<exists>new. inserted st' = inserted st @ new \<and>
      map place_of_call new =
        concat (map (\<lambda>f. placed_calls f (selected_from ivl 0 (instrs_of f))) (newly (already_instrumented st) fs)))"
  using assms
proof (induction fs arbitrary: st)
  case (Cons f fs)
  then obtain s1 where s1: "instrument_function ivl line_of instrs_of f st = Inr s1"
    "foldM (instrument_function ivl line_of instrs_of) fs s1 = Inr st'"
    by (auto simp: rbind_eq_Inr)
  show ?case
  proof (cases "f \<in> set (already_instrumented st)")
    case True
    with s1 have "s1 = st" by (simp add: instrument_function_def)
    with Cons.IH [OF s1(2)] Cons.prems True show ?thesis by simp
  next
    case False
    let ?st = "st\<lparr>already_instrumented := already_instrumented st @ [f]\<rparr>"
    obtain cnt where run: "foldM (instrument_instr ivl line_of f) (instrs_of f) (0, ?st) = Inr (cnt, s1)"
      using s1(1) False by (auto simp: instrument_function_def rbind_eq_Inr)
    obtain new where new: "inserted s1 = inserted st @ new"
      "map place_of_call new = placed_calls f (selected_from ivl 0 (instrs_of f))"
      "\<forall>c \<in> set new. carries (opcodes s1) c" "opcodes_ok (opcodes s1)" "opcodes_extend (opcodes st) (opcodes s1)"
      "already_instrumented s1 = already_instrumented st @ [f]"
      using instrument_instr_run [OF run] Cons.prems(2,3) by (auto simp: instrumented_ok_def)
    have "instrumented_ok s1"
      using new Cons.prems(2) False by (auto simp: instrumented_ok_def intro: carries_extend)
    then obtain rest where rest: "inserted st' = inserted s1 @ rest" "instrumented_ok st'"
      "already_instrumented st' = already_instrumented s1 @ newly (already_instrumented s1) fs"
      "opcodes_extend (opcodes s1) (opcodes st')"
      "map place_of_call rest =
        concat (map (\<lambda>f. placed_calls f (selected_from ivl 0 (instrs_of f))) (newly (already_instrumented s1) fs))"
      using Cons.IH [OF s1(2)] Cons.prems(3) by auto
    show ?thesis
      using rest new False opcodes_extend_trans [OF new(5) rest(4)]
      by (intro conjI exI [of _ "new @ rest"]) simp_all
  qed
qed simp

text \<open>C30. At a launch every function the kernel may call, and the kernel, gets its calls exactly once in
  the life of the tool: in the order of the code, for the instructions of the interval other than the skipped ones, one call for every
  memory reference in the order of the operands (so the second call of an \<^verbatim>\<open>LDGSTS\<close> sends the
  second address) and one for other instructions.  The numbering of opcodes stays one to one, and
  numbers compiled into earlier calls keep their meaning.\<close>

theorem instrument_inserts_calls:
  assumes "instrument_function_if_needed opt ivl line_info instrs_of related func st = Inr st'"
    and "instrumented_ok st" "\<forall>f \<in> set (func # related func). length (instrs_of f) < 2 ^ 32"
  shows "instrumented_ok st' \<and>
    set (already_instrumented st') = set (already_instrumented st) \<union> set (func # related func) \<and>
    (\<exists>new. inserted st' = inserted st @ new \<and>
      map place_of_call new =
        concat (map (\<lambda>f. placed_calls f (selected_from ivl 0 (instrs_of f)))
          (newly (already_instrumented st) (related func @ [func]))))"
  using instrument_functions_run [of ivl _ instrs_of "related func @ [func]" st st'] assms
  by (auto simp: instrument_function_if_needed_def set_newly)

lemma opcode_number_small:
  assumes "opcodes_ok m" "map_of (id_to_opcode_map m) k = Some opcode" "length (opcode_to_id_map m) \<le> 2 ^ 31"
  shows "sint (word_of_int k :: u32) = k"
proof -
  have "0 \<le> k \<and> k < int (length (opcode_to_id_map m))" using assms(1,2) by (auto simp: opcodes_ok_def)
  then have "0 \<le> k \<and> k < 2 ^ 31" using assms(3) by auto
  then show ?thesis by (simp add: signed_of_int signed_take_bit_int_eq_self)
qed

text \<open>From the instruction to the grouped trace: when a warp executes an inserted call while
  reporting is on, the line written for its record shows the opcode of the instruction the call was
  inserted for, where the post-processor looks for it, its offset and its index.\<close>

theorem executed_opcode_traced:
  assumes "instrumented_ok st" "(f, i, r, a) \<in> set (inserted st)" "length (opcode_to_id_map (opcodes st)) \<le> 2 ^ 31"
    and "fst (instrument_inst False a w stack) = Some ma"
    and "format_inst_line opt (id_to_opcode_map (opcodes st)) ma = Inr line" "\<not> lineinfo opt"
    and "no_space (getOpcode i)" "getOpcode i \<noteq> []"
  shows "opcode_of line = Inr (getOpcode i) \<and> vpc ma = getOffset i \<and> instr_idx ma = getIdx i \<and> is_mem ma = (r \<noteq> None)"
proof -
  obtain k where k: "map_of (id_to_opcode_map (opcodes st)) k = Some (getOpcode i)" "arg_opcode_id a = word_of_int k"
    "arg_vpc a = getOffset i" "arg_is_mem a = (r \<noteq> None)" "arg_instr_idx a = getIdx i"
    using assms(1,2) by (auto simp: instrumented_ok_def carries_def)
  have ma: "opcode_id ma = arg_opcode_id a" "vpc ma = getOffset i" "instr_idx ma = getIdx i" "is_mem ma = (r \<noteq> None)"
    using assms(4) k(3-5) by (auto simp: instrument_inst_def Let_def split: prod.splits)
  have "sint (opcode_id ma) = k"
    using opcode_number_small [OF _ k(1) assms(3)] assms(1) ma(1) k(2) by (simp add: instrumented_ok_def)
  then have "opcode_name (id_to_opcode_map (opcodes st)) ma = getOpcode i" using k(1) by (simp add: opcode_name_def)
  then show ?thesis using opcode_of_line [OF assms(5,6)] assms(7,8) ma by simp
qed

definition exit_instr :: instr where
  "exit_instr = \<lparr>getOpcode = ''EXIT'', getOperands = [], getOffset = 16, getIdx = 1, getSize = 0\<rparr>"

definition call_instr :: instr where
  "call_instr = \<lparr>getOpcode = CALL_REL_NOINC, getOperands = [], getOffset = 0, getIdx = 0, getSize = 0\<rparr>"

definition ldgsts_instr :: instr where
  "ldgsts_instr = \<lparr>getOpcode = ''LDGSTS.E'', getOperands = [MREF 4, MREF 6], getOffset = 32, getIdx = 2, getSize = 4\<rparr>"

definition first_instrs :: instr_interval where
  "first_instrs = \<lparr>instr_begin_interval = 0, instr_end_interval = 100\<rparr>"

definition no_functions :: "nat instrumentation" where
  "no_functions =
     \<lparr>opcodes = \<lparr>opcode_to_id_map = [], id_to_opcode_map = []\<rparr>, already_instrumented = [], inserted = []\<rparr>"

text \<open>A kernel 1 that calls function 0: three instructions, of which one is skipped and one has two
  memory references.\<close>

theorem instrument_inserts_calls_witness:
  "\<exists>st'. instrument_function_if_needed sample_options first_instrs (\<lambda>_ _. 0)
       (\<lambda>f. if f = 0 then [ldgsts_instr] else [call_instr, exit_instr]) (\<lambda>_. [0, 1]) 1 no_functions = Inr st' \<and>
     instrumented_ok st' \<and>
     map place_of_call (inserted st') =
       [(0, ldgsts_instr, Some 0), (0, ldgsts_instr, Some 1), (1, exit_instr, None)]"
proof -
  let ?is = "\<lambda>f::nat. if f = 0 then [ldgsts_instr] else [call_instr, exit_instr]"
  let ?run = "instrument_function_if_needed sample_options first_instrs (\<lambda>_ _. 0) ?is (\<lambda>_. [0, 1]) 1 no_functions"
  have "collect_operands [MREF 4, MREF 6] =
      Inr \<lparr>src_oprd = [4, 6], dst_oprd = -1, mem_oper_idx = 1, num_mref = 2, oprd_imm = 0\<rparr>"
    "collect_operands [] = Inr \<lparr>src_oprd = [], dst_oprd = -1, mem_oper_idx = -1, num_mref = 0, oprd_imm = 0\<rparr>"
    by code_simp+
  then have "\<not> isl ?run"
    by (simp add: instrument_function_if_needed_def instrument_function_def instrument_instr_def intern_opcode_def Let_def
        ldgsts_instr_def call_instr_def exit_instr_def first_instrs_def no_functions_def inserted_calls_def CALL_REL_NOINC_def)
  then obtain st' where st': "?run = Inr st'" by (cases ?run) auto
  have ok: "instrumented_ok no_functions" by (simp add: instrumented_ok_def opcodes_ok_def no_functions_def)
  have "\<forall>f \<in> set (1 # (\<lambda>_::nat. [0, 1]) (1::nat)). length (?is f) < 2 ^ 32" by simp
  from instrument_inserts_calls [OF st' ok this] obtain new where new: "inserted st' = new" "instrumented_ok st'"
    "map place_of_call new = concat (map (\<lambda>f. placed_calls f (selected_from first_instrs 0 (?is f))) (newly [] [0, 1, 1]))"
    by (auto simp: no_functions_def)
  moreover have "concat (map (\<lambda>f. placed_calls f (selected_from first_instrs 0 (?is f))) (newly [] [0, 1, 1])) =
      [(0, ldgsts_instr, Some 0), (0, ldgsts_instr, Some 1), (1, exit_instr, None)]"
    by code_simp
  ultimately show ?thesis using st' by auto
qed

definition exit_call :: call_args where
  "exit_call = call_of 0 exit_instr 0 \<lparr>src_oprd = [], dst_oprd = -1, mem_oper_idx = -1, num_mref = 0, oprd_imm = 0\<rparr> None"

definition exit_only :: "nat instrumentation" where
  "exit_only =
     \<lparr>opcodes = \<lparr>opcode_to_id_map = [(''EXIT'', 0)], id_to_opcode_map = [(0, ''EXIT'')]\<rparr>,
      already_instrumented = [0], inserted = [(0, exit_instr, None, exit_call)]\<rparr>"

definition one_lane :: warp_state where
  "one_lane =
     \<lparr>lanes_active = 1, lane_pred = (\<lambda>_. True), lane_addr = (\<lambda>_. 0), block_idx = (0, 0, 0), thread_idx = (0, 0, 0),
      block_dim = (32, 1, 1), hw_warp = 0, hw_sm = 0\<rparr>"

theorem executed_opcode_traced_witness:
  "\<exists>ma. fst (instrument_inst False exit_call one_lane sample_inst) = Some ma \<and>
     format_inst_line sample_options [(0, ''EXIT'')] ma = Inr ''0010 00000001 0 EXIT 0 0 0'' \<and>
     opcode_of ''0010 00000001 0 EXIT 0 0 0'' = Inr ''EXIT'' \<and> vpc ma = 16"
proof -
  obtain ma where ma: "fst (instrument_inst False exit_call one_lane sample_inst) = Some ma"
    by (simp add: instrument_inst_def Let_def one_lane_def)
  have ballot: "predicate_ballot one_lane = 1" by code_simp
  have fields: "vpc ma = 16" "lane_mask ma = 1" "GPRDst ma = - 1" "opcode_id ma = 0" "\<not> is_mem ma" "imm ma = 0"
    "printed_srcs ma = []"
    using ma ballot
    by (auto simp: instrument_inst_def exit_call_def call_of_def exit_instr_def one_lane_def lane_mask_def printed_srcs_def
        MAX_SRC_def)
  have "pad0 4 (hex_of (unat (16 :: u32))) = ''0010''" "pad0 8 (hex_of (unat (1 :: u32))) = ''00000001''" by code_simp+
  then have line: "format_inst_line sample_options [(0, ''EXIT'')] ma = Inr ''0010 00000001 0 EXIT 0 0 0''"
    using fields by (simp add: format_inst_line_def format_mem_def opcode_name_def sample_options_def sample_parts(4))
  have ok: "instrumented_ok exit_only"
    by (simp add: instrumented_ok_def opcodes_ok_def exit_only_def carries_def wf_map_def exit_call_def call_of_def
        exit_instr_def)
  have "opcode_of ''0010 00000001 0 EXIT 0 0 0'' = Inr (getOpcode exit_instr) \<and> vpc ma = getOffset exit_instr \<and>
      instr_idx ma = getIdx exit_instr \<and> is_mem ma = (None \<noteq> (None :: int option))"
    by (rule executed_opcode_traced [OF ok _ _ ma, of 0 exit_instr None sample_options])
      (use line in \<open>simp_all add: exit_only_def sample_options_def exit_instr_def is_space_def\<close>)
  then show ?thesis using ma line by (auto simp: exit_instr_def)
qed

end
