(* ===== verification/Spinlock_Histogram.thy ===== *)
theory Spinlock_Histogram
  imports Kernel_Selection Trace_Channel
begin

text \<open>
  The histograms of the spin loop detector (\<^verbatim>\<open>KernelInstructionHistogram\<close>, \<^verbatim>\<open>spinlock_tool/common.h\<close>): how
  often each instruction of a kernel was executed, their text form, merging and comparison.  The two
  regular expressions of \<open>deserialize\<close> are modelled by combinators with the backtracking of
  \<open>std::regex\<close>: greedy repetition tries to take more first, lazy repetition to take less.
\<close>

section \<open>Matching\<close>

fun greedy :: "(char \<Rightarrow> bool) \<Rightarrow> string \<Rightarrow> (string \<Rightarrow> string \<Rightarrow> 'r option) \<Rightarrow> string \<Rightarrow> 'r option" where
  "greedy p acc k [] = k acc []"
| "greedy p acc k (c # s) =
     (if p c then (case greedy p (acc @ [c]) k s of None \<Rightarrow> k acc (c # s) | Some r \<Rightarrow> Some r)
      else k acc (c # s))"

fun lazy :: "(char \<Rightarrow> bool) \<Rightarrow> string \<Rightarrow> (string \<Rightarrow> string \<Rightarrow> 'r option) \<Rightarrow> string \<Rightarrow> 'r option" where
  "lazy p acc k [] = k acc []"
| "lazy p acc k (c # s) =
     (case k acc (c # s) of
        Some r \<Rightarrow> Some r
      | None \<Rightarrow> if p c then lazy p (acc @ [c]) k s else None)"

text \<open>\<open>+\<close> and \<open>+?\<close>: one character is taken in any case.\<close>

definition some_greedy :: "(char \<Rightarrow> bool) \<Rightarrow> (string \<Rightarrow> string \<Rightarrow> 'r option) \<Rightarrow> string \<Rightarrow> 'r option" where
  "some_greedy p k s = (case s of [] \<Rightarrow> None | c # t \<Rightarrow> if p c then greedy p [c] k t else None)"

definition some_lazy :: "(char \<Rightarrow> bool) \<Rightarrow> (string \<Rightarrow> string \<Rightarrow> 'r option) \<Rightarrow> string \<Rightarrow> 'r option" where
  "some_lazy p k s = (case s of [] \<Rightarrow> None | c # t \<Rightarrow> if p c then lazy p [c] k t else None)"

definition literally :: "string \<Rightarrow> (string \<Rightarrow> 'r option) \<Rightarrow> string \<Rightarrow> 'r option" where
  "literally l k s = (if take (length l) s = l then k (drop (length l) s) else None)"

definition at_end :: "'r \<Rightarrow> string \<Rightarrow> 'r option" where
  "at_end r s = (if s = [] then Some r else None)"

abbreviation spaces :: "(string \<Rightarrow> 'r option) \<Rightarrow> string \<Rightarrow> 'r option" where
  "spaces k \<equiv> greedy is_space [] (\<lambda>_. k)"

text \<open>\<open>.\<close> matches all but the ends of lines.\<close>

definition is_dot :: "char \<Rightarrow> bool" where
  "is_dot c \<longleftrightarrow> c \<noteq> CHR 0x0A \<and> c \<noteq> CHR 0x0D"

definition header_tail :: "string \<Rightarrow> string \<Rightarrow> (string \<times> string) option" where
  "header_tail name =
     spaces (literally ''(ID:'' (spaces (some_greedy is_digit (\<lambda>ds. literally '')'' (at_end (name, ds))))))"

definition header_match :: "string \<Rightarrow> (string \<times> string) option" where
  "header_match = literally ''Kernel:'' (spaces (some_lazy is_dot header_tail))"

definition count_match :: "string \<Rightarrow> (string \<times> string) option" where
  "count_match =
     spaces (some_greedy is_digit (\<lambda>idx. spaces (literally '':''
       (spaces (some_greedy is_digit (\<lambda>n. spaces (at_end (idx, n))))))))"

section \<open>Histograms\<close>

record instr_histogram =
  hist_id :: u32
  hist_name :: string
  histogram :: "(u32, u32) std_map"

definition new_histogram :: "u32 \<Rightarrow> string \<Rightarrow> instr_histogram" where
  "new_histogram i name = \<lparr>hist_id = i, hist_name = name, histogram = []\<rparr>"

definition dummy_histogram :: instr_histogram where
  "dummy_histogram = new_histogram 0 ''dummy''"

definition hist_add :: "u32 \<Rightarrow> u64 \<Rightarrow> instr_histogram \<Rightarrow> instr_histogram" where
  "hist_add i n h =
     h\<lparr>histogram :=
        (case map_of (histogram h) i of
           None \<Rightarrow> map_put i (ucast n) (histogram h)
         | Some c \<Rightarrow> map_put i (ucast (ucast c + n)) (histogram h))\<rparr>"

definition hash_prime :: u32 where
  "hash_prime = 1073741789"

definition hist_merge_entry :: "bool \<Rightarrow> u32 \<times> u32 \<Rightarrow> instr_histogram \<Rightarrow> instr_histogram" where
  "hist_merge_entry use_hash = (\<lambda>(i, n) h.
     if use_hash then
       let h = hist_add i (ucast (n mod hash_prime)) h in
       h\<lparr>histogram := map_put i ((case map_of (histogram h) i of None \<Rightarrow> 0 | Some c \<Rightarrow> c) mod hash_prime) (histogram h)\<rparr>
     else hist_add i (ucast n) h)"

definition hist_merge :: "bool \<Rightarrow> instr_histogram \<Rightarrow> instr_histogram \<Rightarrow> instr_histogram" where
  "hist_merge use_hash other h = fold (hist_merge_entry use_hash) (histogram other) h"

definition hist_reinit :: "u32 \<Rightarrow> string \<Rightarrow> instr_histogram \<Rightarrow> instr_histogram" where
  "hist_reinit i name h = h\<lparr>hist_id := i, hist_name := name, histogram := []\<rparr>"

definition find_spinlock :: "instr_histogram \<Rightarrow> instr_histogram \<Rightarrow> (u32, u32 \<times> u32) std_map" where
  "find_spinlock h other =
     fold (\<lambda>(i, n) m. if map_of (histogram h) i = None then map_put i (0, n) m else m) (histogram other)
       (fold (\<lambda>(i, n) m.
          case map_of (histogram other) i of
            Some n' \<Rightarrow> if n \<noteq> n' then map_put i (n, n') m else m
          | None \<Rightarrow> map_put i (n, 0) m) (histogram h) [])"

definition total_instruction_count :: "instr_histogram \<Rightarrow> u64" where
  "total_instruction_count h = fold (\<lambda>(i, n) t. t + ucast n) (histogram h) 0"

section \<open>Text\<close>

abbreviation newline :: char where
  "newline \<equiv> CHR 0x0A"

abbreviation show_u32 :: "u32 \<Rightarrow> string" where
  "show_u32 n \<equiv> to_string (uint n)"

definition serialize :: "instr_histogram \<Rightarrow> string" where
  "serialize h =
     ''Kernel: '' @ hist_name h @ '' (ID: '' @ show_u32 (hist_id h) @ '')'' @ [newline] @
     concat (map (\<lambda>(i, n). show_u32 i @ '': '' @ show_u32 n @ [newline]) (histogram h))"

text \<open>\<open>std::stoul\<close> has the range of \<open>std::stoull\<close>.  An exception for the header is not caught; a
  count that cannot be read is skipped.\<close>

definition read_header :: "string \<Rightarrow> instr_histogram \<Rightarrow> instr_histogram res" where
  "read_header line h =
     (case header_match line of
        None \<Rightarrow> Inr h
      | Some (name, ds) \<Rightarrow> rbind (stoull ds) (\<lambda>i. Inr (h\<lparr>hist_name := name, hist_id := ucast i\<rparr>)))"

definition read_count :: "string \<Rightarrow> instr_histogram \<Rightarrow> instr_histogram" where
  "read_count line h =
     (if line = [] then h
      else case count_match line of
        None \<Rightarrow> h
      | Some (i, n) \<Rightarrow>
          (case rbind (stoull i) (\<lambda>i. rbind (stoull n) (\<lambda>n. Inr (i, n))) of
             Inl _ \<Rightarrow> h
           | Inr (i, n) \<Rightarrow> h\<lparr>histogram := map_put (ucast i) (ucast n) (histogram h)\<rparr>))"

definition deserialize :: "string \<Rightarrow> instr_histogram \<Rightarrow> instr_histogram res" where
  "deserialize data h =
     (let h = h\<lparr>histogram := []\<rparr> in
      case split_at newline data of
        [] \<Rightarrow> Inr h
      | line # lines \<Rightarrow> rbind (read_header line h) (\<lambda>h. Inr (fold read_count lines h)))"


section \<open>Laws of matching\<close>

lemma greedy_takes:
  assumes "list_all p w" "rest = [] \<or> \<not> p (hd rest)" "k (acc @ w) rest = Some r"
  shows "greedy p acc k (w @ rest) = Some r"
  using assms
proof (induction w arbitrary: acc)
  case Nil
  then show ?case by (cases rest) auto
qed simp

lemma greedy_sound:
  "greedy p acc k s = Some r \<Longrightarrow> \<exists>u v. s = u @ v \<and> list_all p u \<and> k (acc @ u) v = Some r"
proof (induction s arbitrary: acc)
  case Nil
  then show ?case by (intro exI [of _ "[]"]) simp
next
  case (Cons c s)
  show ?case
  proof (cases "p c \<and> greedy p (acc @ [c]) k s = Some r")
    case True
    with Cons.IH obtain u v where "s = u @ v" "list_all p u" "k (acc @ [c] @ u) v = Some r" by force
    with True show ?thesis by (intro exI [of _ "c # u"] exI [of _ v]) simp
  next
    case False
    with Cons.prems have "k acc (c # s) = Some r" by (auto split: if_splits option.splits)
    then show ?thesis by (intro exI [of _ "[]"] exI [of _ "c # s"]) simp
  qed
qed

lemma some_greedy_takes:
  assumes "list_all p w" "w \<noteq> []" "rest = [] \<or> \<not> p (hd rest)" "k w rest = Some r"
  shows "some_greedy p k (w @ rest) = Some r"
  using assms greedy_takes [of p "tl w" rest k "[hd w]" r]
  by (cases w) (auto simp: some_greedy_def)

lemma some_greedy_sound:
  "some_greedy p k s = Some r \<Longrightarrow> \<exists>u v. s = u @ v \<and> u \<noteq> [] \<and> list_all p u \<and> k u v = Some r"
proof -
  assume "some_greedy p k s = Some r"
  then obtain c t where ct: "s = c # t" "p c" "greedy p [c] k t = Some r"
    by (auto simp: some_greedy_def split: list.splits if_splits)
  obtain u v where "t = u @ v" "list_all p u" "k ([c] @ u) v = Some r"
    using greedy_sound [OF ct(3)] by (elim exE conjE)
  with ct show ?thesis by (intro exI [of _ "c # u"] exI [of _ v]) simp
qed

text \<open>The lazy repetition stops at the first place where the rest of the expression matches.\<close>

lemma lazy_takes:
  assumes "list_all p w" "k (acc @ w) rest = Some r"
    and "\<And>u v. w = u @ v \<Longrightarrow> v \<noteq> [] \<Longrightarrow> k (acc @ u) (v @ rest) = None"
  shows "lazy p acc k (w @ rest) = Some r"
  using assms
proof (induction w arbitrary: acc)
  case Nil
  then show ?case by (cases rest) auto
next
  case (Cons c w)
  have "k acc (c # w @ rest) = None" using Cons.prems(3) [of "[]" "c # w"] by simp
  moreover have "lazy p (acc @ [c]) k (w @ rest) = Some r"
  proof (rule Cons.IH)
    show "k ((acc @ [c]) @ u) (v @ rest) = None" if "w = u @ v" "v \<noteq> []" for u v
      using Cons.prems(3) [of "c # u" v] that by simp
  qed (use Cons.prems(1,2) in simp_all)
  ultimately show ?case using Cons.prems(1) by simp
qed

lemma some_lazy_takes:
  assumes "list_all p w" "w \<noteq> []" "k w rest = Some r"
    and "\<And>u v. w = u @ v \<Longrightarrow> u \<noteq> [] \<Longrightarrow> v \<noteq> [] \<Longrightarrow> k u (v @ rest) = None"
  shows "some_lazy p k (w @ rest) = Some r"
proof -
  obtain c t where w: "w = c # t" using assms(2) by (cases w) auto
  have "lazy p [c] k (t @ rest) = Some r"
  proof (rule lazy_takes)
    show "k ([c] @ u) (v @ rest) = None" if "t = u @ v" "v \<noteq> []" for u v
      using assms(4) [of "c # u" v] that w by simp
  qed (use assms(1,3) w in simp_all)
  then show ?thesis using assms(1) w by (simp add: some_lazy_def)
qed

lemma literally_eq: "literally l k s = Some r \<longleftrightarrow> (\<exists>t. s = l @ t \<and> k t = Some r)"
  by (auto simp: literally_def) (metis append_take_drop_id)

lemma literally_append [simp]: "literally l k (l @ t) = k t"
  by (simp add: literally_def)

lemma at_end_eq [simp]: "at_end r s = Some r' \<longleftrightarrow> s = [] \<and> r' = r"
  by (auto simp: at_end_def)


section \<open>Reading a histogram back\<close>

text \<open>A name without line ends that neither begins nor ends with a space.\<close>

definition name_ok :: "string \<Rightarrow> bool" where
  "name_ok name \<longleftrightarrow> name \<noteq> [] \<and> list_all is_dot name \<and> \<not> is_space (hd name) \<and> \<not> is_space (last name)"

lemma last_char_split:
  assumes "xs @ c # ys = xs' @ c # ys'" "c \<notin> set ys" "c \<notin> set ys'"
  shows "xs = xs'"
proof -
  have t: "takeWhile (\<lambda>x. x \<noteq> c) (rev ys @ c # rev xs) = rev ys" "takeWhile (\<lambda>x. x \<noteq> c) (rev ys' @ c # rev xs') = rev ys'"
  proof -
    have "\<forall>x \<in> set (rev ys). x \<noteq> c" "\<forall>x \<in> set (rev ys'). x \<noteq> c" using assms(2,3) by auto
    then show "takeWhile (\<lambda>x. x \<noteq> c) (rev ys @ c # rev xs) = rev ys" "takeWhile (\<lambda>x. x \<noteq> c) (rev ys' @ c # rev xs') = rev ys'"
      using takeWhile_append2 [of "rev ys" "\<lambda>x. x \<noteq> c" "c # rev xs"]
        takeWhile_append2 [of "rev ys'" "\<lambda>x. x \<noteq> c" "c # rev xs'"] by simp_all
  qed
  have "rev ys @ c # rev xs = rev ys' @ c # rev xs'" using arg_cong [OF assms(1), of rev] by simp
  with t have "ys = ys'" by (metis rev_rev_ident)
  with assms(1) show ?thesis by simp
qed

lemma header_tail_sound:
  assumes "header_tail name s = Some r"
  shows "\<exists>ws t. s = ws @ CHR ''('' # t \<and> list_all is_space ws \<and> CHR ''('' \<notin> set t"
proof -
  have paren: "\<not> is_space (CHR ''('')" "\<not> is_digit (CHR ''('')" by (simp_all add: is_space_def is_digit_def)
  let ?k = "spaces (some_greedy is_digit (\<lambda>ds. literally '')'' (at_end (name, ds))))"
  obtain ws v where "s = ws @ v" "list_all is_space ws" "literally ''(ID:'' ?k v = Some r"
    using greedy_sound [OF assms [unfolded header_tail_def]] by auto
  then obtain t where ws: "s = ws @ ''(ID:'' @ t" "list_all is_space ws" "?k t = Some r"
    by (auto simp: literally_eq)
  obtain w2 t2 where "t = w2 @ t2" "list_all is_space w2"
    "some_greedy is_digit (\<lambda>ds. literally '')'' (at_end (name, ds))) t2 = Some r"
    using greedy_sound [OF ws(3)] by auto
  moreover from this(3) obtain ds where "t2 = ds @ '')''" "list_all is_digit ds"
    by (auto simp: literally_eq dest!: some_greedy_sound)
  ultimately have "CHR ''('' \<notin> set t" using paren by (auto simp: list_all_iff)
  with ws show ?thesis by (intro exI [of _ ws] exI [of _ "''ID:'' @ t"]) simp
qed

lemma header_match_show:
  assumes "name_ok name"
  shows "header_match (''Kernel: '' @ name @ '' (ID: '' @ digits_of n @ '')'') = Some (name, digits_of n)"
proof -
  let ?tail = "'' (ID: '' @ digits_of n @ '')''"
  have digits: "list_all is_digit (digits_of n)" "digits_of n \<noteq> []" using digits_of_digits by auto
  have "is_digit (hd (digits_of n))" using digits by (cases "digits_of n") auto
  then have paren: "CHR ''('' \<notin> set (digits_of n)" "\<not> is_space (hd (digits_of n))"
    using digits(1) by (auto simp: list_all_iff is_digit_def digit_no_space)
  have close: "\<not> is_digit (CHR '')'')" "\<not> is_space (CHR ''('')" by (simp_all add: is_digit_def is_space_def)
  have tail: "header_tail name ?tail = Some (name, digits_of n)"
  proof -
    have "some_greedy is_digit (\<lambda>ds. literally '')'' (at_end (name, ds))) (digits_of n @ '')'') = Some (name, digits_of n)"
      by (rule some_greedy_takes) (use digits close in \<open>simp_all add: literally_def\<close>)
    then have "spaces (some_greedy is_digit (\<lambda>ds. literally '')'' (at_end (name, ds)))) ('' '' @ digits_of n @ '')'') =
        Some (name, digits_of n)"
      by (intro greedy_takes) (use digits paren in \<open>auto simp: space_is_space\<close>)
    then have "literally ''(ID:'' (spaces (some_greedy is_digit (\<lambda>ds. literally '')'' (at_end (name, ds)))))
        (''(ID: '' @ digits_of n @ '')'') = Some (name, digits_of n)"
      by (simp add: literally_def)
    then show ?thesis unfolding header_tail_def
      using greedy_takes [of is_space "'' ''" "''(ID: '' @ digits_of n @ '')''"] close(2)
      by (auto simp: space_is_space)
  qed
  have "header_tail u (v @ ?tail) = None" if uv: "name = u @ v" "v \<noteq> []" for u v
  proof (rule ccontr)
    assume "header_tail u (v @ ?tail) \<noteq> None"
    then obtain ws t where ws: "v @ ?tail = ws @ CHR ''('' # t" "list_all is_space ws" "CHR ''('' \<notin> set t"
      using header_tail_sound by blast
    have "(v @ '' '') @ CHR ''('' # (''ID: '' @ digits_of n @ '')'') = ws @ CHR ''('' # t" using ws(1) by simp
    then have "v @ '' '' = ws" by (rule last_char_split) (use paren ws(3) in auto)
    with ws(2) uv have "is_space (last name)" by (auto simp: list_all_iff)
    with assms show False by (simp add: name_ok_def)
  qed
  then have lz: "some_lazy is_dot header_tail (name @ ?tail) = Some (name, digits_of n)"
    by (intro some_lazy_takes) (use assms tail in \<open>auto simp: name_ok_def\<close>)
  have "spaces (some_lazy is_dot header_tail) ('' '' @ name @ ?tail) = Some (name, digits_of n)"
    by (rule greedy_takes) (use assms lz in \<open>auto simp: name_ok_def space_is_space\<close>)
  then show ?thesis by (simp add: header_match_def literally_def)
qed

lemma count_match_show: "count_match (digits_of i @ '': '' @ digits_of n) = Some (digits_of i, digits_of n)"
proof -
  have digits: "list_all is_digit (digits_of i)" "digits_of i \<noteq> []" "list_all is_digit (digits_of n)" "digits_of n \<noteq> []"
    "\<not> is_space (hd (digits_of i))" "\<not> is_space (hd (digits_of n))"
    using digits_of_digits [of i] digits_of_digits [of n] by (auto simp: list_all_iff digit_no_space)
  have colon: "\<not> is_digit (CHR '':'')" "\<not> is_space (CHR '':'')" by (simp_all add: is_digit_def is_space_def)
  have "some_greedy is_digit (\<lambda>m. spaces (at_end (digits_of i, m))) (digits_of n @ []) = Some (digits_of i, digits_of n)"
    by (rule some_greedy_takes) (use digits in simp_all)
  then have "spaces (some_greedy is_digit (\<lambda>m. spaces (at_end (digits_of i, m)))) ('' '' @ digits_of n) =
      Some (digits_of i, digits_of n)"
    by (intro greedy_takes) (use digits in \<open>simp_all add: space_is_space\<close>)
  then have "literally '':'' (spaces (some_greedy is_digit (\<lambda>m. spaces (at_end (digits_of i, m)))))
      ('': '' @ digits_of n) = Some (digits_of i, digits_of n)"
    by (simp add: literally_def)
  then have "spaces (literally '':'' (spaces (some_greedy is_digit (\<lambda>m. spaces (at_end (digits_of i, m))))))
      ([] @ '': '' @ digits_of n) = Some (digits_of i, digits_of n)"
    by (intro greedy_takes) (use colon in simp_all)
  then have "some_greedy is_digit (\<lambda>idx. spaces (literally '':''
       (spaces (some_greedy is_digit (\<lambda>n. spaces (at_end (idx, n)))))))
      (digits_of i @ '': '' @ digits_of n) = Some (digits_of i, digits_of n)"
    by (intro some_greedy_takes) (use digits colon in simp_all)
  then have "spaces (some_greedy is_digit (\<lambda>idx. spaces (literally '':''
       (spaces (some_greedy is_digit (\<lambda>n. spaces (at_end (idx, n))))))))
      ([] @ digits_of i @ '': '' @ digits_of n) = Some (digits_of i, digits_of n)"
    by (intro greedy_takes) (use digits in \<open>auto simp: hd_append\<close>)
  then show ?thesis by (simp add: count_match_def)
qed

lemma split_at_terminated:
  assumes "c \<notin> set l"
  shows "split_at c (l @ c # s) = l # split_at c s"
proof -
  have "takeWhile (\<lambda>x. x \<noteq> c) (l @ c # s) = l" "dropWhile (\<lambda>x. x \<noteq> c) (l @ c # s) = c # s"
  proof -
    have "\<forall>x \<in> set l. x \<noteq> c" using assms by auto
    then show "takeWhile (\<lambda>x. x \<noteq> c) (l @ c # s) = l" "dropWhile (\<lambda>x. x \<noteq> c) (l @ c # s) = c # s"
      using takeWhile_append2 [of l "\<lambda>x. x \<noteq> c" "c # s"] dropWhile_append2 [of l "\<lambda>x. x \<noteq> c" "c # s"] by simp_all
  qed
  then show ?thesis by (subst split_at.simps) simp
qed

lemma split_at_Nil [simp]: "split_at c [] = []"
  by (subst split_at.simps) simp

lemma split_at_lines:
  "list_all (\<lambda>l. c \<notin> set l) ls \<Longrightarrow> split_at c (concat (map (\<lambda>l. l @ [c]) ls)) = ls"
  by (induction ls) (simp_all add: split_at_terminated)

lemma not_in_digits [simp]: "\<not> is_digit c \<Longrightarrow> c \<notin> set (digits_of n)"
  using digits_of_digits [of n] by (auto simp: list_all_iff)

lemma show_u32_digits: "show_u32 n = digits_of (unat n)"
  by (simp add: to_string_def)

lemma stoull_show: "stoull (digits_of (unat (n :: u32))) = Inr (ucast n)"
proof -
  have "unat n < 2 ^ 64" using unsigned_less [of n, where 'a = nat] by simp
  then show ?thesis by (simp add: stoull_digits_of)
qed

lemma ucast_ucast_u32 [simp]: "(ucast (ucast (n :: u32) :: u64) :: u32) = n"
  by (simp add: unsigned_ucast_eq take_bit_word_eq_self)

lemma read_count_show:
  "read_count (show_u32 i @ '': '' @ show_u32 n) h = h\<lparr>histogram := map_put i n (histogram h)\<rparr>"
  using digits_of_digits [of "unat i"]
  by (simp add: read_count_def show_u32_digits count_match_show [unfolded append.simps] stoull_show)

lemmas read_count_digits = read_count_show [unfolded show_u32_digits append.simps]

lemma read_counts_show:
  assumes "wf_map (histogram h @ m)"
  shows "fold read_count (map (\<lambda>(i, n). show_u32 i @ '': '' @ show_u32 n) m) h = h\<lparr>histogram := histogram h @ m\<rparr>"
  using assms
proof (induction m arbitrary: h)
  case (Cons e m)
  obtain i n where e: "e = (i, n)" by (cases e)
  have "\<forall>e' \<in> set (histogram h). fst e' < i"
    using Cons.prems e by (auto simp: wf_map_def sorted_wrt_append)
  then have "map_put i n (histogram h) = histogram h @ [(i, n)]" by (rule map_put_last)
  with e Cons show ?case by (simp add: read_count_digits show_u32_digits)
qed simp

text \<open>A histogram read from the text it was saved as.\<close>

lemma deserialize_serialize:
  assumes "name_ok (hist_name h)" "wf_map (histogram h)"
  shows "deserialize (serialize h) h0 = Inr h"
proof -
  let ?header = "''Kernel: '' @ hist_name h @ '' (ID: '' @ show_u32 (hist_id h) @ '')''"
  let ?lines = "map (\<lambda>(i, n). show_u32 i @ '': '' @ show_u32 n) (histogram h)"
  have "serialize h = concat (map (\<lambda>l. l @ [newline]) (?header # ?lines))"
    by (simp add: serialize_def comp_def case_prod_unfold)
  moreover have "list_all (\<lambda>l. newline \<notin> set l) (?header # ?lines)"
    using assms(1) by (auto simp: name_ok_def is_dot_def list_all_iff show_u32_digits)
  ultimately have lines: "split_at newline (serialize h) = ?header # ?lines" by (simp only: split_at_lines)
  have "header_match ?header = Some (hist_name h, digits_of (unat (hist_id h)))"
    using header_match_show [OF assms(1)] by (simp only: show_u32_digits)
  then have "read_header ?header (h0\<lparr>histogram := []\<rparr>) = Inr (h0\<lparr>hist_name := hist_name h, hist_id := hist_id h, histogram := []\<rparr>)"
    by (simp add: read_header_def stoull_show)
  moreover have "fold read_count ?lines (h0\<lparr>hist_name := hist_name h, hist_id := hist_id h, histogram := []\<rparr>) = h"
    using read_counts_show [of "h0\<lparr>hist_name := hist_name h, hist_id := hist_id h, histogram := []\<rparr>" "histogram h"] assms(2)
    by simp
  ultimately show ?thesis by (simp only: deserialize_def lines Let_def list.case rbind.simps)
qed


section \<open>Comparing\<close>

text \<open>What is reported for an instruction with the counts of the two runs.\<close>

definition differing :: "u32 option \<Rightarrow> u32 option \<Rightarrow> (u32 \<times> u32) option" where
  "differing a b = (if a = b then None else Some (case a of None \<Rightarrow> 0 | Some n \<Rightarrow> n, case b of None \<Rightarrow> 0 | Some n \<Rightarrow> n))"

lemma fold_entries:
  fixes m :: "('k::linorder, 'v) std_map" and acc :: "('k, 'w) std_map"
  assumes "wf_map m" "wf_map acc"
  shows "wf_map (fold (\<lambda>(i, n) acc. case f i n of None \<Rightarrow> acc | Some x \<Rightarrow> map_put i x acc) m acc) \<and>
    map_of (fold (\<lambda>(i, n) acc. case f i n of None \<Rightarrow> acc | Some x \<Rightarrow> map_put i x acc) m acc) i =
      (case map_of m i of
         None \<Rightarrow> map_of acc i
       | Some n \<Rightarrow> (case f i n of None \<Rightarrow> map_of acc i | Some x \<Rightarrow> Some x))"
  using assms
proof (induction m arbitrary: acc)
  case (Cons e m)
  obtain j n where e: "e = (j, n)" by (cases e)
  have m: "wf_map m" and j: "map_of m j = None"
    using Cons.prems(1) e by (auto simp: wf_map_Cons map_of_None_iff)
  let ?acc = "case f j n of None \<Rightarrow> acc | Some x \<Rightarrow> map_put j x acc"
  have "wf_map ?acc" using Cons.prems(2) by (auto simp: wf_map_put split: option.split)
  from Cons.IH [OF m this] show ?case
    using e j Cons.prems(2) by (auto simp: map_of_put split: option.splits)
qed simp

lemma find_spinlock_exact:
  assumes "wf_map (histogram h)" "wf_map (histogram other)"
  shows "wf_map (find_spinlock h other) \<and>
    map_of (find_spinlock h other) i = differing (map_of (histogram h) i) (map_of (histogram other) i)"
proof -
  let ?f = "\<lambda>i n. case map_of (histogram other) i of Some n' \<Rightarrow> if n \<noteq> n' then Some (n, n') else None | None \<Rightarrow> Some (n, 0)"
  let ?g = "\<lambda>i n. if map_of (histogram h) i = None then Some (0, n) else None"
  have eq: "find_spinlock h other =
      fold (\<lambda>(i, n) acc. case ?g i n of None \<Rightarrow> acc | Some x \<Rightarrow> map_put i x acc) (histogram other)
        (fold (\<lambda>(i, n) acc. case ?f i n of None \<Rightarrow> acc | Some x \<Rightarrow> map_put i x acc) (histogram h) [])"
    unfolding find_spinlock_def
    by (intro arg_cong2 [where f = "\<lambda>f. fold f (histogram other)"] arg_cong [where f = "\<lambda>f. fold f (histogram h) []"])
      (auto simp: fun_eq_iff split: option.splits)
  note first = fold_entries [OF assms(1) wf_map_Nil, of ?f i]
  note second = fold_entries [OF assms(2) first [THEN conjunct1], of ?g i]
  show ?thesis unfolding eq
    using first second by (auto simp: differing_def split: option.splits if_splits)
qed


section \<open>Merging\<close>

lemma ucast_sum_u32: "(ucast (ucast (c :: u32) + (n :: u64)) :: u32) = c + ucast n"
proof (rule word_uint_eqI)
  have "uint c mod 2 ^ 32 = uint c" using uint_lt2p [of c] by simp
  then show "uint (ucast (ucast c + n) :: u32) = uint (c + ucast n)"
    by (simp add: unsigned_ucast_eq uint_word_ariths take_bit_eq_mod mod_simps mod_mod_cancel)
qed

lemma hist_add_entries:
  assumes "wf_map (histogram h)"
  shows "wf_map (histogram (hist_add i n h)) \<and>
    map_of (histogram (hist_add i n h)) =
      (map_of (histogram h))(i \<mapsto> (case map_of (histogram h) i of None \<Rightarrow> 0 | Some c \<Rightarrow> c) + ucast n)"
  using assms
  by (auto simp: hist_add_def map_of_put wf_map_put ucast_sum_u32 split: option.split)

text \<open>The sum of two residues does not overflow.\<close>

lemma residue_sum:
  assumes "c < hash_prime"
  shows "unat ((c + ucast (ucast (n mod hash_prime) :: u64)) mod hash_prime) = (unat c + unat n) mod 1073741789"
    and "(c + ucast (ucast (n mod hash_prime) :: u64)) mod hash_prime < hash_prime"
proof -
  have p: "unat hash_prime = 1073741789" by (simp add: hash_prime_def)
  have n: "unat (n mod hash_prime) = unat n mod 1073741789" by (simp add: unat_mod p)
  have c: "unat c < 1073741789" using assms p by (simp add: word_less_nat_alt)
  have "unat c + unat n mod 1073741789 < 2 ^ 32" proof -
    have "unat n mod 1073741789 < 1073741789" by simp
    with c show ?thesis by simp
  qed
  then have "unat (c + n mod hash_prime) = unat c + unat n mod 1073741789"
    using n by (simp add: unat_plus_if')
  then show "unat ((c + ucast (ucast (n mod hash_prime) :: u64)) mod hash_prime) = (unat c + unat n) mod 1073741789"
    by (simp add: unat_mod p mod_simps)
  show "(c + ucast (ucast (n mod hash_prime) :: u64)) mod hash_prime < hash_prime"
    by (simp add: word_less_nat_alt unat_mod p)
qed

definition bounded_counts :: "instr_histogram \<Rightarrow> bool" where
  "bounded_counts h \<longleftrightarrow> wf_map (histogram h) \<and> (\<forall>i n. map_of (histogram h) i = Some n \<longrightarrow> n < hash_prime)"

definition count_in :: "instr_histogram \<Rightarrow> u32 \<Rightarrow> nat" where
  "count_in h i = (case map_of (histogram h) i of None \<Rightarrow> 0 | Some n \<Rightarrow> unat n)"

lemma merge_entry_entries:
  assumes "bounded_counts h"
  shows "bounded_counts (hist_merge_entry True (i, n) h) \<and>
    map_of (histogram (hist_merge_entry True (i, n) h)) =
      (map_of (histogram h))(i \<mapsto> of_nat ((count_in h i + unat n) mod 1073741789))"
proof -
  let ?c = "case map_of (histogram h) i of None \<Rightarrow> 0 | Some c \<Rightarrow> c"
  let ?v = "(?c + ucast (ucast (n mod hash_prime) :: u64)) mod hash_prime"
  have wf: "wf_map (histogram h)" using assms by (simp add: bounded_counts_def)
  have c: "?c < hash_prime" "unat ?c = count_in h i"
    using assms by (auto simp: bounded_counts_def count_in_def hash_prime_def split: option.split)
  have v: "?v = of_nat ((count_in h i + unat n) mod 1073741789)" "?v < hash_prime"
  proof -
    have "?v = of_nat (unat ?v)" by simp
    then show "?v = of_nat ((count_in h i + unat n) mod 1073741789)" by (simp only: residue_sum(1) [OF c(1), of n] c(2))
    show "?v < hash_prime" by (rule residue_sum(2) [OF c(1)])
  qed
  note add = hist_add_entries [OF wf, of i "ucast (n mod hash_prime)"]
  have eq: "histogram (hist_merge_entry True (i, n) h) = map_put i ?v (histogram (hist_add i (ucast (n mod hash_prime)) h))"
    using add by (simp add: hist_merge_entry_def Let_def)
  show ?thesis
    unfolding bounded_counts_def eq
    using add v assms by (auto simp: map_of_put wf_map_put bounded_counts_def)
qed

lemma merge_entries:
  assumes "bounded_counts h" "wf_map m"
  shows "bounded_counts (fold (hist_merge_entry True) m h) \<and>
    map_of (histogram (fold (hist_merge_entry True) m h)) i =
      (case map_of m i of
         None \<Rightarrow> map_of (histogram h) i
       | Some n \<Rightarrow> Some (of_nat ((count_in h i + unat n) mod 1073741789)))"
  using assms
proof (induction m arbitrary: h)
  case (Cons e m)
  obtain j n where e: "e = (j, n)" by (cases e)
  have m: "wf_map m" "map_of m j = None" using Cons.prems(2) e by (auto simp: wf_map_Cons map_of_None_iff)
  note step = merge_entry_entries [OF Cons.prems(1), of j n]
  show ?case using Cons.IH [OF step [THEN conjunct1] m(1)] step e m(2)
    by (auto simp: count_in_def split: option.splits)
qed simp

definition counts_of :: "instr_histogram list \<Rightarrow> u32 \<Rightarrow> nat list" where
  "counts_of hs i = map unat (List.map_filter (\<lambda>h. map_of (histogram h) i) hs)"

definition merged_count :: "instr_histogram list \<Rightarrow> u32 \<Rightarrow> u32 option" where
  "merged_count hs i = (if counts_of hs i = [] then None else Some (of_nat (sum_list (counts_of hs i) mod 1073741789)))"

lemma merged_entries:
  assumes "\<forall>h \<in> set hs. wf_map (histogram h)"
  shows "bounded_counts (fold (hist_merge True) hs (new_histogram k name)) \<and>
    map_of (histogram (fold (hist_merge True) hs (new_histogram k name))) i = merged_count hs i"
  using assms
proof (induction hs rule: rev_induct)
  case Nil
  then show ?case by (simp add: new_histogram_def bounded_counts_def merged_count_def counts_of_def map_filter_simps)
next
  case (snoc h hs)
  let ?m = "fold (hist_merge True) hs (new_histogram k name)"
  have IH: "bounded_counts ?m" "map_of (histogram ?m) i = merged_count hs i" using snoc by auto
  have "(sum_list (counts_of hs i) mod 1073741789) < 2 ^ 32"
  proof -
    have "sum_list (counts_of hs i) mod 1073741789 < 1073741789" by simp
    then show ?thesis by simp
  qed
  then have c: "count_in ?m i = sum_list (counts_of hs i) mod 1073741789"
    using IH(2) by (auto simp: count_in_def merged_count_def unat_of_nat)
  have filter: "counts_of (hs @ [h]) i = counts_of hs i @ (case map_of (histogram h) i of None \<Rightarrow> [] | Some n \<Rightarrow> [unat n])"
    by (simp add: counts_of_def List.map_filter_def split: option.split)
  show ?case
    using merge_entries [OF IH(1), of "histogram h" i] snoc.prems IH(2) c filter
    by (auto simp: hist_merge_def [of True h] merged_count_def mod_simps split: option.splits)
qed

lemma merged_name:
  "hist_name (fold (hist_merge b) hs h) = hist_name h" "hist_id (fold (hist_merge b) hs h) = hist_id h"
proof -
  have entry: "hist_name (hist_merge_entry b e h) = hist_name h" "hist_id (hist_merge_entry b e h) = hist_id h" for e h
    by (auto simp: hist_merge_entry_def hist_add_def Let_def split: prod.split)
  have "hist_name (fold (hist_merge_entry b) m h) = hist_name h \<and> hist_id (fold (hist_merge_entry b) m h) = hist_id h" for m h
    by (induction m arbitrary: h) (simp_all add: entry)
  then show "hist_name (fold (hist_merge b) hs h) = hist_name h" "hist_id (fold (hist_merge b) hs h) = hist_id h"
    by (induction hs arbitrary: h) (simp_all add: hist_merge_def)
qed

text \<open>C32. Merging with the hash: the merged histogram of the launches of a kernel has exactly the
  instructions one of them has, each with the sum of its counts modulo the prime; nothing overflows.
  Two runs therefore differ at an instruction exactly when one of them has not executed it or the sums differ modulo the prime.\<close>

theorem merged_histogram_exact:
  assumes "\<forall>h \<in> set hs. wf_map (histogram h)" "\<forall>h \<in> set hs'. wf_map (histogram h)"
  shows "map_of (histogram (fold (hist_merge True) hs (new_histogram k name))) i = merged_count hs i \<and>
    map_of (find_spinlock (fold (hist_merge True) hs (new_histogram k name))
        (fold (hist_merge True) hs' (new_histogram k' name'))) i =
      differing (merged_count hs i) (merged_count hs' i)"
  using merged_entries [OF assms(1), of k name i] merged_entries [OF assms(2), of k' name' i]
    find_spinlock_exact [of "fold (hist_merge True) hs (new_histogram k name)"
      "fold (hist_merge True) hs' (new_histogram k' name')" i]
  by (simp add: bounded_counts_def)

definition sample_histogram :: "u32 \<Rightarrow> instr_histogram" where
  "sample_histogram n = \<lparr>hist_id = 0, hist_name = ''lock'', histogram = [(3, n), (5, 32)]\<rparr>"

text \<open>Counts whose sum is beyond 32 bits, and a run that spun more often at instruction 3.\<close>

theorem merged_histogram_exact_witness:
  "map_of (histogram (fold (hist_merge True) [sample_histogram 4294967295, sample_histogram 5] (new_histogram 0 ''lock''))) 3 =
     Some 144 \<and>
   map_of (find_spinlock (fold (hist_merge True) [sample_histogram 64] (new_histogram 0 ''lock''))
     (fold (hist_merge True) [sample_histogram 96] (new_histogram 0 ''lock''))) 3 = Some (64, 96)"
proof -
  have wf: "wf_map (histogram (sample_histogram n))" for n by (simp add: sample_histogram_def wf_map_def)
  have c: "merged_count [sample_histogram 4294967295, sample_histogram 5] 3 = Some 144"
    "merged_count [sample_histogram 64] 3 = Some 64" "merged_count [sample_histogram 96] 3 = Some 96"
    by (simp_all add: merged_count_def counts_of_def sample_histogram_def map_filter_simps)
  show ?thesis
    using merged_histogram_exact [of "[sample_histogram 4294967295, sample_histogram 5]" "[]" 0 "''lock''" 3]
      merged_histogram_exact [of "[sample_histogram 64]" "[sample_histogram 96]" 0 "''lock''" 3 0 "''lock''"]
    by (simp add: wf c differing_def)
qed

end
