(* ===== verification/Spinlock_Tool.thy ===== *)
theory Spinlock_Tool
  imports Spinlock_Histogram Instrumentation
begin

text \<open>
  The spin loop detector (\<^verbatim>\<open>others/spinlock_tool\<close>): a program is run twice with every instruction
  counted, the counts of the launches of a kernel are merged, and the instructions whose counts differ
  between the runs are written to a file the tracer reads for its fast-forwarding.  A directory is the
  sequence of its files; the order in which a file system lists them is unspecified, the model lists
  files by name and contexts by number.
\<close>

section \<open>Counting\<close>

text \<open>The packet of a warp: the lanes whose predicate holds, and one for the warp.\<close>

type_synonym instr_count = "u32 \<times> u32"

definition count_instr :: "u32 \<Rightarrow> warp_state \<Rightarrow> instr_count" where
  "count_instr i w = (i, of_nat (length (filter (bit (predicate_ballot w)) [0..<32])) + 1)"

text \<open>The calls of the instructions of a function: the index is all they pass on; \<open>CALL.REL.NOINC\<close> is
  not skipped.\<close>

record 'f spin_instrumentation =
  spin_opcodes :: opcode_maps
  spin_instrumented :: "'f list"
  spin_calls :: "('f \<times> u32) list"

definition spin_instrument_instr ::
  "instr_interval \<Rightarrow> 'f \<Rightarrow> instr \<Rightarrow> u32 \<times> 'f spin_instrumentation \<Rightarrow> u32 \<times> 'f spin_instrumentation"
where
  "spin_instrument_instr ivl f i = (\<lambda>(cnt, st).
     if cnt < instr_begin_interval ivl \<or> cnt \<ge> instr_end_interval ivl then (cnt + 1, st)
     else (cnt + 1, st\<lparr>spin_opcodes := snd (intern_opcode (getOpcode i) (spin_opcodes st)),
                       spin_calls := spin_calls st @ [(f, getIdx i)]\<rparr>))"

definition spin_instrument_function_if_needed ::
  "instr_interval \<Rightarrow> ('f \<Rightarrow> instr list) \<Rightarrow> ('f \<Rightarrow> 'f list) \<Rightarrow> 'f \<Rightarrow> 'f spin_instrumentation \<Rightarrow> 'f spin_instrumentation"
where
  "spin_instrument_function_if_needed ivl instrs_of related func =
     fold (\<lambda>f st.
       if f \<in> set (spin_instrumented st) then st
       else snd (fold (spin_instrument_instr ivl f) (instrs_of f)
              (0, st\<lparr>spin_instrumented := spin_instrumented st @ [f]\<rparr>)))
       (related func @ [func])"

section \<open>Files\<close>

type_synonym files = "(string, string) std_map"

text \<open>The directory \<^verbatim>\<open>spinlock_detection\<close>: \<^verbatim>\<open>ctx_<id>/spinlock_run_<phase>\<close>,
  \<^verbatim>\<open>spinlock_run_<phase>_merged\<close> and \<^verbatim>\<open>spinlock_instructions.txt\<close>.\<close>

record detection =
  ctx_runs :: "(int \<times> int, files) std_map"
  merged_runs :: "(int, files) std_map"
  spinlock_instructions :: "string option"

definition histogram_file :: "u32 \<Rightarrow> string" where
  "histogram_file i = ''kernel-'' @ show_u32 i @ ''.histogram''"

definition file_extension :: "string \<Rightarrow> string" where
  "file_extension name =
     (case find_index (\<lambda>c. c = CHR ''.'') (rev name) of
        None \<Rightarrow> []
      | Some i \<Rightarrow> if Suc i = length name then [] else drop (length name - Suc i) name)"

definition is_histogram_file :: "string \<Rightarrow> bool" where
  "is_histogram_file name \<longleftrightarrow> file_extension name = ''.histogram''"

section \<open>Contexts\<close>

text \<open>A null pointer in the map is \<open>None\<close>.  The state of a context that has ended is freed and stays
  in the map.\<close>

record ctx_state =
  ctx_number :: int
  launch_histogram :: "instr_histogram option"
  kernel_receiving_done :: bool
  ctx_freed :: bool

record spin_tool =
  ctx_state_map :: "(u64, ctx_state option) std_map"
  global_grid_launch_id :: u64
  skip_callback :: bool
  detected :: detection

record spin_options =
  spinlock_phase :: int
  keep_intermediate :: bool

definition get_ctx :: "u64 \<Rightarrow> spin_tool \<Rightarrow> ctx_state res" where
  "get_ctx ctx t =
     (case map_of (ctx_state_map t) ctx of
        Some (Some s) \<Rightarrow> guard (\<not> ctx_freed s) Undefined_Behaviour (Inr s)
      | _ \<Rightarrow> Inl Undefined_Behaviour)"

definition put_ctx :: "u64 \<Rightarrow> ctx_state \<Rightarrow> spin_tool \<Rightarrow> spin_tool" where
  "put_ctx ctx s t = t\<lparr>ctx_state_map := map_put ctx (Some s) (ctx_state_map t)\<rparr>"

definition spin_ctx_init :: "u64 \<Rightarrow> spin_tool \<Rightarrow> spin_tool res" where
  "spin_ctx_init ctx t =
     guard (map_of (ctx_state_map t) ctx = None) Assertion_Failed
       (Inr (put_ctx ctx \<lparr>ctx_number = 0, launch_histogram = None, kernel_receiving_done = False, ctx_freed = False\<rparr> t))"

definition spin_tool_init :: "u64 \<Rightarrow> spin_tool \<Rightarrow> spin_tool res" where
  "spin_tool_init ctx t =
     guard (map_of (ctx_state_map t) ctx \<noteq> None) Assertion_Failed
       (rbind (get_ctx ctx t) (\<lambda>s.
          Inr (put_ctx ctx (s\<lparr>ctx_number := int (length (ctx_state_map t)) - 1\<rparr>) t)))"

definition spin_ctx_term :: "u64 \<Rightarrow> spin_tool \<Rightarrow> spin_tool res" where
  "spin_ctx_term ctx t =
     guard (map_of (ctx_state_map t) ctx \<noteq> None) Assertion_Failed
       (rbind (get_ctx ctx t) (\<lambda>s. Inr (put_ctx ctx (s\<lparr>ctx_freed := True\<rparr>) (t\<lparr>skip_callback := False\<rparr>))))"

section \<open>Launches\<close>

text \<open>\<open>only_recorded\<close>: the launch is captured or the node of a graph is built.\<close>

definition spin_enter :: "u64 \<Rightarrow> string \<Rightarrow> bool \<Rightarrow> spin_tool \<Rightarrow> spin_tool res" where
  "spin_enter ctx name only_recorded t =
     rbind (get_ctx ctx t) (\<lambda>s.
       let i = ucast (global_grid_launch_id t);
           h = (case launch_histogram s of None \<Rightarrow> new_histogram i name | Some h \<Rightarrow> hist_reinit i name h) in
       Inr (put_ctx ctx (s\<lparr>launch_histogram := Some h, kernel_receiving_done := False\<rparr>)
         (t\<lparr>global_grid_launch_id := global_grid_launch_id t + (if only_recorded then 0 else 1)\<rparr>)))"

text \<open>The receiving thread, for the packets of one buffer of the channel; the index \<open>UINT32_MAX\<close> marks
  the end of a kernel.\<close>

fun receive_counts :: "instr_count list \<Rightarrow> ctx_state \<Rightarrow> ctx_state res" where
  "receive_counts [] s = Inr s"
| "receive_counts ((i, n) # ps) s =
     (if i = u32_max then Inr (s\<lparr>kernel_receiving_done := True\<rparr>)
      else
        rbind (deref (launch_histogram s)) (\<lambda>h.
          receive_counts ps (s\<lparr>launch_histogram := Some (hist_add i (ucast n) h)\<rparr>)))"

text \<open>A launch is left: the packets of the kernel and the marker are received, then the histogram is
  saved under its number.\<close>

definition save_histogram :: "int \<Rightarrow> int \<Rightarrow> instr_histogram \<Rightarrow> detection \<Rightarrow> detection" where
  "save_histogram ctx phase h d =
     (let old = (case map_of (ctx_runs d) (ctx, phase) of None \<Rightarrow> [] | Some fs \<Rightarrow> fs) in
      d\<lparr>ctx_runs := map_put (ctx, phase) (map_put (histogram_file (hist_id h)) (serialize h) old) (ctx_runs d)\<rparr>)"

definition spin_leave :: "spin_options \<Rightarrow> u64 \<Rightarrow> instr_count list \<Rightarrow> spin_tool \<Rightarrow> spin_tool res" where
  "spin_leave opt ctx packets t =
     rbind (get_ctx ctx t) (\<lambda>s.
     rbind (receive_counts (packets @ [(u32_max, 0)]) s) (\<lambda>s.
     rbind (deref (launch_histogram s)) (\<lambda>h.
       Inr (put_ctx ctx s (t\<lparr>detected := save_histogram (ctx_number s) (spinlock_phase opt) h (detected t)\<rparr>)))))"

datatype spin_event =
    Spin_Launch string bool
  | Spin_Graph_Node string
  | Spin_Graph_Launch
  | Spin_Other

definition spin_event :: "spin_options \<Rightarrow> u64 \<Rightarrow> bool \<Rightarrow> instr_count list \<Rightarrow> spin_event \<Rightarrow> spin_tool \<Rightarrow> spin_tool res" where
  "spin_event opt ctx is_exit packets ev t =
     (if skip_callback t then Inr t
      else
        let t = t\<lparr>ctx_state_map := map_insert ctx None (ctx_state_map t)\<rparr> in
        case ev of
          Spin_Launch name captured \<Rightarrow>
            if \<not> is_exit then spin_enter ctx name captured t
            else if captured then Inr t
            else spin_leave opt ctx packets t
        | Spin_Graph_Node name \<Rightarrow> if \<not> is_exit then spin_enter ctx name True t else Inr t
        | Spin_Graph_Launch \<Rightarrow>
            if is_exit then
              rbind (get_ctx ctx t) (\<lambda>s.
              rbind (receive_counts (packets @ [(u32_max, 0)]) s) (\<lambda>s. Inr (put_ctx ctx s t)))
            else Inr t
        | Spin_Other \<Rightarrow> Inr t)"

definition spin_graph_node_launch :: "spin_tool \<Rightarrow> spin_tool" where
  "spin_graph_node_launch t = t\<lparr>global_grid_launch_id := global_grid_launch_id t + 1\<rparr>"

section \<open>The end of a run\<close>

text \<open>The histograms of the run's phase, by the names of the kernels.\<close>

definition load_run_file ::
  "string \<times> string \<Rightarrow> (string, instr_histogram list) std_map \<Rightarrow> (string, instr_histogram list) std_map res"
where
  "load_run_file = (\<lambda>(name, data) m.
     if is_histogram_file name then
       rbind (deserialize data dummy_histogram) (\<lambda>h.
         Inr (map_put (hist_name h) ((case map_of m (hist_name h) of None \<Rightarrow> [] | Some hs \<Rightarrow> hs) @ [h]) m))
     else Inr m)"

definition ctx_ids :: "detection \<Rightarrow> int list" where
  "ctx_ids d = sort (remdups (map (fst \<circ> fst) (ctx_runs d)))"

definition load_runs :: "int \<Rightarrow> detection \<Rightarrow> (string, instr_histogram list) std_map res" where
  "load_runs phase d =
     foldM (\<lambda>c m.
       case map_of (ctx_runs d) (c, phase) of
         None \<Rightarrow> Inl Aborted
       | Some fs \<Rightarrow> foldM load_run_file fs m) (ctx_ids d) []"

definition merge_runs :: "(string, instr_histogram list) std_map \<Rightarrow> instr_histogram list" where
  "merge_runs m =
     map (\<lambda>(k, name, hs). fold (hist_merge True) hs (new_histogram (of_nat k) name)) (List.enumerate 0 m)"

definition save_merged :: "int \<Rightarrow> instr_histogram list \<Rightarrow> detection \<Rightarrow> detection" where
  "save_merged phase hs d =
     (let old = (case map_of (merged_runs d) phase of None \<Rightarrow> [] | Some fs \<Rightarrow> fs) in
      d\<lparr>merged_runs :=
          map_put phase (fold (\<lambda>h. map_put (histogram_file (hist_id h)) (serialize h)) hs old) (merged_runs d)\<rparr>)"

text \<open>The comparison of the two runs.  A kernel the second run has not is an exception of \<open>at\<close>.\<close>

definition load_merged_file ::
  "string \<times> string \<Rightarrow> (string, instr_histogram) std_map \<Rightarrow> (string, instr_histogram) std_map res"
where
  "load_merged_file = (\<lambda>(name, data) m.
     if is_histogram_file name then
       rbind (deserialize data dummy_histogram) (\<lambda>h. Inr (map_insert (hist_name h) h m))
     else Inr m)"

definition load_merged :: "int \<Rightarrow> detection \<Rightarrow> (string, instr_histogram) std_map res" where
  "load_merged phase d =
     (case map_of (merged_runs d) phase of
        None \<Rightarrow> Inl Assertion_Failed
      | Some fs \<Rightarrow> foldM load_merged_file fs [])"

definition spinlock_line :: "instr_histogram \<Rightarrow> string \<Rightarrow> instr_histogram \<Rightarrow> string" where
  "spinlock_line h name other =
     show_u32 (hist_id h) @ '', '' @ name @ '': '' @
     concat (map (\<lambda>(i, _). show_u32 i @ '' '') (find_spinlock h other)) @ [newline]"

definition spinlock_check :: "spin_options \<Rightarrow> detection \<Rightarrow> detection res" where
  "spinlock_check opt d =
     rbind (load_merged 0 d) (\<lambda>run0.
     rbind (load_merged 1 d) (\<lambda>run1.
     guard (length run0 = length run1) Assertion_Failed
       (rbind (foldM (\<lambda>(name, h) out.
           case map_of run1 name of
             None \<Rightarrow> Inl Out_Of_Range
           | Some other \<Rightarrow> Inr (out @ spinlock_line h name other)) run0 []) (\<lambda>out.
         Inr (if keep_intermediate opt then d\<lparr>spinlock_instructions := Some out\<rparr>
              else \<lparr>ctx_runs = [], merged_runs = [], spinlock_instructions = Some out\<rparr>)))))"

definition spin_at_term :: "spin_options \<Rightarrow> detection \<Rightarrow> detection res" where
  "spin_at_term opt d =
     rbind (load_runs (spinlock_phase opt) d) (\<lambda>m.
       let d = save_merged (spinlock_phase opt) (merge_runs m) d in
       if spinlock_phase opt = 1 then spinlock_check opt d else Inr d)"

section \<open>The tracer's side\<close>

text \<open>What the tracer reads at its start.\<close>

definition load_spinlock_instructions :: "string \<Rightarrow> (string, u32 list) std_map res" where
  "load_spinlock_instructions data =
     foldM (\<lambda>line m. rbind (parse_spinlock_instructions line) (\<lambda>(name, is). Inr (map_put name is m)))
       (split_at newline data) []"


section \<open>The line of a kernel, written and read\<close>

lemma find_first_of_append:
  assumes "c \<notin> set u"
  shows "find_first_of [c] (u @ c # v) = Some (length u)"
  using assms by (induction u) (auto simp: find_first_of_def)

lemma length_digits_of: "length (digits_of n) \<le> Suc n"
proof (induction n rule: digits_of.induct)
  case (1 n)
  show ?case
  proof (cases "n < 10")
    case False
    with 1 have "length (digits_of (n div 10)) \<le> Suc (n div 10)" by simp
    moreover have "Suc (Suc (n div 10)) \<le> Suc n" using False by simp
    ultimately show ?thesis using False by (subst digits_of.simps) simp
  qed (subst digits_of.simps, simp)
qed

lemma split_at_ended:
  assumes "list_all (\<lambda>l. c \<notin> set l) ls" "c \<notin> set l" "l \<noteq> []"
  shows "split_at c (concat (map (\<lambda>l. l @ [c]) ls) @ l) = ls @ [l]"
  using assms(1)
proof (induction ls)
  case Nil
  have "\<forall>x \<in> set l. x \<noteq> c" using assms(2) by auto
  then have t: "takeWhile (\<lambda>x. x \<noteq> c) l = l" "dropWhile (\<lambda>x. x \<noteq> c) l = []"
    by (simp_all add: takeWhile_eq_all_conv)
  have "split_at c l = [l]"
    by (subst split_at.simps) (simp only: t assms(3) if_False list.sel split_at_Nil)
  then show ?case by simp
qed (simp add: split_at_terminated)

abbreviation spaced_indices :: "u32 list \<Rightarrow> string" where
  "spaced_indices is \<equiv> concat (map (\<lambda>i. show_u32 i @ '' '') is)"

lemma digits_ends: "\<not> is_space (hd (digits_of n))" "\<not> is_space (last (digits_of n))" "digits_of n \<noteq> []"
  using digits_of_digits [of n] by (auto simp: list_all_iff digit_no_space)

lemma trim_indices:
  "trim_string ('' '' @ spaced_indices []) = []"
  "trim_string ('' '' @ spaced_indices (is @ [j])) = spaced_indices is @ show_u32 j"
proof -
  show "trim_string ('' '' @ spaced_indices []) = []" by (simp add: trim_string_def)
  have ends: "hd (digits_of n) \<noteq> CHR '' ''" "last (digits_of n) \<noteq> CHR '' ''" for n
    using digits_ends [of n] space_is_space by auto
  have "dropWhile (\<lambda>c. c = CHR '' '') ('' '' @ spaced_indices (is @ [j])) = spaced_indices (is @ [j])"
  proof (cases "is")
    case Nil
    then show ?thesis using ends(1) [of "unat j"] digits_ends(3) [of "unat j"]
      by (cases "digits_of (unat j)") (auto simp: show_u32_digits)
  next
    case (Cons i is')
    then show ?thesis using ends(1) [of "unat i"] digits_ends(3) [of "unat i"]
      by (cases "digits_of (unat i)") (auto simp: show_u32_digits)
  qed
  moreover have "dropWhile (\<lambda>c. c = CHR '' '') (rev (spaced_indices (is @ [j]))) = rev (spaced_indices is @ show_u32 j)"
    using ends(2) [of "unat j"] digits_ends(3) [of "unat j"]
    by (cases "digits_of (unat j)" rule: rev_cases) (auto simp: show_u32_digits)
  ultimately show "trim_string ('' '' @ spaced_indices (is @ [j])) = spaced_indices is @ show_u32 j"
    by (simp add: trim_string_def)
qed

lemma split_indices: "split_at (CHR '' '') (trim_string ('' '' @ spaced_indices is)) = map show_u32 is"
proof (cases "is" rule: rev_cases)
  case Nil
  then show ?thesis using trim_indices(1) by simp
next
  case (snoc js j)
  have blank: "CHR '' '' \<notin> set (show_u32 i)" for i
    by (simp add: show_u32_digits is_digit_def)
  have "split_at (CHR '' '') (concat (map (\<lambda>l. l @ '' '') (map show_u32 js)) @ show_u32 j) = map show_u32 js @ [show_u32 j]"
    by (rule split_at_ended) (use blank digits_ends(3) in \<open>auto simp: list_all_iff show_u32_digits\<close>)
  then show ?thesis using trim_indices(2) [of js j] snoc by (simp add: comp_def)
qed

lemma read_indices:
  assumes "\<forall>i \<in> set is. unat i < 2 ^ 31"
  shows "foldM (\<lambda>w is. rbind (stoi w) (\<lambda>n. Inr (is @ [word_of_int n]))) (map show_u32 is) acc = Inr (acc @ is)"
  using assms
proof (induction "is" arbitrary: acc)
  case (Cons i "is")
  then have "unat i < 2 ^ 31" by simp
  then have "int (unat i) < int (2 ^ 31)" by (simp only: of_nat_less_iff)
  then have "int (unat i) < 2 ^ 31" by simp
  from stoi_digits_of [OF this] have "stoi (show_u32 i) = Inr (uint i)" by (simp add: show_u32_digits)
  with Cons show ?case by simp
qed simp

definition kernel_name_ok :: "string \<Rightarrow> bool" where
  "kernel_name_ok name \<longleftrightarrow>
     name_ok name \<and> CHR '','' \<notin> set name \<and> CHR '':'' \<notin> set name \<and> length name < 2 ^ 32"

lemma parse_spinlock_line:
  assumes "kernel_name_ok name" "\<forall>i \<in> set is. unat i < 2 ^ 31"
  shows "parse_spinlock_instructions (show_u32 k @ '', '' @ name @ '': '' @ spaced_indices is) = Inr (name, is)"
proof -
  let ?id = "show_u32 k" and ?rest = "'' '' @ spaced_indices is"
  let ?line = "?id @ '', '' @ name @ '': '' @ spaced_indices is"
  have id: "CHR '':'' \<notin> set ?id" "CHR '','' \<notin> set ?id" "length ?id \<le> 2 ^ 32"
    using length_digits_of [of "unat k"] unsigned_less [of k, where 'a = nat]
    by (simp_all add: show_u32_digits is_digit_def)
  have name: "CHR '','' \<notin> set name" "CHR '':'' \<notin> set name" "length name < 2 ^ 32"
    using assms(1) by (simp_all add: kernel_name_ok_def)
  have comma: "find_first_of '','' ?line = Some (length ?id)"
    using find_first_of_append [of "CHR '',''" ?id "'' '' @ name @ '': '' @ spaced_indices is"] id by simp
  have colon: "find_first_of '':'' ?line = Some (length ?id + 2 + length name)"
    using find_first_of_append [of "CHR '':''" "?id @ '', '' @ name" ?rest] id name by simp
  have len: "nat ((int (length ?id + 2 + length name) - int (length ?id) - 2) mod 2 ^ 64) = length name"
    "(length ?id + 2) mod 2 ^ 64 = length ?id + 2" "(length ?id + 2 + length name + 1) mod 2 ^ 64 = length ?id + 2 + length name + 1"
    using id name by simp_all
  have "substr (length ?id + 2) (length name) ?line = Inr name" by (simp add: substr_def)
  moreover have "foldM (\<lambda>w is. rbind (stoi w) (\<lambda>n. Inr (is @ [word_of_int n]))) (map show_u32 is) [] = Inr is"
    using read_indices [OF assms(2), of "[]"] by simp
  moreover have "substr (length ?id + 2 + length name + 1) (length ?line) ?line = Inr ?rest"
  proof -
    have front: "?line = (?id @ '', '' @ name @ '':'') @ ?rest"
      "length ?id + 2 + length name + 1 = length (?id @ '', '' @ name @ '':'')" by simp_all
    show ?thesis unfolding front by (simp add: substr_def del: append_assoc)
  qed
  ultimately show ?thesis
    by (simp only: parse_spinlock_instructions_def Let_def comma colon pos64_def option.case len rbind.simps split_indices)
qed

section \<open>The histograms of a run\<close>

definition histogram_ok :: "instr_histogram \<Rightarrow> bool" where
  "histogram_ok h \<longleftrightarrow> name_ok (hist_name h) \<and> wf_map (histogram h)"

lemma deserialize_ok: "histogram_ok h \<Longrightarrow> deserialize (serialize h) h0 = Inr h"
  unfolding histogram_ok_def by (elim conjE) (rule deserialize_serialize)

definition by_name :: "instr_histogram list \<Rightarrow> (string, instr_histogram list) std_map" where
  "by_name hs =
     fold (\<lambda>h m. map_put (hist_name h) ((case map_of m (hist_name h) of None \<Rightarrow> [] | Some hs \<Rightarrow> hs) @ [h]) m) hs []"

definition launches_of :: "instr_histogram list \<Rightarrow> string \<Rightarrow> instr_histogram list" where
  "launches_of hs name = filter (\<lambda>h. hist_name h = name) hs"

lemma by_name_entries:
  "wf_map (by_name hs) \<and>
   map_of (by_name hs) name = (if launches_of hs name = [] then None else Some (launches_of hs name))"
proof (induction hs arbitrary: name rule: rev_induct)
  case Nil
  then show ?case by (simp add: by_name_def launches_of_def)
next
  case (snoc h hs)
  have "by_name (hs @ [h]) =
      map_put (hist_name h) ((case map_of (by_name hs) (hist_name h) of None \<Rightarrow> [] | Some hs \<Rightarrow> hs) @ [h]) (by_name hs)"
    by (simp add: by_name_def)
  with snoc show ?case by (auto simp: wf_map_put map_of_put launches_of_def split: option.splits)
qed

text \<open>The files of a phase are the texts of the histograms.\<close>

definition run_files :: "int \<Rightarrow> detection \<Rightarrow> files" where
  "run_files phase d =
     concat (map (\<lambda>c. case map_of (ctx_runs d) (c, phase) of None \<Rightarrow> [] | Some fs \<Rightarrow> fs) (ctx_ids d))"

definition run_holds :: "int \<Rightarrow> detection \<Rightarrow> instr_histogram list \<Rightarrow> bool" where
  "run_holds phase d hs \<longleftrightarrow>
     (\<forall>c \<in> set (ctx_ids d). map_of (ctx_runs d) (c, phase) \<noteq> None) \<and>
     list_all (\<lambda>f. is_histogram_file (fst f)) (run_files phase d) \<and>
     map snd (run_files phase d) = map serialize hs \<and> list_all histogram_ok hs"

lemma foldM_concat: "foldM (\<lambda>c. foldM f (g c)) cs m = foldM f (concat (map g cs)) m"
  by (induction cs arbitrary: m) (auto simp: foldM_append intro!: rbind_cong)

lemma foldM_cong: "(\<And>x s. x \<in> set xs \<Longrightarrow> f x s = g x s) \<Longrightarrow> foldM f xs s = foldM g xs s"
  by (induction xs arbitrary: s) (auto intro!: rbind_cong)

lemma load_run_files:
  assumes "list_all (\<lambda>f. is_histogram_file (fst f)) fs" "map snd fs = map serialize hs" "list_all histogram_ok hs"
  shows "foldM load_run_file fs m =
    Inr (fold (\<lambda>h m. map_put (hist_name h) ((case map_of m (hist_name h) of None \<Rightarrow> [] | Some hs \<Rightarrow> hs) @ [h]) m) hs m)"
  using assms
proof (induction fs arbitrary: hs m)
  case (Cons f fs)
  then obtain h hs' where hs: "hs = h # hs'" "snd f = serialize h" "map snd fs = map serialize hs'" by (cases hs) auto
  obtain name where f: "f = (name, serialize h)" using hs(2) by (cases f) auto
  have "deserialize (serialize h) dummy_histogram = Inr h"
    using Cons.prems(3) hs(1) by (intro deserialize_ok) simp
  then show ?case using Cons.IH [OF _ hs(3)] Cons.prems hs(1) f by (simp add: load_run_file_def)
qed simp

lemma load_runs_by_name:
  assumes "run_holds phase d hs"
  shows "load_runs phase d = Inr (by_name hs)"
proof -
  have "load_runs phase d = foldM (\<lambda>c. foldM load_run_file (case map_of (ctx_runs d) (c, phase) of None \<Rightarrow> [] | Some fs \<Rightarrow> fs))
      (ctx_ids d) []"
    unfolding load_runs_def
    by (rule foldM_cong) (use assms in \<open>auto simp: run_holds_def split: option.splits\<close>)
  then show ?thesis
    using assms load_run_files [of "run_files phase d" hs "[]"]
    by (simp add: foldM_concat run_files_def [symmetric] run_holds_def by_name_def)
qed


section \<open>The merged histograms\<close>

lemma histogram_file_name: "is_histogram_file (histogram_file i)"
  by (simp add: is_histogram_file_def file_extension_def histogram_file_def)

lemma histogram_file_inj:
  assumes "histogram_file i = histogram_file j"
  shows "i = j"
proof -
  have "show_u32 i = show_u32 j" using assms by (simp add: histogram_file_def)
  then have "int (unat i) = int (unat j)" using decimal_digits_of by (metis show_u32_digits)
  then show ?thesis by (simp add: word_uint_eq_iff)
qed

lemma merge_runs_nth:
  assumes "k < length m" "m ! k = (name, hs)"
  shows "merge_runs m ! k = fold (hist_merge True) hs (new_histogram (of_nat k) name)"
  using assms by (simp add: merge_runs_def nth_enumerate_eq)

lemma merge_runs_names: "map hist_name (merge_runs m) = map fst m"
  by (rule nth_equalityI)
    (auto simp: merge_runs_def nth_enumerate_eq merged_name new_histogram_def split: prod.split)

lemma merge_runs_ids: "map hist_id (merge_runs m) = map of_nat [0..<length m]"
  by (rule nth_equalityI)
    (auto simp: merge_runs_def nth_enumerate_eq merged_name new_histogram_def split: prod.split)

text \<open>Files with the texts of histograms of different numbers.\<close>

lemma saved_files:
  assumes "distinct (map hist_id hs)" "wf_map fs" "\<forall>h \<in> set hs. map_of fs (histogram_file (hist_id h)) = None"
  shows "wf_map (fold (\<lambda>h. map_put (histogram_file (hist_id h)) (serialize h)) hs fs) \<and>
    set (fold (\<lambda>h. map_put (histogram_file (hist_id h)) (serialize h)) hs fs) =
      set fs \<union> (\<lambda>h. (histogram_file (hist_id h), serialize h)) ` set hs"
  using assms
proof (induction hs arbitrary: fs)
  case (Cons h hs)
  let ?fs = "map_put (histogram_file (hist_id h)) (serialize h) fs"
  have wf: "wf_map ?fs" using Cons.prems(2) by (rule wf_map_put)
  have "map_of ?fs (histogram_file (hist_id h')) = None" if "h' \<in> set hs" for h'
  proof -
    have "hist_id h' \<noteq> hist_id h" 
    proof -
      have "hist_id h \<notin> hist_id ` set hs" using Cons.prems(1) by simp
      with that show ?thesis by (metis image_eqI)
    qed
    then show ?thesis using that Cons.prems(2,3) histogram_file_inj by (auto simp: map_of_put)
  qed
  note IH = Cons.IH [OF _ wf]
  have "set ?fs = insert (histogram_file (hist_id h), serialize h) (set fs)"
  proof -
    have "e \<in> set ?fs \<longleftrightarrow> e = (histogram_file (hist_id h), serialize h) \<or> e \<in> set fs" for e
      using Cons.prems(2,3) wf map_of_eq_Some_iff [OF wf_map_distinct [OF wf], of "fst e" "snd e"]
        map_of_eq_Some_iff [OF wf_map_distinct [OF Cons.prems(2)], of "fst e" "snd e"]
      by (cases e) (auto simp: map_of_put split: if_splits)
    then show ?thesis by blast
  qed
  with IH Cons.prems(1) \<open>\<And>h'. h' \<in> set hs \<Longrightarrow> map_of ?fs (histogram_file (hist_id h')) = None\<close> show ?case by auto
qed simp

lemma load_merged_files:
  assumes "\<forall>f \<in> set fs. \<exists>h \<in> H. histogram_ok h \<and> f = (histogram_file (hist_id h), serialize h)"
    and "\<forall>h \<in> H. \<forall>h' \<in> H. hist_name h = hist_name h' \<longrightarrow> h = h'"
    and "wf_map m" "\<forall>n h. map_of m n = Some h \<longrightarrow> h \<in> H \<and> hist_name h = n"
  shows "\<exists>r. foldM load_merged_file fs m = Inr r \<and> wf_map r \<and>
    (\<forall>n h. map_of r n = Some h \<longleftrightarrow>
       map_of m n = Some h \<or> (histogram_ok h \<and> h \<in> H \<and> hist_name h = n \<and> (histogram_file (hist_id h), serialize h) \<in> set fs))"
  using assms
proof (induction fs arbitrary: m)
  case (Cons f fs)
  then obtain h where h: "h \<in> H" "histogram_ok h" "f = (histogram_file (hist_id h), serialize h)" by auto
  have load: "load_merged_file f m = Inr (map_insert (hist_name h) h m)"
    using h by (simp add: load_merged_file_def histogram_file_name deserialize_ok)
  let ?m = "map_insert (hist_name h) h m"
  have m: "map_of ?m n = Some h' \<longleftrightarrow> map_of m n = Some h' \<or> (n = hist_name h \<and> h' = h)" for n h'
    using Cons.prems(2-4) h(1) by (auto simp: map_of_insert)
  have "wf_map ?m" "\<forall>n h. map_of ?m n = Some h \<longrightarrow> h \<in> H \<and> hist_name h = n"
    using Cons.prems(3,4) h(1) m by (auto intro: wf_map_insert)
  moreover have "\<forall>f \<in> set fs. \<exists>h \<in> H. histogram_ok h \<and> f = (histogram_file (hist_id h), serialize h)"
    using Cons.prems(1) by simp
  ultimately have "\<exists>r. foldM load_merged_file fs ?m = Inr r \<and> wf_map r \<and>
    (\<forall>n h. map_of r n = Some h \<longleftrightarrow>
       map_of ?m n = Some h \<or> (histogram_ok h \<and> h \<in> H \<and> hist_name h = n \<and> (histogram_file (hist_id h), serialize h) \<in> set fs))"
    by (intro Cons.IH Cons.prems(2))
  then obtain r where r: "foldM load_merged_file fs ?m = Inr r" "wf_map r"
    and r3: "\<forall>n h. map_of r n = Some h \<longleftrightarrow> map_of ?m n = Some h \<or>
       (histogram_ok h \<and> h \<in> H \<and> hist_name h = n \<and> (histogram_file (hist_id h), serialize h) \<in> set fs)"
    by (elim exE conjE)
  have inj: "h' = h" if "h' \<in> H" "histogram_ok h'" "serialize h' = serialize h" for h'
  proof -
    have "Inr h' = deserialize (serialize h') dummy_histogram" by (rule deserialize_ok [OF that(2), symmetric])
    also have "\<dots> = deserialize (serialize h) dummy_histogram" by (simp only: that(3))
    also have "\<dots> = Inr h" by (rule deserialize_ok [OF h(2)])
    finally show ?thesis by (rule sum.inject(2) [THEN iffD1])
  qed
  have e: "histogram_ok h' \<and> h' \<in> H \<and> hist_name h' = n \<and> (histogram_file (hist_id h'), serialize h') \<in> set (f # fs) \<longleftrightarrow>
      (n = hist_name h \<and> h' = h) \<or>
      (histogram_ok h' \<and> h' \<in> H \<and> hist_name h' = n \<and> (histogram_file (hist_id h'), serialize h') \<in> set fs)" for n h'
    
  proof (cases "h' = h")
    case True
    then show ?thesis using h by auto
  next
    case False
    then have "(histogram_file (hist_id h'), serialize h') \<noteq> f" if "histogram_ok h'" "h' \<in> H"
      using inj [OF that(2,1)] h(3) by auto
    with False show ?thesis by auto
  qed
  have "map_of r n = Some h' \<longleftrightarrow> map_of m n = Some h' \<or>
      (histogram_ok h' \<and> h' \<in> H \<and> hist_name h' = n \<and> (histogram_file (hist_id h'), serialize h') \<in> set (f # fs))" for n h'
    unfolding r3 [THEN spec, THEN spec, of n h'] m e [of h' n] by blast
  then show ?case using load r(1,2) by (intro exI [of _ r]) simp
qed simp

definition kernel_names :: "instr_histogram list \<Rightarrow> string set" where
  "kernel_names hs = hist_name ` set hs"

lemma launches_of_empty: "launches_of hs n = [] \<longleftrightarrow> n \<notin> kernel_names hs"
  by (auto simp: launches_of_def kernel_names_def filter_empty_conv)

lemma by_name_keys: "fst ` set (by_name hs) = kernel_names hs"
proof -
  have "n \<in> fst ` set (by_name hs) \<longleftrightarrow> n \<in> kernel_names hs" for n
    using by_name_entries [of hs n] map_of_eq_None_iff [of "by_name hs" n] launches_of_empty [of hs n]
    by (auto split: if_splits)
  then show ?thesis by blast
qed

lemma merged_member:
  assumes "h \<in> set (merge_runs (by_name hs))"
  obtains k where "h = fold (hist_merge True) (launches_of hs (hist_name h)) (new_histogram k (hist_name h))"
    "hist_name h \<in> kernel_names hs"
proof -
  from assms obtain k where k: "k < length (by_name hs)" "h = merge_runs (by_name hs) ! k"
    by (auto simp: in_set_conv_nth merge_runs_def)
  obtain name ls where e: "by_name hs ! k = (name, ls)" by force
  then have "(name, ls) \<in> set (by_name hs)" using k(1) by (metis nth_mem)
  then have "map_of (by_name hs) name = Some ls"
    using by_name_entries [of hs] by (intro map_of_is_SomeI) (simp_all add: wf_map_distinct)
  then have ls: "ls = launches_of hs name" "name \<in> kernel_names hs"
    using by_name_entries [of hs name] launches_of_empty [of hs name] by (auto split: if_splits)
  have h: "h = fold (hist_merge True) ls (new_histogram (of_nat k) name)" using merge_runs_nth [OF k(1) e] k(2) by simp
  moreover from h have "hist_name h = name" by (simp add: merged_name new_histogram_def)
  ultimately show ?thesis using that [of "of_nat k"] ls by simp
qed

definition summarises :: "(string, instr_histogram) std_map \<Rightarrow> instr_histogram list \<Rightarrow> bool" where
  "summarises r hs \<longleftrightarrow>
     wf_map r \<and> fst ` set r = kernel_names hs \<and>
     (\<forall>n h. map_of r n = Some h \<longrightarrow>
        wf_map (histogram h) \<and> (\<forall>i. map_of (histogram h) i = merged_count (launches_of hs n) i))"

text \<open>The merged histograms, saved and loaded again.\<close>

lemma load_saved:
  assumes "list_all histogram_ok hs" "length (by_name hs) < 2 ^ 32"
  shows "\<exists>r. foldM load_merged_file
      (fold (\<lambda>h. map_put (histogram_file (hist_id h)) (serialize h)) (merge_runs (by_name hs)) []) [] = Inr r \<and>
    summarises r hs"
proof -
  let ?ms = "merge_runs (by_name hs)"
  let ?fs = "fold (\<lambda>h. map_put (histogram_file (hist_id h)) (serialize h)) ?ms []"
  have good: "histogram_ok h \<and> (\<forall>i. map_of (histogram h) i = merged_count (launches_of hs (hist_name h)) i)" if "h \<in> set ?ms" for h
  proof -
    from that obtain k where k: "h = fold (hist_merge True) (launches_of hs (hist_name h)) (new_histogram k (hist_name h))"
      "hist_name h \<in> kernel_names hs" by (rule merged_member)
    have "\<forall>h \<in> set (launches_of hs (hist_name h)). wf_map (histogram h)"
      using assms(1) by (auto simp: launches_of_def list_all_iff histogram_ok_def)
    from merged_entries [OF this, of k "hist_name h"] have "wf_map (histogram h)"
      "\<forall>i. map_of (histogram h) i = merged_count (launches_of hs (hist_name h)) i"
      unfolding k(1) [symmetric] by (auto simp: bounded_counts_def)
    moreover have "name_ok (hist_name h)" using k(2) assms(1) by (auto simp: kernel_names_def list_all_iff histogram_ok_def)
    ultimately show ?thesis by (simp add: histogram_ok_def)
  qed
  have len: "length ?ms = length (by_name hs)" by (simp add: merge_runs_def)
  have "inj_on (of_nat :: nat \<Rightarrow> u32) {0..<length (by_name hs)}"
    using assms(2) by (auto simp: inj_on_def word_unat_eq_iff unat_of_nat)
  then have ids: "distinct (map hist_id ?ms)" by (simp add: merge_runs_ids distinct_map)
  have names: "distinct (map hist_name ?ms)"
    using by_name_entries [of hs] by (simp add: merge_runs_names wf_map_distinct)
  have fs: "set ?fs = (\<lambda>h. (histogram_file (hist_id h), serialize h)) ` set ?ms"
    using saved_files [OF ids wf_map_Nil] by simp
  have "\<exists>r. foldM load_merged_file ?fs [] = Inr r \<and> wf_map r \<and>
    (\<forall>n h. map_of r n = Some h \<longleftrightarrow>
       map_of [] n = Some h \<or> (histogram_ok h \<and> h \<in> set ?ms \<and> hist_name h = n \<and> (histogram_file (hist_id h), serialize h) \<in> set ?fs))"
  proof (rule load_merged_files)
    show "\<forall>f \<in> set ?fs. \<exists>h \<in> set ?ms. histogram_ok h \<and> f = (histogram_file (hist_id h), serialize h)"
      unfolding fs using good by blast
    show "\<forall>h \<in> set ?ms. \<forall>h' \<in> set ?ms. hist_name h = hist_name h' \<longrightarrow> h = h'"
      using names by (auto simp: distinct_map inj_on_def)
  qed simp_all
  then obtain r where r: "foldM load_merged_file ?fs [] = Inr r" "wf_map r"
    "\<forall>n h. map_of r n = Some h \<longleftrightarrow> (histogram_ok h \<and> h \<in> set ?ms \<and> hist_name h = n \<and> (histogram_file (hist_id h), serialize h) \<in> set ?fs)"
    by auto
  have r': "map_of r n = Some h \<longleftrightarrow> h \<in> set ?ms \<and> hist_name h = n" for n h
    using r(3) [THEN spec, THEN spec, of n h] good [of h] fs by blast
  have "fst ` set r = kernel_names hs"
  proof -
    have "n \<in> fst ` set r \<longleftrightarrow> n \<in> set (map hist_name ?ms)" for n
    proof -
      have "n \<in> fst ` set r \<longleftrightarrow> (\<exists>h. map_of r n = Some h)"
        using map_of_eq_None_iff [of r n] by (cases "map_of r n") auto
      then show ?thesis by (auto simp: r')
    qed
    then show ?thesis using by_name_keys [of hs] by (auto simp: merge_runs_names)
  qed
  then have "summarises r hs" using r(2) r' good by (auto simp: summarises_def histogram_ok_def)
  then show ?thesis using r(1) by blast
qed


section \<open>From two runs to the tracer\<close>

text \<open>The instructions of a kernel whose merged counts differ between the runs.\<close>

definition unstable :: "instr_histogram list \<Rightarrow> instr_histogram list \<Rightarrow> string \<Rightarrow> u32 set" where
  "unstable hs0 hs1 name = {i. merged_count (launches_of hs0 name) i \<noteq> merged_count (launches_of hs1 name) i}"

lemma find_spinlock_indices:
  assumes "wf_map (histogram h)" "wf_map (histogram h')"
    and "\<forall>i. map_of (histogram h) i = merged_count (launches_of hs0 name) i"
    and "\<forall>i. map_of (histogram h') i = merged_count (launches_of hs1 name) i"
  shows "map fst (find_spinlock h h') = sorted_list_of_set (unstable hs0 hs1 name)"
proof -
  have wf: "wf_map (find_spinlock h h')" using find_spinlock_exact [OF assms(1,2)] by blast
  have "i \<in> fst ` set (find_spinlock h h') \<longleftrightarrow> i \<in> unstable hs0 hs1 name" for i
    using find_spinlock_exact [OF assms(1,2), of i] map_of_eq_None_iff [of "find_spinlock h h'" i] assms(3,4)
    by (auto simp: unstable_def differing_def split: if_splits)
  then have "set (map fst (find_spinlock h h')) = unstable hs0 hs1 name" by auto
  moreover have "sorted (map fst (find_spinlock h h'))" "distinct (map fst (find_spinlock h h'))"
    using wf by (simp_all add: wf_map_def strict_sorted_iff)
  ultimately show ?thesis using sorted_list_of_set.idem_if_sorted_distinct by metis
qed

lemma read_spinlock_lines:
  assumes "\<forall>(name, h) \<in> set r0. kernel_name_ok name \<and> (\<forall>i \<in> set (map fst (find_spinlock h (g name))). unat i < 2 ^ 31)"
    and "wf_map r0" "wf_map m"
  shows "\<exists>m'. foldM (\<lambda>line m. rbind (parse_spinlock_instructions line) (\<lambda>(name, is). Inr (map_put name is m)))
      (map (\<lambda>(name, h). show_u32 (hist_id h) @ '', '' @ name @ '': '' @ spaced_indices (map fst (find_spinlock h (g name)))) r0) m =
      Inr m' \<and> wf_map m' \<and>
    (\<forall>n. map_of m' n = (case map_of r0 n of None \<Rightarrow> map_of m n | Some h \<Rightarrow> Some (map fst (find_spinlock h (g n)))))"
  using assms
proof (induction r0 arbitrary: m)
  case (Cons e r0)
  obtain name h where e: "e = (name, h)" by (cases e)
  have p: "parse_spinlock_instructions (show_u32 (hist_id h) @ '', '' @ name @ '': '' @
      spaced_indices (map fst (find_spinlock h (g name)))) = Inr (name, map fst (find_spinlock h (g name)))"
    by (rule parse_spinlock_line) (use Cons.prems(1) e in auto)
  have r0: "wf_map r0" "map_of r0 name = None" using Cons.prems(2) e by (auto simp: wf_map_Cons map_of_None_iff)
  let ?m = "map_put name (map fst (find_spinlock h (g name))) m"
  have "\<forall>(name, h) \<in> set r0. kernel_name_ok name \<and> (\<forall>i \<in> set (map fst (find_spinlock h (g name))). unat i < 2 ^ 31)"
    using Cons.prems(1) by simp
  from Cons.IH [OF this r0(1) wf_map_put [OF Cons.prems(3)]] obtain m' where m':
    "foldM (\<lambda>line m. rbind (parse_spinlock_instructions line) (\<lambda>(name, is). Inr (map_put name is m)))
      (map (\<lambda>(name, h). show_u32 (hist_id h) @ '', '' @ name @ '': '' @ spaced_indices (map fst (find_spinlock h (g name)))) r0) ?m = Inr m'"
    "wf_map m'"
    "\<forall>n. map_of m' n = (case map_of r0 n of None \<Rightarrow> map_of ?m n | Some h \<Rightarrow> Some (map fst (find_spinlock h (g n))))"
    by blast
  have "\<forall>n. map_of m' n = (case map_of (e # r0) n of None \<Rightarrow> map_of m n | Some h \<Rightarrow> Some (map fst (find_spinlock h (g n))))"
    using m'(3) r0(2) e by (auto simp: map_of_put_other split: option.split)
  moreover have "foldM (\<lambda>line m. rbind (parse_spinlock_instructions line) (\<lambda>(name, is). Inr (map_put name is m)))
      (map (\<lambda>(name, h). show_u32 (hist_id h) @ '', '' @ name @ '': '' @ spaced_indices (map fst (find_spinlock h (g name)))) (e # r0)) m = Inr m'"
    unfolding e list.map foldM.simps prod.case p rbind.simps by (rule m'(1))
  ultimately show ?case using m'(2) by blast
qed simp

definition merged_files :: "instr_histogram list \<Rightarrow> files" where
  "merged_files hs = fold (\<lambda>h. map_put (histogram_file (hist_id h)) (serialize h)) (merge_runs (by_name hs)) []"

lemma save_merged_runs:
  assumes "map_of (merged_runs d) phase = None"
  shows "merged_runs (save_merged phase (merge_runs (by_name hs)) d) = map_put phase (merged_files hs) (merged_runs d)"
  using assms by (simp add: save_merged_def merged_files_def)

lemma run_end:
  assumes "run_holds phase d hs" "map_of (merged_runs d) phase = None" "spinlock_phase opt = phase"
  shows "spin_at_term opt d = (if spinlock_phase opt = 1 then spinlock_check opt (save_merged phase (merge_runs (by_name hs)) d)
      else Inr (save_merged phase (merge_runs (by_name hs)) d))"
  using load_runs_by_name [OF assms(1)] assms(3) by (simp add: spin_at_term_def Let_def)

lemma spinlock_lines:
  assumes "\<forall>name \<in> fst ` set r0. map_of r1 name \<noteq> None"
  shows "foldM (\<lambda>(name, h) out. case map_of r1 name of
        None \<Rightarrow> Inl Out_Of_Range | Some other \<Rightarrow> Inr (out @ spinlock_line h name other)) r0 out =
    Inr (out @ concat (map (\<lambda>(name, h). spinlock_line h name (the (map_of r1 name))) r0))"
  using assms by (induction r0 arbitrary: out) (auto split: option.splits)

lemma wf_map_length:
  fixes r r' :: "('k::linorder, 'v) std_map"
  assumes "wf_map r" "wf_map r'" "fst ` set r = fst ` set r'"
  shows "length r = length r'"
  using assms distinct_card [of "map fst r"] distinct_card [of "map fst r'"] by (simp add: wf_map_distinct)

lemma spinlock_check_reads:
  assumes "load_merged 0 d = Inr r0" "load_merged 1 d = Inr r1" "summarises r0 hs0" "summarises r1 hs1"
    and names: "kernel_names hs0 = kernel_names hs1" "\<forall>name \<in> kernel_names hs0. kernel_name_ok name"
    and small: "\<forall>name. \<forall>i \<in> unstable hs0 hs1 name. unat i < 2 ^ 31"
  shows "\<exists>d' out m. spinlock_check opt d = Inr d' \<and> spinlock_instructions d' = Some out \<and>
    load_spinlock_instructions out = Inr m \<and>
    (\<forall>name. map_of m name =
       (if name \<in> kernel_names hs0 then Some (sorted_list_of_set (unstable hs0 hs1 name)) else None))"
proof -
  define g where "g = (\<lambda>name. the (map_of r1 name))"
  define line where "line = (\<lambda>(name, h). show_u32 (hist_id h) @ '', '' @ name @ '': '' @
    spaced_indices (map fst (find_spinlock h (g name))))"
  have r: "wf_map r0" "wf_map r1" "fst ` set r0 = kernel_names hs0" "fst ` set r1 = kernel_names hs1"
    using assms(3,4) by (auto simp: summarises_def)
  have there: "\<forall>name \<in> fst ` set r0. map_of r1 name \<noteq> None" using r(3,4) names(1) by (simp add: map_of_eq_None_iff)
  have keys: "map fst (find_spinlock h (g name)) = sorted_list_of_set (unstable hs0 hs1 name)" if "map_of r0 name = Some h" for name h
  proof -
    have "name \<in> fst ` set r0" using that map_of_eq_None_iff [of r0 name] by simp
    then obtain h' where "map_of r1 name = Some h'" using there by blast
    then show ?thesis using find_spinlock_indices [of h h' hs0 name hs1] that assms(3,4) by (simp add: summarises_def g_def)
  qed
  have entry: "map_of r0 name = Some h" if "(name, h) \<in> set r0" for name h
    using that r(1) by (intro map_of_is_SomeI) (simp_all add: wf_map_distinct)
  define out where "out = concat (map (\<lambda>l. l @ [newline]) (map line r0))"
  have "spinlock_line h name (g name) = line (name, h) @ [newline]" for name h
    by (simp add: spinlock_line_def line_def comp_def case_prod_unfold)
  then have out: "out = concat (map (\<lambda>(name, h). spinlock_line h name (g name)) r0)"
    by (simp add: out_def comp_def case_prod_unfold)
  have blank: "newline \<notin> set (spaced_indices is)" for "is" by (auto simp: show_u32_digits)
  have "newline \<notin> set (line e)" if "e \<in> set r0" for e
  proof -
    obtain name h where e: "e = (name, h)" by (cases e)
    then have "name \<in> kernel_names hs0" using that r(3) by force
    then have "newline \<notin> set name" using names(2) by (auto simp: kernel_name_ok_def name_ok_def list_all_iff is_dot_def)
    then show ?thesis unfolding e line_def prod.case using blank by (simp add: show_u32_digits)
  qed
  then have split: "split_at newline out = map line r0"
    unfolding out_def by (intro split_at_lines) (simp add: list_all_iff)
  have pre: "\<forall>(name, h) \<in> set r0. kernel_name_ok name \<and> (\<forall>i \<in> set (map fst (find_spinlock h (g name))). unat i < 2 ^ 31)"
  proof (clarsimp simp only: split_paired_all)
    fix name h
    assume e: "(name, h) \<in> set r0"
    then have "name \<in> kernel_names hs0" using r(3) by force
    then show "kernel_name_ok name \<and> (\<forall>i \<in> set (map fst (find_spinlock h (g name))). unat i < 2 ^ 31)"
      using names(2) small keys [OF entry [OF e]] by simp
  qed
  obtain m where m: "foldM (\<lambda>line m. rbind (parse_spinlock_instructions line) (\<lambda>(name, is). Inr (map_put name is m)))
      (map line r0) [] = Inr m"
    "\<forall>n. map_of m n = (case map_of r0 n of None \<Rightarrow> map_of [] n | Some h \<Rightarrow> Some (map fst (find_spinlock h (g n))))"
    using read_spinlock_lines [OF pre r(1) wf_map_Nil] unfolding line_def by blast
  have "map_of m name = (if name \<in> kernel_names hs0 then Some (sorted_list_of_set (unstable hs0 hs1 name)) else None)" for name
    using m(2) keys [of name] map_of_eq_None_iff [of r0 name] r(3) by (auto split: option.split)
  moreover have "load_spinlock_instructions out = Inr m" unfolding load_spinlock_instructions_def split by (rule m(1))
  moreover have "length r0 = length r1" using wf_map_length [OF r(1,2)] r(3,4) names(1) by simp
  then have "spinlock_check opt d = Inr (if keep_intermediate opt then d\<lparr>spinlock_instructions := Some out\<rparr>
      else \<lparr>ctx_runs = [], merged_runs = [], spinlock_instructions = Some out\<rparr>)"
    using spinlock_lines [OF there, of "[]"] assms(1,2) out by (simp add: spinlock_check_def g_def)
  ultimately show ?thesis by auto
qed

text \<open>C31. The detector and the tracer: after two runs of a program that launch the same kernels, whatever
  the launches of a kernel and the order in which their files are found, the file the detector writes
  is read by the tracer as the map from every kernel to the instructions, in ascending order, whose
  merged counts differ between the runs.\<close>

theorem spinlock_detection:
  assumes "run_holds 0 d0 hs0" "merged_runs d0 = []" "spin_at_term \<lparr>spinlock_phase = 0, keep_intermediate = k0\<rparr> d0 = Inr d1"
    and "merged_runs d = merged_runs d1" "run_holds 1 d hs1"
    and "kernel_names hs0 = kernel_names hs1" "\<forall>name \<in> kernel_names hs0. kernel_name_ok name"
    and "\<forall>name. \<forall>i \<in> unstable hs0 hs1 name. unat i < 2 ^ 31" "length hs0 < 2 ^ 32" "length hs1 < 2 ^ 32"
  shows "\<exists>d' out m. spin_at_term \<lparr>spinlock_phase = 1, keep_intermediate = k1\<rparr> d = Inr d' \<and>
    spinlock_instructions d' = Some out \<and> load_spinlock_instructions out = Inr m \<and>
    (\<forall>name. map_of m name =
       (if name \<in> kernel_names hs0 then Some (sorted_list_of_set (unstable hs0 hs1 name)) else None))"
proof -
  have d1: "merged_runs d = [(0, merged_files hs0)]"
    using run_end [OF assms(1)] save_merged_runs [of d0 0 hs0] assms(2-4) by simp
  let ?d = "save_merged 1 (merge_runs (by_name hs1)) d"
  have files: "merged_runs ?d = [(0, merged_files hs0), (1, merged_files hs1)]"
    using save_merged_runs [of d 1 hs1] d1 by simp
  have len: "length (by_name hs) \<le> length hs" for hs
  proof -
    have "length (by_name hs) = card (kernel_names hs)"
      using by_name_entries [of hs] by_name_keys [of hs] distinct_card [of "map fst (by_name hs)"]
      by (simp add: wf_map_distinct)
    also have "\<dots> \<le> length hs" unfolding kernel_names_def by (metis card_image_le card_length finite_set le_trans)
    finally show ?thesis .
  qed
  obtain r0 where r0: "load_merged 0 ?d = Inr r0" "summarises r0 hs0"
    using load_saved [of hs0] assms(1,9) len [of hs0] files
    by (auto simp: load_merged_def run_holds_def merged_files_def)
  obtain r1 where r1: "load_merged 1 ?d = Inr r1" "summarises r1 hs1"
    using load_saved [of hs1] assms(5,10) len [of hs1] files
    by (auto simp: load_merged_def run_holds_def merged_files_def)
  have "map_of (merged_runs d) 1 = None" using d1 by simp
  from run_end [OF assms(5) this, of "\<lparr>spinlock_phase = 1, keep_intermediate = k1\<rparr>"]
  have "spin_at_term \<lparr>spinlock_phase = 1, keep_intermediate = k1\<rparr> d = spinlock_check \<lparr>spinlock_phase = 1, keep_intermediate = k1\<rparr> ?d"
    by simp
  then show ?thesis using spinlock_check_reads [OF r0(1) r1(1) r0(2) r1(2) assms(6-8)] by simp
qed

definition detection_of :: "int \<Rightarrow> instr_histogram \<Rightarrow> (int, files) std_map \<Rightarrow> detection" where
  "detection_of phase h merged =
     \<lparr>ctx_runs = [((0, phase), [(histogram_file 0, serialize h)])], merged_runs = merged, spinlock_instructions = None\<rparr>"

theorem spinlock_detection_witness:
  "\<exists>d1 d' out m. spin_at_term \<lparr>spinlock_phase = 0, keep_intermediate = True\<rparr> (detection_of 0 (sample_histogram 64) []) = Inr d1 \<and>
     spin_at_term \<lparr>spinlock_phase = 1, keep_intermediate = False\<rparr> (detection_of 1 (sample_histogram 96) (merged_runs d1)) = Inr d' \<and>
     spinlock_instructions d' = Some out \<and> load_spinlock_instructions out = Inr m \<and> map_of m ''lock'' = Some [3]"
proof -
  have ok: "histogram_ok (sample_histogram n)" for n
    by (simp add: histogram_ok_def sample_histogram_def name_ok_def is_dot_def is_space_def wf_map_def)
  have holds: "run_holds p (detection_of p (sample_histogram n) m) [sample_histogram n]" for p n m
    using ok [of n] by (simp add: run_holds_def detection_of_def ctx_ids_def run_files_def histogram_file_name)
  obtain d1 where d1: "spin_at_term \<lparr>spinlock_phase = 0, keep_intermediate = True\<rparr> (detection_of 0 (sample_histogram 64) []) = Inr d1"
    using run_end [OF holds [of 0 64 "[]"], of "\<lparr>spinlock_phase = 0, keep_intermediate = True\<rparr>"] by (auto simp: detection_of_def)
  have names: "kernel_names [sample_histogram n] = {''lock''}" for n by (simp add: kernel_names_def sample_histogram_def)
  have u: "unstable [sample_histogram 64] [sample_histogram 96] name = (if name = ''lock'' then {3} else {})" for name
    by (auto simp: unstable_def launches_of_def merged_count_def counts_of_def sample_histogram_def map_filter_simps split: if_splits)
  have "\<exists>d' out m. spin_at_term \<lparr>spinlock_phase = 1, keep_intermediate = False\<rparr>
      (detection_of 1 (sample_histogram 96) (merged_runs d1)) = Inr d' \<and>
    spinlock_instructions d' = Some out \<and> load_spinlock_instructions out = Inr m \<and>
    (\<forall>name. map_of m name = (if name \<in> kernel_names [sample_histogram 64]
       then Some (sorted_list_of_set (unstable [sample_histogram 64] [sample_histogram 96] name)) else None))"
  proof (rule spinlock_detection [OF holds _ d1 _ holds])
    show "\<forall>name \<in> kernel_names [sample_histogram 64]. kernel_name_ok name"
      by (simp add: names kernel_name_ok_def name_ok_def is_dot_def is_space_def)
  qed (simp_all add: names u detection_of_def)
  then obtain d' out m where run: "spin_at_term \<lparr>spinlock_phase = 1, keep_intermediate = False\<rparr>
      (detection_of 1 (sample_histogram 96) (merged_runs d1)) = Inr d'"
    "spinlock_instructions d' = Some out" "load_spinlock_instructions out = Inr m"
    "\<forall>name. map_of m name = (if name \<in> {''lock''} then Some (sorted_list_of_set (if name = ''lock'' then {3} else {})) else None)"
    unfolding names u by blast
  from run(4) have "map_of m ''lock'' = Some [3]" by simp
  with d1 run(1-3) show ?thesis by blast
qed

end
