(* ===== verification/Kernel_Setup.thy ===== *)
theory Kernel_Setup
  imports Trace_Reader
begin

text \<open>
  How a kernel is set up: the instructions \<open>read_sass\<close> reads (\<^verbatim>\<open>trace_reader.cpp\<close>) and the blocks and
  warps \<open>init_blocks\<close> builds of them (\<^verbatim>\<open>kernel.cpp\<close>) are well formed.  No definition here models
  code; the theory holds the invariants and what they give for a whole trace.
\<close>

section \<open>The instructions that are read\<close>

definition is_word :: "string \<Rightarrow> bool" where
  "is_word s \<longleftrightarrow> s \<noteq> [] \<and> list_all (\<lambda>c. \<not> is_space c) s"

definition trace_inst_ok :: "trace_inst \<Rightarrow> bool" where
  "trace_inst_ok t \<longleftrightarrow>
     length (ti_dest_regs t) = nat (ti_dest_num t) \<and> length (ti_src_regs t) = nat (ti_src_num t) \<and>
     ti_active_thread_num t = count_active_thread (ti_active_mask t) \<and>
     is_word (ti_opcode t) \<and> is_word (ti_active_mask t) \<and>
     list_all is_word (ti_dest_regs t) \<and> list_all is_word (ti_src_regs t)"

definition pc_key :: "trace_inst \<Rightarrow> int \<times> int \<times> int" where
  "pc_key t = (ti_block_id t, ti_warp_id t, ti_pc t)"

definition occurrences :: "trace_inst list \<Rightarrow> int \<times> int \<times> int \<Rightarrow> nat" where
  "occurrences ts k = length (filter (\<lambda>t. pc_key t = k) ts)"

text \<open>An instruction's index says how often its warp has executed its address before.\<close>

definition numbered :: "trace_inst list \<Rightarrow> bool" where
  "numbered ts \<longleftrightarrow> (\<forall>n < length ts. ti_pc_index (ts ! n) = int (occurrences (take n ts) (pc_key (ts ! n))))"

definition counts_match :: "trace_inst list \<Rightarrow> sass_counts \<Rightarrow> bool" where
  "counts_match ts counts \<longleftrightarrow>
     (\<forall>k. counts k = (if occurrences ts k = 0 then None else Some (int (occurrences ts k) - 1)))"

lemma numbered_snoc: "numbered (ts @ [t]) \<longleftrightarrow> numbered ts \<and> ti_pc_index t = int (occurrences ts (pc_key t))"
  by (auto simp: numbered_def nth_append less_Suc_eq)

lemma pop_words_ok:
  "pop_words n ws = Inr (us, vs) \<Longrightarrow> length us = n \<and> ws = us @ vs"
proof (induction n arbitrary: ws us)
  case (Suc n)
  then obtain w ws' us' where "ws = w # ws'" "pop_words n ws' = Inr (us', vs)" "us = w # us'"
    by (cases ws) (auto simp: rbind_eq_Inr)
  with Suc.IH show ?case by force
qed simp

lemma pop_word_ok: "pop_word ws = Inr (w, vs) \<Longrightarrow> ws = w # vs"
  by (cases ws) auto

lemma pop_int_ok: "pop_int ws = Inr (n, vs) \<Longrightarrow> \<exists>w. ws = w # vs"
  by (auto simp: pop_int_def rbind_eq_Inr dest: pop_word_ok)

lemma rbind_pair: "rbind m (\<lambda>(a, b). f a b) = Inr y \<longleftrightarrow> (\<exists>a b. m = Inr (a, b) \<and> f a b = Inr y)"
  by (cases m) auto

lemma parse_inst_line_ok:
  assumes "parse_inst_line line counts = Inr (t, counts')"
  shows "trace_inst_ok t \<and> count_pc (pc_key t) counts = (ti_pc_index t, counts')"
proof -
  obtain block_id w1 warp_id w2 pc_s w3 mask w4 dest_num w5 dests w6 opcode w7 src_num w8 srcs w9 where p:
    "pop_int (words line) = Inr (block_id, w1)" "pop_int w1 = Inr (warp_id, w2)" "pop_word w2 = Inr (pc_s, w3)"
    "pop_word w3 = Inr (mask, w4)" "pop_int w4 = Inr (dest_num, w5)" "pop_words (nat dest_num) w5 = Inr (dests, w6)"
    "pop_word w6 = Inr (opcode, w7)" "pop_int w7 = Inr (src_num, w8)" "pop_words (nat src_num) w8 = Inr (srcs, w9)"
    and numbered: "(let p = strtoll16 pc_s; (i, counts) = count_pc (block_id, warp_id, p) counts in
      Inr (new_trace_inst block_id warp_id p mask dest_num dests opcode src_num srcs i, counts)) =
      (Inr (t, counts') :: (trace_inst \<times> sass_counts) res)"
    using assms unfolding parse_inst_line_def rbind_pair by (elim exE conjE) (rule that)
  obtain i c where c: "count_pc (block_id, warp_id, strtoll16 pc_s) counts = (i, c)" by force
  have t: "t = new_trace_inst block_id warp_id (strtoll16 pc_s) mask dest_num dests opcode src_num srcs i" "c = counts'"
    using numbered c by (simp_all add: Let_def)
  have "set (mask # dests @ opcode # srcs) \<subseteq> set (words line)"
    using p(1-9) by (auto dest!: pop_int_ok pop_word_ok pop_words_ok)
  moreover have "is_word w" if "w \<in> set (words line)" for w
    using words_non_space [OF that] by (auto simp: is_word_def list_all_iff)
  ultimately have "list_all is_word (mask # dests @ opcode # srcs)" by (auto simp: list_all_iff)
  then show ?thesis
    using c t pop_words_ok [OF p(6)] pop_words_ok [OF p(9)]
    by (simp add: trace_inst_ok_def new_trace_inst_def pc_key_def)
qed

lemma counts_match_step:
  assumes "counts_match ts counts" "count_pc (pc_key t) counts = (ti_pc_index t, counts')"
  shows "ti_pc_index t = int (occurrences ts (pc_key t)) \<and> counts_match (ts @ [t]) counts'"
proof -
  have i: "ti_pc_index t = (case counts (pc_key t) of None \<Rightarrow> 0 | Some n \<Rightarrow> n + 1)"
    and c: "counts' = counts(pc_key t \<mapsto> ti_pc_index t)"
    using assms(2) by (auto simp: count_pc_def Let_def)
  have "counts (pc_key t) =
      (if occurrences ts (pc_key t) = 0 then None else Some (int (occurrences ts (pc_key t)) - 1))"
    using assms(1) unfolding counts_match_def by (rule spec)
  then have "ti_pc_index t = int (occurrences ts (pc_key t))" using i by (auto split: if_splits)
  moreover have "occurrences (ts @ [t]) k = occurrences ts k + (if pc_key t = k then 1 else 0)" for k
    by (simp add: occurrences_def)
  ultimately show ?thesis using assms(1) c by (simp add: counts_match_def)
qed

lemma sass_line_ok:
  assumes "sass_line skipped line (info, ts, counts) = Inr (info', ts', counts')"
    and "list_all trace_inst_ok ts \<and> numbered ts \<and> counts_match ts counts"
  shows "list_all trace_inst_ok ts' \<and> numbered ts' \<and> counts_match ts' counts'"
proof (cases "ts' = ts \<and> counts' = counts")
  case False
  then obtain t where t: "parse_inst_line line counts = Inr (t, counts')" "ts' = ts @ [t]"
    using assms(1) by (auto simp: sass_line_def rbind_eq_Inr split: if_splits)
  then show ?thesis
    using assms(2) parse_inst_line_ok [OF t(1)] counts_match_step [of ts counts t counts']
    by (simp add: numbered_snoc)
qed (use assms(2) in simp)

lemma read_sass_ok:
  assumes "read_sass file info0 [] = Inr (info, ts)"
  shows "list_all trace_inst_ok ts \<and> numbered ts"
proof -
  obtain content counts where run: "foldM (sass_line sass_headers) (file_lines content) (info0, [], \<lambda>_. None) = Inr (info, ts, counts)"
    using assms by (auto simp: read_sass_def rbind_eq_Inr split: option.splits)
  define P where "P = (\<lambda>(info :: kernel_info, ts, counts). list_all trace_inst_ok ts \<and> numbered ts \<and> counts_match ts counts)"
  have "P (info, ts, counts)"
  proof (rule foldM_invariant [OF _ run])
    show "P (info0, [], \<lambda>_. None)" by (simp add: P_def numbered_def counts_match_def occurrences_def)
    show "P s'" if "P s" "sass_line sass_headers line s = Inr s'" for line s s'
      using that sass_line_ok by (cases s; cases s') (auto simp: P_def)
  qed
  then show ?thesis by (simp add: P_def)
qed


section \<open>The blocks that are built\<close>

text \<open>The instructions of a warp, in the order of the trace.\<close>

definition warp_trace :: "trace_inst list \<Rightarrow> int \<Rightarrow> int \<Rightarrow> inst list" where
  "warp_trace ts b w = map new_inst (filter (\<lambda>t. ti_block_id t = b \<and> ti_warp_id t = w) ts)"

definition warp_of_trace :: "trace_inst list \<Rightarrow> int \<Rightarrow> int \<Rightarrow> warp option" where
  "warp_of_trace ts b w =
     (if warp_trace ts b w = [] then None else Some ((new_warp b w)\<lparr>m_insts := warp_trace ts b w\<rparr>))"

definition blocks_match :: "trace_inst list \<Rightarrow> (int, cta) std_map \<Rightarrow> bool" where
  "blocks_match ts blocks \<longleftrightarrow>
     wf_map blocks \<and>
     (\<forall>b blk. map_of blocks b = Some blk \<longrightarrow>
        b_block_id blk = b \<and> wf_map (warp_vec blk) \<and> map_of (warp_vec blk) = warp_of_trace ts b)"

lemma new_inst_ids [simp]: "i_block_id (new_inst t) = ti_block_id t" "i_warp_id (new_inst t) = ti_warp_id t"
  by (simp_all add: new_inst_def)

lemma place_inst_matches:
  assumes "place_inst t blocks = Inr blocks'" "blocks_match ts blocks"
  shows "blocks_match (ts @ [t]) blocks' \<and> dom (map_of blocks') = dom (map_of blocks)"
proof -
  let ?b = "ti_block_id t" and ?w = "ti_warp_id t"
  obtain blk where blk: "map_of blocks ?b = Some blk"
    "blocks' = map_put ?b (blk\<lparr>warp_vec := map_put ?w
        ((case map_of (warp_vec blk) ?w of Some w \<Rightarrow> w | None \<Rightarrow> new_warp ?b ?w)\<lparr>m_insts :=
           m_insts (case map_of (warp_vec blk) ?w of Some w \<Rightarrow> w | None \<Rightarrow> new_warp ?b ?w) @ [new_inst t]\<rparr>)
        (warp_vec blk)\<rparr>) blocks"
    using assms(1) unfolding place_inst_def Let_def new_inst_ids by (auto simp: rbind_eq_Inr deref_eq_Inr)
  have b: "wf_map blocks" "b_block_id blk = ?b" "wf_map (warp_vec blk)" "map_of (warp_vec blk) = warp_of_trace ts ?b"
    using assms(2) blk(1) by (auto simp: blocks_match_def)
  have other: "warp_of_trace (ts @ [t]) b' = warp_of_trace ts b'" if "b' \<noteq> ?b" for b'
    using that by (simp add: fun_eq_iff warp_of_trace_def warp_trace_def)
  have same: "warp_of_trace (ts @ [t]) ?b = (warp_of_trace ts ?b)(?w \<mapsto>
      (case warp_of_trace ts ?b ?w of Some w \<Rightarrow> w | None \<Rightarrow> new_warp ?b ?w)\<lparr>m_insts :=
           m_insts (case warp_of_trace ts ?b ?w of Some w \<Rightarrow> w | None \<Rightarrow> new_warp ?b ?w) @ [new_inst t]\<rparr>)"
    by (auto simp: fun_eq_iff warp_of_trace_def warp_trace_def new_warp_def split: option.splits if_splits)
  define ws where "ws = map_put ?w
    ((case map_of (warp_vec blk) ?w of Some w \<Rightarrow> w | None \<Rightarrow> new_warp ?b ?w)\<lparr>m_insts :=
       m_insts (case map_of (warp_vec blk) ?w of Some w \<Rightarrow> w | None \<Rightarrow> new_warp ?b ?w) @ [new_inst t]\<rparr>) (warp_vec blk)"
  have ws: "wf_map ws" "map_of ws = warp_of_trace (ts @ [t]) ?b"
    unfolding ws_def b(4) same by (simp_all only: wf_map_put map_of_put b(3,4))
  show ?thesis
    using assms(2) b(1,2) other ws blk(1)
    by (auto simp: blk(2) [folded ws_def] blocks_match_def map_of_put wf_map_put)
qed

lemma place_insts_match:
  assumes "foldM place_inst ts' blocks = Inr blocks'" "blocks_match ts blocks"
  shows "blocks_match (ts @ ts') blocks' \<and> dom (map_of blocks') = dom (map_of blocks)"
  using assms
proof (induction ts' arbitrary: ts blocks)
  case (Cons t ts')
  then obtain b1 where b1: "place_inst t blocks = Inr b1" "foldM place_inst ts' b1 = Inr blocks'"
    by (auto simp: rbind_eq_Inr)
  from place_inst_matches [OF b1(1) Cons.prems(2)] Cons.IH [OF b1(2), of "ts @ [t]"] show ?case by simp
qed simp

definition resolved_cta :: "cta \<Rightarrow> cta" where
  "resolved_cta blk = blk\<lparr>warp_vec := map (\<lambda>(k, w). (k, get_inst_dependency w)) (warp_vec blk)\<rparr>"

lemma map_of_resolved: "map_of (warp_vec (resolved_cta blk)) w = map_option get_inst_dependency (map_of (warp_vec blk) w)"
  by (simp add: resolved_cta_def map_of_map case_prod_unfold [symmetric])

lemma resolve_block_resolves:
  "resolve_block i blocks = Inr b \<Longrightarrow>
   \<exists>blk. map_of blocks (int i) = Some blk \<and> b = map_put (int i) (resolved_cta blk) blocks"
  by (auto simp: rbind_eq_Inr resolve_block_def deref_eq_Inr resolved_cta_def)

lemma resolve_blocks:
  assumes "foldM resolve_block is blocks = Inr blocks'" "wf_map blocks" "distinct is"
  shows "wf_map blocks' \<and>
    (\<forall>b. map_of blocks' b = (if b \<in> int ` set is then map_option resolved_cta (map_of blocks b) else map_of blocks b))"
  using assms
proof (induction "is" arbitrary: blocks)
  case (Cons i "is")
  then obtain blk where blk: "map_of blocks (int i) = Some blk"
    "foldM resolve_block is (map_put (int i) (resolved_cta blk) blocks) = Inr blocks'"
    by (auto simp: rbind_eq_Inr dest: resolve_block_resolves)
  from Cons.IH [OF blk(2) wf_map_put [OF Cons.prems(2)]] Cons.prems blk(1)
  show ?case by (auto simp: map_of_put)
qed simp

lemma new_blocks:
  "wf_map m \<Longrightarrow> wf_map (fold (\<lambda>i. map_put (int i) (new_block k (int i))) is m) \<and>
   map_of (fold (\<lambda>i. map_put (int i) (new_block k (int i))) is m) =
     (\<lambda>b. if b \<in> int ` set is then Some (new_block k b) else map_of m b)"
proof (induction "is" arbitrary: m)
  case (Cons i "is")
  from Cons.IH [OF wf_map_put [OF Cons.prems]] show ?case by (auto simp: map_of_put [OF Cons.prems] fun_eq_iff)
qed simp

lemma resolved_dependencies:
  assumes "n < length (m_insts w)" "\<forall>i \<in> set (m_insts w). m_dependency i = []"
    and "j \<in> set (m_dependency (m_insts (get_inst_dependency w) ! n))"
  shows "j \<le> n \<and> (j = n \<longrightarrow> waits_for_all (m_insts w ! n) \<and> (\<exists>r. writes_reg r (m_insts w ! n)))"
proof -
  have "resolved (m_insts w) n (m_insts w ! n) (m_insts (get_inst_dependency w) ! n)"
    using dependency_loop_spec [of "[]" "m_insts w" 0 "m_insts w"] assms(1) by (simp add: get_inst_dependency_def fun_eq_iff)
  then have "(\<exists>r. last_writer (m_insts w) n r = Some j) \<or>
      (waits_for_all (m_insts w ! n) \<and> (\<exists>r. last_writer (m_insts w) (Suc n) r = Some j))"
    using assms by (auto simp: resolved_def split: if_splits)
  then show ?thesis using last_writer_less by (fastforce split: if_splits)
qed

lemma placed_blocks:
  assumes "foldM place_inst ts' blocks = Inr blocks'" "blocks_match ts blocks"
    and "\<forall>(x, b) \<in> set blocks. retired_warps b = []"
  shows "(\<forall>t \<in> set ts'. ti_block_id t \<in> dom (map_of blocks)) \<and> (\<forall>(x, b) \<in> set blocks'. retired_warps b = [])"
  using assms
proof (induction ts' arbitrary: ts blocks)
  case (Cons t ts')
  then obtain b1 where b1: "place_inst t blocks = Inr b1" "foldM place_inst ts' b1 = Inr blocks'"
    by (auto simp: rbind_eq_Inr)
  note m = place_inst_matches [OF b1(1) Cons.prems(2)]
  from b1(1) obtain blk ws where blk: "map_of blocks (ti_block_id t) = Some blk"
    "b1 = map_put (ti_block_id t) (blk\<lparr>warp_vec := ws\<rparr>) blocks"
    unfolding place_inst_def Let_def new_inst_ids by (auto simp: rbind_eq_Inr deref_eq_Inr)
  have "\<forall>(x, b) \<in> set b1. retired_warps b = []"
    using Cons.prems(3) map_of_SomeD [OF blk(1)] by (auto simp: blk(2) dest!: set_map_put)
  moreover have "ti_block_id t \<in> dom (map_of blocks)" using blk(1) by blast
  ultimately show ?case using m Cons.IH [OF b1(2), of "ts @ [t]"] by simp
qed simp

text \<open>The blocks of a kernel, as they are when it starts.\<close>

lemma init_blocks_built:
  assumes "init_blocks k = Inr k'" "m_blocks k = []"
  shows "wf_map (m_blocks k') \<and> m_kernel_info k' = m_kernel_info k \<and> block_pointer k' = block_pointer k \<and>
    dom (map_of (m_blocks k')) = int ` {0..<unat (m_grid_size (m_kernel_info k))} \<and>
    (\<forall>t \<in> set (trace_insts k). ti_block_id t \<in> dom (map_of (m_blocks k'))) \<and>
    (\<forall>x blk. map_of (m_blocks k') x = Some blk \<longrightarrow> b_block_id blk = x \<and> wf_map (warp_vec blk) \<and>
       retired_warps blk = [] \<and>
       map_of (warp_vec blk) = (\<lambda>w. map_option get_inst_dependency (warp_of_trace (trace_insts k) x w)))"
proof -
  let ?n = "unat (m_grid_size (m_kernel_info k))"
  let ?new = "fold (\<lambda>i. map_put (int i) (new_block (k_kernel_id k) (int i))) [0..<?n] []"
  obtain b1 b2 where b: "foldM place_inst (trace_insts k) ?new = Inr b1" "foldM resolve_block [0..<?n] b1 = Inr b2"
    "k' = k\<lparr>m_blocks := b2\<rparr>"
    using assms by (auto simp: init_blocks_def Let_def rbind_eq_Inr)
  note new = new_blocks [OF wf_map_Nil, of "k_kernel_id k" "[0..<?n]"]
  have dom_new: "dom (map_of ?new) = int ` {0..<?n}" using new by (auto simp: dom_def split: if_splits)
  have m0: "blocks_match [] ?new"
    unfolding blocks_match_def using new by (auto simp: new_block_def warp_of_trace_def warp_trace_def)
  have "retired_warps blk = []" if "(x, blk) \<in> set ?new" for x blk
  proof -
    have "map_of ?new x = Some blk" using new that by (blast intro: map_of_is_SomeI wf_map_distinct)
    then show ?thesis using new by (auto simp: new_block_def split: if_splits)
  qed
  then have "\<forall>(x, blk) \<in> set ?new. retired_warps blk = []" by blast
  note placed = placed_blocks [OF b(1) m0 this]
  from place_insts_match [OF b(1) m0] have b1: "blocks_match (trace_insts k) b1" "dom (map_of b1) = int ` {0..<?n}"
    using dom_new by auto
  have b2: "map_of b2 x = map_option resolved_cta (map_of b1 x)" for x
  proof (cases "x \<in> int ` {0..<?n}")
    case False
    then have "map_of b1 x = None" using b1(2) by (metis domI option.exhaust)
    with False show ?thesis using resolve_blocks [OF b(2)] b1(1) by (simp add: blocks_match_def)
  qed (use resolve_blocks [OF b(2)] b1(1) in \<open>simp add: blocks_match_def\<close>)
  have cta: "b_block_id blk = x \<and> wf_map (warp_vec blk) \<and> retired_warps blk = [] \<and>
      map_of (warp_vec blk) = (\<lambda>w. map_option get_inst_dependency (warp_of_trace (trace_insts k) x w))"
    if blk: "map_of b2 x = Some blk" for x blk
  proof -
    obtain blk1 where blk1: "map_of b1 x = Some blk1" "blk = resolved_cta blk1" using blk b2 by auto
    have "retired_warps blk1 = []" using placed blk1(1) by (auto dest!: map_of_SomeD)
    moreover have "wf_map (warp_vec blk) = wf_map (warp_vec blk1)"
      by (simp add: blk1 resolved_cta_def wf_map_def case_prod_beta comp_def)
    moreover have "map_of (warp_vec blk) = (\<lambda>w. map_option get_inst_dependency (warp_of_trace (trace_insts k) x w))"
      using blk1 b1(1) by (simp add: fun_eq_iff map_of_resolved blocks_match_def)
    moreover have "b_block_id blk = b_block_id blk1" "retired_warps blk = retired_warps blk1"
      by (simp_all add: blk1 resolved_cta_def)
    ultimately show ?thesis using blk1 b1(1) by (simp add: blocks_match_def)
  qed
  moreover have "dom (map_of b2) = int ` {0..<?n}" using b1(2) b2 by (auto simp: dom_def)
  moreover have "wf_map b2" using resolve_blocks [OF b(2)] b1(1) by (simp add: blocks_match_def)
  ultimately show ?thesis using placed dom_new by (simp add: b(3))
qed

definition kernel_ok :: "trace_inst list \<Rightarrow> kernel \<Rightarrow> bool" where
  "kernel_ok ts k \<longleftrightarrow>
     list_all trace_inst_ok ts \<and> numbered ts \<and>
     dom (map_of (m_blocks k)) = int ` {0..<unat (m_grid_size (m_kernel_info k))} \<and>
     (\<forall>b blk. map_of (m_blocks k) b = Some blk \<longrightarrow>
        b_block_id blk = b \<and>
        map_of (warp_vec blk) = (\<lambda>w. map_option get_inst_dependency (warp_of_trace ts b w)) \<and>
        (\<forall>w wp n j. map_of (warp_vec blk) w = Some wp \<and> n < length (m_insts wp) \<and>
           j \<in> set (m_dependency (m_insts wp ! n)) \<longrightarrow> j \<le> n \<and>
           (j = n \<longrightarrow> waits_for_all (m_insts wp ! n) \<and> (\<exists>r. writes_reg r (m_insts wp ! n)))))"

text \<open>C33. A kernel that could be read is well formed: every instruction has as many registers as it
  says, the lanes of its mask, and the index of its occurrence; there are exactly the blocks of the
  grid, and a block has a warp for every warp number of its instructions with exactly these, in the
  order of the trace; a dependency is an earlier instruction of the same warp, or at a barrier or an
  \<^verbatim>\<open>EXIT\<close> that writes a register the instruction itself.\<close>

theorem kernel_well_formed:
  assumes "read_sass file info0 [] = Inr (info, ts)"
    and "init_blocks (k\<lparr>m_kernel_info := info, trace_insts := ts, m_blocks := []\<rparr>) = Inr k'"
  shows "kernel_ok ts k' \<and> m_kernel_info k' = info"
proof -
  have built: "m_kernel_info k' = info" "dom (map_of (m_blocks k')) = int ` {0..<unat (m_grid_size info)}"
    and cta: "\<And>x blk. map_of (m_blocks k') x = Some blk \<Longrightarrow> b_block_id blk = x \<and>
      map_of (warp_vec blk) = (\<lambda>w. map_option get_inst_dependency (warp_of_trace ts x w))"
    using init_blocks_built [OF assms(2)] by auto
  have dep: "j \<le> n \<and> (j = n \<longrightarrow> waits_for_all (m_insts wp ! n) \<and> (\<exists>r. writes_reg r (m_insts wp ! n)))"
    if wp: "map_option get_inst_dependency (warp_of_trace ts c w) = Some wp" "n < length (m_insts wp)"
      "j \<in> set (m_dependency (m_insts wp ! n))" for c w wp n j
  proof -
    obtain w0 where w0: "warp_of_trace ts c w = Some w0" "wp = get_inst_dependency w0" using wp(1) by auto
    have len: "length (m_insts wp) = length (m_insts w0)"
      and res: "resolved (m_insts w0) n (m_insts w0 ! n) (m_insts wp ! n)"
      using dependency_loop_spec [of "[]" "m_insts w0" 0 "m_insts w0"] wp(2) w0(2)
      by (simp_all add: get_inst_dependency_def fun_eq_iff)
    have "\<forall>i \<in> set (m_insts w0). m_dependency i = []"
      using w0(1) by (auto simp: warp_of_trace_def warp_trace_def new_inst_def split: if_splits)
    then have "j \<le> n \<and> (j = n \<longrightarrow> waits_for_all (m_insts w0 ! n) \<and> (\<exists>r. writes_reg r (m_insts w0 ! n)))"
      using resolved_dependencies [of n w0 j] wp(2,3) w0(2) len by simp
    moreover have "m_insts wp ! n = (m_insts w0 ! n)\<lparr>m_dependency := m_dependency (m_insts wp ! n)\<rparr>"
      using res by (simp add: resolved_def)
    then have "i_opcode (m_insts wp ! n) = i_opcode (m_insts w0 ! n)" "i_dest_num (m_insts wp ! n) = i_dest_num (m_insts w0 ! n)"
      "i_dest_regs (m_insts wp ! n) = i_dest_regs (m_insts w0 ! n)"
      by (metis inst.surjective inst.update_convs inst.select_convs)+
    ultimately show ?thesis by (simp add: waits_for_all_def writes_reg_def)
  qed
  have "kernel_ok ts k'"
    unfolding kernel_ok_def
  proof (intro conjI allI impI)
    show "list_all trace_inst_ok ts" "numbered ts" using read_sass_ok [OF assms(1)] by auto
    show "dom (map_of (m_blocks k')) = int ` {0..<unat (m_grid_size (m_kernel_info k'))}"
      using built by simp
    fix c blk
    assume blk: "map_of (m_blocks k') c = Some blk"
    then show "b_block_id blk = c" using cta by blast
    show vec: "map_of (warp_vec blk) = (\<lambda>w. map_option get_inst_dependency (warp_of_trace ts c w))"
      using cta [OF blk] by blast
    fix w wp n j
    assume "map_of (warp_vec blk) w = Some wp \<and> n < length (m_insts wp) \<and> j \<in> set (m_dependency (m_insts wp ! n))"
    then show "j \<le> n" "j = n \<Longrightarrow> waits_for_all (m_insts wp ! n)" "j = n \<Longrightarrow> \<exists>r. writes_reg r (m_insts wp ! n)"
      using dep [of c w wp n j] vec by auto
  qed
  then show ?thesis by (simp add: built)
qed


definition sample_sass :: string where
  "sample_sass =
     ''grid_size = 2'' @ [CHR 0x0A] @ ''1 0 10 1 1 R1 LDG.E 1 R2'' @ [CHR 0x0A] @ ''1 0 20 1 0 EXIT 0'' @ [CHR 0x0A]"

theorem kernel_well_formed_witness:
  "\<exists>info ts k'. read_sass (Some sample_sass) zero_kernel_info [] = Inr (info, ts) \<and>
     init_blocks ((new_kernel 1)\<lparr>m_kernel_info := info, trace_insts := ts, m_blocks := []\<rparr>) = Inr k' \<and>
     kernel_ok ts k' \<and> map ti_opcode ts = [''LDG.E'', ''EXIT'']"
proof -
  let ?read = "read_sass (Some sample_sass) zero_kernel_info []"
  let ?run = "rbind ?read (\<lambda>(info, ts).
    rbind (init_blocks ((new_kernel 1)\<lparr>m_kernel_info := info, trace_insts := ts, m_blocks := []\<rparr>)) (\<lambda>k. Inr (map ti_opcode ts)))"
  have "?run = Inr [''LDG.E'', ''EXIT'']" by code_simp
  then obtain info ts k' where run: "?read = Inr (info, ts)"
    "init_blocks ((new_kernel 1)\<lparr>m_kernel_info := info, trace_insts := ts, m_blocks := []\<rparr>) = Inr k'"
    "map ti_opcode ts = [''LDG.E'', ''EXIT'']"
    by (auto simp: rbind_eq_Inr)
  from kernel_well_formed [OF run(1,2)] have "kernel_ok ts k'" by (rule conjunct1)
  with run show ?thesis by (intro exI conjI)
qed

end
