(* ===== verification/Dram_Flow.thy ===== *)
theory Dram_Flow
  imports Dram
begin

text \<open>
  The way of a request through a DRAM channel (\<open>dram_t\<close>, \<^verbatim>\<open>dram.cpp\<close>): as the memory partition uses
  it, a channel is an exact delay line, whatever the banks, the rows and the kinds of the requests.
\<close>

section \<open>The channel and its client\<close>

text \<open>
  What \<open>memory_partition::dram_cycle\<close> does with a channel in one cycle: it takes the request on top
  of the return queue, calls \<open>cycle\<close>, and may push a request.
\<close>

definition channel_step :: "mf_ptr option \<Rightarrow> gpu_env \<Rightarrow> dram_t \<Rightarrow> (mf_ptr option \<times> dram_t) res" where
  "channel_step x g d =
     rbind (return_queue_pop d) (\<lambda>(out, d).
     rbind (Dram.dram_cycle d) (\<lambda>d.
     rbind (case x of None \<Rightarrow> Inr d | Some p \<Rightarrow> dram_push p g d) (\<lambda>d. Inr (out, d))))"

fun channel_run :: "mf_ptr option list \<Rightarrow> gpu_env \<Rightarrow> dram_t \<Rightarrow> (mf_ptr option list \<times> dram_t) res" where
  "channel_run [] g d = Inr ([], d)"
| "channel_run (x # xs) g d =
     rbind (channel_step x g d) (\<lambda>(out, d).
     rbind (channel_run xs g d) (\<lambda>(outs, d). Inr (out # outs, d)))"

text \<open>A request whose bank and row are decoded, the bank being one of the channel's.\<close>

definition decoded :: "gpu_env \<Rightarrow> memory_config \<Rightarrow> mf_ptr \<Rightarrow> bool" where
  "decoded g c p \<longleftrightarrow>
     (case mf_heap g p of
        None \<Rightarrow> False
      | Some mf \<Rightarrow>
          (case bk mf of None \<Rightarrow> False | Some b \<Rightarrow> (ucast b :: u32) < nbk c) \<and> row mf \<noteq> None)"

section \<open>The invariant\<close>

definition opt_hd :: "'a list \<Rightarrow> 'a option" where
  "opt_hd xs = (case xs of [] \<Rightarrow> None | x # _ \<Rightarrow> Some x)"

lemma opt_hd_simps [simp]: "opt_hd [] = None" "opt_hd (x # xs) = Some x"
  by (simp_all add: opt_hd_def)

definition banks_free :: "dram_t \<Rightarrow> bool" where
  "banks_free d \<longleftrightarrow> length (banks d) = unat (nbk (dram_config d)) \<and>
     length (bank_accesses d) = unat (nbk (dram_config d)) \<and> (\<forall>b\<in>set (banks d). mrq b = None)"

definition queue_ok :: "dram_t \<Rightarrow> bool" where
  "queue_ok d \<longleftrightarrow> bubble_free (mrqq d) \<and> 1 < m_max_len (mrqq d) \<and> length (fifo_data (mrqq d)) \<le> 1 \<and>
     (\<forall>r\<in>set (fifo_data (mrqq d)). (ucast (req_bk r) :: u32) < nbk (dram_config d))"

definition returns_ok :: "dram_t \<Rightarrow> bool" where
  "returns_ok d \<longleftrightarrow> bubble_free (returnq d) \<and> length (fifo_data (returnq d)) \<le> 1"

definition channel_ok :: "memory_config \<Rightarrow> dram_t \<Rightarrow> bool" where
  "channel_ok c d \<longleftrightarrow> dram_config d = c \<and> scheduler_type c = DRAM_FIFO \<and>
     delay_line (unat (CL c)) (rwq d) \<and> banks_free d \<and> queue_ok d \<and> returns_ok d"

text \<open>The requests on their way, the next to be returned first.\<close>

definition in_channel :: "dram_t \<Rightarrow> mf_ptr option list" where
  "in_channel d = opt_hd (fifo_data (returnq d)) # map (map_option req_data) (m_nodes (rwq d)) @
     [map_option req_data (opt_hd (fifo_data (mrqq d)))]"

section \<open>One cycle\<close>

lemma bank_transfer_idle:
  assumes "nth_res (banks d) i = Inr b" and "mrq b = None"
  shows "bank_transfer i d = Inr d"
proof -
  from assms have b: "b\<lparr>mrq := None\<rparr> = b" and bs: "(banks d)[i := b] = banks d"
    by (auto simp: res_simps)
  have "bank_transfer i d = Inr (d\<lparr>banks := (banks d)[i := b\<lparr>mrq := None\<rparr>]\<rparr>)"
    using assms by (simp add: bank_transfer_def)
  also have "\<dots> = Inr d" unfolding b bs by simp
  finally show ?thesis .
qed

lemma transfers_idle:
  assumes "\<forall>i\<in>set js. i < length (banks d) \<and> mrq (banks d ! i) = None"
  shows "foldM bank_transfer js d = Inr d"
  using assms by (induction js) (simp_all add: bank_transfer_idle)

lemma transfers_one:
  assumes j: "j \<in> set js" "distinct js" and js: "\<forall>i\<in>set js. i < length (banks d)"
    and others: "\<forall>i\<in>set js. i \<noteq> j \<longrightarrow> mrq (banks d ! i) = None"
    and r: "mrq (banks d ! j) = Some r"
  shows "foldM bank_transfer js d =
    rbind (fifo_push (Some r) (rwq d)) (\<lambda>q.
      Inr (d\<lparr>rwq := q, banks := (banks d)[j := (banks d ! j)\<lparr>mrq := None\<rparr>]\<rparr>))"
proof -
  from j(1) obtain xs ys where split: "js = xs @ j # ys" using split_list by metis
  let ?d = "\<lambda>q. d\<lparr>rwq := q, banks := (banks d)[j := (banks d ! j)\<lparr>mrq := None\<rparr>]\<rparr>"
  from split j(2) have ne: "j \<notin> set xs" "j \<notin> set ys" by auto
  have "foldM bank_transfer xs d = Inr d"
    using split js others ne by (intro transfers_idle) auto
  moreover have "bank_transfer j d = rbind (fifo_push (Some r) (rwq d)) (\<lambda>q. Inr (?d q))"
    using split js r by (cases "fifo_push (Some r) (rwq d)") (simp_all add: bank_transfer_def)
  moreover have "foldM bank_transfer ys (?d q) = Inr (?d q)" for q
    using split js others ne by (intro transfers_idle) (auto simp: nth_list_update)
  ultimately show ?thesis using split
    by (cases "fifo_push (Some r) (rwq d)") (simp_all add: foldM_append)
qed

text \<open>
  The scheduler hands the request on top of \<open>mrqq\<close> to its bank, and the transfers move it from there
  to the tail of \<open>rwq\<close> in the same cycle: the banks are free again.
\<close>

lemma schedule_none:
  assumes "banks_free d" and "bubble_free (mrqq d)" and "fifo_data (mrqq d) = []"
  shows "rbind (scheduler_fifo d) (foldM bank_transfer [0..<unat (nbk (dram_config d))]) = Inr d"
proof -
  have "fifo_empty (mrqq d)" using assms(2,3) by (simp add: fifo_empty_iff)
  moreover have "foldM bank_transfer [0..<unat (nbk (dram_config d))] d = Inr d"
    using assms(1) by (intro transfers_idle) (auto simp: banks_free_def)
  ultimately show ?thesis by (simp add: scheduler_fifo_def)
qed

lemma schedule_head:
  assumes "banks_free d" and bf: "bubble_free (mrqq d)" and "fifo_data (mrqq d) = r # rs"
    and j: "(ucast (req_bk r) :: u32) < nbk (dram_config d)"
  shows "\<exists>m bs ba. rbind (scheduler_fifo d) (foldM bank_transfer [0..<unat (nbk (dram_config d))]) =
      rbind (fifo_push (Some r) (rwq d)) (\<lambda>q.
        Inr (d\<lparr>mrqq := m, rwq := q, banks := bs, bank_accesses := ba\<rparr>)) \<and>
    bubble_free m \<and> fifo_data m = rs \<and> m_max_len m = m_max_len (mrqq d) \<and>
    banks_free (d\<lparr>banks := bs, bank_accesses := ba\<rparr>)"
proof -
  let ?j = "unat (ucast (req_bk r) :: u32)" and ?n = "unat (nbk (dram_config d))"
  from j have j: "?j < ?n" by (simp add: word_less_nat_alt)
  from plain.deq_front [OF bf assms(3)] obtain m where m: "fifo_pop (mrqq d) = Inr (Some r, m)"
    "bubble_free m" "fifo_data m = rs" by blast
  from bf m(1) have mm: "m_max_len m = m_max_len (mrqq d)"
    using fifo_pop_total [of "mrqq d"] by (auto simp: bubble_free_def)
  have top: "fifo_top (mrqq d) = Some r" "\<not> fifo_empty (mrqq d)"
    using plain.front_contents [OF bf] fifo_empty_iff [OF bf] assms(3) by auto
  from assms(1) j have len: "?j < length (banks d)" "?j < length (bank_accesses d)"
    and free: "\<forall>i < ?n. mrq (banks d ! i) = None" by (auto simp: banks_free_def)
  define d1 where "d1 = d\<lparr>mrqq := m, banks := (banks d)[?j := (banks d ! ?j)\<lparr>mrq := Some r\<rparr>],
    bank_accesses := (bank_accesses d)[?j := bank_accesses d ! ?j + 1]\<rparr>"
  have "scheduler_fifo d = Inr d1"
    using top len free j m(1) by (simp add: scheduler_fifo_def d1_def Let_def)
  moreover have "foldM bank_transfer [0..<?n] d1 =
      rbind (fifo_push (Some r) (rwq d1)) (\<lambda>q.
        Inr (d1\<lparr>rwq := q, banks := (banks d1)[?j := (banks d1 ! ?j)\<lparr>mrq := None\<rparr>]\<rparr>))"
    using len free j assms(1)
    by (intro transfers_one) (auto simp: d1_def nth_list_update banks_free_def)
  moreover have "d1\<lparr>rwq := q, banks := (banks d1)[?j := (banks d1 ! ?j)\<lparr>mrq := None\<rparr>]\<rparr> =
      d\<lparr>mrqq := m, rwq := q, banks := (banks d)[?j := (banks d ! ?j)\<lparr>mrq := None\<rparr>],
        bank_accesses := (bank_accesses d)[?j := bank_accesses d ! ?j + 1]\<rparr>" for q
    using len by (simp add: d1_def)
  moreover have "rwq d1 = rwq d" by (simp add: d1_def)
  moreover have "banks_free (d\<lparr>banks := (banks d)[?j := (banks d ! ?j)\<lparr>mrq := None\<rparr>],
      bank_accesses := (bank_accesses d)[?j := bank_accesses d ! ?j + 1]\<rparr>)"
    using assms(1) by (auto simp: banks_free_def dest!: set_update_subset_insert [THEN subsetD])
  ultimately show ?thesis using m mm
    by (intro exI [of _ m] exI [of _ "(banks d)[?j := (banks d ! ?j)\<lparr>mrq := None\<rparr>]"]
        exI [of _ "(bank_accesses d)[?j := bank_accesses d ! ?j + 1]"] conjI) simp_all
qed

lemma schedule_bad_bank:
  assumes "banks_free d" and bf: "bubble_free (mrqq d)" and "fifo_data (mrqq d) = r # rs"
    and "\<not> (ucast (req_bk r) :: u32) < nbk (dram_config d)"
  shows "scheduler_fifo d = Inl Undefined_Behaviour"
proof -
  have "fifo_top (mrqq d) = Some r" "\<not> fifo_empty (mrqq d)"
    using plain.front_contents [OF bf] fifo_empty_iff [OF bf] assms(3) by auto
  with assms(1,4) show ?thesis
    by (simp add: scheduler_fifo_def Let_def nth_res_def banks_free_def word_less_nat_alt)
qed

lemma schedule_and_transfer:
  assumes "banks_free d" and "queue_ok d"
    and push: "\<And>r. opt_hd (fifo_data (mrqq d)) = Some r \<Longrightarrow> fifo_push (Some r) (rwq d) = Inr q"
  shows "\<exists>d'. rbind (scheduler_fifo d) (foldM bank_transfer [0..<unat (nbk (dram_config d))]) = Inr d' \<and>
    dram_config d' = dram_config d \<and> banks_free d' \<and> queue_ok d' \<and> fifo_data (mrqq d') = [] \<and>
    returnq d' = returnq d \<and> rwq d' = (if fifo_data (mrqq d) = [] then rwq d else q)"
proof (cases "fifo_data (mrqq d)")
  case Nil
  with assms schedule_none [OF assms(1)] show ?thesis by (simp add: queue_ok_def)
next
  case (Cons r rs)
  with assms(2) have bf: "bubble_free (mrqq d)" and r: "(ucast (req_bk r) :: u32) < nbk (dram_config d)"
    and rs: "rs = []" by (auto simp: queue_ok_def)
  from schedule_head [OF assms(1) bf Cons r] push [of r] Cons assms(2) rs show ?thesis
    by (auto simp: queue_ok_def banks_free_def)
qed

lemma retire_ok:
  assumes "bubble_free (returnq d)" and "fifo_data (returnq d) = []" and "delay_line n (rwq d)"
  shows "\<exists>q rq. dram_retire d = Inr (d\<lparr>rwq := q, returnq := rq\<rparr>) \<and> fifo_pop (rwq d) = Inr (hd (m_nodes (rwq d)), q) \<and>
    bubble_free rq \<and> fifo_data rq = live [map_option req_data (hd (m_nodes (rwq d)))]"
proof -
  from assms(3) obtain h rest where nodes: "m_nodes (rwq d) = h # rest" by (cases "m_nodes (rwq d)") (auto simp: delay_line_def)
  with assms(3) fifo_pop_nodes [of "rwq d" h rest] obtain q where q: "fifo_pop (rwq d) = Inr (h, q)"
    by (auto simp: delay_line_def)
  have nf: "\<not> fifo_full (returnq d)"
    using assms(1,2) fifo_full_iff [OF assms(1)] by (auto simp: bubble_free_def wf_fifo_def)
  show ?thesis
  proof (cases h)
    case None
    with q nf nodes assms show ?thesis
      by (intro exI [of _ q] exI [of _ "returnq d"]) (simp add: dram_retire_def Let_def)
  next
    case (Some r)
    from plain.enq_ok [OF assms(1) nf, of "req_data r"] obtain rq where
      "fifo_push (Some (req_data r)) (returnq d) = Inr rq" "bubble_free rq" "fifo_data rq = [req_data r]"
      using assms(2) by auto
    with q nf nodes Some show ?thesis by (auto simp: dram_retire_def Let_def)
  qed
qed

lemma scheduler_fifo_config: "scheduler_fifo d = Inr d' \<Longrightarrow> dram_config d' = dram_config d"
  by (auto simp: scheduler_fifo_def res_simps Let_def split: if_splits)

lemma dram_cycle_shifts:
  assumes ok: "channel_ok c d" and empty: "fifo_data (returnq d) = []"
  shows "\<exists>d'. Dram.dram_cycle d = Inr d' \<and> channel_ok c d' \<and> fifo_data (mrqq d') = [] \<and>
    in_channel d' = tl (in_channel d) @ [None]"
proof -
  let ?x = "opt_hd (fifo_data (mrqq d))" and ?n = "unat (CL c)"
  from ok have c: "dram_config d = c" "scheduler_type c = DRAM_FIFO" and line: "delay_line ?n (rwq d)"
    and bf: "bubble_free (returnq d)" by (auto simp: channel_ok_def returns_ok_def)
  from retire_ok [OF bf empty line] obtain q rq where ret: "dram_retire d = Inr (d\<lparr>rwq := q, returnq := rq\<rparr>)"
    and pop: "fifo_pop (rwq d) = Inr (hd (m_nodes (rwq d)), q)" and rq: "bubble_free rq"
    "fifo_data rq = live [map_option req_data (hd (m_nodes (rwq d)))]" by blast
  from pop_push_shift [OF line, of ?x] pop obtain q' where q':
    "(if ?x = None then Inr (hd (m_nodes (rwq d)), q)
      else rbind (fifo_push ?x q) (\<lambda>q2. Inr (hd (m_nodes (rwq d)), q2))) = Inr (hd (m_nodes (rwq d)), q')"
    "delay_line ?n q'" "m_nodes q' = tl (m_nodes (rwq d)) @ [?x]" by (auto simp: pop_push_def)
  then have push: "fifo_push (Some r) q = Inr q'" if "?x = Some r" for r
    using that by (auto simp: res_simps)
  let ?d = "d\<lparr>rwq := q, returnq := rq\<rparr>"
  have "banks_free ?d" "queue_ok ?d"
    using ok by (auto simp: channel_ok_def banks_free_def queue_ok_def)
  from schedule_and_transfer [OF this, of q'] push obtain d' where d':
    "rbind (scheduler_fifo ?d) (foldM bank_transfer [0..<unat (nbk (dram_config ?d))]) = Inr d'"
    "dram_config d' = dram_config d" "banks_free d'" "queue_ok d'" "fifo_data (mrqq d') = []"
    "returnq d' = rq" "rwq d' = (if fifo_data (mrqq d) = [] then q else q')" by auto
  have "rwq d' = q'"
    using d'(7) q'(1) by (cases "fifo_data (mrqq d)") auto
  moreover have "returns_ok d'"
    using rq d'(6) by (cases "hd (m_nodes (rwq d))") (auto simp: returns_ok_def)
  moreover from d'(1) obtain d1 where d1: "scheduler_fifo ?d = Inr d1"
    "foldM bank_transfer [0..<unat (nbk (dram_config d))] d1 = Inr d'" by (auto simp: res_simps)
  then have "Dram.dram_cycle d = Inr d'"
    using ret c scheduler_fifo_config [OF d1(1)] by (simp add: Dram.dram_cycle_def)
  moreover have "opt_hd (fifo_data rq) = map_option req_data (hd (m_nodes (rwq d)))"
    using rq(2) by (cases "hd (m_nodes (rwq d))") auto
  moreover have "m_nodes (rwq d) \<noteq> []" using line by (auto simp: delay_line_def)
  ultimately show ?thesis
    using d' q' c by (cases "m_nodes (rwq d)") (auto simp: channel_ok_def in_channel_def)
qed

lemma dram_push_in_channel:
  assumes ok: "channel_ok c d" and empty: "fifo_data (mrqq d) = []" and p: "decoded g c p"
  shows "\<exists>d'. dram_push p g d = Inr d' \<and> channel_ok c d' \<and>
    in_channel d' = butlast (in_channel d) @ [Some p]"
proof -
  from p obtain mf b r where mf: "mf_heap g p = Some mf" "bk mf = Some b" "row mf = Some r"
    "(ucast b :: u32) < nbk c" by (auto simp: decoded_def split: option.splits)
  let ?r = "\<lparr>req_row = ucast r, req_bk = b, req_rw = (if m_access_type mf then WRITE else READ),
            req_data = p, txbytes = None\<rparr>"
  from ok have bf: "bubble_free (mrqq d)" "1 < m_max_len (mrqq d)" and c: "dram_config d = c"
    by (auto simp: channel_ok_def queue_ok_def)
  have "\<not> fifo_full (mrqq d)" using fifo_full_iff [OF bf(1)] bf empty by simp
  from plain.enq_ok [OF bf(1) this, of ?r] obtain q where q: "fifo_push (Some ?r) (mrqq d) = Inr q"
    "bubble_free q" "fifo_data q = [?r]" using empty by auto
  then have "m_max_len q = m_max_len (mrqq d)" using fifo_push_frame [OF q(1)] by simp
  moreover have "dram_push p g d = Inr (d\<lparr>mrqq := q\<rparr>)"
    using mf q by (simp add: dram_push_def new_dram_req_def mf_at_def)
  ultimately show ?thesis
    using q ok bf c mf by (auto simp: channel_ok_def in_channel_def queue_ok_def banks_free_def returns_ok_def)
qed

lemma channel_step_shifts:
  assumes ok: "channel_ok c d" and x: "\<And>p. x = Some p \<Longrightarrow> decoded g c p"
  shows "\<exists>d'. channel_step x g d = Inr (hd (in_channel d), d') \<and> channel_ok c d' \<and>
    in_channel d' = tl (in_channel d) @ [x]"
proof -
  from ok have bf: "bubble_free (returnq d)" "length (fifo_data (returnq d)) \<le> 1"
    by (auto simp: channel_ok_def returns_ok_def)
  from plain.deq_ok [OF bf(1)] bf(2) obtain rq where rq: "fifo_pop (returnq d) = Inr (fifo_top (returnq d), rq)"
    "bubble_free rq" "fifo_data rq = []" by (cases "fifo_data (returnq d)") auto
  have top: "fifo_top (returnq d) = opt_hd (fifo_data (returnq d))"
    using plain.front_contents [OF bf(1)] by (simp add: opt_hd_def)
  let ?d = "d\<lparr>returnq := rq\<rparr>"
  have "channel_ok c ?d" "fifo_data (returnq ?d) = []"
    using ok rq by (auto simp: channel_ok_def banks_free_def queue_ok_def returns_ok_def)
  from dram_cycle_shifts [OF this] obtain d1 where d1: "Dram.dram_cycle ?d = Inr d1" "channel_ok c d1"
    "fifo_data (mrqq d1) = []" "in_channel d1 = tl (in_channel ?d) @ [None]" by blast
  have "tl (in_channel ?d) = tl (in_channel d)" by (simp add: in_channel_def)
  moreover have "return_queue_pop d = Inr (hd (in_channel d), ?d)"
    using rq top by (simp add: return_queue_pop_def in_channel_def)
  moreover obtain d2 where "(case x of None \<Rightarrow> Inr d1 | Some p \<Rightarrow> dram_push p g d1) = Inr d2"
    "channel_ok c d2" "in_channel d2 = butlast (in_channel d1) @ [x]"
    using d1 x dram_push_in_channel [OF d1(2,3), of g] by (cases x) auto
  ultimately show ?thesis using d1 by (auto simp: channel_step_def)
qed

lemma channel_run_shifts:
  "channel_ok c d \<Longrightarrow> \<forall>p. Some p \<in> set xs \<longrightarrow> decoded g c p \<Longrightarrow>
   \<exists>d'. channel_run xs g d = Inr (take (length xs) (in_channel d @ xs), d') \<and> channel_ok c d' \<and>
     in_channel d' = drop (length xs) (in_channel d @ xs)"
proof (induction xs arbitrary: d)
  case (Cons x xs)
  from channel_step_shifts [OF Cons.prems(1), of x g] Cons.prems(2) obtain d1 where d1:
    "channel_step x g d = Inr (hd (in_channel d), d1)" "channel_ok c d1"
    "in_channel d1 = tl (in_channel d) @ [x]" by auto
  from Cons.IH [OF d1(2)] Cons.prems(2) obtain d2 where
    "channel_run xs g d1 = Inr (take (length xs) (in_channel d1 @ xs), d2)" "channel_ok c d2"
    "in_channel d2 = drop (length xs) (in_channel d1 @ xs)" by auto
  moreover obtain y ys where "in_channel d = y # ys" by (simp add: in_channel_def)
  ultimately show ?case using d1 by simp
qed simp

lemma new_dram_in_channel:
  assumes d: "new_dram c n = Inr d" and c: "scheduler_type c = DRAM_FIFO" "0 < CL c"
  shows "channel_ok c d \<and> in_channel d = replicate (unat (CL c) + 2) None"
proof -
  let ?n = "unat (CL c)" and ?m = "unat (CL c + 1)" and
    ?s = "if gpgpu_dram_return_queue_size c = 0 then 1024
          else unat (word_of_int (gpgpu_dram_return_queue_size c) :: u32)"
  from d obtain rw :: "dram_req_t fifo_pipeline" and mq :: "dram_req_t fifo_pipeline"
    and rq :: "mf_ptr fifo_pipeline" where
    new: "new_fifo_pipeline ?n ?m = Inr rw" "new_fifo_pipeline 0 2 = Inr mq" "new_fifo_pipeline 0 ?s = Inr rq"
    and fields: "rwq d = rw" "mrqq d = mq" "returnq d = rq" "dram_config d = c" "banks_free d"
    unfolding new_dram_def
    by (elim guard_eq_Inr [THEN iffD1, THEN conjE] rbind_eq_Inr [THEN iffD1, THEN exE] conjE)
      (rule that, auto simp: banks_free_def new_bank_def)
  from new(1) have "?m \<noteq> 0" by (auto simp: new_fifo_pipeline_def res_simps)
  then have m: "?m = Suc ?n" by (metis add.commute unat_eq_zero unatSuc)
  moreover have "0 < ?n" using c(2) by (simp add: word_greater_zero_iff unat_gt_0)
  ultimately have "delay_line ?n rw \<and> m_nodes rw = replicate ?n None"
    using new(1) new_fifo_pipeline_ok [of ?n ?m, where 'a = dram_req_t] by (auto simp: delay_line_def)
  moreover have "bubble_free mq" "fifo_data mq = []" "m_max_len mq = 2"
    using new(2) new_fifo_pipeline_plain [of 2, where 'a = dram_req_t] by auto
  moreover have "0 < ?s" using new(3) by (cases "?s = 0") (simp_all add: new_fifo_pipeline_def)
  then have "bubble_free rq" "fifo_data rq = []"
    using new(3) new_fifo_pipeline_plain [of ?s, where 'a = mf_ptr] by auto
  ultimately show ?thesis
    using fields c by (simp add: channel_ok_def in_channel_def queue_ok_def returns_ok_def replicate_append_same)
qed

section \<open>No request is lost\<close>

text \<open>
  Also when the return queue is not emptied in time, the channel keeps its requests in order (unless
  \<open>rwq\<close> overflows, which is a failed assertion).
\<close>

definition channel_data :: "dram_t \<Rightarrow> mf_ptr list" where
  "channel_data d =
     fifo_data (returnq d) @ map req_data (fifo_data (rwq d)) @ map req_data (fifo_data (mrqq d))"

definition channel_wf :: "dram_t \<Rightarrow> bool" where
  "channel_wf d \<longleftrightarrow>
     banks_free d \<and> bubble_free (mrqq d) \<and> bubble_free (returnq d) \<and> wf_fifo (rwq d)"

lemma dram_retire_frame:
  assumes "dram_retire d = Inr d1"
  shows "dram_config d1 = dram_config d \<and> mrqq d1 = mrqq d \<and> banks d1 = banks d \<and>
    bank_accesses d1 = bank_accesses d"
  using assms
  by (cases "fifo_full (returnq d)"; cases "fifo_pop (rwq d)"; cases "fst (projr (fifo_pop (rwq d)))")
    (auto simp: dram_retire_def res_simps)

lemma dram_retire_keeps:
  assumes "dram_retire d = Inr d'" and wf: "channel_wf d"
  shows "channel_wf d' \<and> channel_data d' = channel_data d"
proof (cases "fifo_full (returnq d)")
  case True
  with assms show ?thesis by (simp add: dram_retire_def)
next
  case False
  from wf have "wf_fifo (rwq d)" and bf: "bubble_free (returnq d)" by (simp_all add: channel_wf_def)
  from fifo_pop_total [OF this(1)] obtain q where q: "fifo_pop (rwq d) = Inr (fifo_top (rwq d), q)"
    "wf_fifo q" "fifo_data (rwq d) = live [fifo_top (rwq d)] @ fifo_data q" by blast
  show ?thesis
  proof (cases "fifo_top (rwq d)")
    case None
    with q assms False show ?thesis by (auto simp: dram_retire_def channel_wf_def channel_data_def banks_free_def)
  next
    case (Some r)
    from plain.enq_ok [OF bf False, of "req_data r"] obtain rq where
      "fifo_push (Some (req_data r)) (returnq d) = Inr rq" "bubble_free rq"
      "fifo_data rq = fifo_data (returnq d) @ [req_data r]" by blast
    with Some q assms False show ?thesis
      by (auto simp: dram_retire_def channel_wf_def channel_data_def banks_free_def)
  qed
qed

lemma dram_cycle_keeps:
  assumes run: "Dram.dram_cycle d = Inr d'" and wf: "channel_wf d"
  shows "channel_wf d' \<and> channel_data d' = channel_data d"
proof -
  from run obtain d1 where d1: "dram_retire d = Inr d1" by (cases "dram_retire d") (simp_all add: Dram.dram_cycle_def)
  from dram_retire_keeps [OF d1 wf] have wf1: "channel_wf d1" and data: "channel_data d1 = channel_data d" by auto
  let ?ts = "\<lambda>d. foldM bank_transfer [0..<unat (nbk (dram_config d))] d"
  have c: "dram_config d1 = dram_config d" using dram_retire_frame [OF d1] by simp
  have idle: "?ts d1 = Inr d1"
    using wf1 by (intro transfers_idle) (auto simp: channel_wf_def banks_free_def)
  have fifo: "rbind (scheduler_fifo d1) (foldM bank_transfer [0..<unat (nbk (dram_config d1))]) = Inr d'"
    if "scheduler_type (dram_config d1) = DRAM_FIFO"
  proof -
    from run d1 c that obtain d2 where d2: "scheduler_fifo d1 = Inr d2" "?ts d2 = Inr d'"
      by (auto simp: Dram.dram_cycle_def res_simps)
    with scheduler_fifo_config [OF d2(1)] show ?thesis by simp
  qed
  show ?thesis
  proof (cases "scheduler_type (dram_config d1)")
    case DRAM_FRFCFS
    with run d1 c idle have "d' = d1" by (simp add: Dram.dram_cycle_def)
    with wf1 data show ?thesis by simp
  next
    case DRAM_FIFO
    note fifo = fifo [OF this]
    from wf1 have free: "banks_free d1" and bf: "bubble_free (mrqq d1)" by (auto simp: channel_wf_def)
    show ?thesis
    proof (cases "fifo_data (mrqq d1)")
      case Nil
      with schedule_none [OF free bf] fifo wf1 data show ?thesis by simp
    next
      case (Cons r rs)
      with schedule_bad_bank [OF free bf Cons] fifo have r: "(ucast (req_bk r) :: u32) < nbk (dram_config d1)"
        by (cases "(ucast (req_bk r) :: u32) < nbk (dram_config d1)") auto
      from schedule_head [OF free bf Cons r] obtain m bs ba where
        eq: "rbind (fifo_push (Some r) (rwq d1)) (\<lambda>q.
          Inr (d1\<lparr>mrqq := m, rwq := q, banks := bs, bank_accesses := ba\<rparr>)) = Inr d'" and
        m: "bubble_free m" "fifo_data m = rs" "banks_free (d1\<lparr>banks := bs, bank_accesses := ba\<rparr>)"
        using fifo by auto
      from eq obtain q where q: "fifo_push (Some r) (rwq d1) = Inr q"
        "d' = d1\<lparr>mrqq := m, rwq := q, banks := bs, bank_accesses := ba\<rparr>" by (auto simp: res_simps)
      with m wf1 data Cons fifo_push_wf [OF q(1)] fifo_push_data [OF q(1)] show ?thesis
        by (auto simp: channel_wf_def channel_data_def banks_free_def)
    qed
  qed
qed

lemma new_dram_wf:
  assumes "new_dram c n = Inr d"
  shows "channel_wf d \<and> channel_data d = []"
proof -
  let ?n = "unat (CL c)" and ?m = "unat (CL c + 1)" and
    ?s = "if gpgpu_dram_return_queue_size c = 0 then 1024
          else unat (word_of_int (gpgpu_dram_return_queue_size c) :: u32)"
  from assms obtain rw :: "dram_req_t fifo_pipeline" and mq :: "dram_req_t fifo_pipeline"
    and rq :: "mf_ptr fifo_pipeline" where
    new: "new_fifo_pipeline ?n ?m = Inr rw" "new_fifo_pipeline 0 2 = Inr mq" "new_fifo_pipeline 0 ?s = Inr rq"
    and fields: "rwq d = rw" "mrqq d = mq" "returnq d = rq" "banks_free d"
    by (auto simp: new_dram_def res_simps banks_free_def new_bank_def split: if_splits)
  from new(1) have "?m \<noteq> 0" by (auto simp: new_fifo_pipeline_def res_simps)
  then have "?m = Suc ?n" by (metis add.commute unat_eq_zero unatSuc)
  then have "wf_fifo rw \<and> fifo_data rw = []"
    using new(1) new_fifo_pipeline_ok [of ?n ?m, where 'a = dram_req_t] by (auto simp: fifo_data_def)
  moreover have "bubble_free mq" "fifo_data mq = []"
    using new(2) new_fifo_pipeline_plain [of 2, where 'a = dram_req_t] by auto
  moreover have "0 < ?s" using new(3) by (cases "?s = 0") (simp_all add: new_fifo_pipeline_def)
  then have "bubble_free rq" "fifo_data rq = []"
    using new(3) new_fifo_pipeline_plain [of ?s, where 'a = mf_ptr] by auto
  ultimately show ?thesis using fields by (simp add: channel_wf_def channel_data_def)
qed

lemma dram_push_keeps:
  assumes "dram_push p g d = Inr d'" and wf: "channel_wf d"
  shows "channel_wf d' \<and> channel_data d' = channel_data d @ [p]"
proof -
  from assms(1) obtain r q where q: "fifo_push (Some r) (mrqq d) = Inr q" "req_data r = p" "d' = d\<lparr>mrqq := q\<rparr>"
    by (auto simp: dram_push_def new_dram_req_def res_simps)
  from wf have bf: "bubble_free (mrqq d)" by (simp add: channel_wf_def)
  from plain.enq_Inr_iff [OF bf, of r] q(1) have "\<not> fifo_full (mrqq d)" by blast
  from plain.enq_ok [OF bf this, of r] q wf show ?thesis
    by (auto simp: channel_wf_def channel_data_def banks_free_def)
qed

lemma return_queue_pop_keeps:
  assumes "return_queue_top d = Some p" and "return_queue_pop d = Inr (x, d')" and wf: "channel_wf d"
  shows "channel_wf d' \<and> channel_data d = p # channel_data d'"
proof -
  from wf have bf: "bubble_free (returnq d)" by (simp add: channel_wf_def)
  from assms(1) plain.front_contents [OF bf] obtain ps where ps: "fifo_data (returnq d) = p # ps"
    by (auto simp: return_queue_top_def split: list.splits)
  from plain.deq_front [OF bf ps] assms wf ps show ?thesis
    by (auto simp: return_queue_pop_def channel_wf_def channel_data_def banks_free_def)
qed

text \<open>With the other scheduler type nothing is ever scheduled: the queue only fills.\<close>

lemma frfcfs_never_schedules:
  assumes "scheduler_type (dram_config d) = DRAM_FRFCFS" and "banks_free d"
    and "Dram.dram_cycle d = Inr d'"
  shows "mrqq d' = mrqq d \<and> banks_free d'"
proof -
  from assms(3) obtain d1 where d1: "dram_retire d = Inr d1"
    by (cases "dram_retire d") (simp_all add: Dram.dram_cycle_def)
  with dram_retire_frame [OF d1] assms(1,3)
  have "foldM bank_transfer [0..<unat (nbk (dram_config d1))] d1 = Inr d'" and
    frame: "dram_config d1 = dram_config d" "mrqq d1 = mrqq d" "banks d1 = banks d"
    "bank_accesses d1 = bank_accesses d" by (simp_all add: Dram.dram_cycle_def)
  from frame assms(2) have "banks_free d1" by (simp add: banks_free_def)
  then have "foldM bank_transfer [0..<unat (nbk (dram_config d1))] d1 = Inr d1"
    by (intro transfers_idle) (auto simp: banks_free_def)
  with \<open>foldM _ _ _ = Inr d'\<close> frame \<open>banks_free d1\<close> show ?thesis by simp
qed

section \<open>Properties\<close>

text \<open>C34. A DRAM channel with the FIFO scheduler is an exact delay line of \<open>CL + 2\<close> cycles: when every
  cycle takes what is on top of the return queue, steps the channel and pushes at most one request, no
  queue ever overflows, no assertion fails, and what is taken over any run is nothing for \<open>CL + 2\<close>
  cycles and then exactly what was pushed, in order and with the same gaps.  Banks, rows, reads or
  writes and every timing parameter but \<open>CL\<close> make no difference.\<close>

theorem dram_channel_is_delay_line:
  assumes "new_dram c n = Inr d" and "scheduler_type c = DRAM_FIFO" and "0 < CL c"
    and "\<forall>p. Some p \<in> set xs \<longrightarrow> decoded g c p"
  shows "\<exists>d'. channel_run xs g d = Inr (take (length xs) (replicate (unat (CL c) + 2) None @ xs), d') \<and>
    in_channel d' = drop (length xs) (replicate (unat (CL c) + 2) None @ xs)"
proof -
  from new_dram_in_channel [OF assms(1-3)] have "channel_ok c d" and
    i: "in_channel d = replicate (unat (CL c) + 2) None" by auto
  from channel_run_shifts [OF this(1) assms(4)] show ?thesis unfolding i by blast
qed

definition two_banks :: memory_config where
  "two_banks = \<lparr>scheduler_type = DRAM_FIFO, gpgpu_dram_return_queue_size = 4,
     m_n_sub_partition_per_memory_channel = 2, gpgpu_frfcfs_dram_sched_queue_size = 0,
     seperate_write_queue_enabled = False, gpgpu_frfcfs_dram_write_queue_size = 0,
     dram_bnk_indexing_policy = 0, dual_bus_interface = 0, tCCDL = 0, tRTPL = 0, tCCD = 0, tRRD = 0,
     tRCD = 0, tRCDWR = 0, tRAS = 0, tRP = 0, tRC = 0, tCDLR = 0, tWR = 0, CL = 2, WL = 0, BL = 0,
     tRTW = 0, tWTR = 0, tWTP = 0, nbkgrp = 1, nbk = 2, data_command_freq_ratio = 1,
     dram_bnkgrp_indexing_policy = 1, elimnate_rw_turnaround = False, simple_dram_model = False\<rparr>"

definition one_bank_twice :: "gpu_env" where
  "one_bank_twice =
     \<lparr>mf_heap = (\<lambda>p. if p \<in> {7, 8} then Some ((new_mem_fetch 0 False 64 1 GLOBAL False 0 0 0 0 0)
        \<lparr>bk := Some 1, row := Some (of_nat p)\<rparr>) else None),
      next_mf_ptr = 9, mf_id = 2,
      m_icnt = new_local_interconnect \<lparr>cfg_in_buffer_limit = 1, cfg_out_buffer_limit = 1, subnets = 2,
                  arbiter_algo = NAIVE_RR\<rparr>,
      gpu_sim_cycles = 0, address_to_sms = (\<lambda>_. {}), total_access = 0, l2_push_num = 0, l2_pop_num = 0,
      trace_file_ok = True\<rparr>"

text \<open>Two requests for different rows of the same bank, one after the other.\<close>

theorem dram_channel_is_delay_line_witness:
  "\<exists>d d'. new_dram two_banks 0 = Inr d \<and>
     channel_run [Some 7, Some 8, None, None, None, None] one_bank_twice d =
       Inr ([None, None, None, None, Some 7, Some 8], d')"
proof -
  have "\<exists>d. new_dram two_banks 0 = Inr d"
    using new_fifo_pipeline_ok [of 2 3, where 'a = dram_req_t]
      new_fifo_pipeline_plain [of 2, where 'a = dram_req_t] new_fifo_pipeline_plain [of 4, where 'a = mf_ptr]
    by (auto simp: new_dram_def two_banks_def)
  then obtain d where d: "new_dram two_banks 0 = Inr d" by blast
  let ?xs = "[Some 7, Some 8, None, None, None, None] :: mf_ptr option list"
  have c: "scheduler_type two_banks = DRAM_FIFO" "0 < CL two_banks" "unat (CL two_banks) = 2"
    by (simp_all add: two_banks_def)
  have xs: "\<forall>p. Some p \<in> set ?xs \<longrightarrow> decoded one_bank_twice two_banks p"
    by (auto simp: decoded_def one_bank_twice_def two_banks_def new_mem_fetch_def)
  from dram_channel_is_delay_line [OF d c(1,2) xs] d show ?thesis
    unfolding c(3) by (auto simp: numeral_eq_Suc)
qed

end
