(* ===== verification/Partition_Flow.thy ===== *)
theory Partition_Flow
  imports Memory_Partition Dram_Flow
begin

text \<open>
  The way of the requests from an L2 slice to memory and back (\<open>memory_partition\<close>, \<^verbatim>\<open>cache.cpp\<close>), with
  both DRAM models: for each slice it is a queue.  A request is in the slice's \<open>m_L2_dram_queue\<close>, then
  in the latency queue of the slice's channel, with the detailed model then in the channel, and at last
  in the slice's \<open>m_dram_L2_queue\<close>.
\<close>

section \<open>The requests of a slice\<close>

definition slices_per_channel :: "memory_partition \<Rightarrow> int" where
  "slices_per_channel mp = m_n_sub_partition_per_memory_channel (mp_config mp)"

definition channel_of :: "memory_partition \<Rightarrow> int \<Rightarrow> nat" where
  "channel_of mp i = nat (i div slices_per_channel mp)"

definition owner :: "gpu_env \<Rightarrow> mf_ptr \<Rightarrow> int option" where
  "owner g p = Option.bind (mf_heap g p) l2_id"

definition slice :: "memory_partition \<Rightarrow> int \<Rightarrow> l2_data_cache" where
  "slice mp i = m_l2_caches mp ! nat i"

definition valid_slice :: "memory_partition \<Rightarrow> int \<Rightarrow> bool" where
  "valid_slice mp i \<longleftrightarrow> 0 \<le> i \<and> i < int (length (m_l2_caches mp)) \<and>
     channel_of mp i < length (m_dram mp) \<and> channel_of mp i < length (m_dram_latency_queue mp)"

definition delayed :: "memory_partition \<Rightarrow> int \<Rightarrow> mf_ptr list" where
  "delayed mp i =
     map dd_req (filter (\<lambda>e. dd_l2_id e = i) (m_dram_latency_queue mp ! channel_of mp i))"

definition in_dram :: "memory_partition \<Rightarrow> gpu_env \<Rightarrow> int \<Rightarrow> mf_ptr list" where
  "in_dram mp g i = filter (\<lambda>p. owner g p = Some i) (channel_data (m_dram mp ! channel_of mp i))"

text \<open>All requests of a slice, the next to return first.\<close>

definition in_memory :: "mp_state \<Rightarrow> int \<Rightarrow> mf_ptr list" where
  "in_memory s i = (case s of (mp, g) \<Rightarrow>
     fifo_data (m_dram_L2_queue (slice mp i)) @ in_dram mp g i @ delayed mp i @
     fifo_data (m_L2_dram_queue (slice mp i)))"

section \<open>The invariant\<close>

definition l2_queues_ok :: "l2_data_cache \<Rightarrow> bool" where
  "l2_queues_ok c \<longleftrightarrow> bubble_free (m_L2_dram_queue c) \<and> bubble_free (m_dram_L2_queue c)"

definition delay_ok :: "memory_partition \<Rightarrow> gpu_env \<Rightarrow> nat \<Rightarrow> dram_delay_t \<Rightarrow> bool" where
  "delay_ok mp g ch e \<longleftrightarrow> valid_slice mp (dd_l2_id e) \<and> channel_of mp (dd_l2_id e) = ch \<and>
     (\<not> simple_dram_model (mp_config mp) \<longrightarrow> owner g (dd_req e) = Some (dd_l2_id e))"

definition dram_ok :: "memory_partition \<Rightarrow> gpu_env \<Rightarrow> nat \<Rightarrow> dram_t \<Rightarrow> bool" where
  "dram_ok mp g ch d \<longleftrightarrow> channel_wf d \<and> (simple_dram_model (mp_config mp) \<longrightarrow> channel_data d = []) \<and>
     (\<forall>p\<in>set (channel_data d). \<exists>i. owner g p = Some i \<and> valid_slice mp i \<and> channel_of mp i = ch)"

definition shape_ok :: "memory_partition \<Rightarrow> bool" where
  "shape_ok mp \<longleftrightarrow> 0 < slices_per_channel mp \<and> slices_per_channel mp < 2 ^ 32 \<and>
     (\<forall>c\<in>set (m_l2_caches mp). l2_queues_ok c)"

definition memory_ok :: "mp_state \<Rightarrow> bool" where
  "memory_ok s \<longleftrightarrow> (case s of (mp, g) \<Rightarrow> shape_ok mp \<and>
     (\<forall>ch < length (m_dram_latency_queue mp). \<forall>e\<in>set (m_dram_latency_queue mp ! ch). delay_ok mp g ch e) \<and>
     (\<forall>ch < length (m_dram mp). dram_ok mp g ch (m_dram mp ! ch)))"

text \<open>No request is on its way twice.\<close>

definition apart :: "mp_state \<Rightarrow> bool" where
  "apart s \<longleftrightarrow> (\<forall>i. valid_slice (fst s) i \<longrightarrow> distinct (in_memory s i)) \<and>
     (\<forall>i j. valid_slice (fst s) i \<longrightarrow> valid_slice (fst s) j \<longrightarrow> i \<noteq> j \<longrightarrow>
        set (in_memory s i) \<inter> set (in_memory s j) = {})"

text \<open>What a step of the memory leaves alone.\<close>

definition same_path :: "mp_state \<Rightarrow> mp_state \<Rightarrow> bool" where
  "same_path s s' \<longleftrightarrow> memory_ok s' \<and> valid_slice (fst s') = valid_slice (fst s) \<and>
     mp_config (fst s') = mp_config (fst s) \<and>
     (\<forall>i. valid_slice (fst s) i \<longrightarrow> in_memory s' i = in_memory s i)"

lemma same_path_refl: "memory_ok s \<Longrightarrow> same_path s s"
  by (simp add: same_path_def)

lemma same_path_trans: "same_path s t \<Longrightarrow> same_path t u \<Longrightarrow> same_path s u"
  by (auto simp: same_path_def)

lemma same_path_apart: "same_path s s' \<Longrightarrow> apart s \<Longrightarrow> apart s'"
  by (auto simp: same_path_def apart_def)

text \<open>The parts of the invariant and of the paths depend on the shape of the memory only.\<close>

definition same_shape :: "memory_partition \<Rightarrow> memory_partition \<Rightarrow> bool" where
  "same_shape mp mp' \<longleftrightarrow> mp_config mp' = mp_config mp \<and>
     length (m_l2_caches mp') = length (m_l2_caches mp) \<and> length (m_dram mp') = length (m_dram mp) \<and>
     length (m_dram_latency_queue mp') = length (m_dram_latency_queue mp)"

lemma same_shapeD:
  assumes "same_shape mp mp'"
  shows "slices_per_channel mp' = slices_per_channel mp" "channel_of mp' = channel_of mp"
    "valid_slice mp' = valid_slice mp" "delay_ok mp' = delay_ok mp" "dram_ok mp' = dram_ok mp"
  using assms
  by (auto simp: same_shape_def slices_per_channel_def channel_of_def valid_slice_def delay_ok_def
      dram_ok_def fun_eq_iff)

lemma valid_slice_set_l2 [simp]: "valid_slice (set_l2 i c mp) = valid_slice mp"
  by (auto simp: valid_slice_def set_l2_def channel_of_def slices_per_channel_def fun_eq_iff)

lemma slice_set_l2: "valid_slice mp j \<Longrightarrow> 0 \<le> i \<Longrightarrow> slice (set_l2 i c mp) j = (if j = i then c else slice mp j)"
  by (auto simp: slice_def set_l2_def valid_slice_def nth_list_update)

lemma l2_of_valid: "l2_of i mp = Inr c \<longleftrightarrow> 0 \<le> i \<and> i < int (length (m_l2_caches mp)) \<and> c = slice mp i"
  by (auto simp: l2_of_def res_simps slice_def nat_less_iff)

lemma same_pathI:
  assumes shape: "same_shape mp mp'" and ok: "memory_ok (mp, g)"
    and l2: "\<And>c. c \<in> set (m_l2_caches mp') \<Longrightarrow> l2_queues_ok c"
    and latency: "\<And>ch e. ch < length (m_dram_latency_queue mp) \<Longrightarrow> e \<in> set (m_dram_latency_queue mp' ! ch) \<Longrightarrow>
      delay_ok mp g' ch e"
    and dram: "\<And>ch. ch < length (m_dram mp) \<Longrightarrow> dram_ok mp g' ch (m_dram mp' ! ch)"
    and path: "\<And>i. valid_slice mp i \<Longrightarrow> in_memory (mp', g') i = in_memory (mp, g) i"
  shows "same_path (mp, g) (mp', g')"
  using assms same_shapeD [OF shape]
  by (auto simp: same_path_def memory_ok_def shape_ok_def same_shape_def)

lemma memory_okD:
  assumes "memory_ok (mp, g)"
  shows "shape_ok mp"
    "ch < length (m_dram_latency_queue mp) \<Longrightarrow> e \<in> set (m_dram_latency_queue mp ! ch) \<Longrightarrow> delay_ok mp g ch e"
    "ch < length (m_dram mp) \<Longrightarrow> dram_ok mp g ch (m_dram mp ! ch)"
  using assms by (auto simp: memory_ok_def)

lemma slice_queues:
  assumes "memory_ok (mp, g)" and "valid_slice mp i"
  shows "bubble_free (m_L2_dram_queue (slice mp i))" "bubble_free (m_dram_L2_queue (slice mp i))"
  using assms by (auto simp: memory_ok_def shape_ok_def l2_queues_ok_def slice_def valid_slice_def)

lemma l2_queues_set_l2:
  assumes "memory_ok (mp, g)" and "l2_queues_ok c" and "x \<in> set (m_l2_caches (set_l2 i c mp))"
  shows "l2_queues_ok x"
  using assms by (auto simp: memory_ok_def shape_ok_def set_l2_def dest!: set_update_subset_insert [THEN subsetD])

lemma plain_push_Inr:
  assumes "bubble_free q" and "fifo_push (Some x) q = Inr q'"
  shows "bubble_free q' \<and> fifo_data q' = fifo_data q @ [x]"
  using assms plain.enq_Inr_iff [OF assms(1)] plain.enq_ok [OF assms(1)] by (metis Inr_inject)

section \<open>The simple model\<close>

lemma dram_model_return_path:
  assumes run: "dram_model_return ch (mp, g) = Inr s'" and ok: "memory_ok (mp, g)"
    and simple: "simple_dram_model (mp_config mp)"
  shows "same_path (mp, g) s'"
proof (cases "s' = (mp, g)")
  case True
  with ok show ?thesis by (simp add: same_path_refl)
next
  case False
  from run have ch: "ch < length (m_dram_latency_queue mp)"
    by (cases "ch < length (m_dram_latency_queue mp)") (auto simp: dram_model_return_def nth_res_def)
  with run False obtain e rest where q: "m_dram_latency_queue mp ! ch = e # rest"
    by (cases "m_dram_latency_queue mp ! ch") (auto simp: dram_model_return_def)
  let ?i = "dd_l2_id e" and ?p = "dd_req e"
  from run False ch q obtain c c' where c: "l2_of ?i mp = Inr c" "dram_L2_queue_push (Some ?p) c = Inr c'"
    and s': "s' = ((set_l2 ?i c' mp)\<lparr>m_dram_latency_queue := (m_dram_latency_queue mp)[ch := rest]\<rparr>, g)"
    by (auto simp: dram_model_return_def res_simps split: if_splits)
  let ?mp = "(set_l2 ?i c' mp)\<lparr>m_dram_latency_queue := (m_dram_latency_queue mp)[ch := rest]\<rparr>"
  from memory_okD(2) [OF ok ch, of e] q have e: "delay_ok mp g ch e" by simp
  then have valid: "valid_slice mp ?i" and chi: "channel_of mp ?i = ch" by (auto simp: delay_ok_def)
  from c(1) have cs: "c = slice mp ?i" by (simp add: l2_of_valid)
  from c(2) obtain dq where dq: "fifo_push (Some ?p) (m_dram_L2_queue c) = Inr dq" "c' = c\<lparr>m_dram_L2_queue := dq\<rparr>"
    by (auto simp: dram_L2_queue_push_def res_simps)
  from plain_push_Inr [OF slice_queues(2) [OF ok valid]] dq cs
  have dq': "bubble_free dq" "fifo_data dq = fifo_data (m_dram_L2_queue (slice mp ?i)) @ [?p]" by auto
  have shape: "same_shape mp ?mp" by (simp add: same_shape_def set_l2_def)
  have "l2_queues_ok c'" using slice_queues [OF ok valid] dq dq' cs by (simp add: l2_queues_ok_def)
  note l2 = l2_queues_set_l2 [OF ok this]
  have "in_dram mp g j = []" if "valid_slice mp j" for j
    using memory_okD(3) [OF ok, of "channel_of mp j"] that simple
    by (simp add: in_dram_def dram_ok_def valid_slice_def)
  moreover have "m_dram ?mp = m_dram mp" by (simp add: set_l2_def)
  moreover have "delayed mp j = (if j = ?i then [?p] else []) @ delayed ?mp j" if "valid_slice mp j" for j
    using q ch chi that same_shapeD(2) [OF shape]
    by (cases "channel_of mp j = ch") (auto simp: delayed_def)
  moreover have "slice ?mp j = slice (set_l2 ?i c' mp) j" for j by (simp add: slice_def)
  moreover have "0 \<le> ?i" using valid by (simp add: valid_slice_def)
  ultimately have path: "in_memory (?mp, g) j = in_memory (mp, g) j" if "valid_slice mp j" for j
    using that dq dq' cs same_shapeD(2) [OF shape] slice_set_l2 [OF that, of ?i c']
    by (auto simp: in_memory_def in_dram_def)
  show ?thesis unfolding s'
  proof (rule same_pathI [OF shape ok])
    fix x assume "x \<in> set (m_l2_caches ?mp)"
    then show "l2_queues_ok x" by (intro l2) simp
  next
    fix ch' x assume "ch' < length (m_dram_latency_queue mp)" "x \<in> set (m_dram_latency_queue ?mp ! ch')"
    then show "delay_ok mp g ch' x"
      using memory_okD(2) [OF ok, of ch'] q by (cases "ch' = ch") auto
  next
    fix ch' assume "ch' < length (m_dram mp)"
    then show "dram_ok mp g ch' (m_dram ?mp ! ch')" using memory_okD(3) [OF ok] by (simp add: set_l2_def)
  qed (rule path)
qed

section \<open>Issue to the channel\<close>

text \<open>The request a slice issues is nowhere else on its way.\<close>

lemma waiting_elsewhere:
  assumes apart: "apart (mp, g)" and ok: "memory_ok (mp, g)" and valid: "valid_slice mp i"
    and p: "p \<in> set (fifo_data (m_L2_dram_queue (slice mp i)))"
  shows "ch < length (m_dram mp) \<Longrightarrow> p \<notin> set (channel_data (m_dram mp ! ch))"
    and "ch < length (m_dram_latency_queue mp) \<Longrightarrow> e \<in> set (m_dram_latency_queue mp ! ch) \<Longrightarrow> dd_req e \<noteq> p"
proof -
  have i: "p \<in> set (in_memory (mp, g) i)" using p by (simp add: in_memory_def)
  have alone: False if j: "valid_slice mp j" "p \<in> set (in_dram mp g j) \<union> set (delayed mp j)" for j
  proof (cases "j = i")
    case True
    with j apart p show False by (auto simp: apart_def in_memory_def)
  next
    case False
    with j apart i valid show False
      by (auto simp: apart_def in_memory_def) (metis Int_iff UnCI empty_iff set_append)+
  qed
  show "p \<notin> set (channel_data (m_dram mp ! ch))" if "ch < length (m_dram mp)"
  proof
    assume here: "p \<in> set (channel_data (m_dram mp ! ch))"
    with memory_okD(3) [OF ok that] obtain j where "owner g p = Some j" "valid_slice mp j" "channel_of mp j = ch"
      by (auto simp: dram_ok_def)
    with alone [of j] here show False by (simp add: in_dram_def)
  qed
  show "dd_req e \<noteq> p" if "ch < length (m_dram_latency_queue mp)" "e \<in> set (m_dram_latency_queue mp ! ch)"
  proof
    assume "dd_req e = p"
    with memory_okD(2) [OF ok that] that(2) have "valid_slice mp (dd_l2_id e)" "p \<in> set (delayed mp (dd_l2_id e))"
      by (auto simp: delay_ok_def delayed_def)
    with alone show False by blast
  qed
qed

definition marks_owner :: "bool \<Rightarrow> (int \<Rightarrow> mem_fetch \<Rightarrow> mem_fetch) \<Rightarrow> bool" where
  "marks_owner simple mark \<longleftrightarrow> (\<forall>i mf. l2_id (mark i mf) = (if simple then l2_id mf else Some i))"

lemma owner_mark:
  assumes "mf_update p (mark i) g = Inr g'" and "marks_owner simple mark"
  shows "owner g' q = (if q = p \<and> \<not> simple then Some i else owner g q)"
  using assms by (auto simp: mf_update_Inr owner_def marks_owner_def)

lemma issue_one:
  assumes ok: "memory_ok (mp, g)" and apart: "apart (mp, g)"
    and marks: "marks_owner (simple_dram_model (mp_config mp)) mark"
    and valid: "valid_slice mp i" and chi: "channel_of mp i = ch"
    and p: "L2_dram_queue_top (slice mp i) = Some p" and c': "L2_dram_queue_pop (slice mp i) = Inr c'"
    and g': "mf_update p (mark i) g = Inr g'"
  shows "same_path (mp, g) ((set_l2 i c' mp)\<lparr>m_dram_latency_queue := (m_dram_latency_queue mp)[ch :=
    m_dram_latency_queue mp ! ch @ [\<lparr>ready_cycle = t, dd_req = p, dd_l2_id = i\<rparr>]]\<rparr>, g')"
proof -
  let ?e = "\<lparr>ready_cycle = t, dd_req = p, dd_l2_id = i\<rparr>" and ?c = "slice mp i"
  let ?mp = "(set_l2 i c' mp)\<lparr>m_dram_latency_queue := (m_dram_latency_queue mp)[ch :=
    m_dram_latency_queue mp ! ch @ [?e]]\<rparr>"
  note bf = slice_queues [OF ok valid]
  from p plain.front_contents [OF bf(1)] obtain ps where ps: "fifo_data (m_L2_dram_queue ?c) = p # ps"
    by (auto simp: L2_dram_queue_top_def split: list.splits)
  from plain.deq_front [OF bf(1) ps] c' obtain q where q: "c' = ?c\<lparr>m_L2_dram_queue := q\<rparr>"
    "bubble_free q" "fifo_data q = ps" by (auto simp: L2_dram_queue_pop_def)
  have shape: "same_shape mp ?mp" by (simp add: same_shape_def set_l2_def)
  note elsewhere = waiting_elsewhere [OF apart ok valid, of p]
  have "p \<in> set (fifo_data (m_L2_dram_queue ?c))" using ps by simp
  note elsewhere = elsewhere [OF this] and own = owner_mark [OF g' marks]
  have dram_same: "owner g' x = owner g x" if "ch < length (m_dram mp)" "x \<in> set (channel_data (m_dram mp ! ch))" for ch x
    using elsewhere(1) [OF that(1)] that(2) own by auto
  have "l2_queues_ok c'" using bf q by (simp add: l2_queues_ok_def)
  note l2 = l2_queues_set_l2 [OF ok this]
  from valid chi have ch: "ch < length (m_dram_latency_queue mp)" "0 \<le> i" by (auto simp: valid_slice_def)
  have "in_dram ?mp g' j = in_dram mp g j" if "valid_slice mp j" for j
    using dram_same [of "channel_of mp j"] that same_shapeD(2) [OF shape]
    by (auto simp: in_dram_def set_l2_def valid_slice_def intro!: filter_cong)
  moreover have "delayed ?mp j = delayed mp j @ (if j = i then [p] else [])" if "valid_slice mp j" for j
    using ch chi that same_shapeD(2) [OF shape] by (auto simp: delayed_def nth_list_update)
  moreover have "slice ?mp j = slice (set_l2 i c' mp) j" for j by (simp add: slice_def)
  ultimately have path: "in_memory (?mp, g') j = in_memory (mp, g) j" if "valid_slice mp j" for j
    using that ch q ps slice_set_l2 [OF that, of i c'] by (simp add: in_memory_def)
  show ?thesis
  proof (rule same_pathI [OF shape ok])
    fix x assume "x \<in> set (m_l2_caches ?mp)"
    then show "l2_queues_ok x" by (intro l2) simp
  next
    fix ch' x assume ch': "ch' < length (m_dram_latency_queue mp)" "x \<in> set (m_dram_latency_queue ?mp ! ch')"
    show "delay_ok mp g' ch' x"
    proof (cases "x \<in> set (m_dram_latency_queue mp ! ch')")
      case True
      with memory_okD(2) [OF ok ch'(1) True] elsewhere(2) [OF ch'(1) True] own show ?thesis
        by (simp add: delay_ok_def)
    next
      case False
      with ch' have "ch' = ch" "x = ?e" by (cases "ch' = ch"; simp)+
      with valid chi own show ?thesis by (simp add: delay_ok_def)
    qed
  next
    fix ch' assume "ch' < length (m_dram mp)"
    with memory_okD(3) [OF ok this] dram_same [OF this] show "dram_ok mp g' ch' (m_dram ?mp ! ch')"
      by (simp add: set_l2_def dram_ok_def)
  qed (rule path)
qed

lemma next_spid_range: "0 < n \<Longrightarrow> n < 2 ^ 32 \<Longrightarrow> 0 \<le> next_spid p l n \<and> next_spid p l n < n"
proof -
  assume n: "0 < n" "n < 2 ^ 32"
  let ?n = "word_of_int n :: u32"
  have un: "uint ?n = n" using n by (simp add: uint_word_of_int)
  with n have "(p + word_of_int l + 1) mod ?n < ?n"
    by (metis uint_0_iff unsigned_greater_eq word_gt_0 word_mod_less_divisor less_irrefl)
  then show ?thesis using un by (simp add: next_spid_def word_less_def)
qed

lemma issue_to_dram_path:
  assumes "issue_to_dram mark ch last_issued ps spid (mp, g) = Inr (spid', s')"
    and "memory_ok (mp, g)" and "apart (mp, g)"
    and "marks_owner (simple_dram_model (mp_config mp)) mark"
  shows "same_path (mp, g) s'"
  using assms
proof (induction ps arbitrary: spid)
  case Nil
  then show ?case by (auto intro: same_path_refl)
next
  case (Cons p ps)
  let ?n = "m_n_sub_partition_per_memory_channel (mp_config mp)"
  let ?s = "next_spid (of_nat p) last_issued ?n" let ?i = "?s + int ch * ?n"
  from Cons.prems(1) obtain c can where c: "l2_of ?i mp = Inr c" and can: "can_issue_to_dram ?i mp = Inr can"
    by (auto simp: Let_def res_simps)
  show ?case
  proof (cases "\<not> L2_dram_queue_empty c \<and> can")
    case False
    with Cons.prems c can have "issue_to_dram mark ch last_issued ps ?s (mp, g) = Inr (spid', s')"
      by (auto simp: Let_def)
    from Cons.IH [OF this Cons.prems(2-4)] show ?thesis .
  next
    case True
    from Cons.prems(2) have n: "0 < ?n" "?n < 2 ^ 32"
      by (auto simp: memory_ok_def shape_ok_def slices_per_channel_def)
    from next_spid_range [OF n, of "of_nat p" last_issued] have "?i div ?n = int ch" by simp
    then have chi: "channel_of mp ?i = ch" by (simp add: channel_of_def slices_per_channel_def)
    from Cons.prems(1) c can True have "ch < length (m_dram mp)"
      by (cases "ch < length (m_dram mp)") (auto simp: Let_def nth_res_def)
    show ?thesis
    proof (cases "dram_full (m_dram mp ! ch)")
      case full: True
      with Cons.prems(1) c can True \<open>ch < _\<close> have "s' = (mp, g)" by (simp add: Let_def)
      with Cons.prems(2) show ?thesis by (simp add: same_path_refl)
    next
      case False
      with Cons.prems(1) c can True \<open>ch < _\<close> obtain q c' g' t where
        new: "L2_dram_queue_top c = Some q" "L2_dram_queue_pop c = Inr c'" "mf_update q (mark ?i) g = Inr g'"
        "ch < length (m_dram_latency_queue mp)" and
        s': "s' = ((set_l2 ?i c' mp)\<lparr>m_dram_latency_queue := (m_dram_latency_queue mp)[ch :=
          m_dram_latency_queue mp ! ch @ [\<lparr>ready_cycle = t, dd_req = q, dd_l2_id = ?i\<rparr>]]\<rparr>, g')"
        by (auto simp: Let_def res_simps)
      from c have cs: "c = slice mp ?i" "0 \<le> ?i" "?i < int (length (m_l2_caches mp))" by (auto simp: l2_of_valid)
      with chi new(4) \<open>ch < length (m_dram mp)\<close> have "valid_slice mp ?i" by (simp add: valid_slice_def)
      from issue_one [OF Cons.prems(2-4) this chi new(1,2) [unfolded cs(1)] new(3)] show ?thesis
        unfolding s' .
    qed
  qed
qed

section \<open>The detailed model\<close>

lemma dram_tick_path:
  assumes run: "dram_tick ch (mp, g) = Inr s'" and ok: "memory_ok (mp, g)"
  shows "same_path (mp, g) s'"
proof -
  from run obtain d where ch: "ch < length (m_dram mp)" and d: "Dram.dram_cycle (m_dram mp ! ch) = Inr d"
    and s': "s' = (mp\<lparr>m_dram := (m_dram mp)[ch := d]\<rparr>, g)" by (auto simp: dram_tick_def res_simps)
  let ?mp = "mp\<lparr>m_dram := (m_dram mp)[ch := d]\<rparr>"
  from memory_okD(3) [OF ok ch] have wf: "dram_ok mp g ch (m_dram mp ! ch)" .
  with dram_cycle_keeps [OF d] have d': "channel_wf d" "channel_data d = channel_data (m_dram mp ! ch)"
    by (auto simp: dram_ok_def)
  have shape: "same_shape mp ?mp" by (simp add: same_shape_def)
  have data: "channel_data (m_dram ?mp ! x) = channel_data (m_dram mp ! x)" for x
    using ch d'(2) by (cases "x = ch") simp_all
  show ?thesis unfolding s'
  proof (rule same_pathI [OF shape ok])
    fix x assume "x < length (m_dram mp)"
    with memory_okD(3) [OF ok this] d'(1) ch show "dram_ok mp g x (m_dram ?mp ! x)"
      using data [of x] by (cases "x = ch") (simp_all add: dram_ok_def)
  next
    fix i show "in_memory (?mp, g) i = in_memory (mp, g) i"
      using data same_shapeD(2) [OF shape] by (simp add: in_memory_def in_dram_def delayed_def slice_def)
  qed (use ok memory_okD(2) [OF ok] in \<open>auto simp: memory_ok_def shape_ok_def\<close>)
qed

lemma dram_accept_path:
  assumes run: "dram_accept ch (mp, g) = Inr s'" and ok: "memory_ok (mp, g)"
    and detailed: "\<not> simple_dram_model (mp_config mp)"
  shows "same_path (mp, g) s'"
proof (cases "s' = (mp, g)")
  case True
  with ok show ?thesis by (simp add: same_path_refl)
next
  case False
  from run have ch: "ch < length (m_dram_latency_queue mp)"
    by (cases "ch < length (m_dram_latency_queue mp)") (auto simp: dram_accept_def nth_res_def)
  with run False obtain e rest where q: "m_dram_latency_queue mp ! ch = e # rest"
    by (cases "m_dram_latency_queue mp ! ch") (auto simp: dram_accept_def)
  let ?p = "dd_req e" and ?i = "dd_l2_id e"
  from run False ch q obtain d where chd: "ch < length (m_dram mp)" and
    d: "dram_push ?p g (m_dram mp ! ch) = Inr d" and
    s': "s' = (mp\<lparr>m_dram := (m_dram mp)[ch := d], m_dram_latency_queue := (m_dram_latency_queue mp)[ch := rest]\<rparr>, g)"
    by (auto simp: dram_accept_def res_simps split: if_splits)
  let ?mp = "mp\<lparr>m_dram := (m_dram mp)[ch := d], m_dram_latency_queue := (m_dram_latency_queue mp)[ch := rest]\<rparr>"
  from memory_okD(2) [OF ok ch, of e] q detailed have e: "valid_slice mp ?i" "channel_of mp ?i = ch" "owner g ?p = Some ?i"
    by (auto simp: delay_ok_def)
  from memory_okD(3) [OF ok chd] have wf: "dram_ok mp g ch (m_dram mp ! ch)" .
  with dram_push_keeps [OF d] have d': "channel_wf d" "channel_data d = channel_data (m_dram mp ! ch) @ [?p]"
    by (auto simp: dram_ok_def)
  have shape: "same_shape mp ?mp" by (simp add: same_shape_def)
  have path: "in_memory (?mp, g) j = in_memory (mp, g) j" if "valid_slice mp j" for j
    using that ch chd q e d'(2) same_shapeD(2) [OF shape]
    by (cases "channel_of mp j = ch") (auto simp: in_memory_def in_dram_def delayed_def slice_def)
  show ?thesis unfolding s'
  proof (rule same_pathI [OF shape ok])
    fix x y assume "x < length (m_dram_latency_queue mp)" "y \<in> set (m_dram_latency_queue ?mp ! x)"
    then show "delay_ok mp g x y" using memory_okD(2) [OF ok, of x] q by (cases "x = ch") auto
  next
    fix x assume "x < length (m_dram mp)"
    with memory_okD(3) [OF ok this] d' wf e chd detailed show "dram_ok mp g x (m_dram ?mp ! x)"
      by (cases "x = ch") (auto simp: dram_ok_def)
  next
    fix c assume "c \<in> set (m_l2_caches ?mp)"
    with memory_okD(1) [OF ok] show "l2_queues_ok c" by (simp add: shape_ok_def)
  qed (rule path)
qed

lemma dram_return_path:
  assumes run: "dram_return ch (mp, g) = Inr s'" and ok: "memory_ok (mp, g)"
  shows "same_path (mp, g) s'"
proof (cases "s' = (mp, g)")
  case True
  with ok show ?thesis by (simp add: same_path_refl)
next
  case False
  from run have ch: "ch < length (m_dram mp)"
    by (cases "ch < length (m_dram mp)") (auto simp: dram_return_def nth_res_def)
  let ?d = "m_dram mp ! ch"
  from run False ch obtain p where p: "return_queue_top ?d = Some p"
    by (cases "return_queue_top ?d") (auto simp: dram_return_def)
  with run ch obtain mf where mf: "mf_heap g p = Some mf"
    by (cases "mf_heap g p") (auto simp: dram_return_def mf_at_def)
  with run ch p obtain i where i: "l2_id mf = Some i"
    by (cases "l2_id mf") (auto simp: dram_return_def mf_at_def)
  with run ch p mf False obtain c c' x d where c: "l2_of i mp = Inr c" "dram_L2_queue_push (Some p) c = Inr c'"
    and d: "return_queue_pop ?d = Inr (x, d)"
    and s': "s' = ((set_l2 i c' mp)\<lparr>m_dram := (m_dram mp)[ch := d]\<rparr>, g)"
    by (auto simp: dram_return_def mf_at_def res_simps split: if_splits)
  let ?mp = "(set_l2 i c' mp)\<lparr>m_dram := (m_dram mp)[ch := d]\<rparr>"
  from memory_okD(3) [OF ok ch] have wf: "dram_ok mp g ch ?d" .
  with return_queue_pop_keeps [OF p d] have d': "channel_wf d" "channel_data ?d = p # channel_data d"
    by (auto simp: dram_ok_def)
  have own: "owner g p = Some i" using mf i by (simp add: owner_def)
  with wf d'(2) have valid: "valid_slice mp i" and chi: "channel_of mp i = ch" by (auto simp: dram_ok_def)
  from c(1) have cs: "c = slice mp i" "0 \<le> i" by (simp_all add: l2_of_valid)
  from c(2) obtain dq where dq: "fifo_push (Some p) (m_dram_L2_queue c) = Inr dq" "c' = c\<lparr>m_dram_L2_queue := dq\<rparr>"
    by (auto simp: dram_L2_queue_push_def res_simps)
  from plain_push_Inr [OF slice_queues(2) [OF ok valid]] dq cs
  have dq': "bubble_free dq" "fifo_data dq = fifo_data (m_dram_L2_queue (slice mp i)) @ [p]" by auto
  have shape: "same_shape mp ?mp" by (simp add: same_shape_def set_l2_def)
  have "l2_queues_ok c'" using slice_queues [OF ok valid] dq dq' cs by (simp add: l2_queues_ok_def)
  note l2 = l2_queues_set_l2 [OF ok this]
  have "in_dram mp g j = (if j = i then [p] else []) @ in_dram ?mp g j" for j
    using ch chi d'(2) own same_shapeD(2) [OF shape]
    by (cases "channel_of mp j = ch") (auto simp: in_dram_def)
  moreover have "delayed ?mp j = delayed mp j" for j
    using same_shapeD(2) [OF shape] by (simp add: delayed_def set_l2_def)
  moreover have "slice ?mp j = slice (set_l2 i c' mp) j" for j by (simp add: slice_def)
  ultimately have path: "in_memory (?mp, g) j = in_memory (mp, g) j" if "valid_slice mp j" for j
    using that dq dq' cs slice_set_l2 [OF that, of i c'] by (simp add: in_memory_def)
  show ?thesis unfolding s'
  proof (rule same_pathI [OF shape ok])
    fix x assume "x \<in> set (m_l2_caches ?mp)"
    then show "l2_queues_ok x" by (intro l2) simp
  next
    fix x y assume "x < length (m_dram_latency_queue mp)" "y \<in> set (m_dram_latency_queue ?mp ! x)"
    then show "delay_ok mp g x y" using memory_okD(2) [OF ok] by (simp add: set_l2_def)
  next
    fix x assume "x < length (m_dram mp)"
    with memory_okD(3) [OF ok this] d' wf ch show "dram_ok mp g x (m_dram ?mp ! x)"
      by (cases "x = ch") (auto simp: dram_ok_def)
  qed (rule path)
qed

section \<open>A cycle of a channel\<close>

text \<open>The body of the loop over the channels in \<open>memory_partition::cycle\<close>.\<close>

definition memory_cycle :: "nat \<Rightarrow> mp_state \<Rightarrow> mp_state res" where
  "memory_cycle ch s =
     (if simple_dram_model (mp_config (fst s)) then dram_model_cycle ch s else mp_dram_cycle ch s)"

lemma same_path_last_issued:
  "same_path s (mp, g) \<Longrightarrow> same_path s (mp\<lparr>last_issued_partition := x\<rparr>, g)"
proof -
  let ?mp = "mp\<lparr>last_issued_partition := x\<rparr>"
  have shape: "same_shape mp ?mp" by (simp add: same_shape_def)
  note shapes = same_shapeD [OF shape]
  assume "same_path s (mp, g)"
  with shapes show ?thesis
    by (auto simp: same_path_def memory_ok_def shape_ok_def in_memory_def in_dram_def delayed_def slice_def)
qed

lemma memory_cycle_path:
  assumes run: "memory_cycle ch s = Inr s'" and ok: "memory_ok s" and apart: "apart s"
  shows "same_path s s'"
proof (cases "simple_dram_model (mp_config (fst s))")
  case True
  obtain mp g where s: "s = (mp, g)" by (cases s)
  from run True obtain mp1 g1 mp2 g2 l spid where
    1: "dram_model_return ch (mp, g) = Inr (mp1, g1)" and
    2: "issue_to_dram (\<lambda>_ mf. mf) ch l (sub_partitions mp1) 0 (mp1, g1) = Inr (spid, mp2, g2)" and
    s': "s' = (mp2\<lparr>last_issued_partition := (last_issued_partition mp2)[ch := spid]\<rparr>, g2)"
    unfolding s by (auto simp: memory_cycle_def dram_model_cycle_def res_simps)
  from dram_model_return_path [OF 1] ok True have p1: "same_path s (mp1, g1)" by (simp add: s)
  have "marks_owner (simple_dram_model (mp_config mp1)) (\<lambda>_ mf. mf)"
    using p1 True by (simp add: same_path_def marks_owner_def)
  from issue_to_dram_path [OF 2 _ _ this] p1 same_path_apart [OF p1 apart] have "same_path (mp1, g1) (mp2, g2)"
    by (simp add: same_path_def)
  from same_path_last_issued [OF same_path_trans [OF p1 this]] show ?thesis unfolding s' .
next
  case False
  obtain mp g where s: "s = (mp, g)" by (cases s)
  from run False obtain s1 mp2 g2 l spid s3 where
    1: "dram_return ch (mp, g) = Inr s1" and 2: "dram_tick ch s1 = Inr (mp2, g2)" and
    3: "issue_to_dram (\<lambda>i mf. mf\<lparr>l2_id := Some i\<rparr>) ch l (sub_partitions mp2) 0 (mp2, g2) = Inr (spid, s3)" and
    4: "dram_accept ch s3 = Inr s'"
    unfolding s by (auto simp: memory_cycle_def mp_dram_cycle_def res_simps)
  from dram_return_path [OF 1] ok have p1: "same_path s s1" by (simp add: s)
  then have "memory_ok s1" by (simp add: same_path_def)
  with dram_tick_path [of ch "fst s1" "snd s1"] 2 p1 have p2: "same_path s (mp2, g2)"
    by (auto intro: same_path_trans)
  have "marks_owner (simple_dram_model (mp_config mp2)) (\<lambda>i mf. mf\<lparr>l2_id := Some i\<rparr>)"
    using p2 False by (simp add: same_path_def marks_owner_def)
  from issue_to_dram_path [OF 3 _ _ this] p2 same_path_apart [OF p2 apart] have "same_path (mp2, g2) s3"
    by (simp add: same_path_def)
  from same_path_trans [OF p2 this] have p3: "same_path s s3" .
  then have "memory_ok s3" "\<not> simple_dram_model (mp_config (fst s3))" using False by (simp_all add: same_path_def)
  with dram_accept_path [of ch "fst s3" "snd s3"] 4 p3 show ?thesis by (auto intro: same_path_trans)
qed

section \<open>Histories\<close>

text \<open>
  The memory between its clients: slices send requests down (\<open>send_l2_to_dram\<close>), take what has come
  back (the pop of \<open>l2_cache_cycle\<close>), and work on their other state and on the requests; channels
  advance.  \<open>S\<close> and \<open>T\<close> are what each slice has sent and taken.  A request on its way is not sent again,
  and nobody changes the slice it belongs to.
\<close>

definition underway :: "(int \<Rightarrow> mf_ptr list) \<Rightarrow> (int \<Rightarrow> mf_ptr list) \<Rightarrow> mf_ptr \<Rightarrow> bool" where
  "underway S T p \<longleftrightarrow> (\<exists>j. p \<in> set (drop (length (T j)) (S j)))"

inductive memory_run ::
  "mp_state \<Rightarrow> (int \<Rightarrow> mf_ptr list) \<Rightarrow> (int \<Rightarrow> mf_ptr list) \<Rightarrow> mp_state \<Rightarrow> bool"
  for s0
where
  start: "memory_run s0 (\<lambda>_. []) (\<lambda>_. []) s0"
| send: "memory_run s0 S T (mp, g) \<Longrightarrow> valid_slice mp i \<Longrightarrow> \<not> underway S T p \<Longrightarrow>
    send_l2_to_dram p (slice mp i, g) = Inr (c, g') \<Longrightarrow>
    memory_run s0 (S(i := S i @ [p])) T (set_l2 i c mp, g')"
| take: "memory_run s0 S T (mp, g) \<Longrightarrow> valid_slice mp i \<Longrightarrow>
    fifo_pop (m_dram_L2_queue (slice mp i)) = Inr (Some p, q) \<Longrightarrow>
    memory_run s0 S (T(i := T i @ [p])) (set_l2 i ((slice mp i)\<lparr>m_dram_L2_queue := q\<rparr>) mp, g)"
| memory: "memory_run s0 S T s \<Longrightarrow> memory_cycle ch s = Inr s' \<Longrightarrow> memory_run s0 S T s'"
| work: "memory_run s0 S T (mp, g) \<Longrightarrow> valid_slice mp i \<Longrightarrow>
    m_L2_dram_queue c = m_L2_dram_queue (slice mp i) \<Longrightarrow>
    m_dram_L2_queue c = m_dram_L2_queue (slice mp i) \<Longrightarrow>
    (\<And>p. underway S T p \<Longrightarrow> owner g' p = owner g p) \<Longrightarrow>
    memory_run s0 S T (set_l2 i c mp, g')"

definition history :: "(int \<Rightarrow> mf_ptr list) \<Rightarrow> (int \<Rightarrow> mf_ptr list) \<Rightarrow> mp_state \<Rightarrow> bool" where
  "history S T s \<longleftrightarrow> memory_ok s \<and> apart s \<and>
     (\<forall>i. if valid_slice (fst s) i then S i = T i @ in_memory s i else S i = T i)"

text \<open>A slice with other queues or an environment with other requests.\<close>

lemma set_l2_history:
  assumes h: "history S T (mp, g)" and valid: "valid_slice mp i" and c: "l2_queues_ok c"
    and own: "\<And>p. underway S T p \<Longrightarrow> owner g' p = owner g p"
    and other: "\<And>j. j \<noteq> i \<Longrightarrow> S' j = S j \<and> T' j = T j"
    and new: "S' i = T' i @ fifo_data (m_dram_L2_queue c) @ in_dram mp g i @ delayed mp i @
      fifo_data (m_L2_dram_queue c)"
    and once: "distinct (drop (length (T' i)) (S' i))"
      "set (drop (length (T' i)) (S' i)) \<subseteq> set (in_memory (mp, g) i) \<union> {p. \<not> underway S T p}"
  shows "history S' T' (set_l2 i c mp, g')"
proof -
  let ?mp = "set_l2 i c mp"
  from h have ok: "memory_ok (mp, g)" and ap: "apart (mp, g)"
    and hist: "\<And>j. if valid_slice mp j then S j = T j @ in_memory (mp, g) j else S j = T j"
    by (auto simp: history_def)
  have shape: "same_shape mp ?mp" by (simp add: same_shape_def set_l2_def)
  have on: "underway S T p \<longleftrightarrow> (\<exists>j. valid_slice mp j \<and> p \<in> set (in_memory (mp, g) j))" for p
    using hist unfolding underway_def by (metis append_eq_conv_conj append_Nil2 empty_iff list.set(1))
  have data: "owner g' p = owner g p" if "ch < length (m_dram mp)" "p \<in> set (channel_data (m_dram mp ! ch))" for ch p
  proof -
    from memory_okD(3) [OF ok that(1)] that(2) obtain j where "valid_slice mp j" "owner g p = Some j" "channel_of mp j = ch"
      by (auto simp: dram_ok_def)
    with that(2) have "p \<in> set (in_memory (mp, g) j)" by (simp add: in_memory_def in_dram_def)
    with on own \<open>valid_slice mp j\<close> show ?thesis by blast
  qed
  have late: "owner g' (dd_req e) = owner g (dd_req e)"
    if "ch < length (m_dram_latency_queue mp)" "e \<in> set (m_dram_latency_queue mp ! ch)" for ch e
  proof -
    from memory_okD(2) [OF ok that] that(2) have "valid_slice mp (dd_l2_id e)" "dd_req e \<in> set (in_memory (mp, g) (dd_l2_id e))"
      by (auto simp: delay_ok_def in_memory_def delayed_def)
    with on own show ?thesis by blast
  qed
  have dram: "in_dram ?mp g' j = in_dram mp g j" if "valid_slice mp j" for j
    using data [of "channel_of mp j"] that same_shapeD(2) [OF shape]
    by (auto simp: in_dram_def set_l2_def valid_slice_def intro!: filter_cong)
  have delay: "delayed ?mp j = delayed mp j" for j
    using same_shapeD(2) [OF shape] by (simp add: delayed_def set_l2_def)
  have i: "0 \<le> i" using valid by (simp add: valid_slice_def)
  have here: "in_memory (?mp, g') i = drop (length (T' i)) (S' i)"
    using slice_set_l2 [OF valid i, of c] dram [OF valid] delay new by (simp add: in_memory_def)
  have there: "in_memory (?mp, g') j = in_memory (mp, g) j" if "valid_slice mp j" "j \<noteq> i" for j
    using slice_set_l2 [OF that(1) i, of c] that dram [OF that(1)] delay by (simp add: in_memory_def)
  have "memory_ok (?mp, g')"
    using ok l2_queues_set_l2 [OF ok c, of _ i] data late same_shapeD [OF shape] same_shape_def
    by (auto simp: memory_ok_def shape_ok_def set_l2_def delay_ok_def dram_ok_def)
  moreover have "apart (?mp, g')"
  proof -
    have "set (in_memory (?mp, g') i) \<inter> set (in_memory (?mp, g') j) = {}" if "valid_slice mp j" "j \<noteq> i" for j
      using once(2) on that valid ap there [OF that] unfolding here apart_def by fastforce
    with ap once(1) here there valid show ?thesis by (auto simp: apart_def) (metis disjoint_iff)+
  qed
  moreover have "if valid_slice ?mp j then S' j = T' j @ in_memory (?mp, g') j else S' j = T' j" for j
    using other [of j] hist [of j] there [of j] here new valid by (cases "j = i") (auto split: if_splits)
  ultimately show ?thesis by (simp add: history_def)
qed

lemma history_send:
  assumes h: "history S T (mp, g)" and valid: "valid_slice mp i" and p: "\<not> underway S T p"
    and send: "send_l2_to_dram p (slice mp i, g) = Inr (c, g')"
  shows "history (S(i := S i @ [p])) T (set_l2 i c mp, g')"
proof -
  from h have ok: "memory_ok (mp, g)" and ap: "apart (mp, g)" and Si: "S i = T i @ in_memory (mp, g) i"
    using valid by (auto simp: history_def)
  note bf = slice_queues [OF ok valid]
  from send obtain q where q: "fifo_push (Some p) (m_L2_dram_queue (slice mp i)) = Inr q"
    "c = (slice mp i)\<lparr>m_L2_dram_queue := q\<rparr>" and g: "g' = g"
    by (auto simp: send_l2_to_dram_def res_simps)
  from plain_push_Inr [OF bf(1) q(1)] have q': "bubble_free q"
    "fifo_data q = fifo_data (m_L2_dram_queue (slice mp i)) @ [p]" by auto
  have "p \<notin> set (in_memory (mp, g) i)" using p Si unfolding underway_def by (metis append_eq_conv_conj)
  moreover have "distinct (in_memory (mp, g) i)" using ap valid by (simp add: apart_def)
  ultimately show ?thesis
    unfolding g using q q' bf Si p by (intro set_l2_history [OF h valid]) (auto simp: l2_queues_ok_def in_memory_def)
qed

lemma history_take:
  assumes h: "history S T (mp, g)" and valid: "valid_slice mp i"
    and pop: "fifo_pop (m_dram_L2_queue (slice mp i)) = Inr (Some p, q)"
  shows "history S (T(i := T i @ [p])) (set_l2 i ((slice mp i)\<lparr>m_dram_L2_queue := q\<rparr>) mp, g)"
proof -
  from h have ok: "memory_ok (mp, g)" and ap: "apart (mp, g)" and Si: "S i = T i @ in_memory (mp, g) i"
    using valid by (auto simp: history_def)
  note bf = slice_queues [OF ok valid]
  from plain.deq_ok [OF bf(2)] plain.front_contents [OF bf(2)] pop have q: "bubble_free q"
    "fifo_data (m_dram_L2_queue (slice mp i)) = p # fifo_data q"
    by (auto split: list.splits)
  have "distinct (in_memory (mp, g) i)" using ap valid by (simp add: apart_def)
  then show ?thesis
    using q bf Si by (intro set_l2_history [OF h valid]) (auto simp: l2_queues_ok_def in_memory_def)
qed

lemma memory_run_history:
  "memory_run s0 S T s \<Longrightarrow> history (\<lambda>_. []) (\<lambda>_. []) s0 \<Longrightarrow> history S T s"
proof (induction rule: memory_run.induct)
  case (memory S T s ch s')
  then have h: "history S T s" by simp
  then have "memory_ok s" "apart s" by (auto simp: history_def)
  from memory_cycle_path [OF memory.hyps(2) this] same_path_apart [OF _ this(2)] h show ?case
    by (auto simp: history_def same_path_def)
next
  case (work S T mp g i c g')
  then have h: "history S T (mp, g)" by simp
  then have ok: "memory_ok (mp, g)" and ap: "apart (mp, g)" and Si: "S i = T i @ in_memory (mp, g) i"
    using work.hyps(2) by (auto simp: history_def)
  have "distinct (in_memory (mp, g) i)" using ap work.hyps(2) by (simp add: apart_def)
  then show ?case
    using slice_queues [OF ok work.hyps(2)] work.hyps Si
    by (intro set_l2_history [OF h work.hyps(2)]) (auto simp: l2_queues_ok_def in_memory_def)
qed (auto intro: history_send history_take)

section \<open>The memory as it is built\<close>

lemma new_l2_queues:
  assumes "new_l2_data_cache cc gc i = Inr c"
  shows "l2_queues_ok c \<and> fifo_data (m_L2_dram_queue c) = [] \<and> fifo_data (m_dram_L2_queue c) = []"
  using assms new_fifo_pipeline_plain [of 999999, where 'a = mf_ptr]
  by (auto simp: new_l2_data_cache_def res_simps l2_queues_ok_def data_cache.defs)

lemma built_memory:
  assumes new: "new_memory_partition cc gc mc = Inr mp0" and init: "memory_partition_init mp0 = Inr mp"
    and n: "0 < m_n_sub_partition_per_memory_channel mc" "m_n_sub_partition_per_memory_channel mc < 2 ^ 32"
  shows "history (\<lambda>_. []) (\<lambda>_. []) (mp, g)"
proof -
  let ?D = "\<lambda>ds. \<forall>d\<in>set ds. channel_wf d \<and> channel_data d = []"
  let ?C = "\<lambda>m. m_dram m = m_dram mp0 \<and> mp_config m = mp_config mp0 \<and>
    m_dram_latency_queue m = m_dram_latency_queue mp0 \<and>
    (\<forall>c\<in>set (m_l2_caches m). l2_queues_ok c \<and> fifo_data (m_L2_dram_queue c) = [] \<and> fifo_data (m_dram_L2_queue c) = [])"
  from new obtain k ds where
    ds: "foldM (\<lambda>i ds. rbind (new_dram mc (of_nat i)) (\<lambda>d. Inr (ds @ [d]))) [0..<nat k] [] = Inr ds" and
    mp0: "m_l2_caches mp0 = []" "m_dram mp0 = ds" "mp_config mp0 = mc" "m_dram_latency_queue mp0 = replicate (nat k) []"
    by (auto simp: new_memory_partition_def res_simps)
  have drams: "?D ds"
    by (rule foldM_invariant [OF _ ds, where P = ?D]) (auto simp: res_simps dest: new_dram_wf)
  from init obtain k2 where
    l2: "foldM (\<lambda>i m. rbind (new_l2_data_cache (mp_cache_config m) (mp_gpu_config m) (int i)) (\<lambda>l2.
                Inr (m\<lparr>m_l2_caches := m_l2_caches m @ [l2]\<rparr>))) [0..<nat k2] mp0 = Inr mp"
    by (auto simp: memory_partition_init_def res_simps)
  have C: "?C mp"
    by (rule foldM_invariant [OF _ l2, where P = ?C]) (auto simp: res_simps mp0(1) dest: new_l2_queues)
  have "in_memory (mp, g) i = []" if "valid_slice mp i" for i
  proof -
    from that C have "slice mp i \<in> set (m_l2_caches mp)" "m_dram mp ! channel_of mp i \<in> set ds"
      "m_dram_latency_queue mp ! channel_of mp i = []"
      using mp0 by (auto simp: valid_slice_def slice_def)
    with C drams show ?thesis by (simp add: in_memory_def in_dram_def delayed_def)
  qed
  moreover have "memory_ok (mp, g)"
    using C drams mp0 n by (auto simp: memory_ok_def shape_ok_def slices_per_channel_def dram_ok_def)
  ultimately show ?thesis by (simp add: history_def apart_def)
qed

section \<open>Arbitration between the slices of a channel\<close>

text \<open>
  \<open>dram_cycle\<close> never stores the slice it served, so with two slices per channel the second always comes
  first: while it has requests nothing of the first is issued.  (\<open>dram_model_cycle\<close> does store it.)
\<close>

lemma issue_keeps_last:
  "issue_to_dram mark ch l ps spid (mp, g) = Inr (spid', s') \<Longrightarrow>
   last_issued_partition (fst s') = last_issued_partition mp"
proof (induction ps arbitrary: spid)
  case (Cons p ps)
  then show ?case by (auto simp: Let_def res_simps set_l2_def split: if_splits)
qed auto

lemma first_slice_starves:
  assumes n: "m_n_sub_partition_per_memory_channel (mp_config mp) = 2"
    and second: "l2_of (1 + int ch * 2) mp = Inr c" "\<not> L2_dram_queue_empty c" "\<not> dram_L2_queue_full c"
    and run: "issue_to_dram mark ch 0 (sub_partitions mp) 0 (mp, g) = Inr (spid, mp', g')"
  shows "slice mp' (int ch * 2) = slice mp (int ch * 2)"
proof -
  have subs: "sub_partitions mp = [0, 1]" using n by (simp add: sub_partitions_def upt_rec)
  have one: "next_spid 0 0 2 = 1" by (simp add: next_spid_def)
  have can: "can_issue_to_dram (1 + int ch * 2) mp = Inr True" using second by (simp add: can_issue_to_dram_def)
  have "slice (set_l2 (1 + int ch * 2) x mp) (int ch * 2) = slice mp (int ch * 2)" for x
    by (simp add: slice_def set_l2_def)
  with run second can show ?thesis
    unfolding subs by (auto simp: Let_def one n res_simps slice_def split: if_splits)
qed

lemma mp_dram_cycle_keeps_last:
  assumes "mp_dram_cycle ch s = Inr s'"
  shows "last_issued_partition (fst s') = last_issued_partition (fst s)"
proof -
  obtain mp g where s: "s = (mp, g)" by (cases s)
  from assms obtain s1 mp2 g2 l spid s3 where
    1: "dram_return ch (mp, g) = Inr s1" and 2: "dram_tick ch s1 = Inr (mp2, g2)" and
    3: "issue_to_dram (\<lambda>i mf. mf\<lparr>l2_id := Some i\<rparr>) ch l (sub_partitions mp2) 0 (mp2, g2) = Inr (spid, s3)" and
    4: "dram_accept ch s3 = Inr s'"
    unfolding s by (auto simp: mp_dram_cycle_def res_simps)
  have "last_issued_partition (fst s1) = last_issued_partition mp"
    using 1 by (auto simp: dram_return_def res_simps set_l2_def split: option.splits if_splits)
  moreover have "last_issued_partition mp2 = last_issued_partition (fst s1)"
    using 2 by (cases s1) (auto simp: dram_tick_def res_simps)
  moreover have "last_issued_partition (fst s') = last_issued_partition (fst s3)"
    using 4 by (cases s3) (auto simp: dram_accept_def res_simps split: list.splits if_splits)
  ultimately show ?thesis using issue_keeps_last [OF 3] s by simp
qed

section \<open>Properties\<close>

text \<open>C35. The memory behind an L2 slice is a queue, with either DRAM model: in every history of a
  partition built from its configuration, in which slices send requests, channels advance, slices take
  what comes back and work on their other state in any order, the requests a slice has taken followed by
  those on their way for it (on the way back, in the channel, delayed, still to be issued) are exactly
  the requests it has sent, in the order in which it sent them.  No request is lost, answered twice,
  overtaken, or returned to another slice.\<close>

theorem memory_returns_in_order:
  assumes "new_memory_partition cc gc mc = Inr mp0" and "memory_partition_init mp0 = Inr mp"
    and "0 < m_n_sub_partition_per_memory_channel mc" and "m_n_sub_partition_per_memory_channel mc < 2 ^ 32"
    and run: "memory_run (mp, g) S T s" and "valid_slice (fst s) i"
  shows "S i = T i @ in_memory s i"
  using memory_run_history [OF run built_memory [OF assms(1-4)]] assms(6) by (auto simp: history_def)

text \<open>A witness: two slices on one channel with a column latency of one cycle.\<close>

definition two_slices :: gpu_config where
  "two_slices = empty_gpu_config
     \<lparr>m_gpu_config := [(''l2_miss_latency'', ''0''), (''mem_num'', ''2''), (''sm_num'', ''1'')]\<rparr>"

lemma two_slices_values:
  "cfg_int two_slices ''mem_num'' = Inr 2" "cfg_int two_slices ''sm_num'' = Inr 1"
  "cfg_int two_slices ''l2_miss_latency'' = Inr 0"
  by code_simp+

definition one_stage :: memory_config where
  "one_stage = two_banks\<lparr>CL := 1\<rparr>"

lemma one_stage_values:
  "CL one_stage = 1" "nbk one_stage = 2" "nbkgrp one_stage = 1"
  "gpgpu_dram_return_queue_size one_stage = 4" "m_n_sub_partition_per_memory_channel one_stage = 2"
  "scheduler_type one_stage = DRAM_FIFO" "simple_dram_model one_stage = False"
  by (simp_all add: one_stage_def two_banks_def)

definition fifo_of :: "nat \<Rightarrow> nat \<Rightarrow> u32 \<Rightarrow> 'a option list \<Rightarrow> 'a fifo_pipeline" where
  "fifo_of mn mx n xs =
     \<lparr>m_min_len = mn, m_max_len = mx, m_length = length xs, m_n_element = n, m_nodes = xs\<rparr>"

definition slice_of ::
  "int \<Rightarrow> (u32 \<times> mf_ptr option list) \<times> (u32 \<times> mf_ptr option list) \<Rightarrow> l2_data_cache"
where
  "slice_of i q = data_cache.extend (new_data_cache two_by_two two_slices 999)
     \<lparr>m_device_id = i, m_l1_to_l2 = [], l2_to_sms = [[], [], []], l2_to_dram = [],
      m_L2_dram_queue = fifo_of 0 999999 (fst (fst q)) (snd (fst q)),
      m_dram_L2_queue = fifo_of 0 999999 (fst (snd q)) (snd (snd q))\<rparr>"

definition channel_at ::
  "u32 \<times> dram_req_t option list \<Rightarrow> u32 \<times> dram_req_t option list \<Rightarrow> u32 \<times> mf_ptr option list \<Rightarrow> u32 \<Rightarrow>
   dram_t"
where
  "channel_at mq rw ret n =
     \<lparr>dram_config = one_stage, dram_id = 0, bkgrp = [\<lparr>CCDLc = 0, RTPLc = 0\<rparr>],
      banks = [new_bank 0, new_bank 0], prio = 0, RRDc = 0, CCDc = 0, RTWc = 0, WTRc = 0, dram_rw = READ,
      rwq = fifo_of 1 2 (fst rw) (snd rw), mrqq = fifo_of 0 2 (fst mq) (snd mq),
      returnq = fifo_of 0 4 (fst ret) (snd ret), n_act = None, n_pre = None, bwutil = None,
      n_act_partial = None, n_pre_partial = None, bwutil_partial = None, bank_accesses = [0, n]\<rparr>"

definition memory_at ::
  "(u32 \<times> mf_ptr option list) \<times> (u32 \<times> mf_ptr option list) \<Rightarrow>
   (u32 \<times> mf_ptr option list) \<times> (u32 \<times> mf_ptr option list) \<Rightarrow> dram_t \<Rightarrow> memory_partition"
where
  "memory_at q0 q1 d =
     \<lparr>mp_config = one_stage, mp_cache_config = two_by_two, mp_gpu_config = two_slices,
      m_l2_caches = [slice_of 1 q0, slice_of 2 q1], m_dram = [d], m_dram_latency_queue = [[]],
      last_issued_partition = [0]\<rparr>"

lemma upto2:
  "[0..<2] = [0, 1]" "[0..<3] = [0, 1, 2]" "[0..<Suc 0] = [0]" "replicate 2 x = [x, x]"
  by (simp_all add: upt_rec numeral_2_eq_2)

lemma new_fifo_of:
  "0 < m \<Longrightarrow> new_fifo_pipeline 0 m = Inr (fifo_of 0 m 0 [])"
  "new_fifo_pipeline (Suc 0) 2 = Inr (fifo_of (Suc 0) 2 1 [None])"
  by (simp_all add: new_fifo_pipeline_def fifo_push_def fifo_of_def)

lemmas build_defs = new_memory_partition_def memory_partition_init_def mp_channels_def two_slices_values
  one_stage_values new_dram_def new_fifo_of new_l2_data_cache_def upto2

lemma two_slices_built:
  "\<exists>mp0. new_memory_partition two_by_two two_slices one_stage = Inr mp0 \<and>
     memory_partition_init mp0 = Inr (memory_at ((0, []), (0, [])) ((0, []), (0, []))
       (channel_at (0, []) (1, [None]) (0, []) 0))"
  by (simp add: build_defs memory_at_def slice_of_def channel_at_def)

definition req_of :: "mf_ptr \<Rightarrow> dram_req_t" where
  "req_of p = \<lparr>req_row = of_nat p, req_bk = 1, req_rw = READ, req_data = p, txbytes = None\<rparr>"

definition request :: "mf_ptr \<Rightarrow> int option \<Rightarrow> mem_fetch" where
  "request p i = (new_mem_fetch 0 False 64 1 GLOBAL False 0 0 0 0 0)
     \<lparr>bk := Some 1, row := Some (of_nat p), l2_id := i\<rparr>"

definition owned :: "int option \<Rightarrow> int option \<Rightarrow> gpu_env" where
  "owned i j = one_bank_twice\<lparr>mf_heap := (\<lambda>p. if p = 7 then Some (request 7 i)
     else if p = 8 then Some (request 8 j) else None)\<rparr>"

lemmas cycle_defs = memory_cycle_def mp_dram_cycle_def dram_return_def dram_tick_def dram_accept_def
  return_queue_top_def return_queue_pop_def Dram.dram_cycle_def dram_retire_def scheduler_fifo_def
  bank_transfer_def fifo_push_def fifo_pop_def fifo_top_def fifo_full_def fifo_empty_def uncount_def
  L2_dram_queue_empty_def L2_dram_queue_top_def L2_dram_queue_pop_def dram_L2_queue_full_def
  dram_L2_queue_push_def can_issue_to_dram_def l2_of_def set_l2_def sub_partitions_def next_spid_def
  dram_full_def dram_push_def new_dram_req_def mf_at_def mf_update_def one_stage_values
  two_slices_values upto2 Let_def new_bank_def data_cache.defs memory_at_def slice_of_def channel_at_def
  fifo_of_def req_of_def owned_def request_def one_bank_twice_def new_mem_fetch_def

text \<open>
  Slice 1 goes first.  Its request leaves the channel three cycles after it came, and slice 0's one cycle
  later.
\<close>

lemma two_slices_cycles:
  "memory_cycle 0 (memory_at ((1, [Some 7]), (0, [])) ((1, [Some 8]), (0, []))
       (channel_at (0, []) (1, [None]) (0, []) 0), owned None None) =
     Inr (memory_at ((1, [Some 7]), (0, [])) ((0, []), (0, []))
       (channel_at (1, [Some (req_of 8)]) (0, [None]) (0, []) 0), owned None (Some 1))"
  "memory_cycle 0 (memory_at ((1, [Some 7]), (0, [])) ((0, []), (0, []))
       (channel_at (1, [Some (req_of 8)]) (0, [None]) (0, []) 0), owned None (Some 1)) =
     Inr (memory_at ((0, []), (0, [])) ((0, []), (0, []))
       (channel_at (1, [Some (req_of 7)]) (-1, [Some (req_of 8)]) (0, []) 1), owned (Some 0) (Some 1))"
  "memory_cycle 0 (memory_at ((0, []), (0, [])) ((0, []), (0, []))
       (channel_at (1, [Some (req_of 7)]) (-1, [Some (req_of 8)]) (0, []) 1), owned (Some 0) (Some 1)) =
     Inr (memory_at ((0, []), (0, [])) ((0, []), (0, []))
       (channel_at (0, []) (-2, [Some (req_of 7)]) (1, [Some 8]) 2), owned (Some 0) (Some 1))"
  "memory_cycle 0 (memory_at ((0, []), (0, [])) ((0, []), (0, []))
       (channel_at (0, []) (-2, [Some (req_of 7)]) (1, [Some 8]) 2), owned (Some 0) (Some 1)) =
     Inr (memory_at ((0, []), (0, [])) ((0, []), (1, [Some 8]))
       (channel_at (0, []) (-3, [None]) (1, [Some 7]) 2), owned (Some 0) (Some 1))"
  by (simp_all add: cycle_defs fun_eq_iff)

lemma new_data_cache_config: "dc_gpu_config (new_data_cache cc gc n) = gc"
  by (simp add: new_data_cache_def)

lemmas memory_at_queues = new_data_cache_config memory_at_def slice_def slice_of_def fifo_of_def set_l2_def data_cache.defs
  send_l2_to_dram_def fifo_push_def two_slices_values valid_slice_def channel_of_def slices_per_channel_def
  one_stage_values

abbreviation empty_memory :: memory_partition where
  "empty_memory \<equiv> memory_at ((0, []), (0, [])) ((0, []), (0, [])) (channel_at (0, []) (1, [None]) (0, []) 0)"

lemma two_slices_sent:
  "memory_run (empty_memory, owned None None) ((\<lambda>_. [])(0 := [7], 1 := [8])) (\<lambda>_. [])
     (memory_at ((1, [Some 7]), (0, [])) ((1, [Some 8]), (0, []))
       (channel_at (0, []) (1, [None]) (0, []) 0), owned None None)"
proof -
  from memory_run.send [OF memory_run.start [of "(empty_memory, owned None None)"], of 0 7
      "slice_of 1 ((1, [Some 7]), (0, []))" "owned None None"]
  have "memory_run (empty_memory, owned None None) ((\<lambda>_. [])(0 := [7])) (\<lambda>_. [])
     (memory_at ((1, [Some 7]), (0, [])) ((0, []), (0, []))
       (channel_at (0, []) (1, [None]) (0, []) 0), owned None None)"
    by (simp add: memory_at_queues underway_def)
  from memory_run.send [OF this, of 1 8 "slice_of 2 ((1, [Some 8]), (0, []))" "owned None None"] show ?thesis
    by (simp add: memory_at_queues underway_def)
qed

theorem memory_returns_in_order_witness:
  "\<exists>s S T. memory_run (empty_memory, owned None None) S T s \<and>
    S 0 = [7] \<and> T 0 = [] \<and> [7] = in_memory s 0 \<and> S 1 = [8] \<and> T 1 = [8] \<and> [8] = [8] @ in_memory s 1"
proof -
  let ?S = "(\<lambda>_. [])(0 := [7], 1 := [8]) :: int \<Rightarrow> mf_ptr list"
  let ?T = "(\<lambda>_. [])(1 := [8]) :: int \<Rightarrow> mf_ptr list"
  note run = two_slices_sent [THEN memory_run.memory, OF two_slices_cycles(1), THEN memory_run.memory,
    OF two_slices_cycles(2), THEN memory_run.memory, OF two_slices_cycles(3), THEN memory_run.memory,
    OF two_slices_cycles(4)]
  have "\<exists>mp g. memory_run (empty_memory, owned None None) ?S ?T (mp, g) \<and> valid_slice mp 0 \<and> valid_slice mp 1"
    using memory_run.take [OF run, of 1 8 "fifo_of 0 999999 0 []"]
    by (intro exI conjI) (assumption | simp add: memory_at_queues fifo_pop_def)+
  then obtain mp g where run: "memory_run (empty_memory, owned None None) ?S ?T (mp, g)"
    and valid: "valid_slice mp 0" "valid_slice mp 1" by blast
  from two_slices_built obtain mp0 where built: "new_memory_partition two_by_two two_slices one_stage = Inr mp0"
    "memory_partition_init mp0 = Inr empty_memory" by auto
  have n: "0 < m_n_sub_partition_per_memory_channel one_stage" "m_n_sub_partition_per_memory_channel one_stage < 2 ^ 32"
    by (simp_all add: one_stage_values)
  from memory_returns_in_order [OF built n run, of 0] memory_returns_in_order [OF built n run, of 1] valid
  have "[7] = in_memory (mp, g) 0" "[8] = [8] @ in_memory (mp, g) 1" by simp_all
  with run show ?thesis by (intro exI [of _ "(mp, g)"] exI [of _ ?S] exI [of _ ?T]) simp
qed

end
