(* ===== verification/Config_Format.thy ===== *)
theory Config_Format
  imports Config_Reader Command_Line
begin

text \<open>
  What is read from configuration files (\<open>gpu_config::read_config\<close>, \<^verbatim>\<open>config_reader.cpp\<close>): a written
  configuration is read back, and a section of keys and values without an end is not left again.
\<close>

section \<open>Lines\<close>

definition lines_of :: "string list \<Rightarrow> string" where
  "lines_of ls = concat (map (\<lambda>l. l @ [CHR 0x0A]) ls)"

lemma lines_of_simps [simp]: "lines_of [] = []" "lines_of (l # ls) = l @ CHR 0x0A # lines_of ls"
  "lines_of (ls @ ms) = lines_of ls @ lines_of ms"
  by (simp_all add: lines_of_def)

lemma getline_lines_of:
  assumes "CHR 0x0A \<notin> set l"
  shows "getline (open_stream (lines_of (l # ls))) s = (True, l, open_stream (lines_of ls))"
proof -
  have "\<And>c. c \<in> set l \<Longrightarrow> c \<noteq> CHR 0x0A" using assms by auto
  then show ?thesis
    by (simp add: getline_def open_stream_def takeWhile_append2 dropWhile_append2)
qed

lemma getline_end: "getline (open_stream []) s = (False, [], \<lparr>stream_rest = [], stream_eof = True\<rparr>)"
  by (simp add: getline_def open_stream_def)

section \<open>Sections without an end\<close>


lemma trim_copy_Nil [simp]: "trim_copy [] = []"
  by (simp add: trim_copy_def find_first_not_of_def)


lemma find_index_hd: "xs \<noteq> [] \<Longrightarrow> P (hd xs) \<Longrightarrow> find_index P xs = Some 0"
  by (cases xs) auto

lemma find_index_last: "xs \<noteq> [] \<Longrightarrow> P (last xs) \<Longrightarrow> find_index P (rev xs) = Some 0"
  using find_index_hd [of "rev xs" P] by (simp add: hd_rev)

lemma trim_copy_trim_copy [simp]: "trim_copy (trim_copy s) = trim_copy s"
proof (cases "find_first_not_of blanks s")
  case None
  then show ?thesis by (simp add: trim_copy_def find_first_not_of_def)
next
  case (Some i)
  let ?P = "\<lambda>c. c \<notin> set blanks"
  from Some have i: "i < length s" "?P (s ! i)" by (auto simp: find_first_not_of_def dest: find_index_Some)
  then have "find_index ?P (rev s) \<noteq> None" by (auto simp: find_index_None)
  then obtain k where k: "find_index ?P (rev s) = Some k" by blast
  from find_index_Some [OF k] have kl: "k < length s" and Pk: "?P (s ! (length s - Suc k))"
    and after: "\<forall>m < k. \<not> ?P (rev s ! m)" by (auto simp: rev_nth)
  define j where "j = length s - Suc k"
  have ij: "i \<le> j"
  proof (rule ccontr)
    assume "\<not> i \<le> j"
    then have "length s - Suc i < k" "rev s ! (length s - Suc i) = s ! i" using i kl by (auto simp: j_def rev_nth)
    with after i show False by metis
  qed
  have t: "trim_copy s = take (j - i + 1) (drop i s)"
    using Some k by (simp add: trim_copy_def find_last_not_of_def j_def)
  let ?t = "take (j - i + 1) (drop i s)"
  have len: "length ?t = j - i + 1" using ij kl by (simp add: j_def)
  then have h: "?t \<noteq> []" "hd ?t = s ! i" "last ?t = s ! j"
    using i ij kl by (auto simp: hd_drop_conv_nth last_conv_nth j_def)
  have "?P (hd ?t)" "?P (last ?t)" using h i Pk unfolding j_def by metis+
  from find_index_hd [of ?t ?P] find_index_last [of ?t ?P] h(1) this
  have "find_index ?P ?t = Some 0" "find_index ?P (rev ?t) = Some 0" by blast+
  then show ?thesis
    unfolding t using len by (simp add: trim_copy_def find_first_not_of_def find_last_not_of_def)
qed



section \<open>Entries and headers\<close>

abbreviation colon :: char where
  "colon \<equiv> CHR '':''"

definition entry_line :: "string \<times> string \<Rightarrow> string" where
  "entry_line e = fst e @ colon # snd e"

definition plain_text :: "string \<Rightarrow> bool" where
  "plain_text s \<longleftrightarrow> trim_copy s = s \<and> colon \<notin> set s \<and> CHR 0x0A \<notin> set s"

definition entry_ok :: "string \<times> string \<Rightarrow> bool" where
  "entry_ok e \<longleftrightarrow> fst e \<noteq> [] \<and> plain_text (fst e) \<and> plain_text (snd e) \<and>
     \<not> starts_with ''##'' (fst e) \<and> \<not> starts_with ''//'' (fst e)"

lemma trim_copy_ends:
  assumes "s \<noteq> []"
  shows "trim_copy s = s \<longleftrightarrow> hd s \<notin> set blanks \<and> last s \<notin> set blanks"
proof
  let ?P = "\<lambda>c. c \<notin> set blanks"
  assume s: "hd s \<notin> set blanks \<and> last s \<notin> set blanks"
  with find_index_hd [of s ?P] find_index_last [of s ?P] assms
  have "find_index ?P s = Some 0" "find_index ?P (rev s) = Some 0" by auto
  then show "trim_copy s = s" using assms
    by (simp add: trim_copy_def find_first_not_of_def find_last_not_of_def)
next
  let ?P = "\<lambda>c. c \<notin> set blanks"
  assume t: "trim_copy s = s"
  with assms obtain i j where i: "find_index ?P s = Some i" and j: "find_last_not_of blanks s = Some j"
    and s: "take (j - i + 1) (drop i s) = s"
    by (auto simp: trim_copy_def find_first_not_of_def split: option.splits)
  from j obtain k where k: "find_index ?P (rev s) = Some k" "j = length s - Suc k"
    by (auto simp: find_last_not_of_def)
  from find_index_Some [OF i] find_index_Some [OF k(1)] have ik: "i < length s" "?P (s ! i)" "k < length s" "?P (rev s ! k)"
    by auto
  from s have "min (length s - i) (j - i + 1) = length s" by (metis length_drop length_take)
  then have "i = 0" "k = 0" using k(2) ik(1,3) by auto
  with ik assms show "hd s \<notin> set blanks \<and> last s \<notin> set blanks"
    by (simp add: hd_conv_nth rev_nth last_conv_nth)
qed

lemma str_find_char: "x \<notin> set k \<Longrightarrow> str_find [x] (k @ x # s) = Some (length k)"
  by (induction k) auto

lemma str_find_no_char: "x \<notin> set s \<Longrightarrow> str_find [x] s = None"
  by (induction s) auto

lemma config_split_entry:
  assumes "plain_text k" "plain_text v"
  shows "config_split (k @ colon # v) '':'' a b = (k, v)"
  using assms str_find_char [of colon k "v @ '':''"] str_find_char [of colon v "[]"]
  by (simp add: config_split_def Let_def plain_text_def)

lemma config_split_header:
  assumes "plain_text h"
  shows "config_split h '':'' a b = (h, b)"
  using assms str_find_char [of colon h "[]"] by (simp add: config_split_def Let_def plain_text_def)

lemma entry_line_trimmed:
  assumes "entry_ok e"
  shows "trim_copy (entry_line e) = entry_line e" "CHR 0x0A \<notin> set (entry_line e)"
    "\<not> starts_with ''##'' (entry_line e)" "\<not> starts_with ''//'' (entry_line e)" "entry_line e \<noteq> []"
proof -
  obtain k v where e: "e = (k, v)" by (cases e)
  have k: "hd k \<notin> set blanks" using assms trim_copy_ends [of k] by (simp add: entry_ok_def plain_text_def e)
  have v: "v = [] \<or> last v \<notin> set blanks"
    using assms trim_copy_ends [of v] by (auto simp: entry_ok_def plain_text_def e)
  have "colon \<notin> set blanks" by (simp add: blanks_def)
  with k v assms show "trim_copy (entry_line e) = entry_line e"
    by (subst trim_copy_ends) (auto simp: entry_line_def entry_ok_def e)
  show "CHR 0x0A \<notin> set (entry_line e)" "entry_line e \<noteq> []"
    using assms by (auto simp: entry_line_def entry_ok_def plain_text_def e)
  show "\<not> starts_with ''##'' (entry_line e)" "\<not> starts_with ''//'' (entry_line e)"
    using assms by (cases k; cases "tl k"; auto simp: entry_line_def entry_ok_def starts_with_def e)+
qed

lemma normalize_entry:
  assumes "entry_ok (k, v)"
  shows "normalize_section_key k = k" "trim_copy v = v"
  using assms by (simp_all add: normalize_section_key_def entry_ok_def plain_text_def)

lemma split_line_entry:
  assumes "entry_ok (k, v)" and "rd_line r = entry_line (k, v)"
  shows "split_line r = r\<lparr>rd_key := k, rd_value := v\<rparr>"
  using assms normalize_entry [OF assms(1)] config_split_entry [of k v]
  by (simp add: split_line_def entry_line_def entry_ok_def)

lemma next_entry_entry:
  assumes "entry_ok (k, v)" and "rd_stream r = open_stream (lines_of (entry_line (k, v) # ls))"
  shows "next_entry r = \<lparr>rd_stream = open_stream (lines_of ls), rd_line = entry_line (k, v), rd_key = k, rd_value = v\<rparr>"
  using assms entry_line_trimmed [OF assms(1)] getline_lines_of [of "entry_line (k, v)" ls]
  by (simp add: next_entry_def split_line_entry del: lines_of_simps)

text \<open>A line such as \<open>##memory_config\<close> or \<open>####\<close>.\<close>

definition section_header :: "string \<Rightarrow> bool" where
  "section_header h \<longleftrightarrow> plain_text h \<and> starts_with ''##'' h \<and> normalize_section_key h = h"

lemma next_entry_header:
  assumes "section_header h" and "rd_stream r = open_stream (lines_of (h # ls))"
  shows "\<exists>v. next_entry r = \<lparr>rd_stream = open_stream (lines_of ls), rd_line = h, rd_key = h, rd_value = v\<rparr>"
  using assms getline_lines_of [of h ls] config_split_header [of h]
  by (intro exI [of _ "trim_copy (rd_value r)"])
    (simp add: next_entry_def split_line_def section_header_def plain_text_def del: lines_of_simps)

section \<open>A section\<close>

lemma section_entries:
  assumes "\<forall>e\<in>set es. entry_ok e \<and> (\<forall>c. ins (fst e) (snd e) c = Inr (f e c))" and h: "section_header h"
    and "rd_stream r = open_stream (lines_of (map entry_line es @ h # ls))"
  shows "\<exists>v. section_loop ins (next_entry r) c =
    Some (Inr (\<lparr>rd_stream = open_stream (lines_of ls), rd_line = h, rd_key = h, rd_value = v\<rparr>, fold f es c))"
  using assms(1,3)
proof (induction es arbitrary: r c)
  case Nil
  with next_entry_header [OF h, of r ls] h show ?case
    by (subst section_loop.simps) (auto simp: section_header_def simp del: lines_of_simps)
next
  case (Cons e es)
  obtain k v where e: "e = (k, v)" by (cases e)
  let ?r = "\<lparr>rd_stream = open_stream (lines_of (map entry_line es @ h # ls)), rd_line = entry_line e,
    rd_key = k, rd_value = v\<rparr>"
  from Cons.prems e have ok: "entry_ok (k, v)" "ins k v c = Inr (f e c)" by auto
  from next_entry_entry [OF ok(1), of r "map entry_line es @ h # ls"] Cons.prems(2) e have "next_entry r = ?r"
    by (simp del: lines_of_simps)
  moreover from Cons.IH [of ?r "f e c"] Cons.prems(1) obtain v' where
    "section_loop ins (next_entry ?r) (f e c) = Some (Inr (\<lparr>rd_stream = open_stream (lines_of ls),
      rd_line = h, rd_key = h, rd_value = v'\<rparr>, fold f es (f e c)))" by auto
  moreover have "\<not> starts_with ''##'' (entry_line e)" using entry_line_trimmed(3) [OF ok(1)] e by simp
  ultimately show ?case
    using ok(2) by (subst section_loop.simps) simp
qed

lemma section_if_read:
  assumes "rd_key r = name" and "\<forall>e\<in>set es. entry_ok e \<and> (\<forall>c. ins (fst e) (snd e) c = Inr (f e c))"
    and "section_header h" and "rd_stream r = open_stream (lines_of (map entry_line es @ h # ls))"
  shows "\<exists>v. section_if name ins (r, c) =
    Some (Inr (\<lparr>rd_stream = open_stream (lines_of ls), rd_line = h, rd_key = h, rd_value = v\<rparr>, fold f es c))"
  using section_entries [OF assms(2-4)] assms(1) by (simp add: section_if_def)

text \<open>Inserting the entries of a map into an empty one gives the map.\<close>

lemma fold_map_insert:
  "wf_map (m @ es) \<Longrightarrow> fold (\<lambda>e. map_insert (fst e) (snd e)) es m = m @ es"
proof (induction es arbitrary: m)
  case (Cons e es)
  then have less: "\<forall>x\<in>set m. fst x < fst e" by (auto simp: wf_map_def sorted_wrt_append)
  then have "map_of m (fst e) = None" by (auto simp: map_of_None_iff)
  with less have "map_insert (fst e) (snd e) m = m @ [e]" by (simp add: map_insert_def map_put_last)
  with Cons.IH [of "m @ [e]"] Cons.prems show ?case by simp
qed simp

lemma stoi_to_string:
  assumes "- (2 ^ 31) \<le> n" "n < 2 ^ 31"
  shows "stoi (to_string n) = Inr n"
proof (cases "n < 0")
  case False
  with stoi_digits_of [of "nat n"] assms show ?thesis by (simp add: to_string_def)
next
  case True
  have tw: "takeWhile is_digit (digits_of (nat (- n))) = digits_of (nat (- n))"
    using takeWhile_digits_of(1) [of "[]" "nat (- n)"] by simp
  from True have "strip_sign (dropWhile is_space (to_string n)) = (True, digits_of (nat (- n)))"
    by (simp add: to_string_def strip_sign_def)
  with True assms digits_of_digits [of "nat (- n)"] show ?thesis
    by (simp add: stoi_def Let_def decimal_digits_of tw)
qed

section \<open>Writing a configuration\<close>

definition int_entries :: "(string, int) std_map \<Rightarrow> (string \<times> string) list" where
  "int_entries = map (\<lambda>e. (fst e, to_string (snd e)))"

definition config_lines :: "gpu_config \<Rightarrow> string list" where
  "config_lines c =
     map entry_line (m_gpu_config c) @
     ''##pipeline_units'' # map entry_line (int_entries (m_sm_pipeline_units c)) @
     ''##compute_capability'' # map entry_line (int_entries (m_compute_capability c)) @
     ''##l1_cache_config'' # map entry_line (l1_cache_config c) @
     ''##l2_cache_config'' # map entry_line (l2_cache_config c) @
     ''##memory_config'' # map entry_line (int_entries (memory_config_map c)) @ [''####'']"

definition latency_line :: "string \<times> int \<times> string \<Rightarrow> string" where
  "latency_line e = unwords [fst e, to_string (fst (snd e)), snd (snd e)]"

definition latency_lines :: "gpu_config \<Rightarrow> string list" where
  "latency_lines c = ''##gpu_isa_latency'' # map latency_line (gpu_isa_latency c) @ [''####'']"

definition int_range :: "int \<Rightarrow> bool" where
  "int_range n \<longleftrightarrow> - (2 ^ 31) \<le> n \<and> n < 2 ^ 31"

definition latency_ok :: "string \<times> int \<times> string \<Rightarrow> bool" where
  "latency_ok e \<longleftrightarrow> no_space (fst e) \<and> fst e \<noteq> [] \<and> hd (fst e) \<noteq> CHR ''/'' \<and> hd (fst e) \<noteq> CHR ''#'' \<and>
     no_space (snd (snd e)) \<and> snd (snd e) \<noteq> [] \<and> int_range (fst (snd e))"

definition str_section_ok :: "(string, string) std_map \<Rightarrow> bool" where
  "str_section_ok m \<longleftrightarrow> wf_map m \<and> (\<forall>e\<in>set m. entry_ok e)"

definition int_section_ok :: "(string, int) std_map \<Rightarrow> bool" where
  "int_section_ok m \<longleftrightarrow> wf_map m \<and> (\<forall>e\<in>set m. entry_ok (fst e, []) \<and> int_range (snd e))"

definition config_ok :: "gpu_config \<Rightarrow> bool" where
  "config_ok c \<longleftrightarrow> str_section_ok (m_gpu_config c) \<and> int_section_ok (m_sm_pipeline_units c) \<and>
     int_section_ok (m_compute_capability c) \<and> str_section_ok (l1_cache_config c) \<and>
     str_section_ok (l2_cache_config c) \<and> int_section_ok (memory_config_map c) \<and>
     wf_map (gpu_isa_latency c) \<and> (\<forall>e\<in>set (gpu_isa_latency c). latency_ok e)"

section \<open>Reading it back\<close>

lemma to_string_text: "plain_text (to_string n) \<and> to_string n \<noteq> []"
proof -
  have d: "\<forall>x\<in>set (digits_of m). is_digit x" "digits_of m \<noteq> []" for m
    using digits_of_digits [of m] by (auto simp: list_all_iff)
  have b: "c \<notin> set blanks" "c \<noteq> colon" "c \<noteq> CHR 0x0A" if "is_digit c \<or> c = CHR ''-''" for c
    using that by (auto simp: blanks_def is_digit_def)
  have "\<forall>x\<in>set (to_string n). is_digit x \<or> x = CHR ''-''" "to_string n \<noteq> []"
    using d by (auto simp: to_string_def)
  moreover from this have "hd (to_string n) \<notin> set blanks" "last (to_string n) \<notin> set blanks"
    using b by (meson hd_in_set last_in_set)+
  moreover from calculation have "colon \<notin> set (to_string n)" "CHR 0x0A \<notin> set (to_string n)"
    using b(2,3) by blast+
  ultimately show ?thesis using trim_copy_ends [of "to_string n"] by (simp add: plain_text_def)
qed

lemma int_entry:
  assumes "entry_ok (k, [])" "int_range n"
  shows "entry_ok (k, to_string n)" "insert_int upd k (to_string n) c = Inr (upd (map_insert k n) c)"
  using assms to_string_text [of n] stoi_to_string [of n]
  by (simp_all add: entry_ok_def int_range_def insert_int_def)

lemma str_section_read:
  assumes "rd_key r = name" and ok: "str_section_ok m" and h: "section_header h"
    and "rd_stream r = open_stream (lines_of (map entry_line m @ h # ls))"
  shows "\<exists>v. section_if name (insert_str upd) (r, c) =
    Some (Inr (\<lparr>rd_stream = open_stream (lines_of ls), rd_line = h, rd_key = h, rd_value = v\<rparr>,
      fold (\<lambda>e. upd (map_insert (fst e) (snd e))) m c))"
  using assms by (intro section_if_read) (auto simp: str_section_ok_def insert_str_def)

lemma int_section_read:
  assumes "rd_key r = name" and ok: "int_section_ok m" and h: "section_header h"
    and "rd_stream r = open_stream (lines_of (map entry_line (int_entries m) @ h # ls))"
  shows "\<exists>v. section_if name (insert_int upd) (r, c) =
    Some (Inr (\<lparr>rd_stream = open_stream (lines_of ls), rd_line = h, rd_key = h, rd_value = v\<rparr>,
      fold (\<lambda>e. upd (map_insert (fst e) (snd e))) m c))"
proof -
  let ?f = "\<lambda>e. upd (map_insert (fst e) (projr (stoi (snd e))))"
  have st: "projr (stoi (to_string (snd e))) = snd e" if "e \<in> set m" for e
    using ok that stoi_to_string [of "snd e"] by (simp add: int_section_ok_def int_range_def)
  have "\<forall>e\<in>set (int_entries m). entry_ok e \<and> (\<forall>c. insert_int upd (fst e) (snd e) c = Inr (?f e c))"
    using ok int_entry st by (auto simp: int_section_ok_def int_entries_def)
  from section_if_read [OF assms(1) this h assms(4)]
  have "\<exists>v. section_if name (insert_int upd) (r, c) =
    Some (Inr (\<lparr>rd_stream = open_stream (lines_of ls), rd_line = h, rd_key = h, rd_value = v\<rparr>,
      fold ?f (int_entries m) c))" .
  moreover have "fold ?f (int_entries m) c = fold (\<lambda>e. upd (map_insert (fst e) (snd e))) m c"
    unfolding int_entries_def fold_map by (intro fold_cong) (auto simp: st)
  ultimately show ?thesis by simp
qed

lemma section_if_other: "rd_key r \<noteq> name \<Longrightarrow> section_if name ins (r, c) = Some (Inr (r, c))"
  by (simp add: section_if_def)

lemma obind_simps [simp]: "obind None f = None" "obind (Some (Inl e)) f = Some (Inl e)" "obind (Some (Inr x)) f = f x"
  by (simp_all add: obind_def)

lemma config_sections_entry:
  assumes "\<not> starts_with ''##'' (rd_key r)" "rd_key r \<noteq> []"
  shows "config_sections (r, c) = Some (Inr (r, c\<lparr>m_gpu_config := map_insert (rd_key r) (rd_value r) (m_gpu_config c)\<rparr>))"
proof -
  have "rd_key r \<noteq> ''##'' @ x" for x using assms(1) by (auto simp: starts_with_def)
  from this [of "''pipeline_units''"] this [of "''compute_capability''"] this [of "''l1_cache_config''"]
    this [of "''l2_cache_config''"] this [of "''memory_config''"] this [of "''gpu_isa_latency''"] this [of "''##''"]
  show ?thesis using assms(2) by (simp add: config_sections_def section_if_other)
qed

lemma config_loop_entry:
  assumes "entry_ok e"
  shows "config_loop (open_stream (lines_of (entry_line e # ls))) s c =
    config_loop (open_stream (lines_of ls)) (entry_line e)
      (c\<lparr>m_gpu_config := map_insert (fst e) (snd e) (m_gpu_config c)\<rparr>)"
proof -
  obtain k v where e: "e = (k, v)" by (cases e)
  note line = entry_line_trimmed [OF assms]
  let ?r = "\<lparr>rd_stream = open_stream (lines_of ls), rd_line = entry_line e, rd_key = [], rd_value = []\<rparr>"
  have "split_line ?r = ?r\<lparr>rd_key := k, rd_value := v\<rparr>"
    using assms e by (intro split_line_entry) simp_all
  moreover have "\<not> starts_with ''##'' k" "k \<noteq> []" using assms e by (auto simp: entry_ok_def)
  ultimately show ?thesis
    using line getline_lines_of [OF line(2), of ls] config_sections_entry [of "?r\<lparr>rd_key := k, rd_value := v\<rparr>" c] e
    by (subst config_loop.simps) (simp del: lines_of_simps)
qed

lemma config_loop_entries:
  assumes "\<forall>e\<in>set es. entry_ok e"
  shows "\<exists>s'. config_loop (open_stream (lines_of (map entry_line es @ ls))) s c =
    config_loop (open_stream (lines_of ls)) s'
      (c\<lparr>m_gpu_config := fold (\<lambda>e. map_insert (fst e) (snd e)) es (m_gpu_config c)\<rparr>)"
  using assms
proof (induction es arbitrary: s c)
  case Nil
  show ?case by (intro exI [of _ s]) simp
next
  case (Cons e es)
  then have e: "entry_ok e" and es: "\<forall>e\<in>set es. entry_ok e" by auto
  let ?c = "c\<lparr>m_gpu_config := map_insert (fst e) (snd e) (m_gpu_config c)\<rparr>"
  from Cons.IH [OF es, of "entry_line e" ?c] config_loop_entry [OF e, of "map entry_line es @ ls" s c]
  show ?case by (simp del: lines_of_simps)
qed

lemma section_headers:
  "section_header ''##pipeline_units''" "section_header ''##compute_capability''" "section_header ''##l1_cache_config''"
  "section_header ''##l2_cache_config''" "section_header ''##memory_config''" "section_header ''####''"
  by code_simp+

lemma section_folds:
  "fold (\<lambda>e c. c\<lparr>m_sm_pipeline_units := map_insert (fst e) (snd e) (m_sm_pipeline_units c)\<rparr>) m c =
     c\<lparr>m_sm_pipeline_units := fold (\<lambda>e. map_insert (fst e) (snd e)) m (m_sm_pipeline_units c)\<rparr>"
  "fold (\<lambda>e c. c\<lparr>m_compute_capability := map_insert (fst e) (snd e) (m_compute_capability c)\<rparr>) m c =
     c\<lparr>m_compute_capability := fold (\<lambda>e. map_insert (fst e) (snd e)) m (m_compute_capability c)\<rparr>"
  "fold (\<lambda>e c. c\<lparr>memory_config_map := map_insert (fst e) (snd e) (memory_config_map c)\<rparr>) m c =
     c\<lparr>memory_config_map := fold (\<lambda>e. map_insert (fst e) (snd e)) m (memory_config_map c)\<rparr>"
  "fold (\<lambda>e c. c\<lparr>l1_cache_config := map_insert (fst e) (snd e) (l1_cache_config c)\<rparr>) m' c =
     c\<lparr>l1_cache_config := fold (\<lambda>e. map_insert (fst e) (snd e)) m' (l1_cache_config c)\<rparr>"
  "fold (\<lambda>e c. c\<lparr>l2_cache_config := map_insert (fst e) (snd e) (l2_cache_config c)\<rparr>) m' c =
     c\<lparr>l2_cache_config := fold (\<lambda>e. map_insert (fst e) (snd e)) m' (l2_cache_config c)\<rparr>"
  "fold (\<lambda>e c. c\<lparr>gpu_isa_latency := map_insert (fst e) (snd e) (gpu_isa_latency c)\<rparr>) m'' c =
     c\<lparr>gpu_isa_latency := fold (\<lambda>e. map_insert (fst e) (snd e)) m'' (gpu_isa_latency c)\<rparr>"
proof -
  show "fold (\<lambda>e c. c\<lparr>m_sm_pipeline_units := map_insert (fst e) (snd e) (m_sm_pipeline_units c)\<rparr>) m c =
     c\<lparr>m_sm_pipeline_units := fold (\<lambda>e. map_insert (fst e) (snd e)) m (m_sm_pipeline_units c)\<rparr>"
    by (induction m arbitrary: c) simp_all
  show "fold (\<lambda>e c. c\<lparr>m_compute_capability := map_insert (fst e) (snd e) (m_compute_capability c)\<rparr>) m c =
     c\<lparr>m_compute_capability := fold (\<lambda>e. map_insert (fst e) (snd e)) m (m_compute_capability c)\<rparr>"
    by (induction m arbitrary: c) simp_all
  show "fold (\<lambda>e c. c\<lparr>memory_config_map := map_insert (fst e) (snd e) (memory_config_map c)\<rparr>) m c =
     c\<lparr>memory_config_map := fold (\<lambda>e. map_insert (fst e) (snd e)) m (memory_config_map c)\<rparr>"
    by (induction m arbitrary: c) simp_all
  show "fold (\<lambda>e c. c\<lparr>l1_cache_config := map_insert (fst e) (snd e) (l1_cache_config c)\<rparr>) m' c =
     c\<lparr>l1_cache_config := fold (\<lambda>e. map_insert (fst e) (snd e)) m' (l1_cache_config c)\<rparr>"
    by (induction m' arbitrary: c) simp_all
  show "fold (\<lambda>e c. c\<lparr>l2_cache_config := map_insert (fst e) (snd e) (l2_cache_config c)\<rparr>) m' c =
     c\<lparr>l2_cache_config := fold (\<lambda>e. map_insert (fst e) (snd e)) m' (l2_cache_config c)\<rparr>"
    by (induction m' arbitrary: c) simp_all
  show "fold (\<lambda>e c. c\<lparr>gpu_isa_latency := map_insert (fst e) (snd e) (gpu_isa_latency c)\<rparr>) m'' c =
     c\<lparr>gpu_isa_latency := fold (\<lambda>e. map_insert (fst e) (snd e)) m'' (gpu_isa_latency c)\<rparr>"
    by (induction m'' arbitrary: c) simp_all
qed

text \<open>One turn of the outer loop reads all five sections, from the first header to the end mark.\<close>

lemma config_sections_read:
  assumes ok: "int_section_ok m1" "int_section_ok m2" "str_section_ok m3" "str_section_ok m4" "int_section_ok m5"
    and r: "rd_key r = ''##pipeline_units''" "rd_stream r = open_stream (lines_of (map entry_line (int_entries m1) @
      ''##compute_capability'' # map entry_line (int_entries m2) @
      ''##l1_cache_config'' # map entry_line m3 @ ''##l2_cache_config'' # map entry_line m4 @
      ''##memory_config'' # map entry_line (int_entries m5) @ [''####'']))"
  shows "\<exists>r'. rd_stream r' = open_stream [] \<and> config_sections (r, c) = Some (Inr (r',
      c\<lparr>m_sm_pipeline_units := fold (\<lambda>e. map_insert (fst e) (snd e)) m1 (m_sm_pipeline_units c),
        m_compute_capability := fold (\<lambda>e. map_insert (fst e) (snd e)) m2 (m_compute_capability c),
        l1_cache_config := fold (\<lambda>e. map_insert (fst e) (snd e)) m3 (l1_cache_config c),
        l2_cache_config := fold (\<lambda>e. map_insert (fst e) (snd e)) m4 (l2_cache_config c),
        memory_config_map := fold (\<lambda>e. map_insert (fst e) (snd e)) m5 (memory_config_map c)\<rparr>))"
proof -
  let ?u1 = "\<lambda>f c. c\<lparr>m_sm_pipeline_units := f (m_sm_pipeline_units c)\<rparr>"
  let ?u2 = "\<lambda>f c. c\<lparr>m_compute_capability := f (m_compute_capability c)\<rparr>"
  let ?u3 = "\<lambda>f c. c\<lparr>l1_cache_config := f (l1_cache_config c)\<rparr>"
  let ?u4 = "\<lambda>f c. c\<lparr>l2_cache_config := f (l2_cache_config c)\<rparr>"
  let ?u5 = "\<lambda>f c. c\<lparr>memory_config_map := f (memory_config_map c)\<rparr>"
  let ?l5 = "map entry_line (int_entries m5) @ [''####'']"
  let ?l4 = "map entry_line m4 @ ''##memory_config'' # ?l5"
  let ?l3 = "map entry_line m3 @ ''##l2_cache_config'' # ?l4"
  let ?l2 = "map entry_line (int_entries m2) @ ''##l1_cache_config'' # ?l3"
  let ?r = "\<lambda>ls h v. \<lparr>rd_stream = open_stream (lines_of ls), rd_line = h, rd_key = h, rd_value = v\<rparr>"
  from int_section_read [OF r(1) ok(1) section_headers(2) r(2), of ?u1 c] obtain v1 c1 where
    1: "section_if ''##pipeline_units'' (insert_int ?u1) (r, c) = Some (Inr (?r ?l2 ''##compute_capability'' v1, c1))"
    "c1 = fold (\<lambda>e. ?u1 (map_insert (fst e) (snd e))) m1 c" by blast
  from int_section_read [OF _ ok(2) section_headers(3), of "?r ?l2 ''##compute_capability'' v1" "''##compute_capability''" ?l3 ?u2 c1]
  obtain v2 c2 where
    2: "section_if ''##compute_capability'' (insert_int ?u2) (?r ?l2 ''##compute_capability'' v1, c1) =
      Some (Inr (?r ?l3 ''##l1_cache_config'' v2, c2))"
    "c2 = fold (\<lambda>e. ?u2 (map_insert (fst e) (snd e))) m2 c1" by auto
  from str_section_read [OF _ ok(3) section_headers(4), of "?r ?l3 ''##l1_cache_config'' v2" "''##l1_cache_config''" ?l4 ?u3 c2]
  obtain v3 c3 where
    3: "section_if ''##l1_cache_config'' (insert_str ?u3) (?r ?l3 ''##l1_cache_config'' v2, c2) =
      Some (Inr (?r ?l4 ''##l2_cache_config'' v3, c3))"
    "c3 = fold (\<lambda>e. ?u3 (map_insert (fst e) (snd e))) m3 c2" by auto
  from str_section_read [OF _ ok(4) section_headers(5), of "?r ?l4 ''##l2_cache_config'' v3" "''##l2_cache_config''" ?l5 ?u4 c3]
  obtain v4 c4 where
    4: "section_if ''##l2_cache_config'' (insert_str ?u4) (?r ?l4 ''##l2_cache_config'' v3, c3) =
      Some (Inr (?r ?l5 ''##memory_config'' v4, c4))"
    "c4 = fold (\<lambda>e. ?u4 (map_insert (fst e) (snd e))) m4 c3" by auto
  from int_section_read [OF _ ok(5) section_headers(6), of "?r ?l5 ''##memory_config'' v4" "''##memory_config''" "[]" ?u5 c4]
  obtain v5 c5 where
    5: "section_if ''##memory_config'' (insert_int ?u5) (?r ?l5 ''##memory_config'' v4, c4) =
      Some (Inr (?r [] ''####'' v5, c5))"
    "c5 = fold (\<lambda>e. ?u5 (map_insert (fst e) (snd e))) m5 c4" by auto
  have "config_sections (r, c) = Some (Inr (?r [] ''####'' v5, c5))"
    unfolding config_sections_def 1(1) obind_simps 2(1) 3(1) 4(1) 5(1) by simp
  then show ?thesis
    unfolding 1(2) 2(2) 3(2) 4(2) 5(2) section_folds by (intro exI [of _ "?r [] ''####'' v5"]) simp
qed

section \<open>The latency table\<close>

lemma latency_line_text:
  assumes "latency_ok e"
  shows "trim_copy (latency_line e) = latency_line e" "CHR 0x0A \<notin> set (latency_line e)"
    "latency_line e \<noteq> []" "hd (latency_line e) \<noteq> CHR ''/''" "\<not> starts_with ''##'' (latency_line e)"
    "\<not> starts_with ''####'' (latency_line e)"
proof -
  let ?k = "fst e" and ?n = "to_string (fst (snd e))" and ?u = "snd (snd e)"
  have line: "latency_line e = ?k @ CHR '' '' # ?n @ CHR '' '' # ?u" by (simp add: latency_line_def)
  have k: "?k \<noteq> []" "no_space ?k" "?u \<noteq> []" "no_space ?u" and hd: "hd ?k \<noteq> CHR ''/''" "hd ?k \<noteq> CHR ''#''"
    using assms by (auto simp: latency_ok_def)
  have b: "c \<in> set blanks \<Longrightarrow> is_space c" for c by (auto simp: blanks_def is_space_def)
  have "hd ?k \<notin> set blanks" "last ?u \<notin> set blanks" 
    using k b [of "hd ?k"] b [of "last ?u"] hd_in_set [OF k(1)] last_in_set [OF k(3)] by (auto simp: list_all_iff)
  then show "trim_copy (latency_line e) = latency_line e"
    using k by (subst trim_copy_ends) (simp_all add: line)
  have nl: "is_space (CHR 0x0A)" by (simp add: is_space_def)
  then have "CHR 0x0A \<notin> set ?k" "CHR 0x0A \<notin> set ?u" using k by (auto simp: list_all_iff)
  with to_string_text [of "fst (snd e)"] show "CHR 0x0A \<notin> set (latency_line e)"
    by (simp add: line plain_text_def)
  show "latency_line e \<noteq> []" "hd (latency_line e) \<noteq> CHR ''/''" using k hd by (simp_all add: line)
  show "\<not> starts_with ''##'' (latency_line e)" "\<not> starts_with ''####'' (latency_line e)"
    using k(1) hd(2) by (cases ?k; simp add: line starts_with_def)+
qed

lemma isa_entry_line:
  assumes "latency_ok e"
  shows "isa_entry (latency_line e) c = Inr (c\<lparr>gpu_isa_latency := map_insert (fst e) (snd e) (gpu_isa_latency c)\<rparr>)"
proof -
  let ?n = "fst (snd e)"
  have "words (latency_line e) = [fst e, to_string ?n, snd (snd e)]"
    unfolding latency_line_def using assms to_string_text [of ?n]
    by (intro words_unwords) (simp add: latency_ok_def)
  moreover have n: "stoi (to_string ?n) = Inr ?n"
    using assms by (intro stoi_to_string) (simp_all add: latency_ok_def int_range_def)
  moreover have "to_string ?n \<noteq> ''-''"
  proof
    assume "to_string ?n = ''-''"
    moreover have "stoi ''-'' = Inl Invalid_Argument" by code_simp
    ultimately show False using n by simp
  qed
  ultimately show ?thesis by (simp add: isa_entry_def)
qed

lemma isa_loop_read:
  assumes "\<forall>e\<in>set es. latency_ok e" and "rd_stream r = open_stream (lines_of (map latency_line es @ [''####'']))"
  shows "\<exists>r'. rd_stream r' = open_stream [] \<and>
    isa_loop r c = Inr (r', c\<lparr>gpu_isa_latency := fold (\<lambda>e. map_insert (fst e) (snd e)) es (gpu_isa_latency c)\<rparr>)"
  using assms
proof (induction es arbitrary: r c)
  case Nil
  have t: "trim_copy ''####'' = ''####''" "starts_with ''####'' ''####''" by code_simp+
  from Nil getline_lines_of [of "''####''" "[]" "rd_line r"]
  have "getline (rd_stream r) (rd_line r) = (True, ''####'', open_stream [])" by simp
  with t have "isa_loop r c = Inr (r\<lparr>rd_stream := open_stream [], rd_line := ''####''\<rparr>, c)"
    by (subst isa_loop.simps) simp
  then show ?case by (intro exI [of _ "r\<lparr>rd_stream := open_stream [], rd_line := ''####''\<rparr>"]) simp
next
  case (Cons e es)
  then have e: "latency_ok e" and es: "\<forall>e\<in>set es. latency_ok e" by auto
  note line = latency_line_text [OF e]
  let ?r = "r\<lparr>rd_stream := open_stream (lines_of (map latency_line es @ [''####''])), rd_line := latency_line e\<rparr>"
  let ?c = "c\<lparr>gpu_isa_latency := map_insert (fst e) (snd e) (gpu_isa_latency c)\<rparr>"
  from Cons.prems(2) getline_lines_of [OF line(2), of "map latency_line es @ [''####'']" "rd_line r"]
  have "getline (rd_stream r) (rd_line r) =
      (True, latency_line e, open_stream (lines_of (map latency_line es @ [''####''])))"
    by (simp del: lines_of_simps)
  with line isa_entry_line [OF e, of c] have "isa_loop r c = isa_loop ?r ?c"
    by (subst isa_loop.simps) (simp del: lines_of_simps)
  with Cons.IH [OF es, of ?r ?c] show ?case by simp
qed

section \<open>A file that ends inside a section\<close>


text \<open>The five sections of keys and values, in the order in which a line is compared with their headers.\<close>

definition value_sections :: "(string \<times> (string \<Rightarrow> string \<Rightarrow> gpu_config \<Rightarrow> gpu_config res)) list" where
  "value_sections =
     [(''##pipeline_units'', insert_int (\<lambda>f c. c\<lparr>m_sm_pipeline_units := f (m_sm_pipeline_units c)\<rparr>)),
      (''##compute_capability'', insert_int (\<lambda>f c. c\<lparr>m_compute_capability := f (m_compute_capability c)\<rparr>)),
      (''##l1_cache_config'', insert_str (\<lambda>f c. c\<lparr>l1_cache_config := f (l1_cache_config c)\<rparr>)),
      (''##l2_cache_config'', insert_str (\<lambda>f c. c\<lparr>l2_cache_config := f (l2_cache_config c)\<rparr>)),
      (''##memory_config'', insert_int (\<lambda>f c. c\<lparr>memory_config_map := f (memory_config_map c)\<rparr>))]"

definition sections_before :: "nat \<Rightarrow> reader \<times> gpu_config \<Rightarrow> (reader \<times> gpu_config) res option" where
  "sections_before i s = fold (\<lambda>(name, ins) m. obind m (section_if name ins)) (take i value_sections) (Some (Inr s))"






text \<open>
  How far the parser comes: from the position \<open>st\<close>, with the last line \<open>line\<close>, the loop of \<open>read_config\<close>
  reaches the test for section \<open>i\<close> with the reader \<open>r\<close>, over any lines before it, which it skips or
  reads with all their sections.
\<close>

definition skipped_line :: "string \<Rightarrow> bool" where
  "skipped_line l \<longleftrightarrow> l = [] \<or> starts_with ''//'' l \<or>
     starts_with ''##'' l \<and> \<not> known_section (normalize_section_key l)"

definition key_of_line :: "istream \<Rightarrow> string \<Rightarrow> reader" where
  "key_of_line st l = split_line \<lparr>rd_stream = st, rd_line = trim_copy l, rd_key = [], rd_value = []\<rparr>"

inductive comes_to :: "nat \<Rightarrow> reader \<Rightarrow> gpu_config \<Rightarrow> istream \<Rightarrow> string \<Rightarrow> gpu_config \<Rightarrow> bool"
  for i :: nat and r :: reader and c' :: gpu_config
where
  here: "getline st line = (True, l, st') \<Longrightarrow> \<not> skipped_line (trim_copy l) \<Longrightarrow>
    sections_before i (key_of_line st' l, c) = Some (Inr (r, c')) \<Longrightarrow> comes_to i r c' st line c"
| skip: "getline st line = (True, l, st') \<Longrightarrow> skipped_line (trim_copy l) \<Longrightarrow>
    comes_to i r c' st' (trim_copy l) c \<Longrightarrow> comes_to i r c' st line c"
| past: "getline st line = (True, l, st') \<Longrightarrow> \<not> skipped_line (trim_copy l) \<Longrightarrow>
    config_sections (key_of_line st' l, c) = Some (Inr (r1, c1)) \<Longrightarrow>
    comes_to i r c' (rd_stream r1) (rd_line r1) c1 \<Longrightarrow> comes_to i r c' st line c"



text \<open>Reading back what was written, section by section.\<close>

lemma config_read_back:
  assumes ok: "config_ok c"
  shows "read_m_config (lines_of (config_lines c)) (lines_of (latency_lines c)) empty_gpu_config = Some (Inr c)"
proof -
  let ?tail = "map entry_line (int_entries (m_sm_pipeline_units c)) @
      ''##compute_capability'' # map entry_line (int_entries (m_compute_capability c)) @
      ''##l1_cache_config'' # map entry_line (l1_cache_config c) @
      ''##l2_cache_config'' # map entry_line (l2_cache_config c) @
      ''##memory_config'' # map entry_line (int_entries (memory_config_map c)) @ [''####'']"
  let ?c1 = "empty_gpu_config\<lparr>m_gpu_config := m_gpu_config c\<rparr>" and ?c2 = "c\<lparr>gpu_isa_latency := []\<rparr>"
  from ok have ins: "fold (\<lambda>e. map_insert (fst e) (snd e)) (m_gpu_config c) [] = m_gpu_config c"
    "fold (\<lambda>e. map_insert (fst e) (snd e)) (m_sm_pipeline_units c) [] = m_sm_pipeline_units c"
    "fold (\<lambda>e. map_insert (fst e) (snd e)) (m_compute_capability c) [] = m_compute_capability c"
    "fold (\<lambda>e. map_insert (fst e) (snd e)) (l1_cache_config c) [] = l1_cache_config c"
    "fold (\<lambda>e. map_insert (fst e) (snd e)) (l2_cache_config c) [] = l2_cache_config c"
    "fold (\<lambda>e. map_insert (fst e) (snd e)) (memory_config_map c) [] = memory_config_map c"
    "fold (\<lambda>e. map_insert (fst e) (snd e)) (gpu_isa_latency c) [] = gpu_isa_latency c"
    by (simp_all add: config_ok_def str_section_ok_def int_section_ok_def fold_map_insert [of "[]", simplified])
  have loop_end: "config_loop (open_stream []) s x = Some (Inr x)" for s x
    by (subst config_loop.simps) (simp add: getline_end)
  have h: "trim_copy ''##pipeline_units'' = ''##pipeline_units''"
    "normalize_section_key ''##pipeline_units'' = ''##pipeline_units''" "known_section ''##pipeline_units''"
    "\<not> starts_with ''//'' ''##pipeline_units''" "config_split ''##pipeline_units'' '':'' [] [] = (''##pipeline_units'', [])"
    "trim_copy ''##gpu_isa_latency'' = ''##gpu_isa_latency''"
    "normalize_section_key ''##gpu_isa_latency'' = ''##gpu_isa_latency''" "known_section ''##gpu_isa_latency''"
    "\<not> starts_with ''//'' ''##gpu_isa_latency''" "config_split ''##gpu_isa_latency'' '':'' [] [] = (''##gpu_isa_latency'', [])"
    by code_simp+
  from config_loop_entries [of "m_gpu_config c" "''##pipeline_units'' # ?tail" "[]" empty_gpu_config] ok ins(1)
  obtain s1 where 1: "read_config (lines_of (config_lines c)) empty_gpu_config =
      config_loop (open_stream (lines_of (''##pipeline_units'' # ?tail))) s1 ?c1"
    by (auto simp: read_config_def config_lines_def config_ok_def str_section_ok_def empty_gpu_config_def
        simp del: lines_of_simps)
  let ?r = "\<lparr>rd_stream = open_stream (lines_of ?tail), rd_line = ''##pipeline_units'',
    rd_key = ''##pipeline_units'', rd_value = []\<rparr>"
  from ok config_sections_read [of "m_sm_pipeline_units c" "m_compute_capability c" "l1_cache_config c"
      "l2_cache_config c" "memory_config_map c" ?r ?c1] ins(2-6)
  obtain r' where r': "rd_stream r' = open_stream []" "config_sections (?r, ?c1) = Some (Inr (r', ?c2))"
    by (auto simp: config_ok_def empty_gpu_config_def simp del: lines_of_simps)
  have "config_loop (open_stream (lines_of (''##pipeline_units'' # ?tail))) s1 ?c1 = Some (Inr ?c2)"
    using getline_lines_of [of "''##pipeline_units''" ?tail s1] r' h(1-5) loop_end
    by (subst config_loop.simps) (simp add: split_line_def del: lines_of_simps)
  with 1 have first: "read_config (lines_of (config_lines c)) empty_gpu_config = Some (Inr ?c2)" by simp
  let ?isa = "map latency_line (gpu_isa_latency c) @ [''####'']"
  let ?q = "\<lparr>rd_stream = open_stream (lines_of ?isa), rd_line = ''##gpu_isa_latency'',
    rd_key = ''##gpu_isa_latency'', rd_value = []\<rparr>"
  from ok isa_loop_read [of "gpu_isa_latency c" ?q ?c2] ins(7) obtain q' where
    q': "rd_stream q' = open_stream []" "isa_loop ?q ?c2 = Inr (q', c)"
    by (auto simp: config_ok_def simp del: lines_of_simps)
  have "config_sections (?q, ?c2) = Some (Inr (q'\<lparr>rd_key := ''####''\<rparr>, c))"
    using q' by (simp add: config_sections_def section_if_other del: lines_of_simps)
  then have "config_loop (open_stream (lines_of (''##gpu_isa_latency'' # ?isa))) [] ?c2 = Some (Inr c)"
    using getline_lines_of [of "''##gpu_isa_latency''" ?isa "[]"] q'(1) h(6-10) loop_end
    by (subst config_loop.simps) (simp add: split_line_def del: lines_of_simps)
  with first show ?thesis
    by (simp add: read_m_config_def read_config_def latency_lines_def del: lines_of_simps)
qed

section \<open>Properties\<close>

text \<open>C36. A configuration that is written to its two files is read back: with the general entries first,
  the sections in the order in which the parser asks for them, the end mark, and the latency table in a
  file of its own, \<open>read_m_config\<close> returns exactly the configuration that was written, every map with
  all its entries.\<close>

theorem config_roundtrip:
  assumes ok: "config_ok c"
  shows "read_m_config (lines_of (config_lines c)) (lines_of (latency_lines c)) empty_gpu_config = Some (Inr c)"
  using assms by (rule config_read_back)

definition small_config :: gpu_config where
  "small_config =
     \<lparr>m_gpu_config = [(''mem_num'', ''2''), (''sm_num'', ''46'')], m_sm_pipeline_units = [(''INT_units'', 64)],
      m_compute_capability = [(''warp_size'', 32)], l1_cache_config = [(''l1_cache_line_size'', ''128'')],
      l2_cache_config = [], memory_config_map = [(''CL'', 20), (''nbk'', 16)],
      gpu_isa_latency = [(''BRA'', -1, ''BRA_units''), (''FADD'', 5, ''SP_units'')]\<rparr>"

theorem config_roundtrip_witness:
  "config_ok small_config \<and>
   read_m_config (lines_of (config_lines small_config)) (lines_of (latency_lines small_config)) empty_gpu_config =
     Some (Inr small_config)"
proof -
  have "config_ok small_config" by code_simp
  from this config_roundtrip [OF this] show ?thesis by (rule conjI)
qed




text \<open>The sections are looked for in one order only: a section that comes too late is read as general
  entries, its header included.\<close>

lemma sections_out_of_order:
  "read_config (lines_of [''##compute_capability'', ''warp_size:32'', ''##pipeline_units'', ''INT_units:64'', ''####''])
     empty_gpu_config =
   Some (Inr (empty_gpu_config
     \<lparr>m_gpu_config := [(''##pipeline_units'', ''32''), (''INT_units'', ''64'')],
      m_compute_capability := [(''warp_size'', 32)]\<rparr>))"
  by code_simp

end
