(* ===== verification/Trace_Pipeline.thy ===== *)
theory Trace_Pipeline
  imports Trace_Channel Kernel_Selection Trace_Grouping Config_Format
begin

text \<open>
  From the tracer to the post-processor: the header and the grouped lines the tracer writes
  (\<^verbatim>\<open>tracer_tool.cu\<close>) are a trace the post-processor (\<^verbatim>\<open>post-traces-processing.cpp\<close>) leaves as it is.
\<close>

section \<open>Lines without a newline\<close>

lemma no_newline [simp]: "no_space s \<Longrightarrow> CHR 0x0A \<notin> set s"
  by (auto simp: list_all_iff is_space_def)

lemma to_string_no_newline [simp]: "CHR 0x0A \<notin> set (to_string n)"
  by (rule no_newline) simp

lemma hex_of_no_newline [simp]: "CHR 0x0A \<notin> set (hex_of n)"
  by (rule no_newline) simp

lemma pad0_no_newline [simp]: "CHR 0x0A \<notin> set s \<Longrightarrow> CHR 0x0A \<notin> set (pad0 w s)"
  by (auto simp: pad0_def)

lemma format_addresses_no_newline [simp]: "CHR 0x0A \<notin> set (format_addresses a)"
  by (auto simp: format_addresses_def split: addresses.split)

lemma format_mem_no_newline: "format_mem opt opcode ma = Inr mem \<Longrightarrow> CHR 0x0A \<notin> set mem"
  by (auto simp: format_mem_def res_simps split: if_splits)

definition body_line :: "string \<Rightarrow> bool" where
  "body_line l \<longleftrightarrow> CHR 0x0A \<notin> set l \<and> (l = [] \<or> hd l \<noteq> CHR ''-'')"

lemma digit_not_dash: "is_digit c \<Longrightarrow> c \<noteq> CHR ''-''"
  by auto

lemma hex_digit_not_dash: "d < 16 \<Longrightarrow> hex_digit d \<noteq> CHR ''-''"
proof
  assume d: "d < 16" and "hex_digit d = CHR ''-''"
  then have "(of_char (hex_digit d) :: nat) = 45" by simp
  moreover have "(of_char (hex_digit d) :: nat) = (if d < 10 then 48 + d else 87 + d)"
    using d by (simp add: hex_digit_def)
  ultimately show False by (auto split: if_splits)
qed

lemma hex_of_no_dash: "CHR ''-'' \<notin> set (hex_of n)"
proof (induction n rule: hex_of.induct)
  case (1 n)
  then show ?case by (subst hex_of.simps) (auto simp: hex_digit_not_dash dest!: sym [of "CHR ''-''"])
qed

lemma pad0_no_dash: "CHR ''-'' \<notin> set s \<Longrightarrow> CHR ''-'' \<notin> set (pad0 w s)"
  by (auto simp: pad0_def)

lemma hd_no_dash: "s \<noteq> [] \<Longrightarrow> CHR ''-'' \<notin> set s \<Longrightarrow> hd s \<noteq> CHR ''-''"
  by (cases s) auto

lemma format_inst_line_body:
  assumes "format_inst_line opt m ma = Inr l" "CHR 0x0A \<notin> set (opcode_name m ma)"
  shows "body_line l"
proof -
  from assms(1) obtain mem where mem: "format_mem opt (opcode_name m ma) ma = Inr mem" and
    l: "l = (if lineinfo opt then spaced (to_string (uint (line_num ma))) else []) @
            spaced (pad0 4 (hex_of (unat (vpc ma)))) @
            spaced (pad0 8 (hex_of (unat (lane_mask ma)))) @
            (if 0 \<le> sint (GPRDst ma) then spaced ''1'' @ spaced (reg_name (GPRDst ma)) else spaced ''0'') @
            spaced (opcode_name m ma) @
            spaced (to_string (int (length (printed_srcs ma)))) @
            concat (map (\<lambda>r. spaced (reg_name r)) (printed_srcs ma)) @
            mem @ to_string (uint (imm ma))"
    by (auto simp: format_inst_line_def res_simps)
  have "CHR 0x0A \<notin> set l"
    unfolding l using format_mem_no_newline [OF mem] assms(2) by (auto simp: reg_name_def)
  moreover have "CHR ''-'' \<notin> set (to_string (uint (line_num ma)))"
    using digits_of_digits by (auto simp: to_string_def list_all_iff simp del: not_digit dest: digit_not_dash)
  then have "hd l \<noteq> CHR ''-''"
    unfolding l using to_string_text [of "uint (line_num ma)"]
      hd_no_dash [of "pad0 4 (hex_of (unat (vpc ma)))"] pad0_no_dash [OF hex_of_no_dash, of 4 "unat (vpc ma)"]
    by (cases "lineinfo opt") (simp_all add: hd_no_dash)
  ultimately show ?thesis by (simp add: body_line_def)
qed

lemma grouped_text_lines:
  assumes "\<forall>p\<in>set ps. body_line (snd (snd p))"
  shows "\<forall>l\<in>set (grouped_text ps). body_line l"
  using assms
  by (auto simp: grouped_text_def tb_header_def warp_text_def lines_of_warp_def body_line_def)

lemma grouped_text_start:
  "grouped_text ps = [] \<or>
   (\<exists>t rest. grouped_text ps = ''#BEGIN_TB'' # (''thread block = '' @ t) # rest)"
  by (cases "sort (remdups (map fst ps))") (auto simp: grouped_text_def tb_header_def)

section \<open>The header\<close>

text \<open>The dimensions that have been read are all there.\<close>

definition dims_known :: "grouping \<Rightarrow> bool" where
  "dims_known g \<longleftrightarrow> length (grid_dim g) = 3 \<and> length (tb_dim g) = 3 \<and> (found_grid_dim g \<longrightarrow> None \<notin> set (grid_dim g)) \<and>
     (found_block_dim g \<longrightarrow> None \<notin> set (tb_dim g))"

lemma dims_product_known: "None \<notin> set ds \<Longrightarrow> \<exists>n. dims_product ds = Inr n"
proof (induction ds)
  case (Cons d ds)
  then show ?case by (cases d) auto
qed simp

lemma size_arrays_known:
  assumes "dims_known g" "found_grid_dim g" "found_block_dim g"
  shows "\<exists>g'. size_arrays g = Inr g' \<and> dims_known g'"
proof -
  from assms dims_product_known [of "grid_dim g"] dims_product_known [of "tb_dim g"] obtain n m where
    "dims_product (grid_dim g) = Inr n" "dims_product (tb_dim g) = Inr m" by (auto simp: dims_known_def)
  with assms show ?thesis by (auto simp: size_arrays_def Let_def dims_known_def)
qed

lemma header_line_known:
  assumes "read_dims line (read_key line g) = Inr g1" "dims_known g1"
  shows "\<exists>g'. header_line line g = Inr g' \<and> dims_known g'"
  using assms size_arrays_known [of g1]
  by (auto simp: header_line_def print_line_def dims_known_def)

lemma dims_known_key: "dims_known g \<Longrightarrow> dims_known (read_key line g)"
  by (simp add: dims_known_def read_key_def split: option.splits)

text \<open>Numbers in a dimension.\<close>

lemma scan_int_to_string:
  assumes "rest = [] \<or> \<not> is_digit (hd rest)"
  shows "scan_int (to_string n @ rest) = Some (n, rest)"
proof -
  have d: "digits_of m \<noteq> []" "list_all is_digit (digits_of m)" for m using digits_of_digits by auto
  show ?thesis
  proof (cases "n < 0")
    case True
    have "dropWhile is_space (to_string n @ rest) = to_string n @ rest"
      using True by (simp add: to_string_def)
    with True show ?thesis
      using takeWhile_digits_of [OF assms, of "nat (- n)"] d(1) [of "nat (- n)"]
      by (simp add: scan_int_def to_string_def strip_sign_def decimal_digits_of Let_def)
  next
    case False
    obtain c t where ct: "digits_of (nat n) = c # t" "is_digit c" using d [of "nat n"] by (cases "digits_of (nat n)") auto
    moreover have "c \<noteq> CHR ''-''" "c \<noteq> CHR ''+''" using ct(2) by auto
    ultimately have "strip_sign (dropWhile is_space (to_string n @ rest)) = (False, digits_of (nat n) @ rest)"
      using False by (simp add: to_string_def strip_sign_def digit_no_space)
    with False show ?thesis
      using takeWhile_digits_of [OF assms, of "nat n"] d(1) [of "nat n"]
      by (simp add: scan_int_def decimal_digits_of Let_def)
  qed
qed

lemma scan_dims:
  assumes "scan_literal f (p @ to_string a @ s) = Some (to_string a @ s)"
    and "s = '','' @ to_string b @ '','' @ to_string c @ '')''"
  shows "scan_ints [f, '','', '',''] (p @ to_string a @ s) = [a, b, c]"
  using assms scan_int_to_string [of s a] scan_int_to_string [of "'','' @ to_string c @ '')''" b]
    scan_int_to_string [of "'')''" c]
  by (simp add: is_digit_def is_space_def)

lemma dims_lines:
  "scan_ints [''-grid dim = ('', '','', '',''] (''-grid dim = ('' @ fmt_dims (x, y, z)) = [sint x, sint y, sint z]"
  "scan_ints [''-block dim = ('', '','', '',''] (''-block dim = ('' @ fmt_dims (x, y, z)) = [sint x, sint y, sint z]"
proof -
  have lit: "scan_literal ''-grid dim = ('' (''-grid dim = ('' @ to_string (sint x) @ s) = Some (to_string (sint x) @ s)"
    "scan_literal ''-block dim = ('' (''-block dim = ('' @ to_string (sint x) @ s) = Some (to_string (sint x) @ s)" for s
    by (simp_all add: is_space_def)
  from scan_dims [OF lit(1) refl, of "sint y" "sint z"]
  show "scan_ints [''-grid dim = ('', '','', '',''] (''-grid dim = ('' @ fmt_dims (x, y, z)) = [sint x, sint y, sint z]"
    by (simp add: fmt_dims_def fmt_d_def)
  from scan_dims [OF lit(2) refl, of "sint y" "sint z"]
  show "scan_ints [''-block dim = ('', '','', '',''] (''-block dim = ('' @ fmt_dims (x, y, z)) = [sint x, sint y, sint z]"
    by (simp add: fmt_dims_def fmt_d_def)
qed

text \<open>A line the post-processor reads without error.\<close>

definition readable :: "string \<Rightarrow> bool" where
  "readable l \<longleftrightarrow> (\<forall>g. dims_known g \<longrightarrow> (\<exists>g'. group_line l g = Inr g' \<and> dims_known g'))"

lemma readable_comment: "l = [] \<or> hd l = CHR ''#'' \<Longrightarrow> readable l"
  by (auto simp: readable_def group_line_def print_line_def dims_known_def)

lemma read_key_words:
  assumes "no_space v" "v \<noteq> []" "no_space w" "w \<noteq> []"
  shows "read_key (CHR ''-'' # v @ CHR '' '' # w @ CHR '' '' # s) g = g\<lparr>string1 := v, string2 := w\<rparr>"
  using read_word_spaced [OF assms(1,2)] read_word_spaced [OF assms(3,4)] by (simp add: read_key_def)

lemma readable_key:
  assumes "no_space v" "v \<noteq> []" "no_space w" "w \<noteq> []" and other: "w \<noteq> ''dim''"
  shows "readable (CHR ''-'' # v @ CHR '' '' # w @ CHR '' '' # s)"
  unfolding readable_def
proof (intro allI impI)
  fix g assume g: "dims_known g"
  let ?l = "CHR ''-'' # v @ CHR '' '' # w @ CHR '' '' # s"
  have "read_dims ?l (read_key ?l g) = Inr (read_key ?l g)"
    using other by (simp add: read_key_words [OF assms(1-4)] read_dims_def)
  from header_line_known [OF this dims_known_key [OF g]] show "\<exists>g'. group_line ?l g = Inr g' \<and> dims_known g'"
    by (simp add: group_line_def)
qed

lemma sint_range_32: "- (2 ^ 31) \<le> sint (x :: u32) \<and> sint x < 2 ^ 31"
  using sint_greater_eq [of x] sint_less [of x] by simp

lemma assign_three:
  assumes "length ds = 3"
  shows "assign_dims [sint x, sint y, sint z] ds = Inr [Some x, Some y, Some z]"
  using assms sint_range_32 [of x] sint_range_32 [of y] sint_range_32 [of z] by (simp add: assign_dims_def)

lemma readable_dims:
  "readable (''-grid dim = ('' @ fmt_dims (x, y, z))" "readable (''-block dim = ('' @ fmt_dims (x, y, z))"
proof -
  have sp: "no_space ''grid''" "no_space ''block''" "no_space ''dim''" by (simp_all add: is_space_def)
  let ?gl = "''-grid dim = ('' @ fmt_dims (x, y, z)" and ?bl = "''-block dim = ('' @ fmt_dims (x, y, z)"
  show "readable ?gl"
    unfolding readable_def
  proof (intro allI impI)
    fix g assume g: "dims_known g"
    have key: "read_key ?gl g = g\<lparr>string1 := ''grid'', string2 := ''dim''\<rparr>"
      using read_key_words [OF sp(1) _ sp(3), of "''= ('' @ fmt_dims (x, y, z)" g] by simp
    have "read_dims ?gl (read_key ?gl g) = Inr (g\<lparr>string1 := ''grid'', string2 := ''dim'',
        grid_dim := [Some x, Some y, Some z], found_grid_dim := True\<rparr>)"
      unfolding key read_dims_def dims_lines using g assign_three [of "grid_dim g" x y z]
      by (simp add: dims_known_def)
    from header_line_known [OF this] g show "\<exists>g'. group_line ?gl g = Inr g' \<and> dims_known g'"
      by (simp add: group_line_def dims_known_def)
  qed
  show "readable ?bl"
    unfolding readable_def
  proof (intro allI impI)
    fix g assume g: "dims_known g"
    have key: "read_key ?bl g = g\<lparr>string1 := ''block'', string2 := ''dim''\<rparr>"
      using read_key_words [OF sp(2) _ sp(3), of "''= ('' @ fmt_dims (x, y, z)" g] by simp
    have "read_dims ?bl (read_key ?bl g) = Inr (g\<lparr>string1 := ''block'', string2 := ''dim'',
        tb_dim := [Some x, Some y, Some z], found_block_dim := True\<rparr>)"
      unfolding key read_dims_def dims_lines using g assign_three [of "tb_dim g" x y z]
      by (simp add: dims_known_def)
    from header_line_known [OF this] g show "\<exists>g'. group_line ?bl g = Inr g' \<and> dims_known g'"
      by (simp add: group_line_def dims_known_def)
  qed
qed

lemma readable_header: "list_all readable (trace_header cfg k l)"
proof -
  note key = readable_key [of "''kernel''" "''name''"] readable_key [of "''kernel''" "''id''"]
    readable_key [of "''shmem''" "''=''"] readable_key [of "''nregs''" "''=''"]
    readable_key [of "''binary''" "''version''"] readable_key [of "''cuda''" "''stream''"]
    readable_key [of "''shmem''" "''base_addr''"] readable_key [of "''local''" "''mem''"]
    readable_key [of "''nvbit''" "''version''"] readable_key [of "''accelsim''" "''tracer''"]
    readable_key [of "''enable''" "''lineinfo''"]
  obtain gx gy gz bx by' bz where d: "gridDim l = (gx, gy, gz)" "blockDim l = (bx, by', bz)"
    by (cases "gridDim l"; cases "blockDim l")
  have "readable (''-grid dim = ('' @ fmt_dims (gridDim l))" "readable (''-block dim = ('' @ fmt_dims (blockDim l))"
    unfolding d by (rule readable_dims)+
  with key show ?thesis
    by (simp add: trace_header_def readable_comment is_space_def)
qed

lemma header_plain: "list_all plain_line (trace_header cfg k l)"
  by (simp add: trace_header_def plain_line_def)

lemma header_run: "\<exists>g. foldM group_line (trace_header cfg k l) new_grouping = Inr g"
proof -
  have "\<exists>g. foldM group_line (trace_header cfg k l) new_grouping = Inr g \<and> dims_known g"
  proof (rule foldM_total)
    fix x g assume "x \<in> set (trace_header cfg k l)" "dims_known g"
    with readable_header [of cfg k l] show "\<exists>g'. group_line x g = Inr g' \<and> dims_known g'"
      by (simp add: list_all_iff readable_def)
  qed (simp add: dims_known_def new_grouping_def)
  then show ?thesis by blast
qed

section \<open>Post-processing a traced kernel\<close>

lemma print_blocks_untouched: "list_all no_insts bs \<Longrightarrow> print_blocks strings bs = Inr []"
  by (induction bs) (simp_all add: print_block_def no_insts_def)

lemma group_lines_header:
  assumes "list_all plain_line ls" and "foldM group_line ls new_grouping = Inr g"
  shows "group_lines ls = Inr ls"
proof -
  have "Trace_Grouping.header_ok new_grouping" by (simp add: Trace_Grouping.header_ok_def new_grouping_def)
  with plain_lines_ok [OF assms(2,1)] have "list_all no_insts (insts g)" by (simp add: Trace_Grouping.header_ok_def)
  with plain_lines_print [OF assms(2,1)] assms(2) show ?thesis
    by (simp add: group_lines_def new_grouping_def print_blocks_untouched)
qed

lemma group_lines_traced:
  assumes "\<forall>p\<in>set ps. body_line (snd (snd p))"
  shows "group_lines (trace_header cfg k l @ grouped_text ps @ [[]]) = Inr (trace_header cfg k l @ grouped_text ps @ [[]])"
proof -
  let ?h = "trace_header cfg k l"
  have plain: "list_all plain_line (?h @ [x])" if "x = [] \<or> hd x = CHR ''#''" for x
    using that header_plain by (auto simp: plain_line_def)
  have run: "\<exists>g. foldM group_line (?h @ [x]) new_grouping = Inr g" if "x = [] \<or> hd x = CHR ''#''" for x
    using header_run [of cfg k l] that by (auto simp: foldM_append group_line_def)
  from grouped_text_start [of ps] consider "grouped_text ps = []"
    | t rest where "grouped_text ps = ''#BEGIN_TB'' # (''thread block = '' @ t) # rest" by blast
  then show ?thesis
  proof cases
    case 1
    with run [of "[]"] plain [of "[]"] group_lines_header show ?thesis by auto
  next
    case 2
    have "list_all (\<lambda>l. l = [] \<or> hd l \<noteq> CHR ''-'') (rest @ [[]])"
      using grouped_text_lines [OF assms] unfolding 2 by (auto simp: list_all_iff body_line_def)
    with run [of "''#BEGIN_TB''"] plain [of "''#BEGIN_TB''"] obtain g where
      "group_lines ((?h @ [''#BEGIN_TB'']) @ (''thread block = '' @ t) # (rest @ [[]])) =
        Inr ((?h @ [''#BEGIN_TB'']) @ (''thread block = '' @ t) # (rest @ [[]]))"
      using group_lines_copies [of "?h @ [''#BEGIN_TB'']" _ "''thread block = '' @ t" "rest @ [[]]"]
      by (auto simp: plain_line_def is_digit_def)
    with 2 show ?thesis by simp
  qed
qed

definition post_processed_name :: "'r tool_config \<Rightarrow> u64 \<Rightarrow> int \<Rightarrow> string" where
  "post_processed_name cfg ctx k =
     ''kernel-'' @ to_string k @ ''-ctx_0x'' @ hex_of (unat ctx) @ ''.traceg'' @
     (if xz_compress_trace (options cfg) then ''.xz'' else [])"

lemma has_suffix_append: "p \<noteq> [] \<Longrightarrow> has_suffix e (p @ e)"
  by (simp add: has_suffix_def)

lemma output_filepath_cases:
  assumes "p \<noteq> []"
  shows "output_filepath (p @ ''.xz'') = Some (p @ ''g.xz'')"
    "output_filepath (p @ ''.trace'') = Some (p @ ''.traceg'')"
proof -
  show "output_filepath (p @ ''.xz'') = Some (p @ ''g.xz'')"
    using has_suffix_append [OF assms, of "''.xz''"] by (simp add: output_filepath_def)
  have "drop (length (p @ ''.trace'') - 3) (p @ ''.trace'') = ''ace''" by simp
  then have "\<not> has_suffix ''.xz'' (p @ ''.trace'')" by (simp add: has_suffix_def)
  then show "output_filepath (p @ ''.trace'') = Some (p @ ''.traceg'')"
    using has_suffix_append [OF assms, of "''.trace''"] by (simp add: output_filepath_def)
qed

lemma output_of_trace: "output_filepath (trace_name cfg ctx k) = Some (post_processed_name cfg ctx k)"
proof -
  let ?q = "''kernel-'' @ to_string k @ ''-ctx_0x'' @ hex_of (unat ctx)"
  have "?q \<noteq> []" "?q @ ''.trace'' \<noteq> []" by simp_all
  from output_filepath_cases(1) [OF this(2)] output_filepath_cases(2) [OF this(1)] show ?thesis
    by (simp add: trace_name_def post_processed_name_def)
qed

lemma fmt_no_newline [simp]: "CHR 0x0A \<notin> set (fmt_d n)" "CHR 0x0A \<notin> set (fmt_addr a)" "CHR 0x0A \<notin> set (fmt_dims d)"
  by (auto simp: fmt_d_def fmt_addr_def fmt_dims_def split: prod.splits)

lemma header_no_newline:
  assumes "CHR 0x0A \<notin> set (func_name l)" "CHR 0x0A \<notin> set (nvbit_version cfg)"
  shows "list_all (\<lambda>l. CHR 0x0A \<notin> set l) (trace_header cfg k l)"
  using assms by (simp add: trace_header_def TRACER_VERSION_def)

lemma post_processed_trace:
  assumes "\<forall>p\<in>set ps. body_line (snd (snd p))"
    and "CHR 0x0A \<notin> set (func_name l)" "CHR 0x0A \<notin> set (nvbit_version cfg)"
  shows "group_per_block (\<lambda>_. lines_of (trace_header cfg k l @ grouped_text ps)) (trace_name cfg ctx k) =
    Inr (Some (post_processed_name cfg ctx k, trace_header cfg k l @ grouped_text ps @ [[]]))"
proof -
  have "list_all (\<lambda>l. CHR 0x0A \<notin> set l) (trace_header cfg k l @ grouped_text ps)"
    using header_no_newline [OF assms(2,3)] grouped_text_lines [OF assms(1)]
    by (auto simp: list_all_iff body_line_def)
  from eof_lines_text [OF this]
  have "eof_lines (lines_of (trace_header cfg k l @ grouped_text ps)) = trace_header cfg k l @ grouped_text ps @ [[]]"
    by (simp add: lines_of_def)
  then show ?thesis
    by (simp add: group_per_block_def output_of_trace group_lines_traced [OF assms(1)] del: lines_of_simps)
qed

lemma placed_body:
  assumes "\<forall>r\<in>set rs. \<not> isl (format_inst_line opt opcodes r) \<and> CHR 0x0A \<notin> set (opcode_name opcodes r)"
  shows "\<forall>p\<in>set (map (placed opt opcodes) rs). body_line (snd (snd p))"
  using assms format_inst_line_body by (fastforce simp: placed_def split: sum.splits)

end
