(* ===== verification/Warp_Progress.thy ===== *)
theory Warp_Progress
  imports Sm_Accounting
begin

text \<open>
  What the operations of a multiprocessor (\<^verbatim>\<open>gpu.cpp\<close>) do to the warps of the kernel, up to the whole
  cycle.  A warp is seen as its instructions, how many of them it has issued and how many completion
  times it has.  Every operation moves the warps forward, one completion time for each instruction;
  the threads a multiprocessor counts are those of the instructions issued; and a multiprocessor holds
  a block as long as it has active warps.
\<close>

section \<open>The warps of a block\<close>

type_synonym warp_view = "inst list \<times> nat \<times> nat"

definition view_of :: "warp \<Rightarrow> warp_view" where
  "view_of w = (m_insts w, warp_point w, length (completions w))"

definition cta_warp :: "cta \<Rightarrow> int \<Rightarrow> warp option" where
  "cta_warp b i = (case map_of (warp_vec b) i of
     Some w \<Rightarrow> Some w | None \<Rightarrow> find (\<lambda>w. w_warp_id w = i) (retired_warps b))"

text \<open>Warps are filed under their numbers, and a retired one is through and no longer active.\<close>

definition cta_inv :: "int \<Rightarrow> cta \<Rightarrow> bool" where
  "cta_inv x b \<longleftrightarrow> b_block_id b = x \<and> wf_map (warp_vec b) \<and>
     (\<forall>i w. map_of (warp_vec b) i = Some w \<longrightarrow> w_block_id w = x \<and> w_warp_id w = i) \<and>
     (\<forall>w \<in> set (retired_warps b). map_of (warp_vec b) (w_warp_id w) = None \<and>
        length (m_insts w) \<le> warp_point w)"

abbreviation active_warps :: "cta \<Rightarrow> int set" where
  "active_warps b \<equiv> dom (map_of (warp_vec b))"

text \<open>The same warp later: nothing it is known by changed, and it did not move back.\<close>

definition later :: "warp \<Rightarrow> warp \<Rightarrow> bool" where
  "later w w' \<longleftrightarrow> w_block_id w' = w_block_id w \<and> w_warp_id w' = w_warp_id w \<and>
     m_insts w' = m_insts w \<and> warp_point w \<le> warp_point w'"

lemma find_map_other:
  "i \<noteq> j \<Longrightarrow> w_warp_id w' = j \<Longrightarrow>
   find (\<lambda>w. w_warp_id w = i) (map (\<lambda>w. if w_warp_id w = j then w' else w) ws) =
   find (\<lambda>w. w_warp_id w = i) ws"
  by (induction ws) auto

definition put_warp :: "int \<Rightarrow> warp \<Rightarrow> cta \<Rightarrow> cta" where
  "put_warp i w b =
     (if map_of (warp_vec b) i \<noteq> None then b\<lparr>warp_vec := map_put i w (warp_vec b)\<rparr>
      else b\<lparr>retired_warps := map (\<lambda>v. if w_warp_id v = i then w else v) (retired_warps b)\<rparr>)"

lemma put_warp_spec:
  assumes "cta_inv x b" "cta_warp b i = Some w" "later w w'"
  shows "cta_inv x (put_warp i w' b) \<and> cta_warp (put_warp i w' b) = (cta_warp b)(i \<mapsto> w') \<and>
    active_warps (put_warp i w' b) = active_warps b"
proof (cases "map_of (warp_vec b) i")
  case None
  then have f: "find (\<lambda>w. w_warp_id w = i) (retired_warps b) = Some w"
    using assms(2) by (simp add: cta_warp_def)
  then have w: "w \<in> set (retired_warps b)" "w_warp_id w = i" by (auto simp: find_Some_iff)
  then have "length (m_insts w') \<le> warp_point w'"
    using assms(1,3) by (force simp: cta_inv_def later_def)
  moreover have i: "w_warp_id w' = i" using w(2) assms(3) by (simp add: later_def)
  ultimately have "cta_inv x (put_warp i w' b)"
    using None assms(1) by (auto simp: cta_inv_def put_warp_def)
  moreover have "cta_warp (put_warp i w' b) j = ((cta_warp b)(i \<mapsto> w')) j" for j
    using None i find_map_replace [OF f, of w'] find_map_other [of j i w' "retired_warps b"]
    by (simp add: cta_warp_def put_warp_def split: option.split)
  ultimately show ?thesis using None by (auto simp: put_warp_def)
next
  case (Some v)
  then have v: "v = w" using assms(2) by (simp add: cta_warp_def)
  have "wf_map (warp_vec b)" using assms(1) by (simp add: cta_inv_def)
  note put = map_of_put [OF this, of i w'] wf_map_put [OF this, of i w']
  have "cta_inv x (put_warp i w' b)"
    using Some v assms(1,3) put by (auto simp: cta_inv_def put_warp_def later_def)
  moreover have "cta_warp (put_warp i w' b) j = ((cta_warp b)(i \<mapsto> w')) j" for j
    using Some put by (simp add: cta_warp_def put_warp_def split: option.split)
  ultimately show ?thesis using Some put by (auto simp: put_warp_def)
qed

definition retire :: "int \<Rightarrow> warp \<Rightarrow> cta \<Rightarrow> cta" where
  "retire i w b = b\<lparr>warp_vec := map_erase i (warp_vec b), retired_warps := retired_warps b @ [w\<lparr>w_active := False\<rparr>]\<rparr>"

lemma retire_spec:
  assumes inv: "cta_inv x b" and w: "map_of (warp_vec b) i = Some w" "length (m_insts w) \<le> warp_point w"
  shows "cta_inv x (retire i w b) \<and>
    (\<forall>j. map_option view_of (cta_warp (retire i w b) j) = map_option view_of (cta_warp b j)) \<and>
    active_warps (retire i w b) \<subseteq> active_warps b"
proof -
  have id: "w_warp_id w = i" using inv w(1) by (simp add: cta_inv_def)
  have none: "find (\<lambda>v. w_warp_id v = i) (retired_warps b) = None"
    using inv w(1) by (auto simp: cta_inv_def find_None_iff)
  have app: "find P (xs @ [y]) = (case find P xs of Some v \<Rightarrow> Some v | None \<Rightarrow> if P y then Some y else None)"
    for P and xs :: "warp list" and y by (induction xs) auto
  have "cta_inv x (retire i w b)"
    using inv w id by (auto simp: cta_inv_def retire_def map_of_erase wf_map_erase)
  moreover have "map_option view_of (cta_warp (retire i w b) j) = map_option view_of (cta_warp b j)" for j
    using w(1) none id by (auto simp: cta_warp_def retire_def map_of_erase app view_of_def split: option.split)
  ultimately show ?thesis by (auto simp: retire_def map_of_erase split: if_splits)
qed

lemma load_mem_request_spec:
  assumes "load_mem_request r n bid b = Inr b'" "cta_inv x b"
  shows "cta_inv x b' \<and> (\<forall>j. map_option view_of (cta_warp b' j) = map_option view_of (cta_warp b j)) \<and>
    active_warps b' = active_warps b"
proof -
  obtain m f where b': "b' = b\<lparr>mem_inst_map := m, warp_vec := map (\<lambda>(k, w). (k, w\<lparr>m_mem_inst := f w\<rparr>)) (warp_vec b)\<rparr>"
  proof -
    from assms(1) obtain b1 where b1: "read_mem r n bid b = Inr b1"
      "b' = b1\<lparr>warp_vec := map (\<lambda>(k, w). (k, w\<lparr>m_mem_inst := (case map_of (mem_inst_map b1) (w_warp_id w) of
              None \<Rightarrow> [] | Some l \<Rightarrow> l)\<rparr>)) (warp_vec b1)\<rparr>"
      by (auto simp: load_mem_request_def rbind_eq_Inr)
    have "b1 = b\<lparr>mem_inst_map := mem_inst_map b1\<rparr>"
      using b1(1) by (auto simp: read_mem_def rbind_eq_Inr split: if_splits option.splits)
    then obtain m where "b1 = b\<lparr>mem_inst_map := m\<rparr>" by blast
    then show thesis
      using b1(2) that [where m = m and f = "\<lambda>w. case map_of m (w_warp_id w) of None \<Rightarrow> [] | Some l \<Rightarrow> l"] by simp
  qed
  have of: "map_of (warp_vec b') j = map_option (\<lambda>w. w\<lparr>m_mem_inst := f w\<rparr>) (map_of (warp_vec b) j)" for j
    by (simp add: b' map_of_map case_prod_unfold [symmetric])
  have "wf_map (warp_vec b')" using assms(2) by (simp add: b' cta_inv_def wf_map_def case_prod_beta comp_def)
  moreover have "b_block_id b' = x" "retired_warps b' = retired_warps b"
    using assms(2) by (simp_all add: b' cta_inv_def)
  ultimately have "cta_inv x b'" using assms(2) by (auto simp: cta_inv_def of)
  moreover have "map_option view_of (cta_warp b' j) = map_option view_of (cta_warp b j)" for j
    by (simp add: cta_warp_def of \<open>retired_warps b' = retired_warps b\<close> view_of_def split: option.split)
  moreover have "active_warps b' = active_warps b" by (auto simp: dom_def of)
  ultimately show ?thesis by blast
qed

section \<open>The warps of a kernel\<close>

type_synonym views = "int \<times> int \<Rightarrow> warp_view option"

definition views :: "kernel \<Rightarrow> views" where
  "views k ref = (case map_of (m_blocks k) (fst ref) of
     None \<Rightarrow> None | Some b \<Rightarrow> map_option view_of (cta_warp b (snd ref)))"

definition busy_blocks :: "kernel \<Rightarrow> int set" where
  "busy_blocks k = {x. \<exists>b. map_of (m_blocks k) x = Some b \<and> block_is_active b}"

definition kernel_inv :: "kernel \<Rightarrow> bool" where
  "kernel_inv k \<longleftrightarrow> wf_map (m_blocks k) \<and> (\<forall>x b. map_of (m_blocks k) x = Some b \<longrightarrow> cta_inv x b)"

text \<open>Every warp has issued some more instructions and has as many more completion times; the threads
  of the instructions issued add up to \<open>n\<close>.\<close>

definition threads_of :: "warp_view option \<Rightarrow> int" where
  "threads_of v = (case v of None \<Rightarrow> 0 | Some (is, p, l) \<Rightarrow> sum_list (map i_active_thread_num (take p is)))"

definition grows :: "int \<Rightarrow> views \<Rightarrow> views \<Rightarrow> bool" where
  "grows n v v' \<longleftrightarrow> dom v' = dom v \<and>
     (\<forall>ref is p l. v ref = Some (is, p, l) \<longrightarrow>
        (\<exists>q. v' ref = Some (is, p + q, l + q) \<and> (p \<le> length is \<longrightarrow> p + q \<le> length is))) \<and>
     (finite (dom v) \<longrightarrow> (\<Sum>ref\<in>dom v. threads_of (v' ref)) = (\<Sum>ref\<in>dom v. threads_of (v ref)) + n)"

lemma grows_refl [simp]: "grows 0 v v"
  by (auto simp: grows_def intro: exI [of _ 0])

lemma grows_trans:
  assumes "grows n v v'" "grows m v' v''"
  shows "grows (n + m) v v''"
proof -
  have "\<exists>q. v'' ref = Some (is, p + q, l + q) \<and> (p \<le> length is \<longrightarrow> p + q \<le> length is)"
    if "v ref = Some (is, p, l)" for ref "is" p l
  proof -
    from assms(1) that obtain q where q: "v' ref = Some (is, p + q, l + q)" "p \<le> length is \<longrightarrow> p + q \<le> length is"
      unfolding grows_def by blast
    from assms(2) q(1) obtain q' where q': "v'' ref = Some (is, (p + q) + q', (l + q) + q')"
      "p + q \<le> length is \<longrightarrow> (p + q) + q' \<le> length is"
      unfolding grows_def by blast
    then show ?thesis using q(2) by (intro exI [of _ "q + q'"]) (simp add: add.assoc)
  qed
  then show ?thesis using assms by (simp add: grows_def)
qed

lemma grows_issue:
  assumes "v ref = Some (is, p, l)" "p < length is"
  shows "grows (i_active_thread_num (is ! p)) v (v(ref \<mapsto> (is, Suc p, Suc l)))"
proof -
  let ?v = "v(ref \<mapsto> (is, Suc p, Suc l))"
  have d: "dom ?v = dom v" using assms(1) by auto
  have "(\<Sum>r\<in>dom v. threads_of (?v r)) = (\<Sum>r\<in>dom v. threads_of (v r)) + i_active_thread_num (is ! p)"
    if "finite (dom v)"
  proof -
    have "ref \<in> dom v" using assms(1) by auto
    then have "(\<Sum>r\<in>dom v. threads_of (?v r)) = threads_of (?v ref) + (\<Sum>r\<in>dom v - {ref}. threads_of (v r))"
      "(\<Sum>r\<in>dom v. threads_of (v r)) = threads_of (v ref) + (\<Sum>r\<in>dom v - {ref}. threads_of (v r))"
      using that by (simp_all add: sum.remove)
    then show ?thesis using assms by (simp add: threads_of_def take_Suc_conv_app_nth)
  qed
  moreover have "\<exists>q. ?v r = Some (js, a + q, b + q) \<and> (a \<le> length js \<longrightarrow> a + q \<le> length js)"
    if "v r = Some (js, a, b)" for r js a b
  proof (cases "r = ref")
    case True
    then show ?thesis using that assms by (intro exI [of _ 1]) auto
  next
    case False
    then show ?thesis using that by (intro exI [of _ 0]) simp
  qed
  ultimately show ?thesis using d by (auto simp: grows_def)
qed

text \<open>What an operation on the kernel may do: keep the invariants and the blocks, retire warps and issue
  instructions of \<open>n\<close> threads; most operations also launch no block.\<close>

definition extends :: "int \<Rightarrow> kernel \<Rightarrow> kernel \<Rightarrow> bool" where
  "extends n k k' \<longleftrightarrow> (kernel_inv k \<longrightarrow> kernel_inv k' \<and> dom (map_of (m_blocks k')) = dom (map_of (m_blocks k)) \<and>
     busy_blocks k' \<subseteq> busy_blocks k \<and> grows n (views k) (views k'))"

definition runs :: "int \<Rightarrow> kernel \<Rightarrow> kernel \<Rightarrow> bool" where
  "runs n k k' \<longleftrightarrow> extends n k k' \<and> block_pointer k' = block_pointer k"

lemma extends_refl [simp]: "extends 0 k k"
  by (simp add: extends_def)

lemma extends_trans: "extends n k k' \<Longrightarrow> extends m k' k'' \<Longrightarrow> extends (n + m) k k''"
  using grows_trans by (auto simp: extends_def)

lemma runs_refl [simp]: "runs 0 k k"
  by (simp add: runs_def)

lemma runs_trans: "runs n k k' \<Longrightarrow> runs m k' k'' \<Longrightarrow> runs (n + m) k k''"
  by (auto simp: runs_def intro: extends_trans)

lemma runs_trans0: "runs 0 k k' \<Longrightarrow> runs m k' k'' \<Longrightarrow> runs m k k''" "runs n k k' \<Longrightarrow> runs 0 k' k'' \<Longrightarrow> runs n k k''"
  using runs_trans [of 0 k k' m k''] runs_trans [of n k k' 0 k''] by simp_all

text \<open>A kernel with one block replaced.\<close>

lemma extends_replace:
  assumes b: "map_of (m_blocks k) x = Some b"
    and ok: "cta_inv x b \<Longrightarrow> cta_inv x b' \<and> active_warps b' \<subseteq> active_warps b \<and>
      (\<forall>i. map_option view_of (cta_warp b' i) = map_option view_of (cta_warp b i))"
    and k': "m_blocks k' = map_put x b' (m_blocks k)"
  shows "extends 0 k k'"
  unfolding extends_def
proof (intro impI)
  assume inv: "kernel_inv k"
  have of: "map_of (m_blocks k') = (map_of (m_blocks k))(x \<mapsto> b')" and wf: "wf_map (m_blocks k')"
    using inv by (simp_all add: k' kernel_inv_def map_of_put wf_map_put)
  note b' = ok [OF inv [unfolded kernel_inv_def, THEN conjunct2, rule_format, OF b]]
  have "busy_blocks k' \<subseteq> busy_blocks k"
    using b' b by (auto simp: busy_blocks_def of block_is_active_def split: if_splits)
  moreover have "views k' = views k" using b b' by (auto simp: fun_eq_iff views_def of)
  moreover have "kernel_inv k'" using inv wf b' by (auto simp: kernel_inv_def of)
  moreover have "dom (map_of (m_blocks k')) = dom (map_of (m_blocks k))" using b by (auto simp: of)
  ultimately show "kernel_inv k' \<and> dom (map_of (m_blocks k')) = dom (map_of (m_blocks k)) \<and>
      busy_blocks k' \<subseteq> busy_blocks k \<and> grows 0 (views k) (views k')"
    by simp
qed

lemma warp_at_cta: "warp_at ref k = Inr w \<longleftrightarrow>
    (\<exists>b. map_of (m_blocks k) (fst ref) = Some b \<and> cta_warp b (snd ref) = Some w)"
  by (auto simp: warp_at_def cta_warp_def rbind_eq_Inr deref_eq_Inr split: option.splits)

lemma views_warp_at: "warp_at ref k = Inr w \<Longrightarrow> views k ref = Some (view_of w)"
  by (auto simp: warp_at_cta views_def)

lemma update_warp_put:
  "update_warp ref f k = Inr k' \<longleftrightarrow> (\<exists>b w w'. map_of (m_blocks k) (fst ref) = Some b \<and>
     cta_warp b (snd ref) = Some w \<and> f w = Inr w' \<and>
     k' = k\<lparr>m_blocks := map_put (fst ref) (put_warp (snd ref) w' b) (m_blocks k)\<rparr>)"
  unfolding update_warp_def put_warp_def [symmetric] Let_def
  by (fastforce simp: rbind_eq_Inr deref_eq_Inr warp_at_cta)

text \<open>An update of a warp, and what it does to the views.\<close>

definition updates :: "(warp_view \<Rightarrow> warp_view) \<Rightarrow> int \<times> int \<Rightarrow> kernel \<Rightarrow> kernel \<Rightarrow> bool" where
  "updates h ref k k' \<longleftrightarrow> (\<exists>v. views k ref = Some v \<and> (kernel_inv k \<longrightarrow> kernel_inv k' \<and>
     dom (map_of (m_blocks k')) = dom (map_of (m_blocks k)) \<and> busy_blocks k' = busy_blocks k \<and>
     views k' = (views k)(ref \<mapsto> h v))) \<and> block_pointer k' = block_pointer k"

lemma update_warp_updates:
  assumes run: "update_warp ref f k = Inr k'"
    and f: "\<And>w w'. f w = Inr w' \<Longrightarrow> later w w' \<and> view_of w' = h (view_of w)"
  shows "updates h ref k k'"
proof -
  from run obtain b w w' where b: "map_of (m_blocks k) (fst ref) = Some b" "cta_warp b (snd ref) = Some w"
    "f w = Inr w'" and k': "k' = k\<lparr>m_blocks := map_put (fst ref) (put_warp (snd ref) w' b) (m_blocks k)\<rparr>"
    by (auto simp: update_warp_put)
  have v: "views k ref = Some (view_of w)" using b by (simp add: views_def)
  have "kernel_inv k' \<and> dom (map_of (m_blocks k')) = dom (map_of (m_blocks k)) \<and> busy_blocks k' = busy_blocks k \<and>
      views k' = (views k)(ref \<mapsto> h (view_of w))" if inv: "kernel_inv k"
  proof (intro conjI)
    have of: "map_of (m_blocks k') = (map_of (m_blocks k))(fst ref \<mapsto> put_warp (snd ref) w' b)"
      and wf: "wf_map (m_blocks k')"
      using inv by (simp_all add: k' kernel_inv_def map_of_put wf_map_put)
    have "cta_inv (fst ref) b" using inv b(1) by (simp add: kernel_inv_def)
    note put = put_warp_spec [OF this b(2) f [OF b(3), THEN conjunct1]]
    show "kernel_inv k'" using inv wf put by (auto simp: kernel_inv_def of)
    show "dom (map_of (m_blocks k')) = dom (map_of (m_blocks k))" using b(1) by (auto simp: of)
    have "block_is_active (put_warp (snd ref) w' b) \<longleftrightarrow> block_is_active b"
      using put by (metis block_is_active_def dom_empty dom_eq_empty_conv map_of.simps(1) map_of_eq_empty_iff)
    then show "busy_blocks k' = busy_blocks k" using b(1) by (auto simp: busy_blocks_def of)
    show "views k' = (views k)(ref \<mapsto> h (view_of w))"
    proof
      fix r show "views k' r = ((views k)(ref \<mapsto> h (view_of w))) r"
        using put f [OF b(3)] b(1) by (cases r, cases ref) (auto simp: views_def of)
    qed
  qed
  then show ?thesis using v by (auto simp: updates_def k')
qed

lemma updates_trans:
  "updates h ref k k' \<Longrightarrow> updates h' ref k' k'' \<Longrightarrow> updates (h' \<circ> h) ref k k''"
  by (auto simp: updates_def)

lemma updates_id_runs: "updates (\<lambda>v. v) ref k k' \<Longrightarrow> runs 0 k k'"
  by (auto simp: updates_def runs_def extends_def map_upd_triv)

section \<open>The operations of a multiprocessor\<close>

text \<open>An operation leaves the resident blocks and the counters alone and moves the kernel forward.\<close>

definition resident :: "streaming_multiprocessor \<Rightarrow> (int, unit) std_map \<times> int \<times> int" where
  "resident sm = (block_vec sm, m_execute_inst sm, cycles sm)"

definition steps :: "int \<Rightarrow> sm_state \<Rightarrow> sm_state \<Rightarrow> bool" where
  "steps n s s' \<longleftrightarrow> resident (fst s') = resident (fst s) \<and> runs n (fst (snd s)) (fst (snd s'))"

named_theorems moves \<open>what the operations do to the resident blocks and the kernel\<close>

lemma steps_refl [simp]: "steps 0 (sm, k, g) (sm, k, g')"
  by (simp add: steps_def)

lemma steps_trans: "steps n s s' \<Longrightarrow> steps m s' s'' \<Longrightarrow> steps (n + m) s s''"
  by (auto simp: steps_def intro: runs_trans)

lemma steps_trans0: "steps 0 s s' \<Longrightarrow> steps 0 s' s'' \<Longrightarrow> steps 0 s s''"
  using steps_trans [of 0 s s' 0 s''] by simp

lemma resident_updates [simp]:
  "resident (sm\<lparr>m_l1_data_cache := l1\<rparr>) = resident sm"
  "resident (sm\<lparr>m_queue_sm_to_l1_busy := q\<rparr>) = resident sm"
  "resident (sm\<lparr>units := us\<rparr>) = resident sm"
  "resident (sm\<lparr>retired_mem_fetches := rs\<rparr>) = resident sm"
  "resident (sm\<lparr>is_active := a\<rparr>) = resident sm"
  "resident (sm\<lparr>m_total_inst := n1\<rparr>) = resident sm"
  "resident (sm\<lparr>m_ldst_inst := n2\<rparr>) = resident sm"
  "resident (sm\<lparr>m_execute_ldst_inst := n3\<rparr>) = resident sm"
  by (simp_all add: resident_def)

lemma update_unit_resident [moves]: "update_unit i f sm = Inr sm' \<Longrightarrow> resident sm' = resident sm"
  by (auto simp: update_unit_def rbind_eq_Inr)

lemma delay_unit_resident [moves]: "delay_unit i n sm = Inr sm' \<Longrightarrow> resident sm' = resident sm"
  unfolding delay_unit_def by (rule update_unit_resident)

lemma push_to_bank_resident [simp]: "resident (push_to_bank p mf sm) = resident sm"
  by (simp add: push_to_bank_def Let_def)

lemma quiet_updates:
  assumes "update_warp ref f k = Inr k'" "\<And>w w'. f w = Inr w' \<Longrightarrow> later w w' \<and> view_of w' = view_of w"
  shows "updates (\<lambda>v. v) ref k k'"
  using assms by (rule update_warp_updates)

lemma count_request_later [simp]: "later w (count_request ci w)" "view_of (count_request ci w) = view_of w"
  by (simp_all add: later_def view_of_def count_request_def increase_eq Let_def)

lemma complete_request_later:
  "complete_request t ci w = Inr w' \<Longrightarrow> later w w' \<and> view_of w' = view_of w"
  by (auto simp: complete_request_def decrease_pending_request_def Let_def later_def view_of_def
      rbind_eq_Inr guard_eq_Inr split: if_splits)

lemma credit_warp_moves [moves]: "credit_warp mf s = Inr s' \<Longrightarrow> fst s' = fst s \<and> steps 0 s s'"
  by (auto simp: credit_warp_def rbind_eq_Inr steps_def split: prod.splits
      intro!: updates_id_runs quiet_updates dest: complete_request_later)

lemma credit_or_exit_moves [moves]: "credit_or_exit mf s = Inr s' \<Longrightarrow> fst s' = fst s \<and> steps 0 s s'"
  by (auto simp: credit_or_exit_def rbind_eq_Inr guard_eq_Inr dest!: credit_warp_moves split: prod.splits)

lemma write_back_loop_moves: "write_back_loop ps s = Inr (q, s') \<Longrightarrow> fst s' = fst s \<and> steps 0 s s'"
proof (induct ps s arbitrary: q s' rule: write_back_loop.induct)
  case (2 p rest sm k g)
  from "2.prems" obtain mf where mf: "mf_at p g = Inr mf" by (auto simp: rbind_eq_Inr)
  show ?case
  proof (cases "m_l1_ready_time mf \<le> cycles sm")
    case True
    with "2.prems" mf obtain w sm1 k1 g1 g2 where w: "warp_of_mf mf sm k = Inr w"
      and s1: "(if pending_request_can_decrease (m_completion_index mf) w
        then credit_warp mf (sm, k, g) else Inr (sm, k, g)) = Inr (sm1, k1, g1)"
      and g2: "mf_delete p g1 = Inr g2" and rest: "write_back_loop rest (sm1, k1, g2) = Inr (q, s')"
      by (auto simp: rbind_eq_Inr)
    have "sm1 = sm \<and> steps 0 (sm, k, g) (sm1, k1, g2)"
      using s1 credit_warp_moves [of mf "(sm, k, g)"] by (auto simp: steps_def split: if_splits)
    with "2.hyps" [OF mf True w s1 refl refl g2 rest] show ?thesis using steps_trans0 by fastforce
  qed (use "2.prems" mf in auto)
qed (auto simp: steps_def)

lemma write_back_moves: "write_back s = Inr s' \<Longrightarrow> steps 0 s s'"
  by (auto simp: write_back_def rbind_eq_Inr steps_def split: prod.splits dest!: write_back_loop_moves)

lemma answer_merged_moves: "answer_merged p s = Inr s' \<Longrightarrow> steps 0 s s'"
  by (auto simp: answer_merged_def rbind_eq_Inr steps_def split: prod.splits dest!: credit_or_exit_moves)

lemma write_back_request_l2_moves:
  assumes "write_back_request_l2 mf (sm, k, g) = Inr (sm', k', g')"
  shows "steps 0 (sm, k, g) (sm', k', g')"
proof (cases mf)
  case (Some p)
  with assms obtain m where m: "mf_at p g = Inr m"
    by (auto simp: write_back_request_l2_def rbind_eq_Inr)
  show ?thesis
  proof (cases "is_write m")
    case True
    with assms Some m show ?thesis
      by (auto simp: write_back_request_l2_def rbind_eq_Inr steps_def dest!: credit_or_exit_moves)
  next
    case False
    with assms Some m obtain t sm1 where
      run: "mshr_while (m_sector_address m) answer_merged (m_mshrs (m_l1_data_cache sm)) (sm, k, g) =
        Inr (t, sm1, k', g')"
      and sm': "sm' = sm1\<lparr>m_l1_data_cache := (m_l1_data_cache sm1)\<lparr>m_mshrs := t\<rparr>\<rparr>"
      by (auto simp: write_back_request_l2_def rbind_eq_Inr)
    have "steps 0 (sm, k, g) (sm1, k', g')"
      by (rule mshr_while_invariant [OF run]) (auto intro: steps_trans0 dest!: answer_merged_moves)
    then show ?thesis by (simp add: sm' steps_def)
  qed
qed (use assms in \<open>simp add: write_back_request_l2_def\<close>)

lemma pending_updates:
  "update_warp ref (\<lambda>w. Inr (w\<lparr>pending_inst := f w\<rparr>)) k = Inr k' \<Longrightarrow> runs 0 k k'"
  by (rule updates_id_runs, erule quiet_updates) (auto simp: later_def view_of_def)

lemma count_updates:
  "update_warp ref (\<lambda>w. Inr (count_request ci w)) k = Inr k' \<Longrightarrow> updates (\<lambda>v. v) ref k k'"
  by (erule quiet_updates) auto

lemma runs_request_nums: "runs 0 k (k\<lparr>request_nums := n\<rparr>)"
proof -
  have "views (k\<lparr>request_nums := n\<rparr>) = views k" by (simp add: fun_eq_iff views_def)
  then show ?thesis by (simp add: runs_def extends_def kernel_inv_def busy_blocks_def)
qed

lemma release_ldst_moves: "release_ldst i ref (sm, k, g) = Inr (sm', k', g') \<Longrightarrow> steps 0 (sm, k, g) (sm', k', g')"
  by (auto simp: release_ldst_def rbind_eq_Inr steps_def dest!: moves pending_updates)

lemma count_runs:
  "update_warp ref (\<lambda>w. Inr (count_request ci w)) (k\<lparr>request_nums := n\<rparr>) = Inr k' \<Longrightarrow> runs 0 k k'"
  by (rule runs_trans0(1) [OF runs_request_nums]) (rule updates_id_runs, rule count_updates)

lemma send_sector_moves:
  assumes "send_sector i ref w ins n (sm, k, g) = Inr (sm', k', g')"
  shows "steps 0 (sm, k, g) (sm', k', g')"
proof -
  let ?k = "k\<lparr>request_nums := request_nums k + 1\<rparr>"
  have rest: "steps 0 (sm, k, g) (sm', k', g')"
    if "resident sm1 = resident sm" "runs 0 k k1"
      "(if n + 1 = int (length (m_coalesced_address ins)) then release_ldst i ref (sm1, k1, g1)
        else rbind (update_unit i (\<lambda>u. u\<lparr>mem_fetch_point := n + 1\<rparr>) sm1) (\<lambda>sm. Inr (sm, k1, g1))) = Inr (sm', k', g')"
    for sm1 k1 g1
    using that by (auto simp: rbind_eq_Inr steps_def split: if_splits dest!: moves release_ldst_moves intro: runs_trans0)
  let ?a = "m_coalesced_address ins ! nat n"
  show ?thesis
  proof (cases "m_queue_sm_to_l1_busy sm ! nat (snd ?a)")
    case True
    with assms show ?thesis by (auto simp: send_sector_def Let_def guard_eq_Inr)
  next
    case False
    obtain q g1 where new: "mf_new (ldst_request sm w ins ?a) g = (q, g1)" by (meson surj_pair)
    from assms False obtain mf k1 where
      k1: "(if needs_reply mf then update_warp ref (\<lambda>w. Inr (count_request (completions_index ins) w)) ?k
        else Inr ?k) = Inr k1"
      and fin: "(if n + 1 = int (length (m_coalesced_address ins))
        then release_ldst i ref ((push_to_bank q mf sm)\<lparr>m_queue_sm_to_l1_busy :=
          (m_queue_sm_to_l1_busy (push_to_bank q mf sm))[nat (snd ?a) := True]\<rparr>, k1, g1)
        else rbind (update_unit i (\<lambda>u. u\<lparr>mem_fetch_point := n + 1\<rparr>) ((push_to_bank q mf sm)\<lparr>m_queue_sm_to_l1_busy :=
          (m_queue_sm_to_l1_busy (push_to_bank q mf sm))[nat (snd ?a) := True]\<rparr>)) (\<lambda>sm. Inr (sm, k1, g1))) =
          Inr (sm', k', g')"
      by (auto simp: send_sector_def Let_def guard_eq_Inr new rbind_eq_Inr)
    have "runs 0 k k1" using k1 runs_request_nums count_runs by (auto split: if_splits)
    from rest [OF _ this fin] show ?thesis by simp
  qed
qed

lemma unit_cycle_moves:
  assumes "unit_cycle i (sm, k, g) = Inr (sm', k', g')"
  shows "steps 0 (sm, k, g) (sm', k', g')"
proof -
  from assms obtain u where u: "nth_res (units sm) i = Inr u" by (auto simp: unit_cycle_def rbind_eq_Inr)
  show ?thesis
  proof (cases "m_inst u = None \<or> m_warp u = None")
    case True
    with assms u show ?thesis by (auto simp: unit_cycle_def split: option.splits)
  next
    case False
    with assms u show ?thesis
      by (auto simp: unit_cycle_def rbind_eq_Inr split: if_splits dest: send_sector_moves)
  qed
qed

section \<open>The issue of instructions\<close>

text \<open>A completion time is recorded, then the warp moves on.\<close>

definition push_view :: "warp_view \<Rightarrow> warp_view" where
  "push_view = (\<lambda>(is, p, l). (is, p, Suc l))"

definition next_view :: "warp_view \<Rightarrow> warp_view" where
  "next_view = (\<lambda>(is, p, l). (is, Suc p, l))"

lemma push_updates:
  "update_warp ref (\<lambda>w. Inr (push_completion t w)) k = Inr k' \<Longrightarrow> updates push_view ref k k'"
  by (erule update_warp_updates) (auto simp: push_completion_def later_def view_of_def push_view_def)

lemma start_updates:
  "update_warp ref (\<lambda>w. Inr (start_ldst op mi t w)) k = Inr k' \<Longrightarrow> updates push_view ref k k'"
  by (erule update_warp_updates)
    (auto simp: start_ldst_def push_completion_def later_def view_of_def push_view_def Let_def)

lemma next_updates:
  "update_warp ref (\<lambda>w. Inr (w\<lparr>warp_point := warp_point w + 1\<rparr>)) k = Inr k' \<Longrightarrow> updates next_view ref k k'"
  by (erule update_warp_updates) (auto simp: later_def view_of_def next_view_def)

definition pushes :: "int \<times> int \<Rightarrow> sm_state \<Rightarrow> sm_state \<Rightarrow> bool" where
  "pushes ref s s' \<longleftrightarrow> resident (fst s') = resident (fst s) \<and> updates push_view ref (fst (snd s)) (fst (snd s'))"

lemma atom_requests_move:
  assumes "foldM (atom_request ref) as (sm, k, g) = Inr (sm', k', g')" "updates h ref k0 k"
  shows "resident sm' = resident sm \<and> updates h ref k0 k'"
  using assms
proof (induction as arbitrary: sm k g)
  case (Cons a as)
  obtain sm1 k1 g1 where a: "atom_request ref a (sm, k, g) = Inr (sm1, k1, g1)"
    and as: "foldM (atom_request ref) as (sm1, k1, g1) = Inr (sm', k', g')"
    using Cons.prems(1) by (auto simp: rbind_eq_Inr)
  from a obtain ci where "update_warp ref (\<lambda>w. Inr (count_request ci w)) k = Inr k1" "resident sm1 = resident sm"
    by (auto simp: atom_request_def rbind_eq_Inr Let_def mf_new_def)
  then show ?case
    using Cons.IH [OF as] updates_trans [OF Cons.prems(2) count_updates] by (simp add: comp_def)
qed simp

lemma atom_pushes:
  assumes "process_ATOM_ATOMG p n u ref (sm, k, g) = Inr (sm', k', g')"
  shows "pushes ref (sm, k, g) (sm', k', g')"
proof -
  from assms obtain sm1 k1 as where run: "delay_unit u 4 sm = Inr sm1"
    "update_warp ref (\<lambda>w. Inr (push_completion INT_MAX w)) k = Inr k1"
    "foldM (atom_request ref) as (sm1, k1, g) = Inr (sm', k', g')"
    by (auto simp: process_ATOM_ATOMG_def rbind_eq_Inr)
  from atom_requests_move [OF run(3) push_updates [OF run(2)]] delay_unit_resident [OF run(1)]
  show ?thesis by (simp add: pushes_def)
qed

lemma shared_pushes:
  "process_LDS_STS_ATOMS n u ref (sm, k, g) = Inr (sm', k', g') \<Longrightarrow> pushes ref (sm, k, g) (sm', k', g')"
  by (auto simp: process_LDS_STS_ATOMS_def rbind_eq_Inr pushes_def dest: moves push_updates)

lemma global_pushes:
  "process_LDG_STG p j n op u ref (sm, k, g) = Inr (sm', k', g') \<Longrightarrow> pushes ref (sm, k, g) (sm', k', g')"
  unfolding process_LDG_STG_def prod.case Let_def
  by (auto simp: rbind_eq_Inr pushes_def split: if_split_asm dest: moves push_updates start_updates)

lemma ldst_pushes:
  assumes "ldst_process i u ref (sm, k, g) = Inr (sm', k', g')"
  shows "pushes ref (sm, k, g) (sm', k', g')"
  using assms global_pushes shared_pushes atom_pushes
  unfolding ldst_process_def prod.case Let_def
  by (auto simp: rbind_eq_Inr pushes_def split: if_split_asm option.splits dest: moves push_updates)

lemma issue_runs:
  assumes "updates (next_view \<circ> push_view) ref k k'" "warp_at ref k = Inr w"
    and "warp_point w < length (m_insts w)"
  shows "runs (i_active_thread_num (m_insts w ! warp_point w)) k k'"
  using assms(1) views_warp_at [OF assms(2)] grows_issue [OF _ assms(3), of "views k" ref]
  by (auto simp: updates_def runs_def extends_def view_of_def push_view_def next_view_def)

lemma dispatch_inst_moves:
  assumes "dispatch_inst sub_num ref (issued, sm, k, g) = Inr (issued', sm', k', g')"
  shows "steps (issued' - issued) (sm, k, g) (sm', k', g')"
proof -
  from assms obtain w where w: "warp_at ref k = Inr w" "warp_point w < length (m_insts w)"
    by (auto simp: dispatch_inst_def rbind_eq_Inr nth_res_eq_Inr)
  consider "k' = k" "issued' = issued" "resident sm' = resident sm"
    | k1 where "resident sm' = resident sm" "updates push_view ref k k1" "updates next_view ref k1 k'"
        "issued' = issued + i_active_thread_num (m_insts w ! warp_point w)"
    using assms w that
    by (auto simp: dispatch_inst_def rbind_eq_Inr nth_res_eq_Inr Let_def pushes_def split: if_split_asm
        dest!: moves ldst_pushes push_updates next_updates [simplified])
  then show ?thesis
  proof cases
    case 2
    from issue_runs [OF updates_trans [OF 2(2,3)] w] 2 show ?thesis by (simp add: steps_def)
  qed (simp add: steps_def)
qed

lemma issue_inst_moves:
  assumes "issue_inst sub_num ref (sm, k, g) = Inr (n, sm', k', g')"
  shows "steps n (sm, k, g) (sm', k', g')"
proof -
  from assms obtain m where
    run: "foldM (\<lambda>_. dispatch_inst sub_num ref) [0..<m] (0, sm, k, g) = Inr (n, sm', k', g')"
    by (auto simp: issue_inst_def rbind_eq_Inr)
  have "(\<lambda>(n, s). steps n (sm, k, g) s) (n, sm', k', g')"
  proof (rule foldM_invariant [OF _ run])
    show "(\<lambda>(n, s). steps n (sm, k, g) s) s'"
      if "(\<lambda>(n, s). steps n (sm, k, g) s) s" "dispatch_inst sub_num ref s = Inr s'" for s s'
    proof -
      obtain n1 sm1 k1 g1 where s: "s = (n1, sm1, k1, g1)" by (metis prod_cases4)
      obtain n2 sm2 k2 g2 where s': "s' = (n2, sm2, k2, g2)" by (metis prod_cases4)
      have "steps n1 (sm, k, g) (sm1, k1, g1)" using that(1) by (simp add: s)
      from steps_trans [OF this dispatch_inst_moves [OF that(2) [unfolded s s']]]
      show ?thesis by (simp add: s')
    qed
  qed simp
  then show ?thesis by simp
qed

lemma retire_warp_moves:
  assumes "retire_warp ref s = Inr s'" "warp_at ref (fst (snd s)) = Inr w" "finished w"
    and "map_of (m_blocks (fst (snd s))) (fst ref) = Some b" "map_of (warp_vec b) (snd ref) = Some w"
  shows "steps 0 s s'"
proof -
  obtain sm k g where s: "s = (sm, k, g)" by (metis prod_cases3)
  from assms obtain b' where b': "map_of (m_blocks k) (w_block_id w) = Some b'"
    and s': "s' = (sm, k\<lparr>m_blocks := map_put (w_block_id w) (retire (snd ref) w b') (m_blocks k)\<rparr>, g)"
    by (auto simp: s retire_warp_def rbind_eq_Inr get_block_def deref_eq_Inr retire_def split: if_splits)
  have "runs 0 k (fst (snd s'))"
  proof (cases "kernel_inv k")
    case True
    then have x: "w_block_id w = fst ref" "b' = b"
      using assms(4,5) b' by (auto simp: s kernel_inv_def cta_inv_def)
    have "length (m_insts w) \<le> warp_point w" using assms(3) by (simp add: finished_def)
    from extends_replace [OF b', of "retire (snd ref) w b'"] retire_spec [OF _ assms(5) this]
    show ?thesis by (simp add: runs_def s' x)
  qed (simp add: runs_def extends_def s')
  then show ?thesis by (simp add: s s' steps_def)
qed

text \<open>The numbers of the warps still to be looked at are those of warps that are not retired.\<close>

definition vec_has :: "int \<Rightarrow> int list \<Rightarrow> kernel \<Rightarrow> bool" where
  "vec_has x wids k \<longleftrightarrow> (\<forall>i \<in> set wids. \<exists>b w. map_of (m_blocks k) x = Some b \<and> map_of (warp_vec b) i = Some w)"

lemma issue_block_moves:
  "issue_block bid wids (issued, active, sm, k, g) = Inr (issued', active', sm', k', g') \<Longrightarrow>
   vec_has bid wids k \<Longrightarrow> distinct wids \<Longrightarrow> kernel_inv k \<Longrightarrow>
   steps (issued' - issued) (sm, k, g) (sm', k', g')"
proof (induction wids arbitrary: issued active sm k g)
  case (Cons wid rest)
  show ?case
  proof (cases "True \<in> set active")
    case True
    obtain b w where b: "map_of (m_blocks k) bid = Some b" "map_of (warp_vec b) wid = Some w"
      using Cons.prems(2) by (auto simp: vec_has_def)
    then have w: "warp_at (bid, wid) k = Inr w" by (simp add: warp_at_cta cta_warp_def)
    have has: "vec_has bid rest k" using Cons.prems(2) by (simp add: vec_has_def)
    show ?thesis
    proof (cases "finished w")
      case True
      with Cons.prems(1) \<open>True \<in> set active\<close> w obtain sm1 k1 g1 where
        r: "retire_warp (bid, wid) (sm, k, g) = Inr (sm1, k1, g1)"
        and rest: "issue_block bid rest (issued, active, sm1, k1, g1) = Inr (issued', active', sm', k', g')"
        by (auto simp: rbind_eq_Inr)
      have st: "steps 0 (sm, k, g) (sm1, k1, g1)" using retire_warp_moves [OF r _ True] w b by simp
      have id: "w_block_id w = bid" using Cons.prems(4) b by (auto simp: kernel_inv_def cta_inv_def)
      have "k1 = k\<lparr>m_blocks := map_put bid (retire wid w b) (m_blocks k)\<rparr>"
        using r w b id by (auto simp: retire_warp_def rbind_eq_Inr get_block_def deref_eq_Inr retire_def split: if_splits)
      then have "vec_has bid rest k1"
        using has Cons.prems(3) b by (auto simp: vec_has_def retire_def map_of_erase)
      from Cons.IH [OF rest this] Cons.prems(3,4) st steps_trans [OF st] show ?thesis
        by (auto simp: steps_def runs_def extends_def)
    next
      case False
      note IH = Cons.IH [OF _ has _ Cons.prems(4), of issued active sm g]
      from Cons.prems(1,3) \<open>True \<in> set active\<close> w False IH show ?thesis
        by (auto simp: rbind_eq_Inr split: if_split_asm option.splits)
          (erule issue_inst_moves)
    qed
  qed (use Cons.prems in simp)
qed simp

lemma issue_from_block_moves:
  assumes "issue_from_block bid (issued, active, sm, k, g) = Inr (issued', active', sm', k', g')" "kernel_inv k"
  shows "steps (issued' - issued) (sm, k, g) (sm', k', g')"
proof (cases "True \<in> set active")
  case True
  with assms(1) obtain b where b: "map_of (m_blocks k) bid = Some b"
    by (auto simp: issue_from_block_def rbind_eq_Inr deref_eq_Inr)
  have "wf_map (warp_vec b)" using assms(2) b by (auto simp: kernel_inv_def cta_inv_def)
  then have d: "distinct (map fst (warp_vec b))" by (rule wf_map_distinct)
  have "vec_has bid (map fst (warp_vec b)) k"
    using b by (auto simp: vec_has_def) (metis map_of_None_iff image_eqI fst_conv option.exhaust)
  from issue_block_moves [OF _ this d assms(2)] assms(1) b True show ?thesis
    by (auto simp: issue_from_block_def split: if_splits)
qed (use assms in \<open>auto simp: issue_from_block_def\<close>)

lemma schedule_moves:
  assumes "schedule_warps_in_subcores (sm, k, g) = Inr (t, sm', k', g')" "kernel_inv k"
  shows "steps t (sm, k, g) (sm', k', g')"
proof -
  from assms obtain active0 active where
    run: "foldM issue_from_block (map fst (block_vec sm)) (0, active0, sm, k, g) = Inr (t, active, sm', k', g')"
    by (auto simp: schedule_warps_in_subcores_def rbind_eq_Inr)
  have "(\<lambda>(n, a, s). steps n (sm, k, g) s) (t, active, sm', k', g')"
  proof (rule foldM_invariant [OF _ run])
    show "(\<lambda>(n, a, s). steps n (sm, k, g) s) s'"
      if "(\<lambda>(n, a, s). steps n (sm, k, g) s) s" "issue_from_block x s = Inr s'" for x s s'
    proof -
      obtain n a sm1 k1 g1 where s: "s = (n, a, sm1, k1, g1)" by (metis prod_cases5)
      obtain n' a' sm2 k2 g2 where s': "s' = (n', a', sm2, k2, g2)" by (metis prod_cases5)
      have st: "steps n (sm, k, g) (sm1, k1, g1)" using that(1) by (simp add: s)
      then have "kernel_inv k1" using assms(2) by (simp add: steps_def runs_def extends_def)
      from steps_trans [OF st issue_from_block_moves [OF that(2) [unfolded s s'] this]]
      show ?thesis by (simp add: s')
    qed
  qed simp
  then show ?thesis by simp
qed

section \<open>The blocks a multiprocessor holds\<close>

definition held :: "streaming_multiprocessor \<Rightarrow> int set" where
  "held sm = fst ` set (block_vec sm)"

lemma held_resident: "resident sm' = resident sm \<Longrightarrow> held sm' = held sm"
  by (simp add: resident_def held_def)

definition launches :: "streaming_multiprocessor \<times> kernel \<Rightarrow> streaming_multiprocessor \<times> kernel \<Rightarrow> bool" where
  "launches = (\<lambda>(sm, k) (sm', k'). extends 0 k k' \<and> block_pointer k \<le> block_pointer k' \<and>
     (kernel_inv k \<longrightarrow> held sm \<union> {block_pointer k..<block_pointer k'} \<subseteq> held sm') \<and>
     m_execute_inst sm' = m_execute_inst sm \<and> cycles sm' = cycles sm)"

lemma launches_trans: "launches s s' \<Longrightarrow> launches s' s'' \<Longrightarrow> launches s s''"
  using extends_trans [of 0 "snd s" "snd s'" 0 "snd s''"]
  by (auto simp: launches_def extends_def split: prod.splits) (meson atLeastLessThan_iff in_mono not_le)+

lemma take_block_launches:
  assumes "take_block r s = Inr s'"
  shows "launches s s'"
proof -
  obtain sm k where s: "s = (sm, k)" by (meson surj_pair)
  from assms obtain b n b' where b: "map_of (m_blocks k) (block_pointer k) = Some b"
    and l: "load_mem_request r n (b_block_id b) b = Inr b'"
    and s': "s' = (sm\<lparr>block_vec := map_put (b_block_id b') () (block_vec sm)\<rparr>,
      k\<lparr>m_blocks := map_put (block_pointer k) b' (m_blocks k), block_pointer := block_pointer k + 1\<rparr>)"
    by (auto simp: s take_block_def rbind_eq_Inr deref_eq_Inr)
  have "extends 0 k (snd s')"
    using extends_replace [OF b, of b' "snd s'"] load_mem_request_spec [OF l] by (simp add: s')
  moreover have "b_block_id b' = block_pointer k" if "kernel_inv k"
    using that b load_mem_request_spec [OF l, of "block_pointer k"] by (simp add: kernel_inv_def cta_inv_def)
  ultimately show ?thesis by (auto simp: launches_def s s' held_def keys_map_put)
qed

lemma launch_blocks_launches:
  "launch_blocks n r s = Inr s' \<Longrightarrow> launches s s'"
proof (induction n r s rule: launch_blocks.induct)
  case (2 n r sm k)
  then show ?case
    by (auto simp: rbind_eq_Inr split: if_splits intro: launches_trans take_block_launches)
      (auto simp: launches_def)
qed (auto simp: launches_def)

lemma del_inactive_held:
  assumes "del_inactive_block sm k = Inr sm'"
  shows "held sm' = held sm \<inter> busy_blocks k \<and> m_execute_inst sm' = m_execute_inst sm \<and> cycles sm' = cycles sm"
proof -
  let ?f = "\<lambda>(bid, u) bs. rbind (deref (map_of (m_blocks k) bid)) (\<lambda>b.
    Inr (if block_is_active b then bs @ [(bid, u)] else bs))"
  have fold: "fst ` set bs' = fst ` set bs \<union> fst ` set xs \<inter> busy_blocks k" if "foldM ?f xs bs = Inr bs'" for xs bs bs'
    using that
  proof (induction xs arbitrary: bs)
    case (Cons x xs)
    obtain i u where x: "x = (i, u)" by (cases x)
    from Cons.prems obtain b where b: "map_of (m_blocks k) i = Some b"
      "foldM ?f xs (if block_is_active b then bs @ [(i, u)] else bs) = Inr bs'"
      by (auto simp: x rbind_eq_Inr deref_eq_Inr)
    from Cons.IH [OF b(2)] b(1) show ?case by (auto simp: x busy_blocks_def)
  qed simp
  from assms obtain bs where "foldM ?f (block_vec sm) [] = Inr bs" "sm' = sm\<lparr>block_vec := bs\<rparr>"
    by (auto simp: del_inactive_block_def rbind_eq_Inr)
  with fold [OF this(1)] show ?thesis by (simp add: held_def)
qed

lemma sm_active_False:
  assumes "sm_active sm k = Inr (a, sm')"
  shows "resident sm' = resident sm \<and> (\<not> a \<longrightarrow> held sm \<inter> busy_blocks k = {} \<and> \<not> blocks_left k)"
proof -
  let ?f = "\<lambda>bid a. if a then Inr True else rbind (deref (map_of (m_blocks k) bid)) (\<lambda>b. Inr (block_is_active b))"
  have fold: "\<not> a \<and> set xs \<inter> busy_blocks k = {}" if "foldM ?f xs a = Inr False" for xs a
    using that
  proof (induction xs arbitrary: a)
    case (Cons x xs)
    from Cons.prems obtain a1 where a1: "?f x a = Inr a1" "foldM ?f xs a1 = Inr False" by (auto simp: rbind_eq_Inr)
    from Cons.IH [OF a1(2)] a1(1) show ?case by (auto simp: rbind_eq_Inr deref_eq_Inr busy_blocks_def split: if_splits)
  qed simp
  from assms obtain a0 where "foldM ?f (map fst (block_vec sm)) False = Inr a0" "a = (a0 \<or> blocks_left k)"
    "sm' = sm\<lparr>is_active := a\<rparr>"
    by (auto simp: sm_active_def rbind_eq_Inr Let_def)
  with fold [of "map fst (block_vec sm)" False] show ?thesis by (auto simp: held_def)
qed

section \<open>The cycle of a multiprocessor\<close>

lemma classify_resident:
  "classify_cycle t sm k = Inr sm' \<Longrightarrow> resident sm' = resident sm"
proof -
  assume "classify_cycle t sm k = Inr sm'"
  then consider "sm' = sm"
    | n where "sm' = sm\<lparr>m_issue_active_cycles := n\<rparr> \<or> sm' = sm\<lparr>m_memory_stall_cycles := n\<rparr> \<or>
        sm' = sm\<lparr>m_dependency_stall_cycles := n\<rparr>"
    | n where "sm' = sm\<lparr>m_unit_stall_cycles := n\<rparr> \<or> sm' = sm\<lparr>m_scheduler_idle_cycles := n\<rparr>"
    unfolding classify_cycle_def by (auto simp: rbind_eq_Inr split: if_split_asm)
  then show ?thesis by cases (auto simp: resident_def)
qed

lemma units_move:
  assumes "foldM unit_cycle us (sm, k, g) = Inr (sm', k', g')"
  shows "steps 0 (sm, k, g) (sm', k', g')"
  by (rule foldM_invariant [OF _ assms]) (auto intro: steps_trans0 dest!: unit_cycle_moves)

text \<open>A cycle issues instructions of \<open>n\<close> threads, counts them, and keeps every block that still has
  active warps; the blocks that are launched are held.\<close>

definition turn :: "int \<Rightarrow> streaming_multiprocessor \<Rightarrow> kernel \<Rightarrow> streaming_multiprocessor \<Rightarrow> kernel \<Rightarrow> bool" where
  "turn n sm k sm' k' \<longleftrightarrow> extends n k k' \<and> block_pointer k \<le> block_pointer k' \<and>
     m_execute_inst sm' = m_execute_inst sm + n \<and>
     (cycles sm' = cycles sm + 1 \<or> cycles sm' = cycles sm \<and> n = 0) \<and>
     held sm \<inter> busy_blocks k' \<union> {block_pointer k..<block_pointer k'} \<subseteq> held sm'"

lemma sm_cycle_turn:
  assumes "sm_cycle r (sm, k, g) = Inr (sm', k', g')" "kernel_inv k"
  shows "\<exists>n. turn n sm k sm' k'"
proof -
  obtain a sm0 where a: "sm_active sm k = Inr (a, sm0)"
    using assms by (auto simp: sm_cycle_def rbind_eq_Inr)
  then have s0: "resident sm0 = resident sm" using sm_active_False by blast
  show ?thesis
  proof (cases a)
    case False
    with assms a have "sm' = sm0" "k' = k" by (auto simp: sm_cycle_def)
    then show ?thesis using s0 held_resident [OF s0] by (intro exI [of _ 0]) (simp add: turn_def resident_def)
  next
    case True
    let ?s0 = "sm0\<lparr>cycles := cycles sm0 + 1, m_queue_sm_to_l1_busy := replicate 4 False\<rparr>"
    from assms(1) a True obtain mf g1 s1 s2 k2 g2 l1 g3 s3 s4 k4 g4 s5 k5 t s6 k6 g6 s7 where
      wb: "write_back (?s0, k, g1) = Inr s1" and l2: "write_back_request_l2 mf s1 = Inr (s2, k2, g2)"
      and del: "del_inactive_block (s2\<lparr>m_l1_data_cache := l1\<rparr>) k2 = Inr s3"
      and un: "foldM unit_cycle (lds_units s3) (s3, k2, g3) = Inr (s4, k4, g4)"
      and la: "launch_blocks (length (m_blocks k4)) r (s4, k4) = Inr (s5, k5)"
      and sc: "schedule_warps_in_subcores (s5, k5, g4) = Inr (t, s6, k6, g6)"
      and cl: "classify_cycle t s6 k6 = Inr s7"
      and fin: "sm' = s7\<lparr>m_execute_inst := m_execute_inst s7 + t\<rparr>" "k' = k6"
      by (auto simp: sm_cycle_def rbind_eq_Inr Let_def)
    obtain w k1 g1' where s1: "s1 = (w, k1, g1')" by (cases s1)
    have 1: "runs 0 k k2" "resident s2 = resident ?s0"
      using write_back_moves [OF wb] write_back_request_l2_moves [OF l2 [unfolded s1]]
      by (auto simp: s1 steps_def intro: runs_trans0)
    note 2 = del_inactive_held [OF del]
    have 3: "runs 0 k2 k4" "resident s4 = resident s3" using units_move [OF un] by (simp_all add: steps_def)
    from 1 3 have 4: "runs 0 k k4" by (blast intro: runs_trans0)
    note 5 = launch_blocks_launches [OF la]
    have inv: "kernel_inv k2" "kernel_inv k4" "kernel_inv k5"
      using assms(2) 1 4 5 by (auto simp: runs_def extends_def launches_def)
    note 6 = schedule_moves [OF sc inv(3)]
    have "extends 0 k k5" using extends_trans [of 0 k k4 0 k5] 4 5 by (simp add: runs_def launches_def)
    with 6 extends_trans [of 0 k k5 t k6] have ext: "extends t k k'" by (simp add: steps_def runs_def fin)
    have bp: "block_pointer k4 = block_pointer k" "block_pointer k6 = block_pointer k5"
      "block_pointer k4 \<le> block_pointer k5"
      using 4 5 6 by (simp_all add: runs_def steps_def launches_def)
    have res: "resident s7 = resident s5" using classify_resident [OF cl] 6 by (simp add: steps_def)
    have "busy_blocks k6 \<subseteq> busy_blocks k2"
      using 3(1) 5 6 inv by (auto simp: runs_def extends_def steps_def launches_def)
    moreover have "held s3 = held sm \<inter> busy_blocks k2"
      using 1(2) 2 s0 by (simp add: held_def resident_def)
    ultimately have "held sm \<inter> busy_blocks k6 \<subseteq> held s4" using held_resident [OF 3(2)] by auto
    moreover have "held s4 \<union> {block_pointer k4..<block_pointer k5} \<subseteq> held s5"
      using 5 inv(2) by (simp add: launches_def)
    moreover have "held sm' = held s5" using held_resident [OF res] by (simp add: fin held_def)
    ultimately have "held sm \<inter> busy_blocks k' \<union> {block_pointer k..<block_pointer k'} \<subseteq> held sm'"
      using bp by (auto simp: fin)
    moreover have "m_execute_inst sm' = m_execute_inst sm + t" "cycles sm' = cycles sm + 1"
      using res 1(2) 2 3(2) 5 s0 by (simp_all add: fin resident_def launches_def)
    ultimately show ?thesis using ext bp by (intro exI [of _ t]) (simp add: turn_def fin)
  qed
qed

end
