(* ===== verification/Kernel_Run.thy ===== *)
theory Kernel_Run
  imports Warp_Progress Kernel_Setup Worker_Pool Config_Format
begin

text \<open>
  A whole simulation (\<open>run_single_kernel\<close> of \<^verbatim>\<open>main.cpp\<close>, \<open>gpu_cycle\<close> of \<^verbatim>\<open>gpu.cpp\<close>): the invariant of its
  loop, the start with the first distribution of blocks, and the end, where every instruction of the
  trace has been executed exactly once.
\<close>

section \<open>The loop of the simulation\<close>

definition executed :: "streaming_multiprocessor list \<Rightarrow> int" where
  "executed sms = sum_list (map m_execute_inst sms)"

text \<open>Every block that was launched and has active warps is held by some multiprocessor, and what the
  multiprocessors have counted is what the kernel has issued since it was \<open>k0\<close>.\<close>

definition sim_inv :: "kernel \<Rightarrow> streaming_multiprocessor list \<Rightarrow> kernel \<Rightarrow> bool" where
  "sim_inv k0 sms k \<longleftrightarrow> extends (executed sms) k0 k \<and>
     (\<forall>x \<in> busy_blocks k. x < block_pointer k \<longrightarrow> (\<exists>sm \<in> set sms. x \<in> held sm)) \<and>
     (\<forall>sm \<in> set sms. 0 \<le> cycles sm \<and> (m_execute_inst sm \<noteq> 0 \<longrightarrow> 0 < cycles sm))"

text \<open>Multiprocessors whose turn found nothing to do.\<close>

definition all_idle :: "streaming_multiprocessor list \<Rightarrow> kernel \<Rightarrow> bool" where
  "all_idle sms k \<longleftrightarrow> (\<forall>sm \<in> set sms. held sm \<inter> busy_blocks k = {}) \<and> (sms \<noteq> [] \<longrightarrow> \<not> blocks_left k)"

lemma blocks_left_card: "wf_map (m_blocks k) \<Longrightarrow> blocks_left k \<longleftrightarrow> block_pointer k < int (card (dom (map_of (m_blocks k))))"
  using wf_map_distinct [of "m_blocks k"]
  by (simp add: blocks_left_def dom_map_of_conv_image_fst) (metis distinct_card length_map list.set_map)

lemma sim_inv_turn:
  assumes inv: "sim_inv k0 (ds @ sm # rest) k" and k0: "kernel_inv k0" and t: "turn n sm k sm' k'"
  shows "sim_inv k0 (ds @ sm' # rest) k' \<and> (all_idle ds k \<longrightarrow> all_idle ds k')"
proof -
  have k: "kernel_inv k" using inv k0 by (simp add: sim_inv_def extends_def)
  have ex: "executed (ds @ sm' # rest) = executed (ds @ sm # rest) + n"
    using t by (simp add: executed_def turn_def)
  have ext: "extends n k k'" using t by (simp add: turn_def)
  have "extends (executed (ds @ sm' # rest)) k0 k'"
    using inv extends_trans [of _ k0 k n k'] ext unfolding ex sim_inv_def by blast
  moreover have "\<exists>s \<in> set (ds @ sm' # rest). x \<in> held s" if x: "x \<in> busy_blocks k'" "x < block_pointer k'" for x
  proof (cases "x < block_pointer k")
    case True
    have "x \<in> busy_blocks k" using x(1) ext k by (auto simp: extends_def)
    then obtain s where "s \<in> set (ds @ sm # rest)" "x \<in> held s" using inv True by (auto simp: sim_inv_def)
    then show ?thesis using t x(1) by (auto simp: turn_def)
  next
    case False
    then show ?thesis using t x(2) by (auto simp: turn_def)
  qed
  moreover have "0 \<le> cycles s \<and> (m_execute_inst s \<noteq> 0 \<longrightarrow> 0 < cycles s)" if "s \<in> set (ds @ sm' # rest)" for s
  proof (cases "s = sm'")
    case True
    have "0 \<le> cycles sm \<and> (m_execute_inst sm \<noteq> 0 \<longrightarrow> 0 < cycles sm)" using inv by (simp add: sim_inv_def)
    then show ?thesis using t True by (auto simp: turn_def)
  qed (use that inv in \<open>auto simp: sim_inv_def\<close>)
  moreover have "all_idle ds k'" if idle: "all_idle ds k"
  proof -
    have sub: "busy_blocks k' \<subseteq> busy_blocks k" and k': "kernel_inv k'"
      "dom (map_of (m_blocks k')) = dom (map_of (m_blocks k))" "block_pointer k \<le> block_pointer k'"
      using ext k t by (auto simp: extends_def turn_def)
    have "blocks_left k' \<longrightarrow> blocks_left k" using k k' by (simp add: kernel_inv_def blocks_left_card)
    with idle sub show ?thesis unfolding all_idle_def by blast
  qed
  ultimately show ?thesis by (simp add: sim_inv_def)
qed

lemma sm_turns_inv:
  assumes "foldM (sm_turn r) rest (a, ds, k, e) = Inr (a', sms, k', e')" "kernel_inv k0"
    and "sim_inv k0 (ds @ rest) k" "\<not> a \<longrightarrow> all_idle ds k"
  shows "sim_inv k0 sms k' \<and> (\<not> a' \<longrightarrow> all_idle sms k') \<and> length sms = length ds + length rest"
  using assms
proof (induction rest arbitrary: a ds k e)
  case (Cons sm rest)
  obtain sm1 k1 e1 b sm2 where 1: "sm_cycle r (sm, k, e) = Inr (sm1, k1, e1)" "sm_active sm1 k1 = Inr (b, sm2)"
    and rest: "foldM (sm_turn r) rest (a \<or> b, ds @ [sm2], k1, e1) = Inr (a', sms, k', e')"
    using Cons.prems(1) by (auto simp: sm_turn_def [of r sm] rbind_eq_Inr)
  have "kernel_inv k" using Cons.prems(2,3) by (simp add: sim_inv_def extends_def)
  from sm_cycle_turn [OF 1(1) this] obtain n where "turn n sm k sm1 k1" by blast
  note act = sm_active_False [OF 1(2)]
  have t: "turn n sm k sm2 k1"
    using \<open>turn n sm k sm1 k1\<close> act held_resident [of sm2 sm1] by (simp add: turn_def resident_def)
  note st = sim_inv_turn [OF Cons.prems(3,2) t]
  have "all_idle (ds @ [sm2]) k1" if "\<not> (a \<or> b)"
    using that st Cons.prems(4) act held_resident [of sm2 sm1] by (auto simp: all_idle_def)
  with Cons.IH [OF rest Cons.prems(2)] st show ?case by simp
qed simp

lemma gpu_iteration_inv:
  assumes "gpu_iteration g = Inr (a, g')" "kernel_inv k0" "sim_inv k0 (m_sm g) (m_active_kernel g)"
  shows "sim_inv k0 (m_sm g') (m_active_kernel g') \<and> (\<not> a \<longrightarrow> all_idle (m_sm g') (m_active_kernel g')) \<and>
    length (m_sm g') = length (m_sm g)"
proof -
  from assms(1) obtain e mp sms k e' where
    "foldM (sm_turn (traceReader g)) (m_sm g) (False, [], m_active_kernel g, e) = Inr (a, sms, k, e')"
    "g' = g\<lparr>m_memory_partition := mp, m_sm := sms, m_active_kernel := k, g_env := e'\<rparr>"
    by (auto simp: gpu_iteration_def Let_def rbind_eq_Inr)
  with sm_turns_inv [OF this(1) assms(2)] assms(3) show ?thesis by (simp add: all_idle_def)
qed

lemma gpu_loop_inv:
  assumes "gpu_loop g = Some (Inr g')" "kernel_inv k0" "sim_inv k0 (m_sm g) (m_active_kernel g)"
  shows "sim_inv k0 (m_sm g') (m_active_kernel g') \<and> all_idle (m_sm g') (m_active_kernel g') \<and>
        length (m_sm g') = length (m_sm g)"
proof -
  have "r = Inr g' \<longrightarrow> sim_inv k0 (m_sm g) (m_active_kernel g) \<longrightarrow>
      sim_inv k0 (m_sm g') (m_active_kernel g') \<and> all_idle (m_sm g') (m_active_kernel g') \<and>
        length (m_sm g') = length (m_sm g)"
    if "gpu_loop g = Some r" for g r
  proof (rule gpu_loop.raw_induct [OF _ that])
    fix loop g r
    assume IH: "\<And>g r. loop g = Some r \<Longrightarrow> r = Inr g' \<longrightarrow> sim_inv k0 (m_sm g) (m_active_kernel g) \<longrightarrow>
        sim_inv k0 (m_sm g') (m_active_kernel g') \<and> all_idle (m_sm g') (m_active_kernel g') \<and>
        length (m_sm g') = length (m_sm g)"
      and step: "(case gpu_iteration g of Inl e \<Rightarrow> Some (Inl e)
        | Inr r \<Rightarrow> if fst r then loop (snd r) else Some (Inr (snd r))) = Some r"
    show "r = Inr g' \<longrightarrow> sim_inv k0 (m_sm g) (m_active_kernel g) \<longrightarrow>
        sim_inv k0 (m_sm g') (m_active_kernel g') \<and> all_idle (m_sm g') (m_active_kernel g') \<and>
        length (m_sm g') = length (m_sm g)"
    proof (intro impI)
      assume r: "r = Inr g'" and inv: "sim_inv k0 (m_sm g) (m_active_kernel g)"
      from step r obtain a g1 where it: "gpu_iteration g = Inr (a, g1)"
        and rest: "if a then loop g1 = Some r else g1 = g'"
        by (auto split: sum.splits if_splits)
      note st = gpu_iteration_inv [OF it assms(2) inv]
      show "sim_inv k0 (m_sm g') (m_active_kernel g') \<and> all_idle (m_sm g') (m_active_kernel g') \<and>
        length (m_sm g') = length (m_sm g)"
      proof (cases a)
        case True
        with rest st IH [of g1 r] r show ?thesis by simp
      qed (use rest st in simp)
    qed
  qed
  with assms(1,3) show ?thesis by blast
qed

text \<open>When the loop ends there is no block left with active warps.\<close>

lemma idle_finished:
  assumes "sim_inv k0 sms k" "all_idle sms k" "kernel_inv k0" "dom (map_of (m_blocks k0)) = int ` {0..<n}"
    and "sms \<noteq> [] \<or> n = 0"
  shows "busy_blocks k = {}"
proof -
  have k: "kernel_inv k" "dom (map_of (m_blocks k)) = int ` {0..<n}"
    using assms(1,3,4) by (auto simp: sim_inv_def extends_def)
  have "x \<notin> busy_blocks k" for x
  proof
    assume x: "x \<in> busy_blocks k"
    then have "x \<in> dom (map_of (m_blocks k))" by (auto simp: busy_blocks_def)
    then have "x < int n" "n \<noteq> 0" unfolding k(2) by auto
    moreover have "card (int ` {0..<n}) = n" by (simp add: card_image)
    ultimately have "x < block_pointer k"
      using assms(2,5) k by (simp add: all_idle_def blocks_left_card kernel_inv_def)
    then show False using assms(1,2) x unfolding sim_inv_def all_idle_def by blast
  qed
  then show ?thesis by blast
qed

section \<open>The start of the simulation\<close>

lemma sorted_keys:
  assumes "wf_map m" "dom (map_of m) = int ` {0..<n}"
  shows "map fst m = map int [0..<n]"
proof (rule sorted_distinct_set_unique)
  show "sorted (map fst m)" "distinct (map fst m)"
    using assms(1) by (simp_all add: wf_map_def strict_sorted_iff)
  show "sorted (map int [0..<n])" by (simp add: sorted_iff_nth_mono)
  show "distinct (map int [0..<n])" by (simp add: distinct_map)
  show "set (map fst m) = set (map int [0..<n])" using assms(2) by (simp add: dom_map_of_conv_image_fst)
qed

text \<open>The first distribution after \<open>i\<close> blocks: those launched are held, and either all of them were,
  or the multiprocessor whose turn it is has no room.\<close>

definition spawn_inv :: "kernel \<Rightarrow> int \<Rightarrow> nat \<Rightarrow> int \<times> streaming_multiprocessor list \<times> kernel \<Rightarrow> bool" where
  "spawn_inv k0 mb i = (\<lambda>(index, sms, k). extends 0 k0 k \<and>
     (\<forall>sm \<in> set sms. m_execute_inst sm = 0 \<and> cycles sm = 0) \<and>
     (\<forall>x. 0 \<le> x \<and> x < block_pointer k \<longrightarrow> (\<exists>sm \<in> set sms. x \<in> held sm)) \<and>
     (block_pointer k = int i \<or> (nat index < length sms \<and>
        \<not> of_nat (length (block_vec (sms ! nat index))) < (word_of_int mb :: u64))))"

lemma spawn_block_inv:
  assumes "spawn_block r c mb a (int i) s = Inr s'" "spawn_inv k0 mb i s" "kernel_inv k0"
  shows "spawn_inv k0 mb (Suc i) s' \<and> fst (snd s) \<noteq> []"
proof -
  obtain index sms k where s: "s = (index, sms, k)" by (metis prod_cases3)
  have idx: "nat index < length sms" using assms(1) by (auto simp: s spawn_block_def rbind_eq_Inr nth_res_eq_Inr)
  let ?sm = "sms ! nat index"
  show ?thesis
  proof (cases "of_nat (length (block_vec ?sm)) < (word_of_int mb :: u64)")
    case False
    with assms(1) idx have "s' = s" by (auto simp: s spawn_block_def)
    with assms(2) idx False show ?thesis by (auto simp: s spawn_inv_def)
  next
    case True
    with assms(1) idx obtain b n b' where b: "map_of (m_blocks k) (int i) = Some b"
      and l: "load_mem_request r n (b_block_id b) b = Inr b'"
      and s': "s' = ((index + 1) smod a,
        sms[nat index := ?sm\<lparr>block_vec := map_put (int i) () (block_vec ?sm), is_active := True\<rparr>],
        k\<lparr>m_blocks := map_put (int i) b' (m_blocks k), block_pointer := block_pointer k + 1\<rparr>)"
      by (auto simp: s spawn_block_def rbind_eq_Inr deref_eq_Inr guard_eq_Inr)
    have bp: "block_pointer k = int i" using assms(2) True by (simp add: s spawn_inv_def)
    have "extends 0 k (snd (snd s'))"
      using extends_replace [OF b, of b' "snd (snd s')"] load_mem_request_spec [OF l] by (simp add: s')
    moreover have "extends 0 k0 k" using assms(2) by (simp add: s spawn_inv_def)
    ultimately have ext: "extends 0 k0 (snd (snd s'))" using extends_trans [of 0 k0 k 0] by simp
    let ?new = "?sm\<lparr>block_vec := map_put (int i) () (block_vec ?sm), is_active := True\<rparr>"
    have held: "held ?new = insert (int i) (held ?sm)" by (simp add: held_def keys_map_put)
    have mem: "?new \<in> set (sms[nat index := ?new])" using idx by (rule set_update_memI)
    have "\<exists>sm \<in> set (sms[nat index := ?new]). x \<in> held sm" if x: "0 \<le> x" "x < int i + 1" for x
    proof (cases "x = int i")
      case True
      with mem held show ?thesis by blast
    next
      case False
      with x bp have "0 \<le> x \<and> x < block_pointer k" by simp
      with assms(2) have "\<exists>sm \<in> set sms. x \<in> held sm" by (simp add: s spawn_inv_def)
      then obtain j where j: "j < length sms" "x \<in> held (sms ! j)" by (auto simp: in_set_conv_nth)
      show ?thesis
      proof (cases "j = nat index")
        case True
        with mem held j show ?thesis by blast
      next
        case False
        then have "sms[nat index := ?new] ! j = sms ! j" by simp
        then show ?thesis using j by (metis length_list_update nth_mem)
      qed
    qed
    moreover have "\<forall>sm \<in> set (sms[nat index := ?new]). m_execute_inst sm = 0 \<and> cycles sm = 0"
      using assms(2) idx by (auto simp: s spawn_inv_def dest!: subsetD [OF set_update_subset_insert])
    ultimately show ?thesis using ext bp idx by (auto simp: s s' spawn_inv_def)
  qed
qed

lemma spawn_blocks_inv:
  assumes "foldM (spawn_block r c mb a) (map int [i..<i + n]) s = Inr s'" "spawn_inv k0 mb i s" "kernel_inv k0"
  shows "spawn_inv k0 mb (i + n) s' \<and> (0 < n \<longrightarrow> fst (snd s) \<noteq> [])"
  using assms
proof (induction n arbitrary: i s)
  case (Suc n)
  have "[i..<i + Suc n] = i # [Suc i..<Suc i + n]" by (simp add: upt_conv_Cons)
  note run = Suc.prems(1) [unfolded this list.map foldM.simps rbind_eq_Inr]
  from run obtain s1 where s1: "spawn_block r c mb a (int i) s = Inr s1"
    "foldM (spawn_block r c mb a) (map int [Suc i..<Suc i + n]) s1 = Inr s'"
    by blast
  from spawn_block_inv [OF s1(1) Suc.prems(2,3)] Suc.IH [OF s1(2) _ Suc.prems(3)] show ?case by simp
qed simp

lemma spawn_length:
  "foldM (spawn_block r c mb a) bs (index, sms, k) = Inr (index', sms', k') \<Longrightarrow> length sms' = length sms"
proof (induction bs arbitrary: index sms k)
  case (Cons x bs)
  then obtain s1 where s1: "spawn_block r c mb a x (index, sms, k) = Inr s1"
    "foldM (spawn_block r c mb a) bs s1 = Inr (index', sms', k')" by (auto simp: rbind_eq_Inr)
  then have "length (fst (snd s1)) = length sms"
    by (auto simp: spawn_block_def rbind_eq_Inr guard_eq_Inr split: if_splits)
  then show ?case using Cons.IH [of "fst s1" "fst (snd s1)" "snd (snd s1)"] s1(2) by simp
qed simp

lemma first_spawn_block_inv:
  assumes run: "first_spawn_block g = Inr g'" and k0: "kernel_inv (m_active_kernel g)"
    "dom (map_of (m_blocks (m_active_kernel g))) = int ` {0..<n}" "block_pointer (m_active_kernel g) = 0"
    and sms: "\<forall>sm \<in> set (m_sm g). m_execute_inst sm = 0 \<and> cycles sm = 0"
  shows "sim_inv (m_active_kernel g) (m_sm g') (m_active_kernel g') \<and> (m_sm g' \<noteq> [] \<or> n = 0)"
proof -
  let ?k = "m_active_kernel g"
  from run obtain mb a index sms' k' where
    fold: "foldM (spawn_block (traceReader g) (m_gpu_configs g) mb a) (map fst (m_blocks ?k))
      (0, map (\<lambda>sm. sm\<lparr>m_max_blocks := mb\<rparr>) (m_sm g), ?k) = Inr (index, sms', k')"
    and g': "g' = g\<lparr>m_sm := sms', m_active_kernel := k'\<rparr>"
    by (auto simp: first_spawn_block_def Let_def rbind_eq_Inr guard_eq_Inr)
  have keys: "map fst (m_blocks ?k) = map int [0..<0 + n]"
    using sorted_keys [of "m_blocks ?k" n] k0 by (simp add: kernel_inv_def)
  have start: "spawn_inv ?k mb 0 (0, map (\<lambda>sm. sm\<lparr>m_max_blocks := mb\<rparr>) (m_sm g), ?k)"
    using k0 sms by (auto simp: spawn_inv_def)
  note fin = spawn_blocks_inv [OF fold [unfolded keys] start k0(1)]
  have ex: "executed sms' = 0" if "\<forall>sm \<in> set sms'. m_execute_inst sm = 0"
    using that by (induction sms') (auto simp: executed_def)
  have "x \<in> dom (map_of (m_blocks k'))" if "x \<in> busy_blocks k'" for x
    using that by (auto simp: busy_blocks_def)
  then have "0 \<le> x" if "x \<in> busy_blocks k'" for x
    using that fin k0 by (force simp: spawn_inv_def extends_def)
  with fin ex have "sim_inv ?k sms' k'" by (auto simp: spawn_inv_def sim_inv_def)
  then show ?thesis using fin spawn_length [OF fold] by (auto simp: g')
qed

section \<open>The kernel that is launched\<close>

lemma dependency_loop_threads:
  "map i_active_thread_num (dependency_loop n d is) = map i_active_thread_num is"
proof (induction "is" arbitrary: n d)
  case (Cons i "is")
  obtain i' d' where r: "inst_dependency n d i = (i', d')" by (meson surj_pair)
  then have "i_active_thread_num i' = i_active_thread_num i" by (auto simp: inst_dependency_def Let_def)
  with Cons show ?case by (simp add: r)
qed simp

lemma dependency_loop_length [simp]: "length (dependency_loop n d is) = length is"
  using dependency_loop_threads [of n d "is"] by (metis length_map)

text \<open>What is seen of a warp before it starts and when it is through.\<close>

definition warp_to_run :: "trace_inst list \<Rightarrow> nat \<Rightarrow> views" where
  "warp_to_run ts n = (\<lambda>(x, w). if warp_trace ts x w = [] then None
     else Some (dependency_loop 0 [] (warp_trace ts x w), n * length (warp_trace ts x w), n * length (warp_trace ts x w)))"

lemma launched_kernel:
  assumes "init_blocks ((new_kernel kid)\<lparr>m_kernel_info := info, trace_insts := ts\<rparr>) = Inr k'"
  shows "kernel_inv k' \<and> dom (map_of (m_blocks k')) = int ` {0..<unat (m_grid_size info)} \<and>
    block_pointer k' = 0 \<and> views k' = warp_to_run ts 0"
proof -
  have built: "wf_map (m_blocks k')" "dom (map_of (m_blocks k')) = int ` {0..<unat (m_grid_size info)}"
    "\<forall>t \<in> set ts. ti_block_id t \<in> dom (map_of (m_blocks k'))" "block_pointer k' = 0"
    and cta: "\<And>x blk. map_of (m_blocks k') x = Some blk \<Longrightarrow> b_block_id blk = x \<and> wf_map (warp_vec blk) \<and>
      retired_warps blk = [] \<and> map_of (warp_vec blk) = (\<lambda>w. map_option get_inst_dependency (warp_of_trace ts x w))"
    using init_blocks_built [OF assms] by (auto simp: new_kernel_def)
  have "kernel_inv k'"
    using built(1) cta by (auto simp: kernel_inv_def cta_inv_def warp_of_trace_def get_inst_dependency_def
        new_warp_def split: if_splits)
  moreover have "views k' (x, w) = warp_to_run ts 0 (x, w)" for x w
  proof (cases "map_of (m_blocks k') x")
    case None
    then have "warp_trace ts x w = []" using built(3) by (auto simp: warp_trace_def filter_empty_conv)
    then show ?thesis using None by (simp add: views_def warp_to_run_def)
  next
    case (Some blk)
    with cta [OF Some] show ?thesis
      by (auto simp: views_def warp_to_run_def cta_warp_def warp_of_trace_def get_inst_dependency_def
          new_warp_def view_of_def split: option.split)
  qed
  ultimately show ?thesis using built by auto
qed

section \<open>The end of the simulation\<close>

lemma sum_by_key:
  assumes "finite S" "\<forall>t \<in> set ts. key t \<in> S"
  shows "(\<Sum>r \<in> S. \<Sum>t \<leftarrow> filter (\<lambda>t. key t = r) ts. f t) = (\<Sum>t \<leftarrow> ts. (f t :: int))"
  using assms(2)
proof (induction ts)
  case (Cons t ts)
  have "(\<Sum>r \<in> S. \<Sum>t \<leftarrow> filter (\<lambda>t. key t = r) (t # ts). f t) =
      (\<Sum>r \<in> S. (if r = key t then f t else 0) + (\<Sum>t \<leftarrow> filter (\<lambda>t. key t = r) ts. f t))"
    by (rule sum.cong) auto
  also have "\<dots> = f t + (\<Sum>t \<leftarrow> ts. f t)"
    using Cons assms(1) by (simp add: sum.distrib sum.delta)
  finally show ?case by simp
qed simp

lemma warp_to_run_dom: "dom (warp_to_run ts n) = (\<lambda>t. (ti_block_id t, ti_warp_id t)) ` set ts"
  by (auto simp: warp_to_run_def dom_def warp_trace_def filter_empty_conv split: if_splits)

lemma warp_to_run_threads:
  "(\<Sum>ref \<in> dom (warp_to_run ts m). threads_of (warp_to_run ts 1 ref)) = (\<Sum>t \<leftarrow> ts. ti_active_thread_num t)"
    "(\<Sum>ref \<in> dom (warp_to_run ts m). threads_of (warp_to_run ts 0 ref)) = 0"
proof -
  let ?key = "\<lambda>t. (ti_block_id t, ti_warp_id t)"
  have "threads_of (warp_to_run ts 1 ref) = (\<Sum>t \<leftarrow> filter (\<lambda>t. ?key t = ref) ts. ti_active_thread_num t)" for ref
  proof (cases ref)
    case (Pair x w)
    have "map i_active_thread_num (warp_trace ts x w) =
        map ti_active_thread_num (filter (\<lambda>t. ti_block_id t = x \<and> ti_warp_id t = w) ts)"
      by (simp add: warp_trace_def new_inst_def)
    then show ?thesis
      by (simp add: Pair warp_to_run_def threads_of_def dependency_loop_threads flip: take_map) (simp add: warp_trace_def)
  qed
  then show "(\<Sum>ref \<in> dom (warp_to_run ts m). threads_of (warp_to_run ts 1 ref)) = (\<Sum>t \<leftarrow> ts. ti_active_thread_num t)"
    using sum_by_key [of "dom (warp_to_run ts m)" ts ?key ti_active_thread_num] by (simp add: warp_to_run_dom)
  show "(\<Sum>ref \<in> dom (warp_to_run ts m). threads_of (warp_to_run ts 0 ref)) = 0"
    by (rule sum.neutral) (auto simp: threads_of_def warp_to_run_def)
qed

text \<open>Without busy blocks every warp has issued all its instructions.\<close>

lemma finished_views:
  assumes "extends n k0 k" "kernel_inv k0" "views k0 = warp_to_run ts 0" "busy_blocks k = {}"
  shows "views k = warp_to_run ts 1 \<and> n = (\<Sum>t \<leftarrow> ts. ti_active_thread_num t)"
proof -
  have k: "kernel_inv k" and g: "grows n (warp_to_run ts 0) (views k)"
    using assms by (auto simp: extends_def)
  have d: "dom (views k) = dom (warp_to_run ts 0)" using g by (simp add: grows_def)
  have "views k ref = warp_to_run ts 1 ref" for ref
  proof (cases "warp_to_run ts 0 ref")
    case None
    then have "views k ref = None" using d by blast
    with None show ?thesis by (auto simp: warp_to_run_def split: prod.splits if_splits)
  next
    case (Some v)
    obtain x w where ref: "ref = (x, w)" by (cases ref)
    let ?is = "dependency_loop 0 [] (warp_trace ts x w)"
    have v: "warp_to_run ts 0 ref = Some (?is, 0, 0)" "warp_trace ts x w \<noteq> []"
      using Some by (auto simp: ref warp_to_run_def split: if_splits)
    have "\<exists>q. views k ref = Some (?is, 0 + q, 0 + q) \<and> (0 \<le> length ?is \<longrightarrow> 0 + q \<le> length ?is)"
      using g v(1) unfolding grows_def by blast
    then obtain q where q: "views k ref = Some (?is, q, q)" "q \<le> length ?is" by auto
    then obtain b u where b: "map_of (m_blocks k) x = Some b" "cta_warp b w = Some u" "view_of u = (?is, q, q)"
      by (auto simp: views_def ref split: option.splits)
    have "warp_vec b = []" using assms(4) b(1) by (auto simp: busy_blocks_def block_is_active_def)
    then have "u \<in> set (retired_warps b)" using b(2) by (auto simp: cta_warp_def find_Some_iff)
    moreover have "cta_inv x b" using k b(1) by (simp add: kernel_inv_def)
    ultimately have "length ?is \<le> q" using b(3) by (auto simp: cta_inv_def view_of_def)
    with q v(2) show ?thesis by (simp add: ref warp_to_run_def)
  qed
  then have v: "views k = warp_to_run ts 1" by blast
  have "finite (dom (warp_to_run ts 0))" by (simp add: warp_to_run_dom)
  with g v warp_to_run_threads [of ts 0] show ?thesis by (simp add: grows_def)
qed

lemma gpu_cycle_executes:
  assumes "gpu_cycle g = Some (Inr g')" "sim_inv k0 (m_sm g) (m_active_kernel g)" "m_sm g \<noteq> [] \<or> n = 0"
    and "kernel_inv k0" "dom (map_of (m_blocks k0)) = int ` {0..<n}" "views k0 = warp_to_run ts 0"
  shows "views (m_active_kernel g') = warp_to_run ts 1 \<and> busy_blocks (m_active_kernel g') = {} \<and>
    gpu_sim_insn g' = (\<Sum>t \<leftarrow> ts. ti_active_thread_num t)"
proof -
  from assms(1) obtain g1 where g1: "gpu_loop g = Some (Inr g1)" "gpu_totals g1 = Inr g'"
    by (auto simp: gpu_cycle_def split: option.splits sum.splits)
  from gpu_loop_inv [OF g1(1) assms(4,2)] have inv: "sim_inv k0 (m_sm g1) (m_active_kernel g1)"
    and idle: "all_idle (m_sm g1) (m_active_kernel g1)" and len: "length (m_sm g1) = length (m_sm g)" by auto
  from assms(3) len have "m_sm g1 \<noteq> [] \<or> n = 0" by auto
  from idle_finished [OF inv idle assms(4,5) this] have idle': "busy_blocks (m_active_kernel g1) = {}" .
  have ext: "extends (executed (m_sm g1)) k0 (m_active_kernel g1)" using inv by (simp add: sim_inv_def)
  have sum: "sum_list (map m_execute_inst (filter (\<lambda>sm. 0 < cycles sm) sms)) = executed sms"
    if "\<forall>sm \<in> set sms. 0 \<le> cycles sm \<and> (m_execute_inst sm \<noteq> 0 \<longrightarrow> 0 < cycles sm)" for sms
    using that by (induction sms) (auto simp: executed_def)
  have g': "m_active_kernel g' = m_active_kernel g1" "gpu_sim_insn g' = sum_running m_execute_inst g1"
    using g1(2) by (auto simp: gpu_totals_def Let_def rbind_eq_Inr)
  have "sum_running m_execute_inst g1 = executed (m_sm g1)"
    using inv sum [of "m_sm g1"] by (simp add: sum_running_def sim_inv_def)
  with finished_views [OF ext assms(4,6) idle'] idle' show ?thesis by (simp add: g')
qed

lemma obind_eq_Inr: "obind m f = Some (Inr y) \<longleftrightarrow> (\<exists>x. m = Some (Inr x) \<and> f x = Some (Inr y))"
  by (auto simp: obind_def split: option.split sum.split)

lemma new_sm_starts:
  "block_vec (new_sm i c l1) = []" "m_execute_inst (new_sm i c l1) = 0" "cycles (new_sm i c l1) = 0"
  by (simp_all add: new_sm_def split_beta Let_def)

section \<open>Properties\<close>

text \<open>C1. A simulation that returns has executed the kernel: whatever the configuration, the caches, the
  memory and the order in which warps were scheduled, when \<open>run_single_kernel\<close> returns no block has an
  active warp, the warps of the kernel are exactly those of the trace file, each with exactly the
  instructions of its lines in their order, each instruction was issued once and has one completion time, and
  the number of thread instructions that is reported is the number of active threads in the trace.\<close>

theorem simulated_kernel_executed:
  assumes "run_single_kernel gpu_file latency_file log_ok files trace_root benchmark kernel_id = Some (Inr (Simulated g))"
  shows "\<exists>info ts. read_sass (files (trace_file trace_root benchmark kernel_id ''.sass'')) zero_kernel_info [] = Inr (info, ts) \<and>
    views (m_active_kernel g) = warp_to_run ts 1 \<and> busy_blocks (m_active_kernel g) = {} \<and>
    gpu_sim_insn g = (\<Sum>t \<leftarrow> ts. ti_active_thread_num t)"
proof -
  from assms obtain c g0 g1 r g2 where b: "build_gpu c log_ok = Inr g0"
    and l: "launch_kernel kernel_id (files (trace_file trace_root benchmark kernel_id ''.sass'')) g0 = Inr g1"
    and f: "first_spawn_block (g1\<lparr>traceReader := r\<rparr>) = Inr g2" and cyc: "gpu_cycle g2 = Some (Inr g)"
    unfolding run_single_kernel_def Let_def by (auto simp: obind_eq_Inr split: if_split_asm)
  from l obtain info ts k where rs: "read_sass (files (trace_file trace_root benchmark kernel_id ''.sass'')) zero_kernel_info [] = Inr (info, ts)"
    and k: "init_blocks ((new_kernel kernel_id)\<lparr>m_kernel_info := info, trace_insts := ts\<rparr>) = Inr k"
    and g1: "m_active_kernel g1 = k" "m_sm g1 = m_sm g0"
    by (auto simp: launch_kernel_def rbind_eq_Inr)
  note k' = launched_kernel [OF k]
  have "\<forall>sm \<in> set (m_sm g0). m_execute_inst sm = 0 \<and> cycles sm = 0"
    using b by (auto simp: build_gpu_def rbind_eq_Inr new_sm_starts)
  with first_spawn_block_inv [OF f, of "unat (m_grid_size info)"] k' g1
  have "sim_inv k (m_sm g2) (m_active_kernel g2) \<and> (m_sm g2 \<noteq> [] \<or> unat (m_grid_size info) = 0)" by simp
  then have "sim_inv k (m_sm g2) (m_active_kernel g2)" "m_sm g2 \<noteq> [] \<or> unat (m_grid_size info) = 0" by simp_all
  from gpu_cycle_executes [OF cyc this] k' rs show ?thesis by blast
qed

text \<open>A witness: one multiprocessor, no memory, and a kernel of one instruction of four threads.\<close>

definition alu_config :: gpu_config where
  "alu_config =
     \<lparr>m_gpu_config = [(''block_launch_cycles'', ''0''), (''kernel_launch_cycles'', ''0''), (''l1_hit_latency'', ''1''),
        (''mem_num'', ''0''), (''num_inst_dispatch_units_per_warp'', ''1''), (''num_warp_schedulers_per_SM'', ''4''),
        (''shared_mem_size'', ''102400''), (''sm_num'', ''1'')],
      m_sm_pipeline_units = [(''INT_units'', 64), (''LDS_units'', 16)],
      m_compute_capability = [(''max_active_blocks_per_SM'', 1), (''max_active_threads_per_SM'', 1536),
        (''max_registers_per_SM'', 65536), (''max_registers_per_block'', 65536),
        (''register_allocation_size'', 256), (''smem_allocation_size'', 128), (''warp_size'', 32)],
      l1_cache_config = [(''l1_cache_line_size'', ''128''), (''l1_cache_m_assoc'', ''1''),
        (''l1_cache_m_set_index_function'', ''LINEAR_SET_FUNCTION''), (''l1_cache_n_banks'', ''4''),
        (''l1_cache_n_sets'', ''1''), (''l1_m_mshr_entries'', ''4''), (''l1_m_mshr_max_merge'', ''4'')],
      l2_cache_config = [(''l2_cache_line_size'', ''128''), (''l2_cache_m_assoc'', ''1''),
        (''l2_cache_m_set_index_function'', ''LINEAR_SET_FUNCTION''), (''l2_cache_n_sets'', ''1''),
        (''l2_cache_sub_partitions'', ''1''), (''l2_m_mshr_entries'', ''4''), (''l2_m_mshr_max_merge'', ''4'')],
      memory_config_map = [(''data_command_freq_ratio'', 1), (''m_n_sub_partition_per_memory_channel'', 1)],
      gpu_isa_latency = [(''IADD3'', 1, ''INT_units'')]\<rparr>"

definition alu_sass :: string where
  "alu_sass = ''grid_size = 1'' @ [CHR 0x0A] @ ''block_size = 32'' @ [CHR 0x0A] @
     ''0 0 0 f 1 R1 IADD3 1 R2'' @ [CHR 0x0A]"

definition alu_files :: "string \<Rightarrow> string option" where
  "alu_files f = (if f = trace_file ''t/'' ''b'' 1 ''.sass'' then Some alu_sass
     else if f = trace_file ''t/'' ''b'' 1 ''.mem'' then Some [] else None)"

definition alu_info :: kernel_info where
  "alu_info = zero_kernel_info\<lparr>m_grid_size := 1, m_block_size := 32\<rparr>"

definition alu_inst :: trace_inst where
  "alu_inst = new_trace_inst 0 0 0 ''f'' 1 [''R1''] ''IADD3'' 1 [''R2''] 0"

definition alu_l1 :: cache_config where
  "alu_l1 = \<lparr>m_sector_cache = True, m_n_banks = 4, m_n_sets = 1, m_line_size = 128, m_assoc = 1,
     m_replacement_policy = [], m_write_policy = [], m_alloc_policy = [], m_write_alloc_policy = [],
     m_set_index_function = LINEAR_SET_FUNCTION, m_mshr_type = [], m_mshr_entries = 4, m_mshr_max_merge = 4,
     m_is_streaming = True, m_atom_size = 32\<rparr>"

definition alu_block :: "cta" where
  "alu_block = (new_block 1 0)\<lparr>warp_vec := [(0, (new_warp 0 0)\<lparr>m_insts := [new_inst alu_inst]\<rparr>)]\<rparr>"

definition alu_kernel :: kernel where
  "alu_kernel = (new_kernel 1)\<lparr>m_kernel_info := alu_info, trace_insts := [alu_inst], m_blocks := [(0, alu_block)]\<rparr>"

definition alu_net :: "mf_ptr local_interconnect" where
  "alu_net = CreateInterconnect 1 0 (new_local_interconnect
     \<lparr>cfg_in_buffer_limit = 512, cfg_out_buffer_limit = 512, subnets = 2, arbiter_algo = NAIVE_RR\<rparr>)"

definition alu_reader :: trace_reader where
  "alu_reader = (new_trace_reader 1)\<lparr>m_mem_file := Some [], m_block_mem_index_ready := True\<rparr>"

text \<open>What changes while the memory is idle, and one turn of the loop on it.\<close>

type_synonym alu_state = "bool \<times> streaming_multiprocessor list \<times> kernel \<times> gpu_env"

definition alu_gpu :: "memory_partition \<Rightarrow> trace_reader \<Rightarrow> alu_state \<Rightarrow> gpu" where
  "alu_gpu mp r = (\<lambda>(a, sms, k, e).
     \<lparr>m_gpu_configs = alu_config, g_env = e, m_active_kernel = k, traceReader = r, m_sm = sms,
      m_memory_partition = mp, gpu_sim_insn = 0, active_sm_cycles = 0, total_sm_cycles = 0,
      issue_active_sm_cycles = 0, memory_stall_sm_cycles = 0, dependency_stall_sm_cycles = 0,
      unit_stall_sm_cycles = 0, scheduler_idle_sm_cycles = 0\<rparr>)"

definition alu_turns :: "alu_state \<Rightarrow> mf_ptr local_interconnect \<Rightarrow> alu_state res" where
  "alu_turns = (\<lambda>(a, sms, k, e) ic.
     foldM (sm_turn alu_reader) sms (False, [], k, e\<lparr>gpu_sim_cycles := gpu_sim_cycles e + 1, m_icnt := ic\<rparr>))"

definition alu_iteration :: "alu_state \<Rightarrow> alu_state res" where
  "alu_iteration s = rbind (icnt_advance (m_icnt (snd (snd (snd s))))) (alu_turns s)"

definition alu_start :: alu_state where
  "alu_start = (True, [(new_sm 0 alu_config alu_l1)\<lparr>m_max_blocks := 1, block_vec := [(0, ())], is_active := True\<rparr>],
     alu_kernel\<lparr>block_pointer := 1\<rparr>, new_env alu_net True)"

definition no_memory :: "memory_partition \<Rightarrow> bool" where
  "no_memory mp \<longleftrightarrow> m_n_sub_partition_per_memory_channel (mp_config mp) = 1 \<and> mp_gpu_config mp = alu_config"

lemma alu_values: "cfg_int alu_config ''mem_num'' = Inr 0" "cfg_int alu_config ''sm_num'' = Inr 1"
  "cfg_int alu_config ''kernel_launch_cycles'' = Inr 0" "cfg_int alu_config ''block_launch_cycles'' = Inr 0"
  "stoi (map_get_str (l1_cache_config alu_config) ''l1_cache_line_size'') = Inr 128"
  "cache_config_of (l1_cache_config alu_config) ''l1'' ''l1_cache_n_banks'' ''l1'' = Inr alu_l1"
  "\<not> isl (cache_config_of (l2_cache_config alu_config) ''l2'' ''l2_cache_sub_partitions'' ''l2'')"
  "read_sass (Some alu_sass) zero_kernel_info [] = Inr (alu_info, [alu_inst])"
  "init_blocks ((new_kernel 1)\<lparr>m_kernel_info := alu_info, trace_insts := [alu_inst]\<rparr>) = Inr alu_kernel"
  "build_block_mem_index (Some []) (new_trace_reader 1) = Inr alu_reader"
  "config_ok alu_config"
  by code_simp+

lemma alu_iterations: "case_sum (\<lambda>_. False) fst (alu_iteration alu_start)"
  "case_sum (\<lambda>_. False) (Not \<circ> fst) (rbind (alu_iteration alu_start) alu_iteration)"
  by code_simp+

lemma rbind_assoc: "rbind (rbind m f) h = rbind m (\<lambda>x. rbind (f x) h)"
  by (cases m) auto

lemma gpu_iteration_alu:
  assumes "no_memory mp"
  shows "gpu_iteration (alu_gpu mp alu_reader s) = rbind (alu_iteration s) (\<lambda>s'. Inr (fst s', alu_gpu mp alu_reader s'))"
proof -
  have "memory_partition_cycle t (mp, e) = Inr (mp, e)" for t e
    using assms by (simp add: memory_partition_cycle_def mp_channels_def no_memory_def alu_values)
  then show ?thesis
    by (cases s) (simp add: gpu_iteration_def alu_gpu_def alu_iteration_def alu_turns_def Let_def case_prod_unfold rbind_assoc)
qed

lemma alu_cycle:
  assumes "no_memory mp"
  shows "\<exists>g. gpu_cycle (alu_gpu mp alu_reader alu_start) = Some (Inr g)"
proof -
  obtain s1 where s1: "alu_iteration alu_start = Inr s1" "fst s1"
    using alu_iterations(1) by (cases "alu_iteration alu_start") auto
  obtain s2 where s2: "alu_iteration s1 = Inr s2" "\<not> fst s2"
    using alu_iterations(2) s1 by (cases "alu_iteration s1") auto
  have "gpu_loop (alu_gpu mp alu_reader alu_start) = Some (Inr (alu_gpu mp alu_reader s2))"
    using s1 s2 by (simp add: gpu_loop.simps gpu_iteration_alu [OF assms])
  moreover have "m_gpu_configs (alu_gpu mp alu_reader s2) = alu_config" by (simp add: alu_gpu_def split_beta)
  ultimately show ?thesis by (simp add: gpu_cycle_def gpu_totals_def Let_def alu_values)
qed

lemma alu_occupancy: "max_block_per_sm alu_config alu_info = Inr 1"
proof -
  let ?o = "\<lparr>o_block_size = 32, o_regs = 0, o_smem = 0, o_warp_size = 32, o_max_blocks = 1,
    o_max_threads = 1536, o_reg_unit = 256, o_block_regs = 65536, o_sm_regs = 65536,
    o_smem_unit = 128, o_sm_smem = 102400, o_scheds = 4\<rparr>"
  have "facts_of alu_config alu_info ?o"
    by (simp add: facts_of_def alu_config_def alu_info_def zero_kernel_info_def cap_def
        map_get0_def map_get_str_def stof_examples)
  moreover have "hardware_sized ?o"
    by (simp add: hardware_sized_def o_warp_regs_def o_block_smem_def ceil_div_def)
  moreover have "occupancy ?o = 1"
    by (simp add: occupancy_def blocks_by_smem_def blocks_by_regs_def blocks_by_warps_def o_warps_def ceil_div_def)
  ultimately show ?thesis using max_block_per_sm_int [where o' = ?o] by (simp only:)
qed

lemma alu_build:
  "\<exists>mp. no_memory mp \<and> build_gpu alu_config True = Inr ((alu_gpu mp (new_trace_reader 0)
     (True, [new_sm 0 alu_config alu_l1], new_kernel 0, new_env alu_net True)))"
proof -
  obtain l2 where l2: "cache_config_of (l2_cache_config alu_config) ''l2'' ''l2_cache_sub_partitions'' ''l2'' = Inr l2"
    using alu_values(7) by (cases "cache_config_of (l2_cache_config alu_config) ''l2'' ''l2_cache_sub_partitions'' ''l2''") auto
  have "case memory_config_init alu_config of Inl _ \<Rightarrow> False | Inr mc \<Rightarrow> m_n_sub_partition_per_memory_channel mc = 1"
    by code_simp
  then obtain mc where mc: "memory_config_init alu_config = Inr mc" "m_n_sub_partition_per_memory_channel mc = 1"
    by (cases "memory_config_init alu_config") auto
  have ic: "creat_icnt alu_config = Inr alu_net" by (simp add: creat_icnt_def alu_values alu_net_def)
  show ?thesis
    using mc(2) by (simp add: build_gpu_def alu_values l2 mc ic new_memory_partition_def mp_channels_def
        memory_partition_init_def no_memory_def alu_gpu_def)
qed

lemma alu_spawn:
  "first_spawn_block (alu_gpu mp alu_reader (True, [new_sm 0 alu_config alu_l1], alu_kernel, new_env alu_net True)) =
   Inr (alu_gpu mp alu_reader alu_start)"
proof -
  have k: "m_kernel_info alu_kernel = alu_info" "m_blocks alu_kernel = [(0, alu_block)]" "block_pointer alu_kernel = 0"
    "sint (m_grid_size alu_info) = 1"
    by (simp_all add: alu_kernel_def alu_info_def new_kernel_def)
  have l: "load_mem_request alu_reader 128 (b_block_id alu_block) alu_block = Inr alu_block"
    by (simp add: load_mem_request_def read_mem_def get_block_mem_offsets_def alu_reader_def new_trace_reader_def
        alu_block_def new_block_def new_warp_def)
  have v: "block_vec (new_sm 0 alu_config alu_l1) = []" "(1 :: int) smod 1 = 0"
    by (simp_all add: new_sm_starts signed_modulo_int_def signed_divide_int_def)
  have g: "alu_kernel\<lparr>m_blocks := [(0, alu_block)], block_pointer := 1\<rparr> = alu_kernel\<lparr>block_pointer := 1\<rparr>"
    by (simp add: alu_kernel_def)
  show ?thesis
    by (simp add: first_spawn_block_def Let_def alu_gpu_def alu_start_def k alu_occupancy alu_values spawn_block_def v l g)
qed

theorem simulated_kernel_executed_witness:
  "\<exists>g. run_single_kernel (lines_of (config_lines alu_config)) (lines_of (latency_lines alu_config)) True
      alu_files ''t/'' ''b'' 1 = Some (Inr (Simulated g)) \<and>
    gpu_sim_insn g = 4 \<and> views (m_active_kernel g) (0, 0) = Some ([new_inst alu_inst], 1, 1)"
proof -
  have files: "alu_files (trace_file ''t/'' ''b'' 1 ''.sass'') = Some alu_sass"
    "alu_files (trace_file ''t/'' ''b'' 1 ''.mem'') = Some []"
    by (simp_all add: alu_files_def trace_file_def)
  obtain mp g where mp: "no_memory mp" "build_gpu alu_config True = Inr ((alu_gpu mp (new_trace_reader 0)
     (True, [new_sm 0 alu_config alu_l1], new_kernel 0, new_env alu_net True)))"
    and g: "gpu_cycle (alu_gpu mp alu_reader alu_start) = Some (Inr g)"
    using alu_build alu_cycle by blast
  have "run_single_kernel (lines_of (config_lines alu_config)) (lines_of (latency_lines alu_config)) True
      alu_files ''t/'' ''b'' 1 = Some (Inr (Simulated g))"
    using alu_spawn [of mp] g
    by (simp add: run_single_kernel_def files config_read_back [OF alu_values(11)] obind_def mp launch_kernel_def
        alu_values alu_gpu_def)
  moreover note simulated_kernel_executed [OF this]
  moreover have "dependency_loop 0 [] (warp_trace [alu_inst] 0 0) = [new_inst alu_inst]" "ti_active_thread_num alu_inst = 4"
    "length (warp_trace [alu_inst] 0 0) = 1"
    by code_simp+
  ultimately show ?thesis by (auto simp: files alu_values warp_to_run_def)
qed

end
