(* ===== verification/Checkpoint_Tool.thy ===== *)
theory Checkpoint_Tool
  imports Instrumentation
begin

text \<open>
  The checkpoint tool (\<^verbatim>\<open>others/silicon_checkpoint_tool\<close>): it keeps track of the memory a program has
  allocated on the device and writes the contents of all of it to files after every kernel.  The map
  is unordered in the code, here it is listed by address.  The mutex is held from the entry to the
  exit of a launch, so the events of launches come in the order of the model.  The memory of the
  device is an argument of the events that read it.  The contents of a file are what was written to its
  stream: the code neither closes nor flushes the streams, so they reach the disk when the process
  exits normally, and are lost in part if it does not.
\<close>

section \<open>Counting instructions\<close>

definition lanes_of :: "u32 \<Rightarrow> nat" where
  "lanes_of m = length (filter (bit m) [0..<32])"

text \<open>A call passes the predicate of the instruction, or always 1, and the level of the count.\<close>

record ckpt_call =
  call_at :: instr
  passes_predicate :: bool
  call_level :: int

definition ckpt_first_load :: "instr_interval \<Rightarrow> bool \<Rightarrow> int \<Rightarrow> instr list \<Rightarrow> ckpt_call list" where
  "ckpt_first_load ivl exclude_pred_off count_warp_level is =
     map (\<lambda>i. \<lparr>call_at = i, passes_predicate = exclude_pred_off, call_level = count_warp_level\<rparr>)
       (filter (\<lambda>i. getIdx i \<ge> instr_begin_interval ivl \<and> getIdx i < instr_end_interval ivl) is)"

definition ckpt_count_instrs :: "ckpt_call \<Rightarrow> warp_state \<Rightarrow> u64 \<Rightarrow> u64" where
  "ckpt_count_instrs c w counter =
     (let num_threads = lanes_of (if passes_predicate c then predicate_ballot w else lanes_active w) in
      if call_level c \<noteq> 0 then (if num_threads > 0 then counter + 1 else counter)
      else counter + of_nat num_threads)"

section \<open>The tool\<close>

text \<open>Snapshots are never closed: \<open>open_files\<close> counts them.\<close>

record checkpoint =
  tracking_map :: "(u64, int \<times> u64) std_map"
  callback_tracker :: int
  alloc_count :: int
  ckpt_kernel_id :: u32
  open_files :: nat
  snapshot_files :: "(string, string) std_map"

definition new_checkpoint :: checkpoint where
  "new_checkpoint =
     \<lparr>tracking_map = [], callback_tracker = 0, alloc_count = 0, ckpt_kernel_id = 0, open_files = 0,
      snapshot_files = []\<rparr>"

text \<open>The calls of the driver the tool looks at, with what it reads of their parameters: \<open>*dptr\<close> at
  the time of the event and the size, the address to free, and the memory a kernel leaves.\<close>

datatype ckpt_event =
    Mem_Alloc u64 u64
  | Mem_Free u64
  | Memcpy_HtoD
  | Kernel_Launch "u64 \<Rightarrow> u8"

definition snapshot_name :: "u32 \<Rightarrow> int \<Rightarrow> string" where
  "snapshot_name k n = to_string (uint k) @ ''_'' @ to_string n @ ''.txt''"

definition snapshot_text :: "(u64 \<Rightarrow> u8) \<Rightarrow> u64 \<Rightarrow> u64 \<Rightarrow> string" where
  "snapshot_text mem p bytes =
     concat (map (\<lambda>i. to_string (uint (mem (p + of_nat i))) @ '' '') [0..<unat bytes])"

text \<open>\<open>fopen\<close> fails when \<open>limit\<close> files are open; the null pointer reaches \<open>fprintf\<close> with the first byte.\<close>

definition write_snapshot :: "nat \<Rightarrow> (u64 \<Rightarrow> u8) \<Rightarrow> u64 \<times> int \<times> u64 \<Rightarrow> checkpoint \<Rightarrow> checkpoint res" where
  "write_snapshot limit mem = (\<lambda>(p, n, bytes) t.
     if open_files t < limit then
       Inr (t\<lparr>open_files := open_files t + 1,
              snapshot_files :=
                map_put (snapshot_name (ckpt_kernel_id t) n) (snapshot_text mem p bytes) (snapshot_files t)\<rparr>)
     else guard (bytes = 0) Undefined_Behaviour (Inr t))"

text \<open>The entry and the exit of a call are told apart by the parity of a counter, not by \<open>is_exit\<close>.\<close>

definition ckpt_cuda_event :: "nat \<Rightarrow> bool \<times> ckpt_event \<Rightarrow> checkpoint \<Rightarrow> checkpoint res" where
  "ckpt_cuda_event limit = (\<lambda>(is_exit, ev) t.
     case ev of
       Mem_Alloc p bytes \<Rightarrow>
         (let t = t\<lparr>callback_tracker := callback_tracker t + 1\<rparr> in
          if callback_tracker t mod 2 = 0 then
            Inr (t\<lparr>tracking_map := map_insert p (alloc_count t, bytes) (tracking_map t),
                   alloc_count := alloc_count t + 1\<rparr>)
          else Inr t)
     | Mem_Free p \<Rightarrow>
         (let t = t\<lparr>callback_tracker := callback_tracker t + 1\<rparr> in
          if callback_tracker t mod 2 = 0 then Inr (t\<lparr>tracking_map := map_erase p (tracking_map t)\<rparr>)
          else Inr t)
     | Memcpy_HtoD \<Rightarrow> Inr t
     | Kernel_Launch mem \<Rightarrow>
         (if \<not> is_exit then Inr t
          else
            rbind (foldM (write_snapshot limit mem) (tracking_map t) t) (\<lambda>t.
              Inr (t\<lparr>ckpt_kernel_id := ckpt_kernel_id t + 1\<rparr>))))"

section \<open>The calls of a program\<close>

text \<open>Every call of the driver comes twice.  On entry of an allocation \<open>*dptr\<close> is whatever the program left
  there.\<close>

datatype api_call =
    Alloc_Call (left_there: u64) (dptr: u64) (bytesize: u64)
  | Free_Call (freed: u64)
  | Copy_Call
  | Kernel_Call (memory: "u64 \<Rightarrow> u8")

fun call_events :: "api_call \<Rightarrow> (bool \<times> ckpt_event) list" where
  "call_events (Alloc_Call q p b) = [(False, Mem_Alloc q b), (True, Mem_Alloc p b)]"
| "call_events (Free_Call p) = [(False, Mem_Free p), (True, Mem_Free p)]"
| "call_events Copy_Call = [(False, Memcpy_HtoD), (True, Memcpy_HtoD)]"
| "call_events (Kernel_Call mem) = [(False, Kernel_Launch mem), (True, Kernel_Launch mem)]"

definition ckpt_run :: "nat \<Rightarrow> api_call list \<Rightarrow> checkpoint \<Rightarrow> checkpoint res" where
  "ckpt_run limit cs = foldM (ckpt_cuda_event limit) (concat (map call_events cs))"

section \<open>What a snapshot is to be\<close>

definition allocs_in :: "api_call list \<Rightarrow> nat" where
  "allocs_in cs = length (filter is_Alloc_Call cs)"

definition kernels_in :: "api_call list \<Rightarrow> nat" where
  "kernels_in cs = length (filter is_Kernel_Call cs)"

text \<open>The \<open>n\<close>-th allocation of the program returned \<open>p\<close>, and \<open>p\<close> has not been freed since.\<close>

definition live_alloc :: "api_call list \<Rightarrow> int \<Rightarrow> u64 \<Rightarrow> u64 \<Rightarrow> bool" where
  "live_alloc cs n p b \<longleftrightarrow>
     (\<exists>i<length cs. \<exists>q. cs ! i = Alloc_Call q p b \<and> n = int (allocs_in (take i cs)) \<and>
        (\<forall>j<length cs. i < j \<longrightarrow> cs ! j \<noteq> Free_Call p))"

text \<open>The driver does not return memory that is in use.\<close>

definition fresh_allocs :: "api_call list \<Rightarrow> bool" where
  "fresh_allocs cs \<longleftrightarrow>
     (\<forall>i<length cs. \<forall>q p b. cs ! i = Alloc_Call q p b \<longrightarrow> (\<nexists>n b'. live_alloc (take i cs) n p b'))"

text \<open>The snapshot of a live allocation behind a kernel.\<close>

definition snapshot_of :: "api_call list \<Rightarrow> string \<Rightarrow> string \<Rightarrow> bool" where
  "snapshot_of cs name data \<longleftrightarrow>
     (\<exists>i<length cs. \<exists>mem p n b. cs ! i = Kernel_Call mem \<and> live_alloc (take i cs) n p b \<and>
        name = snapshot_name (of_nat (kernels_in (take i cs))) n \<and> data = snapshot_text mem p b)"

definition snapshots_in :: "api_call list \<Rightarrow> nat" where
  "snapshots_in cs =
     (\<Sum>i<length cs. if is_Kernel_Call (cs ! i) then card {p. \<exists>n b. live_alloc (take i cs) n p b} else 0)"

lemma snoc_counts [simp]:
  "allocs_in (cs @ [c]) = allocs_in cs + (if is_Alloc_Call c then 1 else 0)"
  "kernels_in (cs @ [c]) = kernels_in cs + (if is_Kernel_Call c then 1 else 0)"
  by (simp_all add: allocs_in_def kernels_in_def)

lemma nothing_called [simp]:
  "allocs_in [] = 0" "kernels_in [] = 0" "snapshots_in [] = 0" "\<not> live_alloc [] n p b" "\<not> snapshot_of [] name data"
  by (simp_all add: allocs_in_def kernels_in_def snapshots_in_def live_alloc_def snapshot_of_def)

lemma ex_less_snoc: "(\<exists>i<length (cs @ [c]). P i) \<longleftrightarrow> P (length cs) \<or> (\<exists>i<length cs. P i)"
  by (auto simp: less_Suc_eq)

lemma all_less_snoc: "(\<forall>i<length (cs @ [c]). P i) \<longleftrightarrow> P (length cs) \<and> (\<forall>i<length cs. P i)"
  by (auto simp: less_Suc_eq)

lemma live_alloc_snoc:
  "live_alloc (cs @ [c]) n p b \<longleftrightarrow>
     (\<exists>q. c = Alloc_Call q p b) \<and> n = int (allocs_in cs) \<or> live_alloc cs n p b \<and> c \<noteq> Free_Call p"
proof -
  have "(\<exists>q. (cs @ [c]) ! i = Alloc_Call q p b \<and> n = int (allocs_in (take i (cs @ [c]))) \<and>
        (\<forall>j<length (cs @ [c]). i < j \<longrightarrow> (cs @ [c]) ! j \<noteq> Free_Call p)) \<longleftrightarrow>
      (\<exists>q. cs ! i = Alloc_Call q p b \<and> n = int (allocs_in (take i cs)) \<and>
        (\<forall>j<length cs. i < j \<longrightarrow> cs ! j \<noteq> Free_Call p)) \<and> c \<noteq> Free_Call p"
    if "i < length cs" for i
    using that unfolding all_less_snoc by (auto simp: nth_append)
  then show ?thesis
    unfolding live_alloc_def ex_less_snoc [of cs c] by (auto simp: all_less_snoc nth_append cong: conj_cong)
qed

lemma snapshot_of_snoc:
  "snapshot_of (cs @ [c]) name data \<longleftrightarrow> snapshot_of cs name data \<or>
     (\<exists>mem p n b. c = Kernel_Call mem \<and> live_alloc cs n p b \<and>
        name = snapshot_name (of_nat (kernels_in cs)) n \<and> data = snapshot_text mem p b)"
  unfolding snapshot_of_def ex_less_snoc by (simp add: nth_append disj_commute cong: conj_cong)

lemma fresh_allocs_snoc:
  "fresh_allocs (cs @ [c]) \<longleftrightarrow>
     fresh_allocs cs \<and> (\<forall>q p b. c = Alloc_Call q p b \<longrightarrow> (\<nexists>n b'. live_alloc cs n p b'))"
  unfolding fresh_allocs_def all_less_snoc by (auto simp: nth_append)

lemma snapshots_in_snoc:
  "snapshots_in (cs @ [c]) =
     snapshots_in cs + (if is_Kernel_Call c then card {p. \<exists>n b. live_alloc cs n p b} else 0)"
  by (auto simp: snapshots_in_def nth_append intro!: sum.cong)

section \<open>Names\<close>

lemma snapshot_name_inj:
  assumes "snapshot_name k n = snapshot_name k' n'" "0 \<le> n" "0 \<le> n'"
  shows "k = k' \<and> n = n'"
proof -
  have digits: "to_string (uint (w :: u32)) = digits_of (unat w)" for w
    by (simp add: to_string_def)
  have name: "snapshot_name w m = digits_of (unat w) @ CHR ''_'' # digits_of (nat m) @ CHR ''.'' # ''txt''"
    if "0 \<le> m" for w m
    using that by (simp add: snapshot_name_def digits) (simp add: to_string_def)
  have no: "\<not> is_digit (CHR ''_'')" "\<not> is_digit (CHR ''.'')" by (simp_all add: is_digit_def)
  have "digits_of (unat k) @ CHR ''_'' # digits_of (nat n) @ CHR ''.'' # ''txt'' =
      digits_of (unat k') @ CHR ''_'' # digits_of (nat n') @ CHR ''.'' # ''txt''"
    using assms name by simp
  from arg_cong [OF this, of "takeWhile is_digit"] arg_cong [OF this, of "dropWhile is_digit"]
  have "digits_of (unat k) = digits_of (unat k')" "digits_of (nat n) @ CHR ''.'' # ''txt'' = digits_of (nat n') @ CHR ''.'' # ''txt''"
    using no by (simp_all add: takeWhile_digits_of)
  moreover from arg_cong [OF this(2), of "takeWhile is_digit"] have "digits_of (nat n) = digits_of (nat n')"
    using no by (simp add: takeWhile_digits_of)
  ultimately have "int (unat k) = int (unat k')" "int (nat n) = int (nat n')"
    by (metis decimal_digits_of)+
  then show ?thesis using assms(2,3) by (simp add: word_uint_eq_iff)
qed

section \<open>The tool follows the program\<close>

definition follows :: "api_call list \<Rightarrow> checkpoint \<Rightarrow> bool" where
  "follows cs t \<longleftrightarrow>
     wf_map (tracking_map t) \<and> wf_map (snapshot_files t) \<and> even (callback_tracker t) \<and>
     alloc_count t = int (allocs_in cs) \<and> ckpt_kernel_id t = of_nat (kernels_in cs) \<and>
     (\<forall>p n b. map_of (tracking_map t) p = Some (n, b) \<longleftrightarrow> live_alloc cs n p b) \<and>
     open_files t = length (snapshot_files t) \<and> open_files t = snapshots_in cs \<and>
     (\<forall>name data. map_of (snapshot_files t) name = Some data \<longleftrightarrow> snapshot_of cs name data)"

lemma live_number: "live_alloc cs n p b \<Longrightarrow> 0 \<le> n \<and> n < int (allocs_in cs)"
proof (induction cs rule: rev_induct)
  case (snoc c cs)
  then show ?case by (auto simp: live_alloc_snoc)
qed simp

lemma live_number_unique: "live_alloc cs n p b \<Longrightarrow> live_alloc cs n p' b' \<Longrightarrow> p = p'"
proof (induction cs rule: rev_induct)
  case (snoc c cs)
  then show ?case using live_number by (fastforce simp: live_alloc_snoc)
qed simp

lemma snapshot_number:
  assumes "snapshot_of cs name data"
  obtains k n where "name = snapshot_name (of_nat k) n" "k < kernels_in cs" "0 \<le> n"
proof -
  have "snapshot_of cs name data \<Longrightarrow> \<exists>k n. name = snapshot_name (of_nat k) n \<and> k < kernels_in cs \<and> 0 \<le> n"
  proof (induction cs rule: rev_induct)
    case (snoc c cs)
    then show ?case using live_number by (fastforce simp: snapshot_of_snoc)
  qed simp
  with assms that show ?thesis by blast
qed

lemma write_snapshots:
  assumes "wf_map (snapshot_files t)" "ckpt_kernel_id t = k" "open_files t + length es \<le> limit"
    and "distinct (map (fst \<circ> snd) es)" "\<forall>e \<in> set es. 0 \<le> fst (snd e)"
    and "\<forall>e \<in> set es. map_of (snapshot_files t) (snapshot_name k (fst (snd e))) = None"
  shows "\<exists>fs. foldM (write_snapshot limit mem) es t =
      Inr (t\<lparr>open_files := open_files t + length es, snapshot_files := fs\<rparr>) \<and>
    wf_map fs \<and> length fs = length (snapshot_files t) + length es \<and>
    (\<forall>name data. map_of fs name = Some data \<longleftrightarrow> map_of (snapshot_files t) name = Some data \<or>
       (\<exists>p n b. (p, n, b) \<in> set es \<and> name = snapshot_name k n \<and> data = snapshot_text mem p b))"
  using assms
proof (induction es arbitrary: t)
  case (Cons e es)
  obtain p n b where e: "e = (p, n, b)" by (cases e)
  let ?t = "t\<lparr>open_files := open_files t + 1,
    snapshot_files := map_put (snapshot_name k n) (snapshot_text mem p b) (snapshot_files t)\<rparr>"
  have step: "write_snapshot limit mem e t = Inr ?t"
    using Cons.prems(2,3) by (simp add: write_snapshot_def e)
  have new: "map_of (snapshot_files t) (snapshot_name k n) = None" using Cons.prems(6) e by simp
  have put: "map_of (snapshot_files ?t) = (map_of (snapshot_files t))(snapshot_name k n \<mapsto> snapshot_text mem p b)"
    using Cons.prems(1) by (simp add: map_of_put)
  have other: "\<forall>e \<in> set es. snapshot_name k (fst (snd e)) \<noteq> snapshot_name k n"
    using Cons.prems(4,5) e by (auto dest!: snapshot_name_inj)
  then have "\<forall>e \<in> set es. map_of (snapshot_files ?t) (snapshot_name k (fst (snd e))) = None"
    using Cons.prems(6) put by simp
  with Cons.IH [of ?t] Cons.prems obtain fs where fs: "foldM (write_snapshot limit mem) es ?t =
      Inr (?t\<lparr>open_files := open_files ?t + length es, snapshot_files := fs\<rparr>)" "wf_map fs"
      "length fs = length (snapshot_files ?t) + length es"
      "\<forall>name data. map_of fs name = Some data \<longleftrightarrow> map_of (snapshot_files ?t) name = Some data \<or>
         (\<exists>p n b. (p, n, b) \<in> set es \<and> name = snapshot_name k n \<and> data = snapshot_text mem p b)"
    by (auto simp: wf_map_put)
  have "length (snapshot_files ?t) = Suc (length (snapshot_files t))"
    using Cons.prems(1) new by (simp add: length_map_put)
  moreover have "map_of fs name = Some data \<longleftrightarrow> map_of (snapshot_files t) name = Some data \<or>
       (\<exists>p n b. (p, n, b) \<in> set (e # es) \<and> name = snapshot_name k n \<and> data = snapshot_text mem p b)" for name data
  proof (cases "name = snapshot_name k n")
    case True
    have no: "(p', n', b') \<in> set es \<Longrightarrow> snapshot_name k n \<noteq> snapshot_name k n'" for p' n' b'
      using other by fastforce
    then have "map_of fs name = Some data \<longleftrightarrow> data = snapshot_text mem p b"
      unfolding True using fs(4) put by auto
    then show ?thesis unfolding True using new no by (auto simp: e)
  next
    case False
    then have "map_of (snapshot_files ?t) name = map_of (snapshot_files t) name" using put by simp
    with fs(4) [rule_format, of name data] False e show ?thesis by auto
  qed
  ultimately show ?case using fs(1-3) step by (intro exI [of _ fs]) simp
next
  case Nil
  then show ?case by (intro exI [of _ "snapshot_files t"]) simp
qed

lemma write_snapshots_fail:
  assumes "open_files t \<le> limit" "limit < open_files t + length es" "\<forall>e \<in> set es. snd (snd e) \<noteq> 0"
  shows "foldM (write_snapshot limit mem) es t = Inl Undefined_Behaviour"
  using assms
proof (induction es arbitrary: t)
  case (Cons e es)
  obtain p n b where e: "e = (p, n, b)" by (cases e)
  show ?case
  proof (cases "open_files t < limit")
    case True
    with Cons show ?thesis by (simp add: write_snapshot_def e)
  next
    case False
    with Cons.prems(3) show ?thesis by (simp add: write_snapshot_def e)
  qed
qed simp

lemma ckpt_run_snoc:
  "ckpt_run limit (cs @ [c]) t = rbind (ckpt_run limit cs t) (foldM (ckpt_cuda_event limit) (call_events c))"
  by (simp add: ckpt_run_def foldM_append)

lemma rbind_Inr [simp]: "rbind r Inr = r"
  by (cases r) simp_all

lemma even_tracker: "even (k :: int) \<Longrightarrow> (k + 1) mod 2 = 1 \<and> (k + 2) mod 2 = 0"
  by presburger

lemma follows_tracked:
  assumes "follows cs t"
  shows "length (tracking_map t) = card {p. \<exists>n b. live_alloc cs n p b}"
    "distinct (map (fst \<circ> snd) (tracking_map t))"
proof -
  have wf: "wf_map (tracking_map t)" and live: "\<And>p n b. map_of (tracking_map t) p = Some (n, b) \<longleftrightarrow> live_alloc cs n p b"
    using assms by (simp_all add: follows_def)
  have "{p. \<exists>n b. live_alloc cs n p b} = set (map fst (tracking_map t))"
    using live by (auto simp: dom_map_of_conv_image_fst [symmetric] dom_def)
  then show "length (tracking_map t) = card {p. \<exists>n b. live_alloc cs n p b}"
    using distinct_card [OF wf_map_distinct [OF wf]] by simp
  have entry: "(p, n, b) \<in> set (tracking_map t) \<longleftrightarrow> live_alloc cs n p b" for p n b
    using live map_of_eq_Some_iff [OF wf_map_distinct [OF wf]] by simp
  have "inj_on (fst \<circ> snd) (set (tracking_map t))"
  proof (rule inj_onI)
    fix x y assume "x \<in> set (tracking_map t)" "y \<in> set (tracking_map t)" "(fst \<circ> snd) x = (fst \<circ> snd) y"
    moreover obtain p n b p' n' b' where "x = (p, n, b)" "y = (p', n', b')" by (cases x; cases y)
    ultimately have "fst x = fst y" using entry live_number_unique by auto
    then show "x = y" using \<open>x \<in> _\<close> \<open>y \<in> _\<close> wf_map_distinct [OF wf] by (metis eq_key_imp_eq_value prod.collapse)
  qed
  then show "distinct (map (fst \<circ> snd) (tracking_map t))"
    using wf_map_distinct [OF wf] by (simp add: distinct_map)
qed

text \<open>One call of the driver.\<close>

lemma follows_start: "follows [] new_checkpoint"
  by (simp add: follows_def new_checkpoint_def)

lemma follows_alloc:
  assumes "follows cs t" "fresh_allocs (cs @ [Alloc_Call q p b])"
  shows "\<exists>t'. foldM (ckpt_cuda_event limit) (call_events (Alloc_Call q p b)) t = Inr t' \<and>
    follows (cs @ [Alloc_Call q p b]) t'"
proof -
  have dead: "\<not> live_alloc cs n p b'" for n b' using assms(2) by (simp add: fresh_allocs_snoc)
  then have "map_of (tracking_map t) p = None"
    using assms(1) by (cases "map_of (tracking_map t) p") (auto simp: follows_def)
  with assms(1) even_tracker dead show ?thesis
    by (auto simp: ckpt_cuda_event_def follows_def map_insert_def map_of_put wf_map_put live_alloc_snoc snapshot_of_snoc
        snapshots_in_snoc)
qed

lemma follows_free:
  assumes "follows cs t"
  shows "\<exists>t'. foldM (ckpt_cuda_event limit) (call_events (Free_Call p)) t = Inr t' \<and> follows (cs @ [Free_Call p]) t'"
  using assms even_tracker
  by (auto simp: ckpt_cuda_event_def follows_def map_of_erase wf_map_erase live_alloc_snoc snapshot_of_snoc
      snapshots_in_snoc)

lemma follows_copy:
  assumes "follows cs t"
  shows "foldM (ckpt_cuda_event limit) (call_events Copy_Call) t = Inr t \<and> follows (cs @ [Copy_Call]) t"
  using assms by (simp add: ckpt_cuda_event_def follows_def live_alloc_snoc snapshot_of_snoc snapshots_in_snoc)

lemma follows_entries:
  assumes "follows cs t"
  shows "(p, n, b) \<in> set (tracking_map t) \<longleftrightarrow> live_alloc cs n p b"
proof -
  have "wf_map (tracking_map t)" using assms by (simp add: follows_def)
  from map_of_eq_Some_iff [OF wf_map_distinct [OF this], of p "(n, b)"] assms show ?thesis
    by (simp add: follows_def)
qed

lemma kernel_new_names:
  assumes "follows cs t" "kernels_in cs < 2 ^ 32" "live_alloc cs n p b"
  shows "map_of (snapshot_files t) (snapshot_name (of_nat (kernels_in cs)) n) = None"
proof (rule ccontr)
  assume "map_of (snapshot_files t) (snapshot_name (of_nat (kernels_in cs)) n) \<noteq> None"
  then obtain data where "snapshot_of cs (snapshot_name (of_nat (kernels_in cs)) n) data"
    using assms(1) by (auto simp: follows_def)
  then obtain k m where "snapshot_name (of_nat (kernels_in cs)) n = snapshot_name (of_nat k) m" "k < kernels_in cs" "0 \<le> m"
    by (rule snapshot_number)
  moreover have "0 \<le> n" using live_number [OF assms(3)] by simp
  ultimately have "of_nat (kernels_in cs) = (of_nat k :: u32)" using snapshot_name_inj by blast
  then have "unat (of_nat (kernels_in cs) :: u32) = unat (of_nat k :: u32)" by simp
  with assms(2) \<open>k < _\<close> show False by (simp add: unat_of_nat)
qed

lemma follows_kernel:
  assumes "follows cs t" "kernels_in cs < 2 ^ 32" "snapshots_in (cs @ [Kernel_Call mem]) \<le> limit"
  shows "\<exists>t'. foldM (ckpt_cuda_event limit) (call_events (Kernel_Call mem)) t = Inr t' \<and>
    follows (cs @ [Kernel_Call mem]) t'"
proof -
  let ?k = "of_nat (kernels_in cs) :: u32"
  note tracked = follows_tracked [OF assms(1)] follows_entries [OF assms(1)]
  have start: "wf_map (snapshot_files t)" "ckpt_kernel_id t = ?k" "open_files t = snapshots_in cs"
      "length (snapshot_files t) = open_files t"
    using assms(1) by (simp_all add: follows_def)
  have room: "open_files t + length (tracking_map t) \<le> limit"
    using assms(3) tracked(1) start(3) by (simp add: snapshots_in_snoc)
  have numbers: "\<forall>e \<in> set (tracking_map t). 0 \<le> fst (snd e)"
    "\<forall>e \<in> set (tracking_map t). map_of (snapshot_files t) (snapshot_name ?k (fst (snd e))) = None"
    using tracked(3) live_number kernel_new_names [OF assms(1,2)] by auto
  from write_snapshots [OF start(1,2) room tracked(2) numbers] obtain fs where
    "foldM (write_snapshot limit mem) (tracking_map t) t =
       Inr (t\<lparr>open_files := open_files t + length (tracking_map t), snapshot_files := fs\<rparr>)"
    "wf_map fs" "length fs = length (snapshot_files t) + length (tracking_map t)"
    "\<forall>name data. map_of fs name = Some data \<longleftrightarrow> map_of (snapshot_files t) name = Some data \<or>
       (\<exists>p n b. (p, n, b) \<in> set (tracking_map t) \<and> name = snapshot_name ?k n \<and> data = snapshot_text mem p b)"
    by blast
  with assms(1) tracked(1,3) show ?thesis
    by (simp add: ckpt_cuda_event_def follows_def live_alloc_snoc snapshot_of_snoc snapshots_in_snoc)
qed

lemma follows_call:
  assumes "follows cs t" "fresh_allocs (cs @ [c])" "kernels_in (cs @ [c]) \<le> 2 ^ 32" "snapshots_in (cs @ [c]) \<le> limit"
  shows "\<exists>t'. foldM (ckpt_cuda_event limit) (call_events c) t = Inr t' \<and> follows (cs @ [c]) t'"
proof (cases c)
  case (Kernel_Call mem)
  then have "kernels_in cs < 2 ^ 32" using assms(3) by simp
  from follows_kernel [OF assms(1) this, of mem limit] assms(4) show ?thesis unfolding Kernel_Call by blast
qed (use assms follows_alloc follows_free follows_copy in blast)+

lemma ckpt_run_follows:
  assumes "fresh_allocs cs" "kernels_in cs \<le> 2 ^ 32" "snapshots_in cs \<le> limit"
  shows "\<exists>t. ckpt_run limit cs new_checkpoint = Inr t \<and> follows cs t"
  using assms
proof (induction cs rule: rev_induct)
  case Nil
  then show ?case using follows_start by (simp add: ckpt_run_def)
next
  case (snoc c cs)
  then obtain t where "ckpt_run limit cs new_checkpoint = Inr t" "follows cs t"
    by (auto simp: fresh_allocs_snoc snapshots_in_snoc split: if_splits)
  then show ?case using follows_call snoc.prems by (simp add: ckpt_run_snoc)
qed

text \<open>C39. The snapshots are the memory: whatever a program allocates, frees and launches, as long as the
  files can be opened, there is one file for every kernel and every allocation alive at its end, none
  is overwritten, each is named after the kernel and the allocation, and it holds what the allocation
  held when the kernel ended; there are no other files.\<close>

theorem snapshots_exact:
  assumes "fresh_allocs cs" "kernels_in cs \<le> 2 ^ 32" "snapshots_in cs \<le> limit"
  shows "\<exists>t. ckpt_run limit cs new_checkpoint = Inr t \<and> length (snapshot_files t) = snapshots_in cs \<and>
    (\<forall>name data. (name, data) \<in> set (snapshot_files t) \<longleftrightarrow> snapshot_of cs name data)"
proof -
  obtain t where t: "ckpt_run limit cs new_checkpoint = Inr t" "follows cs t"
    using ckpt_run_follows [OF assms] by blast
  then have "wf_map (snapshot_files t)" by (simp add: follows_def)
  then have "(name, data) \<in> set (snapshot_files t) \<longleftrightarrow> map_of (snapshot_files t) name = Some data" for name data
    by (simp add: wf_map_distinct)
  with t show ?thesis by (simp add: follows_def)
qed

text \<open>The files are never closed, so in the end no more can be opened: the tool takes the program down.\<close>

theorem files_run_out:
  assumes "fresh_allocs cs" "kernels_in cs \<le> 2 ^ 32" "limit < snapshots_in cs"
    and "\<forall>c \<in> set cs. is_Alloc_Call c \<longrightarrow> bytesize c \<noteq> 0"
  shows "ckpt_run limit cs new_checkpoint = Inl Undefined_Behaviour"
  using assms
proof (induction cs rule: rev_induct)
  case (snoc c cs)
  show ?case
  proof (cases "limit < snapshots_in cs")
    case True
    with snoc show ?thesis by (simp add: ckpt_run_snoc fresh_allocs_snoc split: if_splits)
  next
    case False
    with snoc.prems obtain t where t: "ckpt_run limit cs new_checkpoint = Inr t" "follows cs t"
      using ckpt_run_follows [of cs limit] by (auto simp: fresh_allocs_snoc split: if_splits)
    obtain mem where c: "c = Kernel_Call mem" using False snoc.prems(3) by (cases c) (auto simp: snapshots_in_snoc)
    have "b \<noteq> 0" if live: "live_alloc cs n p b" for n p b
    proof -
      obtain q where "Alloc_Call q p b \<in> set cs" using live unfolding live_alloc_def by (metis nth_mem)
      with snoc.prems(4) show ?thesis by fastforce
    qed
    then have "\<forall>e \<in> set (tracking_map t). snd (snd e) \<noteq> 0" using follows_entries [OF t(2)] by auto
    moreover have "open_files t \<le> limit" "limit < open_files t + length (tracking_map t)"
      using False snoc.prems(3) t(2) follows_tracked(1) [OF t(2)] c by (simp_all add: follows_def snapshots_in_snoc)
    ultimately have "foldM (write_snapshot limit mem) (tracking_map t) t = Inl Undefined_Behaviour"
      by (intro write_snapshots_fail)
    with t(1) c show ?thesis by (simp add: ckpt_run_snoc ckpt_cuda_event_def)
  qed
qed simp

text \<open>The counter takes the entry of a second thread's call for the exit of the first one's.\<close>

theorem interleaved_allocations:
  "foldM (ckpt_cuda_event limit)
     [(False, Mem_Alloc 0 16), (False, Mem_Alloc 0 32), (True, Mem_Alloc 256 16), (True, Mem_Alloc 512 32)] new_checkpoint =
   Inr (new_checkpoint\<lparr>tracking_map := [(0, (0, 32)), (512, (1, 32))], callback_tracker := 4, alloc_count := 2\<rparr>)"
  by (simp add: ckpt_cuda_event_def new_checkpoint_def map_insert_def)

definition two_kernels :: "api_call list" where
  "two_kernels = [Alloc_Call 0 256 2, Kernel_Call (\<lambda>_. 7), Free_Call 256, Alloc_Call 256 256 1, Kernel_Call (\<lambda>p. ucast p + 9)]"

lemma snapshot_values:
  "snapshot_name 0 0 = ''0_0.txt''" "snapshot_name 1 1 = ''1_1.txt''" "snapshot_text (\<lambda>_. 7) p 2 = ''7 7 ''"
  "snapshot_text (\<lambda>p. ucast p + 9) 256 1 = ''9 ''"
proof -
  have "to_string 0 = ''0''" "to_string 1 = ''1''" "to_string 7 = ''7''" "to_string 9 = ''9''" by code_simp+
  moreover have upt: "[0..<unat (2 :: u64)] = [0, 1]" "[0..<unat (1 :: u64)] = [0]" by (simp_all add: upt_rec)
  ultimately show "snapshot_name 0 0 = ''0_0.txt''" "snapshot_name 1 1 = ''1_1.txt''" "snapshot_text (\<lambda>_. 7) p 2 = ''7 7 ''"
    "snapshot_text (\<lambda>p. ucast p + 9) 256 1 = ''9 ''"
    by (simp_all add: snapshot_name_def snapshot_text_def upt)
qed

theorem snapshots_exact_witness:
  "\<exists>t. ckpt_run 1020 two_kernels new_checkpoint = Inr t \<and> length (snapshot_files t) = 2 \<and>
     (''0_0.txt'', ''7 7 '') \<in> set (snapshot_files t) \<and> (''1_1.txt'', ''9 '') \<in> set (snapshot_files t)"
proof -
  have steps: "two_kernels = (((([] @ [Alloc_Call 0 256 2]) @ [Kernel_Call (\<lambda>_. 7)]) @ [Free_Call 256]) @
      [Alloc_Call 256 256 1]) @ [Kernel_Call (\<lambda>p. ucast p + 9)]"
    by (simp add: two_kernels_def)
  have fresh: "fresh_allocs two_kernels"
    unfolding steps by (simp only: fresh_allocs_snoc live_alloc_snoc) (simp add: fresh_allocs_def)
  have snapshots: "snapshots_in two_kernels = 2"
  proof -
    have "{p. \<exists>n b. live_alloc ([] @ [Alloc_Call 0 256 2]) n p b} = {256}"
      "{p. \<exists>n b. live_alloc (((([] @ [Alloc_Call 0 256 2]) @ [Kernel_Call (\<lambda>_. 7)]) @ [Free_Call 256]) @
         [Alloc_Call 256 256 1]) n p b} = {256}"
      by (simp_all only: live_alloc_snoc) auto
    then show ?thesis unfolding steps by (simp only: snapshots_in_snoc, simp)
  qed
  have "snapshot_of two_kernels ''0_0.txt'' ''7 7 ''" "snapshot_of two_kernels ''1_1.txt'' ''9 ''"
    unfolding steps
    by (simp_all only: snapshot_of_snoc live_alloc_snoc snoc_counts) (simp_all add: snapshot_values, (metis snapshot_values)+)
  with snapshots_exact [OF fresh, of 1020] snapshots show ?thesis
    by (auto simp: two_kernels_def kernels_in_def)
qed

end
