(* ===== verification/Bbv_Tool.thy ===== *)
theory Bbv_Tool
  imports Checkpoint_Tool Spinlock_Histogram
begin

text \<open>
  The tools that count basic blocks (\<^verbatim>\<open>others/bbv_tool\<close>): \<^verbatim>\<open>bbv_count\<close> writes for every warp of a
  kernel how many threads entered each basic block, \<^verbatim>\<open>bbv_count_tb\<close> writes for every thread block how
  many instructions its threads executed in each.  A pointer that has no memory is the empty list:
  every access through it is undefined.  The entries of a table are 32-bit ints, read with their sign;
  an atomic addition to one wraps, an overflow of any other is undefined.  Managed memory of size 0 is not allocated.  The mutex is held
  from the entry to the exit of a launch.
\<close>

section \<open>What both tools share\<close>

datatype bbv_call =
    Count_Instrs instr u32 int u32
  | Count_Pred_Off instr int

text \<open>A function as NVBit describes it: its basic blocks, and its instructions with whether they have a
  predicate.\<close>

record bbv_function =
  bf_blocks :: "instr list list"
  bf_instrs :: "(instr \<times> bool) list"

record bbv_options =
  bbv_begin :: u32
  bbv_end :: u32
  bbv_level :: int
  bbv_exclude_pred_off :: bool

text \<open>\<open>tot_units\<close> is \<open>tot_threads\<close> in the one tool and \<open>tot_blocks\<close> in the other; \<open>kernel_id\<close> stays 0.\<close>

record bbv_tool =
  bbv_kernel_id :: u32
  bbv_first :: bool
  tot_units :: u32
  basic_blocks :: u32
  kbb_map :: "(string, int) std_map"
  bbv :: "u32 list"
  bbv_counter :: u64
  bbv_instrumented :: bool
  bbv_inserted :: "bbv_call list"
  bb_files :: "(string, string) std_map"

text \<open>The injected functions, for a warp.\<close>

definition bbv_add :: "bool \<Rightarrow> u32 \<Rightarrow> nat \<Rightarrow> 'a bbv_tool_scheme \<Rightarrow> 'a bbv_tool_scheme res" where
  "bbv_add atomic i n t =
     (if unat i < length (bbv t) \<and> (atomic \<or> sint (bbv t ! unat i) + int n < 2 ^ 31)
      then Inr (t\<lparr>bbv := (bbv t)[unat i := bbv t ! unat i + of_nat n]\<rparr>)
      else Inl Undefined_Behaviour)"

definition count_pred_off :: "int \<Rightarrow> warp_state \<Rightarrow> 'a bbv_tool_scheme \<Rightarrow> 'a bbv_tool_scheme" where
  "count_pred_off count_warp_level w t =
     (let predicate = predicate_ballot w;
          off = lanes_of (lanes_active w XOR predicate) in
      t\<lparr>bbv_counter :=
          (if count_warp_level \<noteq> 0 then (if predicate = 0 then bbv_counter t - 1 else bbv_counter t)
           else bbv_counter t - of_nat off)\<rparr>)"

definition alloc_vectors :: "u32 \<Rightarrow> 'a bbv_tool_scheme \<Rightarrow> 'a bbv_tool_scheme" where
  "alloc_vectors rows t = t\<lparr>bbv := replicate (unat (rows * basic_blocks t)) 0\<rparr>"

definition bbv_calls :: "bbv_options \<Rightarrow> bbv_function \<Rightarrow> bbv_call list res" where
  "bbv_calls opt f =
     guard (\<forall>bb \<in> set (bf_blocks f). bb \<noteq> []) Undefined_Behaviour
       (Inr (map (\<lambda>(k, bb). Count_Instrs (hd bb) (of_nat (length bb)) (bbv_level opt) (of_nat k))
               (List.enumerate 0 (bf_blocks f)) @
             (if bbv_exclude_pred_off opt
              then map (\<lambda>(i, p). Count_Pred_Off i (bbv_level opt)) (filter snd (bf_instrs f)) else [])))"

text \<open>The conversion of the size of a vector to \<open>int\<close>.\<close>

definition int_size :: "'a list \<Rightarrow> int" where
  "int_size xs = sint (of_nat (length xs) :: u32)"

text \<open>\<open>rows\<close> turns the number of threads or blocks into the number of vectors.\<close>

definition bbv_first_load ::
  "(u32 \<Rightarrow> u32) \<Rightarrow> bbv_options \<Rightarrow> string \<Rightarrow> bbv_function \<Rightarrow> 'a bbv_tool_scheme \<Rightarrow> 'a bbv_tool_scheme res"
where
  "bbv_first_load rows opt name f t =
     rbind (bbv_calls opt f) (\<lambda>calls.
       Inr (alloc_vectors (rows (tot_units t))
         (t\<lparr>bbv_inserted := bbv_inserted t @ calls,
            kbb_map := map_insert name (int_size (bf_blocks f)) (kbb_map t),
            basic_blocks := of_nat (length (bf_blocks f))\<rparr>)))"

definition bbv_enter ::
  "(u32 \<Rightarrow> u32) \<Rightarrow> bbv_options \<Rightarrow> string \<Rightarrow> u32 \<Rightarrow> 'a bbv_tool_scheme \<Rightarrow> 'a bbv_tool_scheme"
where
  "bbv_enter rows opt name units t =
     (let t = t\<lparr>tot_units := units, bbv := (if bbv_first t then bbv t else []), bbv_first := False,
                bbv_instrumented := bbv_kernel_id t \<ge> bbv_begin opt \<and> bbv_kernel_id t < bbv_end opt,
                bbv_counter := 0\<rparr> in
      case map_of (kbb_map t) name of
        None \<Rightarrow> t
      | Some n \<Rightarrow> alloc_vectors (rows units) (t\<lparr>basic_blocks := word_of_int n\<rparr>))"

text \<open>The lines of the vectors; \<open>scale\<close> is what a number is multiplied with.\<close>

definition vector_entry :: "(nat \<Rightarrow> int res) \<Rightarrow> 'a bbv_tool_scheme \<Rightarrow> nat \<Rightarrow> nat \<Rightarrow> string res" where
  "vector_entry scale t i j =
     rbind (nth_res (bbv t) (unat (of_nat i * basic_blocks t + of_nat j))) (\<lambda>n.
     rbind (scale j) (\<lambda>s.
       guard (- (2 ^ 31) \<le> sint n * s \<and> sint n * s < 2 ^ 31) Undefined_Behaviour (Inr (to_string (sint n * s) @ '' ''))))"

definition vector_line :: "(nat \<Rightarrow> int res) \<Rightarrow> 'a bbv_tool_scheme \<Rightarrow> nat \<Rightarrow> string res" where
  "vector_line scale t i =
     rbind (foldM (\<lambda>j out. rbind (vector_entry scale t i j) (\<lambda>s. Inr (out @ s))) [0..<unat (basic_blocks t)] [])
       (\<lambda>out. Inr (out @ [newline]))"

definition vector_lines :: "(nat \<Rightarrow> int res) \<Rightarrow> u32 \<Rightarrow> 'a bbv_tool_scheme \<Rightarrow> string res" where
  "vector_lines scale rows t =
     foldM (\<lambda>i out. rbind (vector_line scale t i) (\<lambda>s. Inr (out @ s))) [0..<unat rows] []"

section \<open>One vector per warp\<close>

definition new_bbv_tool :: bbv_tool where
  "new_bbv_tool =
     \<lparr>bbv_kernel_id = 0, bbv_first = True, tot_units = 0, basic_blocks = 0, kbb_map = [], bbv = [], bbv_counter = 0,
      bbv_instrumented = False, bbv_inserted = [], bb_files = []\<rparr>"

definition bb_log :: string where
  "bb_log = ''bb_log.txt''"

text \<open>\<open>get_global_warp_id\<close>: a block has as many warps as are needed for its threads.\<close>

definition get_global_warp_id :: "u32 \<times> u32 \<times> u32 \<Rightarrow> warp_state \<Rightarrow> u32" where
  "get_global_warp_id grid w =
     (case (grid, block_idx w, block_dim w) of ((gx, gy, gz), (x, y, z), (dx, dy, dz)) \<Rightarrow>
        let block_id = x + y * gx + gx * gy * z;
            l_warp_id = word_of_int (sint (unique_thread_id w) sdiv 32);
            n_warps = (dx * dy * dz + 32 - 1) div 32 in
        block_id * n_warps + l_warp_id)"

definition warp_count :: "u32 \<times> u32 \<times> u32 \<Rightarrow> warp_state \<times> u32 \<Rightarrow> bbv_tool \<Rightarrow> bbv_tool res" where
  "warp_count grid = (\<lambda>(w, bb) t.
     bbv_add False (get_global_warp_id grid w * basic_blocks t + bb) (lanes_of (lanes_active w)) t)"

definition warp_rows :: "u32 \<Rightarrow> u32" where
  "warp_rows threads = threads div 32"

definition warp_enter :: "bbv_options \<Rightarrow> launch \<Rightarrow> bbv_tool \<Rightarrow> bbv_tool" where
  "warp_enter opt l t =
     (case (gridDim l, blockDim l) of ((gx, gy, gz), (bx, by, bz)) \<Rightarrow>
        bbv_enter warp_rows opt (func_name l) (gx * gy * bx * by)
          (if bbv_first t then t\<lparr>bb_files := map_put bb_log [] (bb_files t)\<rparr> else t))"

definition warp_exit :: "string \<Rightarrow> bbv_tool \<Rightarrow> bbv_tool res" where
  "warp_exit name t =
     rbind (vector_lines (\<lambda>_. Inr 1) (warp_rows (tot_units t)) t) (\<lambda>out.
       let old = (case map_of (bb_files t) bb_log of None \<Rightarrow> [] | Some s \<Rightarrow> s) in
       Inr (t\<lparr>bb_files := map_put bb_log
         (old @ name @ [newline] @ to_string (sint (warp_rows (tot_units t))) @ [newline] @
          to_string (sint (basic_blocks t)) @ [newline] @ out) (bb_files t)\<rparr>))"

text \<open>A launch: the function is loaded when its name is not known, the warps of the kernel make their
  calls if the function is instrumented.\<close>

definition warp_launch ::
  "bbv_options \<Rightarrow> (string \<Rightarrow> bbv_function) \<Rightarrow> launch \<times> (warp_state \<times> u32) list \<Rightarrow> bbv_tool \<Rightarrow> bbv_tool res"
where
  "warp_launch opt fun_of = (\<lambda>(l, calls) t.
     let name = func_name l; t = warp_enter opt l t in
     rbind (if map_of (kbb_map t) name = None then bbv_first_load warp_rows opt name (fun_of name) t else Inr t) (\<lambda>t.
     rbind (if bbv_instrumented t then foldM (warp_count (gridDim l)) calls t else Inr t) (\<lambda>t.
       warp_exit name t)))"

section \<open>One vector per thread block\<close>

record bbv_tb_tool = bbv_tool +
  bbv_kid :: u32
  kbb_insns :: "(string, int list) std_map"










section \<open>Tables\<close>

lemma int_size: "length xs < 2 ^ 31 \<Longrightarrow> int_size xs = int (length xs)"
  by (simp add: int_size_def signed_of_nat signed_take_bit_int_eq_self)

text \<open>A table of \<open>R\<close> lines of \<open>B\<close> numbers.\<close>

definition table_text :: "nat \<Rightarrow> nat \<Rightarrow> (nat \<Rightarrow> nat \<Rightarrow> int) \<Rightarrow> string" where
  "table_text R B g =
     concat (map (\<lambda>i. concat (map (\<lambda>j. to_string (g i j) @ '' '') [0..<B]) @ [newline]) [0..<R])"

lemma table_text_cong:
  assumes "\<And>i j. i < R \<Longrightarrow> j < B \<Longrightarrow> g i j = h i j"
  shows "table_text R B g = table_text R B h"
proof -
  have "concat (map (\<lambda>j. to_string (g i j) @ '' '') [0..<B]) = concat (map (\<lambda>j. to_string (h i j) @ '' '') [0..<B])"
    if "i < R" for i
    using assms [OF that] by (intro arg_cong [where f = concat] map_cong) simp_all
  then show ?thesis unfolding table_text_def by (intro arg_cong [where f = concat] map_cong) simp_all
qed

lemma foldM_texts:
  assumes "\<And>x. x \<in> set xs \<Longrightarrow> g x = Inr (h x)"
  shows "foldM (\<lambda>x out. rbind (g x) (\<lambda>s. Inr (out @ s))) xs out = Inr (out @ concat (map h xs))"
  using assms by (induction xs arbitrary: out) simp_all

lemma cell_index:
  assumes "(i :: nat) < R" "j < B"
  shows "i * B + j < R * B"
proof -
  have "i * B + j < Suc i * B" using assms(2) by simp
  also have "Suc i * B \<le> R * B" using assms(1) by (intro mult_le_mono1) simp
  finally show ?thesis .
qed

lemma cell_unique:
  assumes "(b :: nat) < B" "j < B"
  shows "a * B + b = i * B + j \<longleftrightarrow> a = i \<and> b = j"
proof
  assume eq: "a * B + b = i * B + j"
  have "(a * B + b) div B = a" "(i * B + j) div B = i" using assms by simp_all
  with eq show "a = i \<and> b = j" by simp
qed simp

lemma word_cell:
  assumes "unat (i :: u32) < R" "unat (j :: u32) < unat B" "R * unat B < 2 ^ 32"
  shows "unat (i * B + j) = unat i * unat B + unat j"
proof -
  have "unat i * unat B + unat j < 2 ^ 32" using cell_index [OF assms(1,2)] assms(3) by linarith
  moreover have "i * B + j = of_nat (unat i * unat B + unat j)" by simp
  ultimately show ?thesis by (simp only:) (simp only: unat_of_nat, simp)
qed

lemma vector_lines_text:
  assumes "length (bbv t) = R * B" "unat rows = R" "basic_blocks t = of_nat B" "R * B < 2 ^ 32" "B < 2 ^ 32"
    and "\<And>j. j < B \<Longrightarrow> scale j = Inr (f j)"
    and "\<And>i j. i < R \<Longrightarrow> j < B \<Longrightarrow>
      - (2 ^ 31) \<le> sint (bbv t ! (i * B + j)) * f j \<and> sint (bbv t ! (i * B + j)) * f j < 2 ^ 31"
  shows "vector_lines scale rows t = Inr (table_text R B (\<lambda>i j. sint (bbv t ! (i * B + j)) * f j))"
proof -
  have B: "unat (basic_blocks t) = B" using assms(3,5) by (simp add: unat_of_nat)
  have entry: "vector_entry scale t i j = Inr (to_string (sint (bbv t ! (i * B + j)) * f j) @ '' '')" if "i < R" "j < B" for i j
  proof -
    have "R < 2 ^ 32" using assms(2) unsigned_less [of rows, where 'a = nat] by simp
    then have ij: "unat (of_nat i :: u32) = i" "unat (of_nat j :: u32) = j"
      using that assms(5) by (simp_all add: unat_of_nat)
    have "unat (of_nat i * basic_blocks t + of_nat j) = i * B + j"
      using word_cell [of "of_nat i" R "of_nat j" "basic_blocks t"] that assms(4) B ij by simp
    moreover have "i * B + j < length (bbv t)" using cell_index [OF that] assms(1) by simp
    ultimately show ?thesis using assms(6) assms(7) [OF that] that by (simp add: vector_entry_def guard_def)
  qed
  have line: "vector_line scale t i =
      Inr (concat (map (\<lambda>j. to_string (sint (bbv t ! (i * B + j)) * f j) @ '' '') [0..<B]) @ [newline])" if "i < R" for i
    using foldM_texts [OF entry [OF that], of "[0..<B]" "\<lambda>j. j" "[]"] by (simp add: vector_line_def B)
  have "foldM (\<lambda>i out. rbind (vector_line scale t i) (\<lambda>s. Inr (out @ s))) [0..<R] [] =
      Inr ([] @ table_text R B (\<lambda>i j. sint (bbv t ! (i * B + j)) * f j))"
    unfolding table_text_def by (rule foldM_texts) (simp add: line)
  then show ?thesis by (simp add: vector_lines_def assms(2))
qed

section \<open>Counting\<close>

text \<open>How many threads entered basic block \<open>j\<close> in the calls of the warps of row \<open>i\<close>.\<close>

definition entered :: "(warp_state \<Rightarrow> nat) \<Rightarrow> (warp_state \<times> u32) list \<Rightarrow> nat \<Rightarrow> nat \<Rightarrow> int" where
  "entered row_of calls i j =
     (\<Sum>(w, k)\<leftarrow>calls. if row_of w = i \<and> unat k = j then int (lanes_of (lanes_active w)) else 0)"


lemma sint_add_nat:
  assumes "0 \<le> sint (x :: u32)" "sint x + int n < 2 ^ 31"
  shows "sint (x + of_nat n) = sint x + int n"
proof -
  have "x + of_nat n = word_of_int (sint x + int n)" by simp
  also have "sint \<dots> = sint x + int n"
    using assms by (simp only: sint_sbintrunc') (simp add: signed_take_bit_int_eq_self)
  finally show ?thesis .
qed

text \<open>Additions to the table, as long as no cell comes to $2^{31}$.\<close>

lemma counts_run:
  assumes step: "\<And>c t. count c t = bbv_add atomic (idx (basic_blocks t) c) (num c) t"
    and "\<And>c. c \<in> set cs \<Longrightarrow> unat (idx (basic_blocks t) c) < length (bbv t)"
    and "\<And>k. k < length (bbv t) \<Longrightarrow> 0 \<le> sint (bbv t ! k) \<and>
      sint (bbv t ! k) + (\<Sum>c\<leftarrow>cs. if unat (idx (basic_blocks t) c) = k then int (num c) else 0) < 2 ^ 31"
  shows "\<exists>v. foldM count cs t = Inr (t\<lparr>bbv := v\<rparr>) \<and> length v = length (bbv t) \<and>
    (\<forall>k<length v. sint (v ! k) =
       sint (bbv t ! k) + (\<Sum>c\<leftarrow>cs. if unat (idx (basic_blocks t) c) = k then int (num c) else 0))"
  using assms(2,3)
proof (induction cs arbitrary: t)
  case Nil
  then show ?case by (intro exI [of _ "bbv t"]) simp
next
  case (Cons c cs)
  let ?i = "unat (idx (basic_blocks t) c)"
  let ?t = "t\<lparr>bbv := (bbv t)[?i := bbv t ! ?i + of_nat (num c)]\<rparr>"
  let ?sum = "\<lambda>k. \<Sum>c\<leftarrow>cs. if unat (idx (basic_blocks t) c) = k then int (num c) else 0"
  have i: "?i < length (bbv t)" using Cons.prems(1) by simp
  have sum: "0 \<le> ?sum k" for k by (intro sum_list_nonneg) auto
  have cell: "0 \<le> sint (bbv t ! ?i)" "sint (bbv t ! ?i) + int (num c) + ?sum ?i < 2 ^ 31"
    using Cons.prems(2) [OF i] by simp_all
  then have small: "sint (bbv t ! ?i) + int (num c) < 2 ^ 31" using sum [of ?i] by linarith
  have new: "sint (bbv ?t ! k) = sint (bbv t ! k) + (if ?i = k then int (num c) else 0)" if "k < length (bbv t)" for k
    using that sint_add_nat [OF cell(1) small] by (auto simp: nth_list_update)
  have "count c t = Inr ?t" using step i small by (simp add: bbv_add_def)
  moreover have "\<exists>v. foldM count cs ?t = Inr (?t\<lparr>bbv := v\<rparr>) \<and> length v = length (bbv ?t) \<and>
    (\<forall>k<length v. sint (v ! k) =
       sint (bbv ?t ! k) + (\<Sum>c\<leftarrow>cs. if unat (idx (basic_blocks ?t) c) = k then int (num c) else 0))"
  proof (rule Cons.IH)
    fix k assume "k < length (bbv ?t)"
    then have k: "k < length (bbv t)" by simp
    from new [OF k] Cons.prems(2) [OF k] sum [of k] show "0 \<le> sint (bbv ?t ! k) \<and> sint (bbv ?t ! k) +
        (\<Sum>c\<leftarrow>cs. if unat (idx (basic_blocks ?t) c) = k then int (num c) else 0) < 2 ^ 31"
      by (auto simp: add.assoc split: if_splits)
  qed (use Cons.prems(1) in simp)
  then obtain v where v: "foldM count cs ?t = Inr (?t\<lparr>bbv := v\<rparr>)" "length v = length (bbv t)"
    "\<And>k. k < length (bbv t) \<Longrightarrow> sint (v ! k) = sint (bbv ?t ! k) + ?sum k" by auto
  have "sint (v ! k) = sint (bbv t ! k) +
      (\<Sum>c\<leftarrow>c # cs. if unat (idx (basic_blocks t) c) = k then int (num c) else 0)" if "k < length (bbv t)" for k
    using v(3) [OF that] new [OF that] by (simp add: add.assoc)
  ultimately show ?case using v(1,2) by (intro exI [of _ v]) simp
qed

lemma counted_cells:
  assumes step: "\<And>c t. count c t = bbv_add atomic (word_row (fst c) * basic_blocks t + snd c) (lanes_of (lanes_active (fst c))) t"
    and t: "bbv t = replicate (R * B) 0" "basic_blocks t = of_nat B" "R * B < 2 ^ 32" "B < 2 ^ 32"
    and calls: "\<And>w k. (w, k) \<in> set calls \<Longrightarrow> unat (word_row w) < R \<and> unat k < B"
    and small: "\<And>i j. i < R \<Longrightarrow> j < B \<Longrightarrow> entered (\<lambda>w. unat (word_row w)) calls i j < 2 ^ 31"
  shows "\<exists>v. foldM count calls t = Inr (t\<lparr>bbv := v\<rparr>) \<and> length v = R * B \<and>
    (\<forall>i<R. \<forall>j<B. sint (v ! (i * B + j)) = entered (\<lambda>w. unat (word_row w)) calls i j)"
proof -
  have B: "unat (basic_blocks t) = B" using t(2,4) by (simp add: unat_of_nat)
  have idx: "unat (word_row w * basic_blocks t + k) = unat (word_row w) * B + unat k" if "(w, k) \<in> set calls" for w k
    using word_cell [of "word_row w" R k "basic_blocks t"] calls [OF that] B t(3) by simp
  let ?sum = "\<lambda>k. \<Sum>c\<leftarrow>calls. if unat (word_row (fst c) * basic_blocks t + snd c) = k
      then int (lanes_of (lanes_active (fst c))) else 0"
  have sum: "?sum (i * B + j) = entered (\<lambda>w. unat (word_row w)) calls i j" if ij: "i < R" "j < B" for i j
  proof -
    have "(unat (word_row w * basic_blocks t + k) = i * B + j) = (unat (word_row w) = i \<and> unat k = j)"
      if "(w, k) \<in> set calls" for w k
      using idx [OF that] calls [OF that] cell_unique ij(2) by simp
    then show ?thesis unfolding entered_def by (intro arg_cong [where f = sum_list] map_cong) auto
  qed
  have "\<exists>v. foldM count calls t = Inr (t\<lparr>bbv := v\<rparr>) \<and> length v = length (bbv t) \<and>
      (\<forall>k<length v. sint (v ! k) = sint (bbv t ! k) + ?sum k)"
  proof (rule counts_run [OF step])
    fix c assume c: "c \<in> set calls"
    obtain w k where "c = (w, k)" by (cases c)
    with c idx calls cell_index show "unat (word_row (fst c) * basic_blocks t + snd c) < length (bbv t)"
      by (simp add: t(1))
  next
    fix k assume "k < length (bbv t)"
    then have k: "k < R * B" by (simp add: t(1))
    then have "k div B < R" "k mod B < B" "k = k div B * B + k mod B"
      by (auto simp: less_mult_imp_div_less intro!: mod_less_divisor gr_zeroI)
    with sum [of "k div B" "k mod B"] small [of "k div B" "k mod B"] k
    show "0 \<le> sint (bbv t ! k) \<and> sint (bbv t ! k) + ?sum k < 2 ^ 31"
      by (simp add: t(1))
  qed
  then obtain v where "foldM count calls t = Inr (t\<lparr>bbv := v\<rparr>)" "length v = R * B"
    "\<And>k. k < R * B \<Longrightarrow> sint (v ! k) = ?sum k"
    by (auto simp: t(1))
  with sum cell_index show ?thesis by (intro exI [of _ v]) simp
qed

section \<open>Launches\<close>

abbreviation blocks_of :: "(string \<Rightarrow> bbv_function) \<Rightarrow> string \<Rightarrow> nat" where
  "blocks_of fun_of name \<equiv> length (bf_blocks (fun_of name))"

text \<open>Only kernel 0 counts for the interval, and every kernel has that number.\<close>

definition counts_kernels :: "bbv_options \<Rightarrow> bool" where
  "counts_kernels opt \<longleftrightarrow> bbv_begin opt = 0 \<and> bbv_end opt \<noteq> 0"





definition tb_known :: "(string \<Rightarrow> bbv_function) \<Rightarrow> bbv_tb_tool \<Rightarrow> bool" where
  "tb_known fun_of t \<longleftrightarrow>
     bbv_kernel_id t = 0 \<and> wf_map (kbb_map t) \<and> wf_map (kbb_insns t) \<and>
     (\<forall>name. map_of (kbb_map t) name \<noteq> None \<longrightarrow>
        map_of (kbb_map t) name = Some (int_size (bf_blocks (fun_of name))) \<and>
        map_of (kbb_insns t) name = Some (map int_size (bf_blocks (fun_of name)))) \<and>
     (\<forall>name. map_of (kbb_map t) name = None \<longrightarrow> map_of (kbb_insns t) name = None)"

lemma counts_kernels_interval: "counts_kernels opt \<longleftrightarrow> bbv_begin opt = 0 \<and> 0 < bbv_end opt"
  by (auto simp: counts_kernels_def word_gt_0)




lemma tb_known_update [simp]:
  "tb_known fun_of (t\<lparr>bbv := v\<rparr>) = tb_known fun_of t"
  "tb_known fun_of (t\<lparr>bb_files := fs, bbv_kid := k\<rparr>) = tb_known fun_of t"
  by (simp_all add: tb_known_def)




section \<open>The vectors of warps\<close>

definition warp_log :: "(string \<Rightarrow> bbv_function) \<Rightarrow> launch \<times> (warp_state \<times> u32) list \<Rightarrow> nat \<Rightarrow> string" where
  "warp_log fun_of = (\<lambda>(l, calls) R.
     func_name l @ [newline] @ to_string (int R) @ [newline] @ to_string (int (blocks_of fun_of (func_name l))) @ [newline] @
     table_text R (blocks_of fun_of (func_name l)) (entered (\<lambda>w. unat (get_global_warp_id (gridDim l) w)) calls))"

text \<open>The first launch of a program, every warp having a vector.\<close>

lemma first_launch_vectors:
  assumes l: "gridDim l = (gx, gy, gz)" "blockDim l = (bx, by, bz)" "counts_kernels opt"
    and R: "R = unat (warp_rows (gx * gy * bx * by))"
    and f: "\<forall>bb \<in> set (bf_blocks (fun_of (func_name l))). bb \<noteq> []" "blocks_of fun_of (func_name l) < 2 ^ 31"
    and small: "R * blocks_of fun_of (func_name l) < 2 ^ 32"
    and calls: "\<And>w k. (w, k) \<in> set calls \<Longrightarrow>
      unat (get_global_warp_id (gridDim l) w) < R \<and> unat k < blocks_of fun_of (func_name l)"
    and below: "\<And>i j. i < R \<Longrightarrow> j < blocks_of fun_of (func_name l) \<Longrightarrow>
      entered (\<lambda>w. unat (get_global_warp_id (gridDim l) w)) calls i j < 2 ^ 31"
  shows "\<exists>t. warp_launch opt fun_of (l, calls) new_bbv_tool = Inr t \<and> bb_files t = [(bb_log, warp_log fun_of (l, calls) R)]"
proof -
  define f where "f = bf_blocks (fun_of (func_name l))"
  define rows where "rows = warp_rows (gx * gy * bx * by)"
  obtain cs where cs: "bbv_calls opt (fun_of (func_name l)) = Inr cs" using f(1) by (simp add: bbv_calls_def)
  define t1 where "t1 = alloc_vectors rows (warp_enter opt l new_bbv_tool
    \<lparr>bbv_inserted := cs, kbb_map := [(func_name l, int_size f)], basic_blocks := of_nat (length f)\<rparr>)"
  have load: "bbv_first_load warp_rows opt (func_name l) (fun_of (func_name l)) (warp_enter opt l new_bbv_tool) = Inr t1"
    by (simp add: bbv_first_load_def cs t1_def rows_def warp_enter_def l bbv_enter_def new_bbv_tool_def map_insert_def f_def)
  have fields: "basic_blocks t1 = of_nat (length f)" "tot_units t1 = gx * gy * bx * by" "bbv_instrumented t1"
    "bb_files t1 = [(bb_log, [])]"
    using l(3) by (simp_all add: t1_def alloc_vectors_def warp_enter_def l bbv_enter_def new_bbv_tool_def counts_kernels_interval)
  have "rows * of_nat (length f) = of_nat (R * length f)" by (simp add: R rows_def)
  then have "unat (rows * of_nat (length f)) = R * length f" using small by (simp only: unat_of_nat) (simp add: f_def)
  then have zeros: "bbv t1 = replicate (R * length f) 0" by (simp add: t1_def alloc_vectors_def)
  have step: "warp_count (gridDim l) c t =
      bbv_add False (get_global_warp_id (gridDim l) (fst c) * basic_blocks t + snd c) (lanes_of (lanes_active (fst c))) t" for c t
    by (simp add: warp_count_def split_beta)
  have B: "length f < 2 ^ 32" "R * length f < 2 ^ 32" using f(2) small by (simp_all add: f_def)
  obtain v where v: "foldM (warp_count (gridDim l)) calls t1 = Inr (t1\<lparr>bbv := v\<rparr>)" "length v = R * length f"
    "\<forall>i<R. \<forall>j<length f. sint (v ! (i * length f + j)) = entered (\<lambda>w. unat (get_global_warp_id (gridDim l) w)) calls i j"
    using counted_cells [OF step zeros fields(1) B(2,1) calls [folded f_def] below [folded f_def]] by blast
  have entry: "- (2 ^ 31) \<le> sint (v ! (i * length f + j)) * 1 \<and> sint (v ! (i * length f + j)) * 1 < 2 ^ 31" for i j
    using sint_range_size [of "v ! (i * length f + j)"] by (simp add: word_size)
  have "vector_lines (\<lambda>_. Inr 1) rows (t1\<lparr>bbv := v\<rparr>) =
      Inr (table_text R (length f) (\<lambda>i j. sint (v ! (i * length f + j)) * 1))"
    using vector_lines_text [of "t1\<lparr>bbv := v\<rparr>" R "length f" rows "\<lambda>_. Inr 1" "\<lambda>_. 1"] v(2) fields(1) B entry
    by (simp add: R rows_def)
  also have "table_text R (length f) (\<lambda>i j. sint (v ! (i * length f + j)) * 1) =
      table_text R (length f) (entered (\<lambda>w. unat (get_global_warp_id (gridDim l) w)) calls)"
    by (rule table_text_cong) (simp add: v(3))
  finally have lines: "vector_lines (\<lambda>_. Inr 1) rows (t1\<lparr>bbv := v\<rparr>) = Inr \<dots>" .
  have "R = unat (gx * gy * bx * by) div 32" by (simp add: R warp_rows_def unat_div_distrib)
  then have "R < 2 ^ 31" using unsigned_less [of "gx * gy * bx * by", where 'a = nat] by simp
  moreover have "rows = of_nat R" by (simp add: R rows_def)
  ultimately have shown: "sint rows = int R" "sint (of_nat (length f) :: u32) = int (length f)"
    using f(2) by (simp_all add: signed_of_nat signed_take_bit_int_eq_self f_def)
  have "map_of (kbb_map (warp_enter opt l new_bbv_tool)) (func_name l) = None"
    by (simp add: warp_enter_def l bbv_enter_def new_bbv_tool_def)
  then have "warp_launch opt fun_of (l, calls) new_bbv_tool = warp_exit (func_name l) (t1\<lparr>bbv := v\<rparr>)"
    by (simp only: warp_launch_def Let_def prod.case load rbind.simps fields(3) v(1) if_True simp_thms)
  then show ?thesis
    using lines shown fields
    by (simp add: warp_exit_def rows_def [symmetric] warp_log_def f_def [symmetric])
qed

section \<open>Numbers that do not fit\<close>

theorem count_wraps:
  "bbv_add True 0 1 (new_bbv_tool\<lparr>bbv := [0x7FFFFFFF]\<rparr>) = Inr (new_bbv_tool\<lparr>bbv := [0x80000000]\<rparr>)"
  by (simp add: bbv_add_def new_bbv_tool_def)

theorem product_overflows:
  "vector_entry (nth_res [2]) (new_bbv_tool\<lparr>bbv := [0x40000000], basic_blocks := 1\<rparr>) 0 0 = Inl Undefined_Behaviour"
  by code_simp

section \<open>Examples\<close>

definition two_blocks :: bbv_function where
  "two_blocks = \<lparr>bf_blocks = [[ldgsts_instr, ldgsts_instr], [exit_instr]], bf_instrs = []\<rparr>"

definition all_kernels :: bbv_options where
  "all_kernels = \<lparr>bbv_begin = 0, bbv_end = u32_max, bbv_level = 1, bbv_exclude_pred_off = False\<rparr>"




text \<open>With blocks of 48 threads there are four warps and memory for three: the last one writes behind it.\<close>

definition partial_warps :: "launch \<times> (warp_state \<times> u32) list" where
  "partial_warps =
     ((sample_launch ''gemm'')\<lparr>gridDim := (2, 1, 1), blockDim := (48, 1, 1)\<rparr>,
      [(one_lane\<lparr>block_dim := (48, 1, 1), block_idx := (1, 0, 0), thread_idx := (32, 0, 0)\<rparr>, 0)])"

theorem partial_warps_overrun:
  "warp_launch all_kernels (\<lambda>_. two_blocks) partial_warps new_bbv_tool = Inl Undefined_Behaviour"
proof -
  have id: "get_global_warp_id (2, 1, 1) (one_lane\<lparr>block_dim := (48, 1, 1), block_idx := (1, 0, 0), thread_idx := (32, 0, 0)\<rparr>) = 3"
    by code_simp
  show ?thesis
    by (simp add: warp_launch_def Let_def partial_warps_def sample_launch_def warp_enter_def bbv_enter_def new_bbv_tool_def
        bbv_first_load_def bbv_calls_def two_blocks_def all_kernels_def alloc_vectors_def warp_rows_def warp_count_def
        bbv_add_def id)
qed

end
