(* ===== verification/Occupancy_Tool.thy ===== *)
theory Occupancy_Tool
  imports Kernel_Selection
begin

text \<open>
  The occupancy tool (\<^verbatim>\<open>others/occupancy_calc_tool\<close>): it asks the driver for every launch how many thread
  blocks of the kernel fit into a multiprocessor, and prints the number for a GPU of 80.  The answer of
  the driver is an argument; \<open>None\<close> is an error, which leaves the variable for the answer without a
  value: the macro around the call looks at the last error of the runtime, not at what the driver
  returned.  No error of the runtime is pending, and the mutex is held from the entry to the exit of
  a launch.
\<close>

record occupancy_tool =
  occ_skip_flag :: bool
  alternate :: bool
  occupancy_lines :: "(string \<times> int) list"

definition new_occupancy_tool :: occupancy_tool where
  "new_occupancy_tool = \<lparr>occ_skip_flag = False, alternate = False, occupancy_lines = []\<rparr>"

text \<open>The events come twice for a launch, \<open>alternate\<close> picks every second one.\<close>

definition occupancy_event ::
  "(string \<Rightarrow> int \<Rightarrow> u32 \<Rightarrow> int option) \<Rightarrow> launch option \<Rightarrow> occupancy_tool \<Rightarrow> occupancy_tool res"
where
  "occupancy_event max_active_blocks ev t =
     (if occ_skip_flag t then Inr t
      else
        case ev of
          None \<Rightarrow> Inr t
        | Some l \<Rightarrow>
            if alternate t then
              (case blockDim l of (x, y, z) \<Rightarrow>
                 (case max_active_blocks (func_name l) (sint (x * y * z)) (sharedMemBytes l) of
                    None \<Rightarrow> Inl Undefined_Behaviour
                  | Some blocks \<Rightarrow>
                      Inr (t\<lparr>alternate := False, occ_skip_flag := False,
                             occupancy_lines := occupancy_lines t @ [(func_name l, blocks * 80)]\<rparr>)))
            else Inr (t\<lparr>alternate := True\<rparr>))"

definition occupancy_run ::
  "(string \<Rightarrow> int \<Rightarrow> u32 \<Rightarrow> int option) \<Rightarrow> launch list \<Rightarrow> occupancy_tool \<Rightarrow> occupancy_tool res"
where
  "occupancy_run max_active_blocks ls =
     foldM (occupancy_event max_active_blocks) (concat (map (\<lambda>l. [Some l, Some l]) ls))"

text \<open>What the driver says of a launch.\<close>

definition blocks_per_sm :: "(string \<Rightarrow> int \<Rightarrow> u32 \<Rightarrow> int option) \<Rightarrow> launch \<Rightarrow> int option" where
  "blocks_per_sm max_active_blocks l =
     (case blockDim l of (x, y, z) \<Rightarrow> max_active_blocks (func_name l) (sint (x * y * z)) (sharedMemBytes l))"

text \<open>One line per launch, in order, at its exit, as long as the driver answers.\<close>

theorem occupancy_one_line_per_launch:
  "occupancy_run driver ls new_occupancy_tool =
     (if \<exists>l \<in> set ls. blocks_per_sm driver l = None then Inl Undefined_Behaviour
      else Inr (new_occupancy_tool\<lparr>occupancy_lines := map (\<lambda>l. (func_name l, the (blocks_per_sm driver l) * 80)) ls\<rparr>))"
proof -
  have "occupancy_run driver ls t =
      (if \<exists>l \<in> set ls. blocks_per_sm driver l = None then Inl Undefined_Behaviour
       else Inr (t\<lparr>occupancy_lines := occupancy_lines t @ map (\<lambda>l. (func_name l, the (blocks_per_sm driver l) * 80)) ls\<rparr>))"
    if "\<not> occ_skip_flag t" "\<not> alternate t" for t
    using that
  proof (induction ls arbitrary: t)
    case (Cons l ls)
    show ?case
    proof (cases "blocks_per_sm driver l")
      case None
      with Cons.prems show ?thesis
        by (simp add: occupancy_run_def occupancy_event_def blocks_per_sm_def split: prod.splits)
    next
      case (Some n)
      let ?t = "t\<lparr>occupancy_lines := occupancy_lines t @ [(func_name l, n * 80)]\<rparr>"
      have "occupancy_event driver (Some l) (t\<lparr>alternate := True\<rparr>) = Inr ?t"
        using Some Cons.prems by (cases t) (simp add: occupancy_event_def blocks_per_sm_def split: prod.splits)
      moreover have "occupancy_event driver (Some l) t = Inr (t\<lparr>alternate := True\<rparr>)"
        using Cons.prems by (simp add: occupancy_event_def)
      ultimately have "occupancy_run driver (l # ls) t = occupancy_run driver ls ?t"
        by (simp add: occupancy_run_def)
      with Cons.IH [of ?t] Cons.prems Some show ?thesis by simp
    qed
  qed (simp add: occupancy_run_def)
  from this [of new_occupancy_tool] show ?thesis by (simp add: new_occupancy_tool_def)
qed

end
