(* ===== verification/Spec2Isabelle.thy ===== *)
theory Spec2Isabelle
  imports Prelude Delay_Queue Mem_Fetch Cpp_Containers Mshr Cpp_String Config_Reader Cache_Config Tag_Array Crossbar
    Gpu_Env Data_Cache L1_Cache L2_Cache Mem_Config Dram Memory_Partition
    Kernel Trace_Reader Streaming_Multiprocessor Sm_Accounting Occupancy Gpu
    L1_Access Block_Distribution Command_Line Worker_Pool
    Trace_Grouping Trace_List Address_Compression Inst_Format Trace_Channel Kernel_Selection
    Instrumentation Spinlock_Histogram Spinlock_Tool Kernel_Setup
    Dram_Flow Partition_Flow Config_Format Trace_Pipeline
    Warp_Progress Kernel_Run
    Checkpoint_Tool Bbv_Tool Occupancy_Tool
begin

text \<open>
  GAN-Swift-Sim: a trace-driven simulator of GPUs, and the tracer that produces its traces.

  \<^bold>\<open>The program.\<close>  \<^verbatim>\<open>src/tracer_nvbit/tracer_tool\<close> runs with a CUDA program.  It chooses which launches to
  trace, instruments their functions so that every warp reports each instruction it executes, receives
  the reports in a thread of its own and writes one trace per kernel and the list of the traces; a
  post-processor regroups raw traces by thread block and warp.  \<^verbatim>\<open>others/spinlock_tool\<close> finds the
  instructions of spin loops, whose repetitions the tracer may drop.  \<^verbatim>\<open>src/gan-swift-sim\<close> reads the
  configuration, the instructions of a kernel and its memory accesses, and simulates it cycle by cycle:
  multiprocessors issue the instructions of their warps, loads and stores go through the L1 cache, the
  interconnect and the L2 slices to the DRAM channels, and the replies wake the warps.  \<^verbatim>\<open>main.cpp\<close>
  simulates many kernels at once in a pool of threads.

  \<^bold>\<open>Conventions.\<close>  (\<open>Prelude\<close>) An operation that can stop the program returns \<open>'a res\<close>, the sum of
  \<open>sim_error\<close> and the result: a failed \<open>assert\<close>, \<open>abort\<close>, \<open>exit\<close>, an uncaught exception, or an
  access that C++ leaves undefined, are branches of the model.  \<open>rbind\<close> sequences, \<open>foldM\<close> is a loop
  over a list.  Unsigned members are words of their width (\<open>u8\<close>, \<open>u32\<close>, \<open>u64\<close>) and wrap; signed
  members whose overflow is undefined are \<open>int\<close>.  Classes are records, a derived class extends the
  record of its base, \<open>std::map\<close> is a sorted list of pairs (\<open>Cpp_Containers\<close>), \<open>std::string\<close> a list of
  characters (\<open>Cpp_String\<close>).  \<open>mem_fetch\<close> objects, which many queues share, live in a heap
  (\<open>Gpu_Env\<close>); a pointer is a number, and a use after \<open>delete\<close> is undefined behaviour.  Lemmas for
  evaluating and inverting outcomes are in \<open>res_simps\<close>, those on invariants in \<open>inv_intros\<close>.

  \<^bold>\<open>The simulator.\<close>
  \<^item> \<^verbatim>\<open>delayqueue.h\<close>: \<open>Delay_Queue\<close>.  The linked list with its bubbles is a list of options.  Locale
    \<open>bounded_queue\<close>, interpreted on the pipelines without bubbles.
  \<^item> \<^verbatim>\<open>mem_fetch.h/.cpp\<close>: \<open>Mem_Fetch\<close>, the request and the address decoder, loop by loop.
  \<^item> \<^verbatim>\<open>cache.h/.cpp\<close>: \<open>Mshr\<close> (locale \<open>miss_table\<close>), \<open>Cache_Config\<close> (geometry and set index),
    \<open>Tag_Array\<close> (the abstract object is the set of cached sectors), \<open>Data_Cache\<close> (base class),
    \<open>L1_Cache\<close> with the contract of a load in \<open>L1_Access\<close>, \<open>L2_Cache\<close>, \<open>Mem_Config\<close>,
    \<open>Memory_Partition\<close> with both DRAM models and the paths of the requests in \<open>Partition_Flow\<close>.
  \<^item> \<^verbatim>\<open>dram.h/.cpp\<close>: \<open>Dram\<close>; \<open>Dram_Flow\<close> shows that a channel is an exact delay line.
  \<^item> \<^verbatim>\<open>crossbar.h/.cpp\<close>: \<open>Crossbar\<close>, router, arbiter and the pair of networks (locale
    \<open>packet_network\<close>, interpreted for both): arbitration, conservation, no starvation.
  \<^item> \<^verbatim>\<open>config_reader.h/.cpp\<close>: \<open>Config_Reader\<close>, with what is read back from a written file in
    \<open>Config_Format\<close>.
  \<^item> \<^verbatim>\<open>kernel.h/.cpp\<close>, \<^verbatim>\<open>trace_reader.h/.cpp\<close>: \<open>Kernel\<close>, \<open>Trace_Reader\<close>, and the well-formedness of
    what they build in \<open>Kernel_Setup\<close>.
  \<^item> \<^verbatim>\<open>gpu.h/.cpp\<close>: \<open>Streaming_Multiprocessor\<close> (units, warps, load/store instructions, dependencies),
    \<open>Sm_Cycle\<close> (the whole cycle), \<open>Sm_Issue\<close> and \<open>Sm_Accounting\<close> (one completion per issued
    instruction, exact counters, the class a cycle is counted in), \<open>Occupancy\<close> (single precision), \<open>Gpu\<close>
    (construction, launch, loop), \<open>Block_Distribution\<close> (where the first blocks go).  \<open>Warp_Progress\<close>
    follows the warps of a kernel through every operation of a cycle, \<open>Kernel_Run\<close> through a whole
    simulation: when it returns, every instruction of the trace has been executed exactly once.
    Whether it returns depends on the configuration and the trace (a barrier that writes a register
    stops it, a scheduler that schedules nothing keeps it waiting), so nothing general is claimed.
  \<^item> \<^verbatim>\<open>main.cpp\<close>: \<open>Command_Line\<close>, \<open>Worker_Pool\<close>; the pool is an inductive step relation in which main
    and its threads interleave freely, one access to shared state per step.

  \<^bold>\<open>The tracer.\<close>
  \<^item> \<^verbatim>\<open>tracer_tool.cu\<close>, \<^verbatim>\<open>common.h\<close>, \<^verbatim>\<open>inject_funcs.cu\<close>: \<open>Kernel_Selection\<close> (ranges, launches, events),
    \<open>Instrumentation\<close> (inserted calls, numbering of opcodes, the injected function),
    \<open>Address_Compression\<close> and \<open>Inst_Format\<close> (the line of an instruction), \<open>Trace_Channel\<close> (the
    receiving thread; locale \<open>line_buffer\<close>), \<open>Trace_Pipeline\<close> (the trace of a kernel at the
    post-processor).
  \<^item> \<^verbatim>\<open>post-traces-processing.cpp\<close>: \<open>Trace_Grouping\<close>, \<open>Trace_List\<close>.
  \<^item> \<^verbatim>\<open>spinlock_tool\<close>: \<open>Spinlock_Histogram\<close>, \<open>Spinlock_Tool\<close>.
  \<^item> The other tools under \<^verbatim>\<open>others\<close>: \<open>Checkpoint_Tool\<close> (snapshots of the memory of the device, the abstract
    object is the history of allocations), \<open>Bbv_Tool\<close> (both counters of basic blocks; the logs are the
    exact counts of what the warps executed while these fit into an \<open>int\<close>), \<open>Occupancy_Tool\<close>.

  \<^bold>\<open>Bounds.\<close>  Loops of the code are structural recursions or functions with a termination proof.  Three
  may run forever and are \<open>partial_function (option)\<close>, whose \<open>None\<close> is not returning:
  \<open>section_loop\<close> and \<open>config_loop\<close>, which spin at the end of a file inside a section, and \<open>gpu_loop\<close>,
  which runs as long as a multiprocessor is active.  Two definitions have a counter.  \<open>fl_scaled\<close> gets
  150: a \<open>float\<close> of normal magnitude is at most 127 doublings or halvings away from the interval it
  scales into, and the exactness lemmas of \<open>Occupancy\<close> are proved with it.  \<open>launch_blocks\<close> gets the
  number of blocks of the kernel: every turn of the loop moves \<open>block_pointer\<close> forward and the loop
  ends where it reaches that number.

  \<^bold>\<open>Not modelled.\<close>  NVBit, the CUDA driver and the GPU (records and arguments stand for what they tell
  the tracer), and \<open>std::regex\<close> for the patterns users write; the processes that compress and
  decompress traces (the identity on lines); printing, progress and wall-clock times; destructors;
  code that is commented out, and members nobody reads.  \<open>group_per_core\<close> of the post-processor is
  declared without a body.  The directories with \<^verbatim>\<open>.bak_\<close> in their names hold an earlier
  copy of the tracer and a release of NVBit, of which only \<open>get_global_warp_id\<close> is modelled.
\<close>

section \<open>From the tracer to the post-processor\<close>

text \<open>C38. A traced kernel goes through the post-processor unchanged: for every stream of records of a kernel,
  the file the tracer writes (the header of the launch, then what the receiving thread writes at the
  kernel's marker) is copied by \<open>group_per_block\<close> line for line under the grouped name, with one empty
  line behind the last.  So the grouping the tracer does itself and the grouping the post-processor
  does for raw traces can follow each other.\<close>

theorem traced_kernel_stays_grouped:
  assumes "\<forall>r\<in>set rs. \<not> end_marker r \<and> \<not> isl (format_inst_line (options cfg) names r)" "end_marker m"
    and "enable_spinlock_fast_forward (options cfg) \<longrightarrow> indices \<noteq> None"
    and "\<forall>r\<in>set rs. CHR 0x0A \<notin> set (opcode_name names r)"
    and "CHR 0x0A \<notin> set (func_name l)" "CHR 0x0A \<notin> set (nvbit_version cfg)"
  shows "\<exists>st. receive_buffer (options cfg) names indices False (rs @ m # rest) idle_channel = Inr st \<and>
    group_per_block (\<lambda>_. lines_of (trace_header cfg k l @ results_file st)) (trace_name cfg ctx k) =
      Inr (Some (post_processed_name cfg ctx k, trace_header cfg k l @ results_file st @ [[]]))"
proof -
  let ?ps = "map (placed (options cfg) names) (kept_records (options cfg) indices rs)"
  have "set (kept_records (options cfg) indices rs) \<subseteq> set rs" by (rule kept_records_subset)
  with assms(1,4) placed_body [of "kept_records (options cfg) indices rs" "options cfg" names]
  have "\<forall>p\<in>set ?ps. body_line (snd (snd p))" by blast
  from post_processed_trace [OF this assms(5,6)] received_kernel [OF assms(1-3)] show ?thesis by simp
qed

theorem traced_kernel_stays_grouped_witness:
  "\<exists>st. receive_buffer sample_options [(7, ''LDGSTS.E.64'')] None False
      [sample_inst, sample_inst\<lparr>cta_id_x := -1\<rparr>] idle_channel = Inr st \<and>
    group_per_block (\<lambda>_. lines_of (trace_header second_only 3 (sample_launch ''gemm'') @ results_file st))
        (trace_name second_only 1 3) =
      Inr (Some (''kernel-3-ctx_0x1.traceg'', trace_header second_only 3 (sample_launch ''gemm'') @ results_file st @ [[]]))"
proof -
  have line: "\<not> isl (format_inst_line sample_options [(7, ''LDGSTS.E.64'')] sample_inst)" by (simp add: sample_line)
  have opt: "options second_only = sample_options" by (simp add: second_only_def sample_config_def)
  have name: "post_processed_name second_only 1 3 = ''kernel-3-ctx_0x1.traceg''" by code_simp
  from traced_kernel_stays_grouped [of "[sample_inst]" second_only "[(7, ''LDGSTS.E.64'')]" "sample_inst\<lparr>cta_id_x := -1\<rparr>"
      None "sample_launch ''gemm''" "[]" 3 1] line
  show ?thesis unfolding opt name
    by (simp add: sample_options_def sample_inst_def end_marker_def opcode_name_def sample_launch_def second_only_def sample_config_def)
qed

end
